(* ===== verification/Prelude.thy ===== *)
theory Prelude
  imports Main "HOL-Library.Word"
begin

unbundle bit_operations_syntax

text \<open>
  Shared vocabulary of the development: the machine integer types of the Rust
  sources, the outcomes a Rust computation can have besides returning, arithmetic
  on \<open>usize\<close> with its wrap-around written out, slices of byte arrays, and the generic
  lemmas on them that the component theories use.
\<close>

section \<open>Machine integers\<close>

type_synonym u8 = "8 word"
type_synonym u16 = "16 word"
type_synonym u32 = "32 word"
type_synonym u64 = "64 word"
type_synonym bytes = "8 word list"

section \<open>Outcomes\<close>

text \<open>
  A Rust function returns, or it panics (\<open>assert!\<close>, \<open>unwrap\<close>, an index out of range),
  or it never returns (a spin lock that is taken twice), or it leaves the language
  (a wild read, an invalid enum discriminant). The three failures are the values of
  \<open>fault\<close>; a computation is a value of \<open>fault + 'a\<close>, and a stateful one returns its new
  state inside the \<open>Inr\<close>.
\<close>

datatype fault = Panic | Hang | Undefined

type_synonym 'a result = "fault + 'a"

definition bindr :: "'a result \<Rightarrow> ('a \<Rightarrow> 'b result) \<Rightarrow> 'b result" where
  "bindr m f = (case m of Inl e \<Rightarrow> Inl e | Inr x \<Rightarrow> f x)"

definition check :: "bool \<Rightarrow> 'a result \<Rightarrow> 'a result" where
  "check b m = (if b then m else Inl Panic)"

section \<open>The collections of the development\<close>

named_theorems outcome_simps \<open>equations that run a computation\<close>
named_theorems slice_simps \<open>equations on byte slices\<close>
named_theorems unat_simps \<open>equations that move word arithmetic to nat\<close>

lemma bindr_Inr [simp, outcome_simps]: "bindr (Inr x) f = f x"
  by (simp add: bindr_def)

lemma bindr_Inl [simp, outcome_simps]: "bindr (Inl e) f = Inl e"
  by (simp add: bindr_def)

lemma check_True [simp, outcome_simps]: "check True m = m"
  by (simp add: check_def)

lemma check_False [simp, outcome_simps]: "check False m = Inl Panic"
  by (simp add: check_def)

lemma bindr_eq_Inr: "bindr m f = Inr y \<longleftrightarrow> (\<exists>x. m = Inr x \<and> f x = Inr y)"
  by (cases m) auto

lemma bindr_eq_Inl: "bindr m f = Inl e \<longleftrightarrow> m = Inl e \<or> (\<exists>x. m = Inr x \<and> f x = Inl e)"
  by (cases m) auto

lemma check_eq_Inr: "check b m = Inr y \<longleftrightarrow> b \<and> m = Inr y"
  by (simp add: check_def)

lemma bindr_assoc: "bindr (bindr m f) g = bindr m (\<lambda>x. bindr (f x) g)"
  by (cases m) auto

lemma bindr_cong [fundef_cong]:
  "m = m' \<Longrightarrow> (\<And>x. m' = Inr x \<Longrightarrow> f x = g x) \<Longrightarrow> bindr m f = bindr m' g"
  by (cases m') auto

lemma check_cong [fundef_cong]:
  "b = b' \<Longrightarrow> (b' \<Longrightarrow> m = m') \<Longrightarrow> check b m = check b' m'"
  by (simp add: check_def)

lemma bindrE:
  assumes "bindr m f = Inr y"
  obtains x where "m = Inr x" and "f x = Inr y"
  using assms by (auto simp: bindr_eq_Inr)

lemmas outcome_eqs = bindr_eq_Inr bindr_eq_Inl check_eq_Inr

section \<open>Arithmetic on usize\<close>

text \<open>
  Where a \<open>usize\<close> counts or indexes a Rust slice it is a \<open>nat\<close> below \<open>2 ^ 64\<close>, and the
  operations wrap as they do in the release profile the Makefile builds.
\<close>

abbreviation usize_range :: nat where
  "usize_range \<equiv> 18446744073709551616"

definition add_usize :: "nat \<Rightarrow> nat \<Rightarrow> nat" where
  "add_usize a b = (a + b) mod usize_range"

definition sub_usize :: "nat \<Rightarrow> nat \<Rightarrow> nat" where
  "sub_usize a b = (if b \<le> a then a - b else usize_range + a - b)"

definition mul_usize :: "nat \<Rightarrow> nat \<Rightarrow> nat" where
  "mul_usize a b = (a * b) mod usize_range"

lemma usize_range_eq: "usize_range = 2 ^ 64"
  by simp

lemma add_usize_exact [simp]: "a + b < usize_range \<Longrightarrow> add_usize a b = a + b"
  by (simp add: add_usize_def)

lemma sub_usize_exact [simp]: "b \<le> a \<Longrightarrow> sub_usize a b = a - b"
  by (simp add: sub_usize_def)

lemma mul_usize_exact [simp]: "a * b < usize_range \<Longrightarrow> mul_usize a b = a * b"
  by (simp add: mul_usize_def)

lemma unat_u64_less [simp]: "unat (w :: u64) < usize_range"
  using unsigned_less [of w, where ?'a = nat] by simp

section \<open>Words read as natural numbers\<close>

lemma unat_add_u64 [unat_simps]:
  "unat (a :: u64) + unat b < usize_range \<Longrightarrow> unat (a + b) = unat a + unat b"
  by (simp add: unat_word_ariths)

lemma unat_sub_u64 [unat_simps]: "(b :: u64) \<le> a \<Longrightarrow> unat (a - b) = unat a - unat b"
  by (rule unat_sub)

lemma unat_mult_u64 [unat_simps]:
  "unat (a :: u64) * unat b < usize_range \<Longrightarrow> unat (a * b) = unat a * unat b"
  by (simp add: unat_word_ariths)

lemma unat_of_nat_u64 [unat_simps]: "n < usize_range \<Longrightarrow> unat (of_nat n :: u64) = n"
  by (simp add: unat_of_nat take_bit_nat_eq_self)

lemma u64_eq_iff_unat: "(a :: u64) = b \<longleftrightarrow> unat a = unat b"
  by (rule word_unat_eq_iff)

section \<open>Slices of byte arrays\<close>

definition get_slice :: "nat \<Rightarrow> nat \<Rightarrow> 'a list \<Rightarrow> 'a list" where
  "get_slice off n xs = take n (drop off xs)"

definition put_slice :: "nat \<Rightarrow> 'a list \<Rightarrow> 'a list \<Rightarrow> 'a list" where
  "put_slice off ys xs = take off xs @ ys @ drop (off + length ys) xs"

lemma length_get_slice [simp, slice_simps]:
  "off + n \<le> length xs \<Longrightarrow> length (get_slice off n xs) = n"
  by (simp add: get_slice_def)

lemma length_put_slice [simp, slice_simps]:
  "off + length ys \<le> length xs \<Longrightarrow> length (put_slice off ys xs) = length xs"
  by (simp add: put_slice_def)

lemma nth_get_slice [slice_simps]:
  "off + n \<le> length xs \<Longrightarrow> i < n \<Longrightarrow> get_slice off n xs ! i = xs ! (off + i)"
  by (simp add: get_slice_def)

lemma nth_put_slice [slice_simps]:
  assumes "off + length ys \<le> length xs" and "i < length xs"
  shows "put_slice off ys xs ! i =
    (if off \<le> i \<and> i < off + length ys then ys ! (i - off) else xs ! i)"
  using assms by (auto simp: put_slice_def nth_append)

lemma get_put_slice_same [simp, slice_simps]:
  "off + length ys \<le> length xs \<Longrightarrow> n = length ys \<Longrightarrow> get_slice off n (put_slice off ys xs) = ys"
  by (simp add: get_slice_def put_slice_def)

lemma get_put_slice_disjoint [slice_simps]:
  assumes "off + length ys \<le> length xs" and "off' + n \<le> length xs"
    and "off' + n \<le> off \<or> off + length ys \<le> off'"
  shows "get_slice off' n (put_slice off ys xs) = get_slice off' n xs"
  using assms by (intro nth_equalityI) (auto simp: nth_get_slice nth_put_slice)

lemma put_get_slice_same [simp]:
  "off + n \<le> length xs \<Longrightarrow> put_slice off (get_slice off n xs) xs = xs"
  by (intro nth_equalityI) (auto simp: nth_get_slice nth_put_slice)

lemma get_slice_all [simp]: "length xs = n \<Longrightarrow> get_slice 0 n xs = xs"
  by (simp add: get_slice_def)

lemma put_slice_all [simp]: "length ys = length xs \<Longrightarrow> put_slice 0 ys xs = ys"
  by (simp add: put_slice_def)

end
