(* ===== verification/Address.thy ===== *)
theory Address
  imports Prelude
begin

unbundle bit_operations_syntax

text \<open>
  Addresses (\<open>kernel/src/mem/address.rs\<close>, \<open>kernel/src/mem/page/page_size.rs\<close> and the
  constants of \<open>kernel/src/mem/mod.rs\<close>): rounding to a page, the alignment test, the
  page table index of a virtual address, and the memory map. Addresses are \<open>usize\<close> on
  a 64-bit target, so they are 64-bit words and every operation wraps.
\<close>

section \<open>Constants\<close>

definition Size4KiB_SIZE :: u64 where
  "Size4KiB_SIZE = 4096"

definition Size2MiB_SIZE :: u64 where
  "Size2MiB_SIZE = Size4KiB_SIZE * 512"

definition Size1GiB_SIZE :: u64 where
  "Size1GiB_SIZE = Size2MiB_SIZE * 512"

definition PAGE_SIZE :: u64 where
  "PAGE_SIZE = Size4KiB_SIZE"

definition MAX_VA :: u64 where
  "MAX_VA = push_bit (9 + 9 + 9 + 12 - 1) 1"

definition PG_SHIFT :: nat where
  "PG_SHIFT = 12"

definition KERNEL_BASE :: u64 where
  "KERNEL_BASE = 0x80200000"

definition MEM_END :: u64 where
  "MEM_END = 0x80000000 + 1024 * 1024 * 128"

definition TRAMPOLINE :: u64 where
  "TRAMPOLINE = MAX_VA - PAGE_SIZE"

definition TRAPFRAME :: u64 where
  "TRAPFRAME = TRAMPOLINE - PAGE_SIZE"

definition VIRTIO_MMIO_BASE :: u64 where
  "VIRTIO_MMIO_BASE = 0x10001000"

definition VIRTIO_MMIO_LEN :: u64 where
  "VIRTIO_MMIO_LEN = 0x1000"

definition PLIC_BASE :: u64 where
  "PLIC_BASE = 0x0C000000"

section \<open>Rounding and indices\<close>

definition pg_round_up :: "u64 \<Rightarrow> u64 \<Rightarrow> u64" where
  "pg_round_up sz pg_size = (sz + pg_size - 1) AND NOT (pg_size - 1)"

definition pg_round_down :: "u64 \<Rightarrow> u64 \<Rightarrow> u64" where
  "pg_round_down a pg_size = a AND NOT (pg_size - 1)"

definition is_aligned :: "u64 \<Rightarrow> u64 \<Rightarrow> bool" where
  "is_aligned addr pg_size \<longleftrightarrow> pg_round_down addr pg_size = addr"

definition px :: "nat \<Rightarrow> u64 \<Rightarrow> u64" where
  "px level va = drop_bit (PG_SHIFT + 9 * level) va AND 0x1FF"

definition kernel_stack :: "u64 \<Rightarrow> u64" where
  "kernel_stack pid = TRAMPOLINE - (pid + 1) * 2 * PAGE_SIZE"

lemmas memory_map_defs = Size4KiB_SIZE_def Size2MiB_SIZE_def Size1GiB_SIZE_def PAGE_SIZE_def
  MAX_VA_def KERNEL_BASE_def MEM_END_def TRAMPOLINE_def TRAPFRAME_def
  VIRTIO_MMIO_BASE_def VIRTIO_MMIO_LEN_def PLIC_BASE_def

section \<open>Lemmas\<close>

lemma PAGE_SIZE_eq [simp]: "PAGE_SIZE = 4096"
  by (simp add: PAGE_SIZE_def Size4KiB_SIZE_def)

lemma MAX_VA_eq: "MAX_VA = 0x4000000000"
  by (simp add: MAX_VA_def)

lemma and_not_mask_u64: "(a :: u64) AND NOT (2 ^ k - 1) = push_bit k (drop_bit k a)"
proof (rule bit_word_eqI)
  fix n assume "n < LENGTH(64)"
  then show "bit (a AND NOT (2 ^ k - 1)) n = bit (push_bit k (drop_bit k a)) n"
    by (auto simp: bit_simps mask_eq_exp_minus_1 [symmetric])
qed

lemma unat_push_drop_u64: "unat (push_bit k (drop_bit k (a :: u64))) = unat a div 2 ^ k * 2 ^ k"
proof -
  have d: "unat (drop_bit k a) = unat a div 2 ^ k"
    by (simp add: unsigned_drop_bit_eq drop_bit_eq_div [where ?'a = nat] take_bit_nat_eq_self)
  have "unat a div 2 ^ k * 2 ^ k \<le> unat a" by simp
  also have "unat a < 2 ^ 64" using unat_u64_less [of a] by simp
  finally have "take_bit 64 (unat a div 2 ^ k * 2 ^ k) = unat a div 2 ^ k * 2 ^ k"
    by (simp add: take_bit_nat_eq_self)
  with d show ?thesis
    by (simp add: unsigned_push_bit_eq push_bit_eq_mult [where ?'a = nat])
qed

lemma unat_pg_round_down: "unat (pg_round_down a (2 ^ k)) = unat a div 2 ^ k * 2 ^ k"
  by (simp add: pg_round_down_def and_not_mask_u64 unat_push_drop_u64)

lemma unat_pg_round_down_page [unat_simps]:
  "unat (pg_round_down a 4096) = unat a div 4096 * 4096"
  using unat_pg_round_down [of a 12] by simp

lemma unat_pg_round_up:
  assumes "unat a + 2 ^ k \<le> usize_range" and "k < 64"
  shows "unat (pg_round_up a (2 ^ k)) = (unat a + 2 ^ k - 1) div 2 ^ k * 2 ^ k"
proof -
  have pk: "unat (2 ^ k :: u64) = 2 ^ k"
    using unat_of_nat_u64 [of "2 ^ k"] power_strict_increasing [OF assms(2), of "2::nat"] by simp
  have "unat (2 ^ k - 1 :: u64) = 2 ^ k - 1"
    using pk assms(2) by (subst unat_minus_one) auto
  moreover have "1 \<le> (2::nat) ^ k" by simp
  ultimately have "unat (a + (2 ^ k - 1)) = unat a + (2 ^ k - 1)"
    using assms(1) by (subst unat_add_u64) auto
  then have "unat (a + 2 ^ k - 1) = unat a + 2 ^ k - 1"
    by (simp add: algebra_simps)
  then show ?thesis
    by (simp add: pg_round_up_def and_not_mask_u64 unat_push_drop_u64)
qed

end
