(* ===== verification/Buddy.thy ===== *)
theory Buddy
  imports Address "HOL-Library.Multiset"
begin

text \<open>
  The buddy allocator of page frames
  (\<open>kernel/src/mem/allocator/buddy_allocator.rs\<close>): one free list per order, threaded
  through the free frames themselves. Memory is a map from addresses to the 64-bit words
  stored there, and a null pointer is the address 0, which is how Rust lays out
  \<open>Option<NonNull<FreeBlock>>\<close>. The specification is a multiset of free pages.
\<close>

unbundle bit_operations_syntax

section \<open>Integer operations of \<open>core\<close>\<close>

type_synonym memory = "u64 \<Rightarrow> u64"

definition trailing_zeros :: "u64 \<Rightarrow> nat" where
  "trailing_zeros w = length (takeWhile Not (map (bit w) [0..<64]))"

definition leading_zeros :: "u64 \<Rightarrow> nat" where
  "leading_zeros w = length (takeWhile Not (rev (map (bit w) [0..<64])))"

text \<open>\<open>next_power_of_two\<close> wraps to 0 above \<open>2 ^ 63\<close>.\<close>

definition next_power_of_two :: "u64 \<Rightarrow> u64" where
  "next_power_of_two n = (if n \<le> 1 then 1 else push_bit (64 - leading_zeros (n - 1)) 1)"

definition order :: "u64 \<Rightarrow> nat" where
  "order sz = trailing_zeros (next_power_of_two sz)"

section \<open>The allocator\<close>

definition MAX_ORDER :: nat where
  "MAX_ORDER = 16"

record buddy =
  ba_free_lists :: "u64 list"
  ba_start_addr :: u64
  ba_end_addr :: u64

definition buddy_new :: buddy where
  "buddy_new = \<lparr>ba_free_lists = replicate MAX_ORDER 0, ba_start_addr = 0, ba_end_addr = 0\<rparr>"

abbreviation free_list :: "buddy \<Rightarrow> nat \<Rightarrow> u64" where
  "free_list ba k \<equiv> ba_free_lists ba ! k"

definition set_free_list :: "nat \<Rightarrow> u64 \<Rightarrow> buddy \<Rightarrow> buddy" where
  "set_free_list ord p ba = ba\<lparr>ba_free_lists := (ba_free_lists ba)[ord := p]\<rparr>"

text \<open>The two assignments that put a block at the front of a free list.\<close>

definition push_block :: "nat \<Rightarrow> u64 \<Rightarrow> buddy \<times> memory \<Rightarrow> buddy \<times> memory" where
  "push_block ord block = (\<lambda>(ba, mem). (set_free_list ord block ba, mem(block := ba_free_lists ba ! ord)))"

text \<open>
  The inner loop of \<open>init\<close>. With \<open>current_size\<close> 0 it either stops or runs forever.
\<close>

function init_shrink :: "u64 \<Rightarrow> u64 \<Rightarrow> u64 \<Rightarrow> u64 \<Rightarrow> u64 result" where
  "init_shrink pages end addr current_size =
     (if pages < current_size \<or> end < addr + current_size * PAGE_SIZE
      then if current_size = 0 then Inl Hang else init_shrink pages end addr (drop_bit 1 current_size)
      else Inr current_size)"
  by pat_completeness auto
termination
proof (relation "measure (\<lambda>(_, _, _, c). unat c)")
  fix pages fin addr c :: u64
  assume "c \<noteq> 0"
  then have "0 < unat c" by (simp add: unat_gt_0)
  then show "((pages, fin, addr, drop_bit 1 c), pages, fin, addr, c) \<in> measure (\<lambda>(_, _, _, c). unat c)"
    by (simp add: unat_drop_bit_eq drop_bit_eq_div [where ?'a = nat])
qed simp

declare init_shrink.simps [simp del]

text \<open>The outer loop of \<open>init\<close>; \<open>None\<close> would be a loop that does not end.\<close>

partial_function (option) init_loop ::
  "u64 \<Rightarrow> u64 \<Rightarrow> u64 \<Rightarrow> u64 \<Rightarrow> buddy \<times> memory \<Rightarrow> (buddy \<times> memory) result option" where
  "init_loop pages end current_size addr st =
     (if addr < end then
        case init_shrink pages end addr current_size of
          Inl e \<Rightarrow> Some (Inl e)
        | Inr current_size \<Rightarrow>
            if current_size = 0 then Some (Inr st)
            else init_loop pages end current_size (addr + current_size * PAGE_SIZE)
                   (push_block (trailing_zeros current_size) addr st)
      else Some (Inr st))"

definition buddy_init :: "u64 \<Rightarrow> u64 \<Rightarrow> buddy \<times> memory \<Rightarrow> (buddy \<times> memory) result" where
  "buddy_init start_addr end_addr = (\<lambda>(ba, mem).
     let start = pg_round_up start_addr PAGE_SIZE;
         fin = pg_round_down end_addr PAGE_SIZE;
         pages = (fin - start) div PAGE_SIZE in
     check (start < fin)
       (case init_loop pages fin (push_bit (MAX_ORDER - 1) 1) start
               (ba\<lparr>ba_start_addr := start, ba_end_addr := fin\<rparr>, mem) of
          None \<Rightarrow> Inl Hang
        | Some r \<Rightarrow> r))"

primrec split_loop :: "nat \<Rightarrow> u64 \<Rightarrow> nat \<Rightarrow> buddy \<times> memory \<Rightarrow> buddy \<times> memory" where
  "split_loop 0 block target_order st = st"
| "split_loop (Suc current_order) block target_order st =
     (if target_order < Suc current_order
      then split_loop current_order block target_order
             (push_block current_order (block + push_bit current_order 1 * PAGE_SIZE) st)
      else st)"

definition split_block :: "nat \<Rightarrow> nat \<Rightarrow> buddy \<times> memory \<Rightarrow> u64 option \<times> buddy \<times> memory" where
  "split_block block_order target_order = (\<lambda>(ba, mem).
     if block_order < target_order then (None, ba, mem)
     else let block = free_list ba block_order in
       if block = 0 then (None, ba, mem)
       else (Some block, split_loop block_order block target_order (set_free_list block_order (mem block) ba, mem)))"

definition alloc_pages :: "u64 \<Rightarrow> buddy \<times> memory \<Rightarrow> u64 option \<times> buddy \<times> memory" where
  "alloc_pages pages = (\<lambda>(ba, mem).
     if pages = 0 then (None, ba, mem)
     else if push_bit (MAX_ORDER - 1) 1 < pages then (None, ba, mem)
     else let pages = next_power_of_two pages; ord = trailing_zeros pages in
       case find (\<lambda>k. free_list ba k \<noteq> 0) [ord..<MAX_ORDER] of
         None \<Rightarrow> (None, ba, mem)
       | Some k \<Rightarrow> split_block k ord (ba, mem))"

text \<open>
  The search for the buddy in the free list of one order: \<open>Some (Some st)\<close> when it was
  found and taken out, \<open>Some None\<close> when the list does not have it, \<open>None\<close> when the list is
  cyclic.
\<close>

partial_function (option) remove_buddy ::
  "nat \<Rightarrow> u64 \<Rightarrow> u64 \<Rightarrow> u64 \<Rightarrow> buddy \<times> memory \<Rightarrow> (buddy \<times> memory) option option" where
  "remove_buddy ord buddy_addr prev current st =
     (case st of (ba, mem) \<Rightarrow>
        if current = buddy_addr then
          (if prev \<noteq> 0 then Some (Some (ba, mem(prev := mem current)))
           else Some (Some (set_free_list ord (mem current) ba, mem)))
        else if mem current = 0 then Some None
        else remove_buddy ord buddy_addr current (mem current) (ba, mem))"

function coalesce :: "nat \<Rightarrow> u64 \<Rightarrow> u64 \<Rightarrow> buddy \<times> memory \<Rightarrow> (nat \<times> u64 \<times> buddy \<times> memory) result" where
  "coalesce ord pages block_addr (ba, mem) =
     (if ord < MAX_ORDER - 1 then
        let buddy_addr = ba_start_addr ba + ((block_addr - ba_start_addr ba) XOR (pages * PAGE_SIZE)) in
        if free_list ba ord \<noteq> 0 then
          case remove_buddy ord buddy_addr 0 (free_list ba ord) (ba, mem) of
            None \<Rightarrow> Inl Hang
          | Some None \<Rightarrow> Inr (ord, block_addr, ba, mem)
          | Some (Some st) \<Rightarrow> coalesce (Suc ord) (pages * 2) (min block_addr buddy_addr) st
        else Inr (ord, block_addr, ba, mem)
      else Inr (ord, block_addr, ba, mem))"
  by pat_completeness auto
termination
  by (relation "measure (\<lambda>(ord, _, _, _). MAX_ORDER - ord)") auto

declare coalesce.simps [simp del]

definition free_pages :: "u64 \<Rightarrow> u64 \<Rightarrow> buddy \<times> memory \<Rightarrow> (buddy \<times> memory) result" where
  "free_pages addr pages = (\<lambda>(ba, mem).
     if pages = 0 \<or> push_bit (MAX_ORDER - 1) 1 < pages then Inr (ba, mem)
     else if addr < ba_start_addr ba \<or> ba_end_addr ba \<le> addr then Inr (ba, mem)
     else check (is_aligned addr PAGE_SIZE)
       (bindr (coalesce (order pages) pages addr (ba, mem)) (\<lambda>(ord, block_addr, st).
          Inr (push_block ord block_addr st))))"

declare init_loop.simps [code] remove_buddy.simps [code]

end
