(* ===== verification/Buddy_Correct.thy ===== *)
theory Buddy_Correct
  imports Buddy
begin

text \<open>
  Correctness of the buddy allocator. The abstract state is one list of page numbers per
  order; what the client sees is the multiset of free pages. The concrete lists, threaded
  through memory, represent the abstract ones, and every operation moves exactly the pages
  it should.
\<close>

section \<open>Blocks of pages\<close>

definition pages_at :: "nat \<Rightarrow> nat \<Rightarrow> nat multiset" where
  "pages_at ord k = mset [k..<k + 2 ^ ord]"

definition pages_of :: "(nat \<Rightarrow> nat list) \<Rightarrow> nat multiset" where
  "pages_of L = (\<Sum>ord < MAX_ORDER. \<Sum>k \<in># mset (L ord). pages_at ord k)"

text \<open>
  Free lists over \<open>n\<close> pages: blocks are aligned to their size, and no page is in two
  blocks or beyond the end, since the numbers \<open>0..<n\<close> contain every page once.
\<close>

definition lists_ok :: "nat \<Rightarrow> (nat \<Rightarrow> nat list) \<Rightarrow> bool" where
  "lists_ok n L \<longleftrightarrow> (\<forall>ord < MAX_ORDER. \<forall>k \<in> set (L ord). 2 ^ ord dvd k) \<and> pages_of L \<subseteq># mset [0..<n]"

lemma pages_at_split: "pages_at (Suc ord) k = pages_at ord k + pages_at ord (k + 2 ^ ord)"
proof -
  have "[k..<k + 2 ^ Suc ord] = [k..<k + 2 ^ ord] @ [k + 2 ^ ord..<k + 2 ^ ord + 2 ^ ord]"
    using upt_add_eq_append [of k "k + 2 ^ ord" "2 ^ ord"] by (simp add: add.assoc mult_2)
  then show ?thesis by (simp add: pages_at_def)
qed

lemma in_pages_at: "p \<in># pages_at ord k \<longleftrightarrow> k \<le> p \<and> p < k + 2 ^ ord"
  by (simp add: pages_at_def)

lemma pages_of_cong:
  "(\<And>ord. ord < MAX_ORDER \<Longrightarrow> mset (L ord) = mset (L' ord)) \<Longrightarrow> pages_of L = pages_of L'"
  unfolding pages_of_def by (rule sum.cong) simp_all

lemma pages_of_push:
  assumes "ord < MAX_ORDER"
  shows "pages_of (L(ord := k # L ord)) = pages_at ord k + pages_of L"
proof -
  have "pages_of M = (\<Sum>x \<in># mset (M ord). pages_at ord x) +
      (\<Sum>o' \<in> {..<MAX_ORDER} - {ord}. \<Sum>x \<in># mset (M o'). pages_at o' x)" for M
    unfolding pages_of_def using assms by (intro sum.remove) simp_all
  moreover have "(\<Sum>o' \<in> {..<MAX_ORDER} - {ord}. \<Sum>x \<in># mset ((L(ord := k # L ord)) o'). pages_at o' x) =
      (\<Sum>o' \<in> {..<MAX_ORDER} - {ord}. \<Sum>x \<in># mset (L o'). pages_at o' x)"
    by (rule sum.cong) simp_all
  ultimately show ?thesis by simp
qed

lemma pages_of_pop:
  assumes "ord < MAX_ORDER" and "mset (L ord) = add_mset k (mset ks)"
  shows "pages_of L = pages_at ord k + pages_of (L(ord := ks))"
  using pages_of_push [OF assms(1), of "L(ord := ks)" k] assms(2) pages_of_cong [of L "L(ord := k # ks)"] by simp

lemma block_in_pages:
  assumes "ord < MAX_ORDER" and "k \<in> set (L ord)"
  shows "pages_at ord k \<subseteq># pages_of L"
  using pages_of_pop [OF assms(1), of L k "remove1 k (L ord)"] assms(2) by simp

lemma count_upt: "count (mset [0..<n]) p \<le> 1"
  by (metis distinct_count_atmost_1 distinct_upt le_refl zero_le)

lemma page_once:
  assumes "pages_at ord k + M \<subseteq># mset [0..<n]" and "k \<le> p" and "p < k + 2 ^ ord"
  shows "p \<notin># M" and "p < n"
proof -
  have "count (pages_at ord k) p + count M p \<le> count (mset [0..<n]) p"
    using mset_subset_eq_count [OF assms(1), of p] by simp
  moreover have "p \<in># pages_at ord k" using assms(2,3) by (simp add: in_pages_at)
  then have "0 < count (pages_at ord k) p" by (simp only: count_greater_zero_iff)
  ultimately have "count M p = 0" using count_upt [of n p] by linarith
  then show "p \<notin># M" by (simp only: not_in_iff)
  have "p \<in># pages_at ord k + M" using assms(2,3) by (simp add: in_pages_at)
  with assms(1) show "p < n" by (metis mset_subset_eqD set_mset_mset atLeastLessThan_iff atLeastLessThan_upt)
qed

lemma block_bound:
  assumes "pages_at ord k + M \<subseteq># mset [0..<n]"
  shows "k + 2 ^ ord \<le> n"
proof -
  have pos: "0 < (2 :: nat) ^ ord" by simp
  from page_once(2) [OF assms, of "k + (2 ^ ord - 1)"] pos have "k + (2 ^ ord - 1) < n" by linarith
  with pos show ?thesis by linarith
qed

section \<open>Linked lists in memory\<close>

primrec chain :: "memory \<Rightarrow> u64 \<Rightarrow> u64 list \<Rightarrow> bool" where
  "chain mem p [] \<longleftrightarrow> p = 0"
| "chain mem p (x # xs) \<longleftrightarrow> p = x \<and> x \<noteq> 0 \<and> chain mem (mem x) xs"

lemma chain_upd: "b \<notin> set xs \<Longrightarrow> chain (mem(b := v)) p xs = chain mem p xs"
  by (induction xs arbitrary: p) auto

lemma chain_null: "chain mem 0 xs \<longleftrightarrow> xs = []"
  by (cases xs) auto

lemma chain_remove:
  assumes "chain mem p (us @ b # vs)" and "us \<noteq> []" and "distinct (us @ b # vs)"
  shows "chain (mem(last us := mem b)) p (us @ vs)"
  using assms
proof (induction us arbitrary: p)
  case (Cons u us)
  show ?case
  proof (cases "us = []")
    case True
    with Cons.prems have "u \<notin> set vs" "chain mem (mem b) vs" by auto
    with True Cons.prems show ?thesis by (simp add: chain_upd del: fun_upd_apply add: fun_upd_same)
  next
    case False
    with Cons show ?thesis by auto
  qed
qed simp

section \<open>Representation\<close>

definition page_addr :: "u64 \<Rightarrow> nat \<Rightarrow> u64" where
  "page_addr start k = start + of_nat (k * 4096)"

text \<open>
  A region of \<open>n\<close> pages below \<open>2 ^ 63\<close> and the free lists \<open>L\<close> in it: the heads are in the
  allocator, the links in memory.
\<close>

definition region_ok :: "buddy \<Rightarrow> nat \<Rightarrow> bool" where
  "region_ok ba n \<longleftrightarrow>
     length (ba_free_lists ba) = MAX_ORDER \<and> 0 < unat (ba_start_addr ba) \<and> unat (ba_start_addr ba) mod 4096 = 0 \<and>
     unat (ba_end_addr ba) = unat (ba_start_addr ba) + n * 4096 \<and> unat (ba_end_addr ba) < 2 ^ 63"

definition buddy_rep :: "nat \<Rightarrow> (nat \<Rightarrow> nat list) \<Rightarrow> buddy \<times> memory \<Rightarrow> bool" where
  "buddy_rep n L st \<longleftrightarrow>
     region_ok (fst st) n \<and> lists_ok n L \<and>
     (\<forall>ord < MAX_ORDER. chain (snd st) (free_list (fst st) ord) (map (page_addr (ba_start_addr (fst st))) (L ord)))"

text \<open>The allocator writes only the first words of free pages, where the links are.\<close>

definition links_only :: "u64 \<Rightarrow> nat multiset \<Rightarrow> memory \<Rightarrow> memory \<Rightarrow> bool" where
  "links_only start F mem mem' \<longleftrightarrow> (\<forall>w. (\<forall>k \<in># F. w \<noteq> page_addr start k) \<longrightarrow> mem' w = mem w)"

lemma links_only_refl [simp]: "links_only start F mem mem"
  by (simp add: links_only_def)

lemma links_only_trans:
  "links_only start F mem mem1 \<Longrightarrow> links_only start G mem1 mem2 \<Longrightarrow> F \<subseteq># H \<Longrightarrow> G \<subseteq># H \<Longrightarrow> links_only start H mem mem2"
  unfolding links_only_def using mset_subset_eqD by metis

lemma links_only_upd: "k \<in># F \<Longrightarrow> links_only start F mem (mem(page_addr start k := v))"
  by (auto simp: links_only_def)

lemma unat_page_addr:
  assumes "region_ok ba n" and "k \<le> n + 2 ^ 16"
  shows "unat (page_addr (ba_start_addr ba) k) = unat (ba_start_addr ba) + k * 4096"
proof -
  have "unat (ba_start_addr ba) + k * 4096 < usize_range"
    using assms by (simp add: region_ok_def)
  then show ?thesis unfolding page_addr_def by (subst unat_add_u64) (simp_all add: unat_of_nat_u64 del: of_nat_mult)
qed

lemma page_addr_eq_iff:
  assumes "region_ok ba n" and "j \<le> n + 2 ^ 16" and "k \<le> n + 2 ^ 16"
  shows "page_addr (ba_start_addr ba) j = page_addr (ba_start_addr ba) k \<longleftrightarrow> j = k"
  using unat_page_addr [OF assms(1,2)] unat_page_addr [OF assms(1,3)] by (metis add_left_cancel mult_cancel2 zero_neq_numeral)

lemma page_addr_nonzero: "region_ok ba n \<Longrightarrow> k \<le> n + 2 ^ 16 \<Longrightarrow> page_addr (ba_start_addr ba) k \<noteq> 0"
  using unat_page_addr [of ba n k] by (auto simp: region_ok_def)

lemma block_below:
  assumes "lists_ok n L" and "ord < MAX_ORDER" and "k \<in> set (L ord)"
  shows "k < n" and "k \<in># pages_of L"
proof -
  have sub: "pages_at ord k \<subseteq># pages_of L" by (rule block_in_pages [OF assms(2), of k L, OF assms(3)])
  have k: "k \<in># pages_at ord k" by (simp add: in_pages_at)
  with sub show "k \<in># pages_of L" by (rule mset_subset_eqD)
  with assms(1) have "k \<in># mset [0..<n]" unfolding lists_ok_def by (metis mset_subset_eqD)
  then show "k < n" by simp
qed

lemma region_ok_set [simp]: "region_ok (set_free_list ord p ba) n = region_ok ba n"
  by (simp add: region_ok_def set_free_list_def)

lemma set_free_list_simps [simp]:
  "ba_start_addr (set_free_list ord p ba) = ba_start_addr ba" "ba_end_addr (set_free_list ord p ba) = ba_end_addr ba"
  "ord < length (ba_free_lists ba) \<Longrightarrow> free_list (set_free_list ord p ba) k = (if k = ord then p else free_list ba k)"
  "length (ba_free_lists (set_free_list ord p ba)) = length (ba_free_lists ba)"
  by (simp_all add: set_free_list_def)

lemma push_rep:
  assumes "buddy_rep n L (ba, mem)" and "ord < MAX_ORDER" and "2 ^ ord dvd k"
    and "pages_at ord k + pages_of L \<subseteq># mset [0..<n]"
  shows "buddy_rep n (L(ord := k # L ord)) (push_block ord (page_addr (ba_start_addr ba) k) (ba, mem))"
proof -
  let ?p = "page_addr (ba_start_addr ba)"
  have r: "region_ok ba n" and ok: "lists_ok n L"
    and ch: "\<And>ord. ord < MAX_ORDER \<Longrightarrow> chain mem (free_list ba ord) (map ?p (L ord))"
    using assms(1) by (simp_all add: buddy_rep_def)
  have len: "length (ba_free_lists ba) = MAX_ORDER" using r by (simp add: region_ok_def)
  have k: "k < n" "k \<notin># pages_of L" using page_once [OF assms(4), of k] by simp_all
  have fresh: "?p k \<notin> set (map ?p (L j))" if "j < MAX_ORDER" for j
  proof
    assume "?p k \<in> set (map ?p (L j))"
    then obtain x where x: "x \<in> set (L j)" "?p k = ?p x" by auto
    with block_below [OF ok that, of x, OF x(1)] k(1) page_addr_eq_iff [OF r, of k x] have "x = k" by simp
    with block_below(2) [OF ok that, of x, OF x(1)] k(2) show False by simp
  qed
  have "lists_ok n (L(ord := k # L ord))"
    using ok assms(3,4) by (simp add: lists_ok_def pages_of_push [OF assms(2)])
  moreover have "chain (mem(?p k := free_list ba ord)) (free_list (set_free_list ord (?p k) ba) j)
      (map ?p ((L(ord := k # L ord)) j))" if j: "j < MAX_ORDER" for j
    using ch [OF j] ch [OF assms(2)] fresh [OF j] fresh [OF assms(2)] len assms(2) page_addr_nonzero [OF r, of k] k(1)
    by (simp add: chain_upd del: fun_upd_apply add: fun_upd_same fun_upd_other)
  ultimately show ?thesis using r by (simp add: buddy_rep_def push_block_def)
qed

lemma pop_rep:
  assumes "buddy_rep n L (ba, mem)" and "ord < MAX_ORDER" and "L ord = k # ks"
  shows "buddy_rep n (L(ord := ks)) (set_free_list ord (mem (page_addr (ba_start_addr ba) k)) ba, mem)"
    and "free_list ba ord = page_addr (ba_start_addr ba) k" and "free_list ba ord \<noteq> 0"
    and "pages_of L = pages_at ord k + pages_of (L(ord := ks))" and "2 ^ ord dvd k"
    and "pages_of L \<subseteq># mset [0..<n]"
proof -
  let ?p = "page_addr (ba_start_addr ba)"
  have r: "region_ok ba n" and ok: "lists_ok n L"
    and ch: "\<And>ord. ord < MAX_ORDER \<Longrightarrow> chain mem (free_list ba ord) (map ?p (L ord))"
    using assms(1) by (simp_all add: buddy_rep_def)
  have len: "length (ba_free_lists ba) = MAX_ORDER" using r by (simp add: region_ok_def)
  show eq: "pages_of L = pages_at ord k + pages_of (L(ord := ks))"
    by (rule pages_of_pop [OF assms(2)]) (simp add: assms(3))
  show "2 ^ ord dvd k" "pages_of L \<subseteq># mset [0..<n]" using ok assms(2,3) by (auto simp: lists_ok_def)
  show "free_list ba ord = ?p k" "free_list ba ord \<noteq> 0" using ch [OF assms(2)] assms(3) by auto
  have "pages_of (L(ord := ks)) \<subseteq># mset [0..<n]" using ok eq unfolding lists_ok_def by (metis mset_subset_eq_add_right subset_mset.order_trans)
  then have "lists_ok n (L(ord := ks))" using ok assms(2,3) by (auto simp: lists_ok_def)
  moreover have "chain mem (free_list (set_free_list ord (mem (?p k)) ba) j) (map ?p ((L(ord := ks)) j))"
    if j: "j < MAX_ORDER" for j
    using ch [OF j] ch [OF assms(2)] assms(2,3) len by simp
  ultimately show "buddy_rep n (L(ord := ks)) (set_free_list ord (mem (?p k)) ba, mem)"
    using r by (simp add: buddy_rep_def)
qed

section \<open>Splitting and allocating\<close>

lemma page_addr_add:
  "page_addr start k + push_bit ord 1 * PAGE_SIZE = page_addr start (k + 2 ^ ord)"
  by (simp add: page_addr_def push_bit_eq_mult algebra_simps)

lemma split_loop_rep:
  assumes "buddy_rep n L st" and "cur < MAX_ORDER" and "target \<le> cur" and "2 ^ cur dvd k"
    and "pages_at cur k + pages_of L \<subseteq># mset [0..<n]" and "start = ba_start_addr (fst st)"
  shows "\<exists>L'. buddy_rep n L' (split_loop cur (page_addr start k) target st) \<and>
    ba_start_addr (fst (split_loop cur (page_addr start k) target st)) = start \<and>
    pages_at cur k + pages_of L = pages_at target k + pages_of L' \<and>
    links_only start (pages_at cur k) (snd st) (snd (split_loop cur (page_addr start k) target st)) \<and>
    (\<forall>i < target. L' i = L i)"
  using assms
proof (induction cur arbitrary: L st)
  case 0
  then show ?case by (intro exI [of _ L]) simp
next
  case (Suc cur)
  show ?case
  proof (cases "target = Suc cur")
    case True
    with Suc.prems show ?thesis by (intro exI [of _ L]) simp
  next
    case False
    obtain ba mem where st: "st = (ba, mem)" by (cases st)
    have dvd: "2 ^ cur dvd k" "2 ^ cur dvd k + 2 ^ cur" using Suc.prems(4) by (auto dest: power_le_dvd)
    have cur: "cur < MAX_ORDER" using Suc.prems(2) by simp
    have sum: "pages_at cur k + (pages_at cur (k + 2 ^ cur) + pages_of L) \<subseteq># mset [0..<n]"
      using Suc.prems(5) by (simp add: pages_at_split add.assoc)
    then have part: "pages_at cur (k + 2 ^ cur) + pages_of L \<subseteq># mset [0..<n]"
      by (metis mset_subset_eq_add_right subset_mset.order_trans)
    let ?L = "L(cur := (k + 2 ^ cur) # L cur)"
    let ?st = "push_block cur (page_addr start (k + 2 ^ cur)) st"
    have rep: "buddy_rep n ?L ?st"
      using push_rep [OF Suc.prems(1) [unfolded st] cur dvd(2) part] Suc.prems(6) by (simp add: st)
    have start: "start = ba_start_addr (fst ?st)" using Suc.prems(6) by (simp add: st push_block_def)
    have tgt: "target \<le> cur" using False Suc.prems(3) by simp
    have pg: "pages_of ?L = pages_at cur (k + 2 ^ cur) + pages_of L" by (rule pages_of_push [OF cur])
    have "pages_at cur k + pages_of ?L \<subseteq># mset [0..<n]" unfolding pg by (rule sum)
    from Suc.IH [OF rep cur tgt dvd(1) this start] obtain L' where
      L': "buddy_rep n L' (split_loop cur (page_addr start k) target ?st)"
        "ba_start_addr (fst (split_loop cur (page_addr start k) target ?st)) = start"
        "pages_at cur k + pages_of ?L = pages_at target k + pages_of L'"
        "links_only start (pages_at cur k) (snd ?st) (snd (split_loop cur (page_addr start k) target ?st))"
        "\<forall>i < target. L' i = ?L i" by blast
    have keep: "\<forall>i < target. L' i = L i" using L'(5) tgt by simp
    have "k + 2 ^ cur \<in># pages_at (Suc cur) k" by (simp add: in_pages_at)
    then have "links_only start (pages_at (Suc cur) k) (snd st) (snd ?st)" by (simp add: st push_block_def links_only_upd)
    from links_only_trans [OF this L'(4) subset_mset.order_refl]
    have lk: "links_only start (pages_at (Suc cur) k) (snd st) (snd (split_loop cur (page_addr start k) target ?st))"
      by (simp add: pages_at_split)
    have step: "split_loop (Suc cur) (page_addr start k) target st = split_loop cur (page_addr start k) target ?st"
      unfolding split_loop.simps page_addr_add using tgt by simp
    have "pages_at (Suc cur) k + pages_of L = pages_at target k + pages_of L'"
      using L'(3) unfolding pg pages_at_split add.assoc .
    with L'(1,2) step lk keep show ?thesis by auto
  qed
qed

text \<open>The integer functions of \<open>core\<close> on the sizes the allocator accepts.\<close>

lemma takeWhile_upt:
  assumes "j < n" and "P j" and "\<And>i. i < j \<Longrightarrow> \<not> P i"
  shows "takeWhile (\<lambda>i. \<not> P i) [0..<n] = [0..<j]"
proof -
  have "[0..<n] = [0..<j] @ j # [Suc j..<n]" using assms(1) by (metis le_add_diff_inverse less_imp_le
        upt_add_eq_append upt_conv_Cons zero_le)
  then show ?thesis using assms(2,3) by (simp add: takeWhile_append)
qed

lemma trailing_zeros_exp:
  assumes "j < 64"
  shows "trailing_zeros (push_bit j 1) = j"
proof -
  have "takeWhile (\<lambda>i. \<not> bit (push_bit j 1 :: u64) i) [0..<64] = [0..<j]"
    by (rule takeWhile_upt) (use assms in \<open>simp_all add: bit_exp_iff\<close>)
  then show ?thesis by (simp add: trailing_zeros_def takeWhile_map comp_def)
qed

lemma power_bracket: "0 < (x :: nat) \<Longrightarrow> \<exists>m. 2 ^ m \<le> x \<and> x < 2 ^ Suc m"
proof (induction x rule: less_induct)
  case (less x)
  show ?case
  proof (cases "x = 1")
    case False
    with less.prems have "0 < x div 2" "x div 2 < x" by auto
    from less.IH [OF this(2,1)] obtain m where "2 ^ m \<le> x div 2" "x div 2 < 2 ^ Suc m" by blast
    then have "2 ^ Suc m \<le> x \<and> x < 2 ^ Suc (Suc m)" by auto
    then show ?thesis by blast
  qed (auto intro: exI [of _ 0])
qed

lemma leading_zeros_eq:
  assumes "2 ^ m \<le> unat x" and "unat x < 2 ^ Suc m" and "m < 64"
  shows "leading_zeros x = 63 - m"
proof -
  have bit: "bit x i \<longleftrightarrow> odd (unat x div 2 ^ i)" for i
    by (metis bit_unsigned_iff bit_iff_odd possible_bit_nat possible_bit_def unat_of_nat)
  have top: "bit x m"
  proof -
    have "unat x div 2 ^ m = 1" using assms(1,2) by (simp add: div_nat_eqI)
    then show ?thesis by (simp add: bit)
  qed
  have above: "\<not> bit x i" if "m < i" for i
  proof -
    have "(2 :: nat) ^ Suc m \<le> 2 ^ i" using that by (intro power_increasing) simp_all
    then have "unat x div 2 ^ i = 0" using assms(2) by simp
    then show ?thesis by (simp add: bit)
  qed
  have "rev (map (bit x) [0..<64]) = map (\<lambda>i. bit x (63 - i)) [0..<64]"
    by (rule nth_equalityI) (simp_all add: rev_nth)
  moreover have "takeWhile (\<lambda>i. \<not> bit x (63 - i)) [0..<64] = [0..<63 - m]"
    by (rule takeWhile_upt) (use assms(3) top above in auto)
  ultimately show ?thesis by (simp add: leading_zeros_def takeWhile_map comp_def)
qed

lemma next_power_of_two_eq:
  assumes "0 < unat n" and "unat n \<le> 2 ^ 15"
  shows "\<exists>j \<le> 15. next_power_of_two n = push_bit j 1 \<and> unat n \<le> 2 ^ j \<and> 2 ^ j < 2 * unat n"
proof (cases "unat n = 1")
  case True
  then have "n = 1" by (simp add: u64_eq_iff_unat)
  then show ?thesis by (intro exI [of _ 0]) (simp add: next_power_of_two_def)
next
  case False
  have x: "unat (n - 1) = unat n - 1" using assms(1) by (subst unat_sub_u64) (simp_all add: word_le_nat_alt)
  have "0 < unat (n - 1)" using x False assms(1) by simp
  from power_bracket [OF this] obtain m where m: "2 ^ m \<le> unat (n - 1)" "unat (n - 1) < 2 ^ Suc m" by blast
  have "(2 :: nat) ^ m < 2 ^ 15" using m(1) x assms(2) assms(1) by linarith
  then have ml: "m < 15" by (metis power_less_imp_less_exp one_less_numeral_iff semiring_norm(76))
  have "next_power_of_two n = push_bit (64 - leading_zeros (n - 1)) 1"
    using False assms(1) by (simp add: next_power_of_two_def word_le_nat_alt)
  also have "64 - leading_zeros (n - 1) = Suc m" using leading_zeros_eq [OF m] ml by simp
  finally have "next_power_of_two n = push_bit (Suc m) 1" .
  moreover have "unat n \<le> 2 ^ Suc m" "2 ^ Suc m < 2 * unat n" using m x assms(1) by auto
  ultimately show ?thesis using ml by (intro exI [of _ "Suc m"]) simp
qed

text \<open>The order of a request: the least power of two that holds it.\<close>

lemma order_eq:
  assumes "0 < unat n" and "unat n \<le> 2 ^ 15"
  shows "order n \<le> 15" and "next_power_of_two n = push_bit (order n) 1"
    and "unat n \<le> 2 ^ order n" and "2 ^ order n < 2 * unat n"
proof -
  from next_power_of_two_eq [OF assms] obtain j where j: "j \<le> 15" "next_power_of_two n = push_bit j 1"
    "unat n \<le> 2 ^ j" "2 ^ j < 2 * unat n" by blast
  then have "order n = j" unfolding order_def by (simp only: trailing_zeros_exp)
  with j show "order n \<le> 15" "next_power_of_two n = push_bit (order n) 1"
    "unat n \<le> 2 ^ order n" "2 ^ order n < 2 * unat n" by simp_all
qed

lemma rep_head: "buddy_rep n L (ba, mem) \<Longrightarrow> ord < MAX_ORDER \<Longrightarrow> free_list ba ord = 0 \<longleftrightarrow> L ord = []"
  by (cases "L ord") (auto simp: buddy_rep_def dest!: spec [of _ ord])

lemma max_pages_less: "(push_bit (MAX_ORDER - 1) 1 < pages) = (2 ^ 15 < unat (pages :: u64))"
  by (simp add: MAX_ORDER_def word_less_nat_alt push_bit_eq_mult)

lemma alloc_rep:
  assumes "buddy_rep n L (ba, mem)" and "0 < unat pages" and "unat pages \<le> 2 ^ 15"
  shows "case alloc_pages pages (ba, mem) of
      (None, st) \<Rightarrow> st = (ba, mem) \<and> (\<forall>ord. order pages \<le> ord \<and> ord < MAX_ORDER \<longrightarrow> L ord = [])
    | (Some addr, st) \<Rightarrow> \<exists>k L'. addr = page_addr (ba_start_addr ba) k \<and> buddy_rep n L' st \<and>
        ba_start_addr (fst st) = ba_start_addr ba \<and> 2 ^ order pages dvd k \<and>
        pages_of L = pages_at (order pages) k + pages_of L' \<and> links_only (ba_start_addr ba) (pages_of L) mem (snd st) \<and>
        (\<forall>i < order pages. L' i = L i)"
proof -
  let ?o = "order pages"
  have al: "alloc_pages pages (ba, mem) = (case find (\<lambda>k. free_list ba k \<noteq> 0) [?o..<MAX_ORDER] of
      None \<Rightarrow> (None, ba, mem) | Some k \<Rightarrow> split_block k ?o (ba, mem))"
    unfolding alloc_pages_def Let_def max_pages_less order_def [symmetric] using assms(2,3) by auto
  show ?thesis
  proof (cases "find (\<lambda>k. free_list ba k \<noteq> 0) [?o..<MAX_ORDER]")
    case None
    then have "\<forall>ord. ?o \<le> ord \<and> ord < MAX_ORDER \<longrightarrow> L ord = []"
      using rep_head [OF assms(1)] by (auto simp: find_None_iff)
    with None show ?thesis by (simp add: al)
  next
    case (Some b)
    then have b: "?o \<le> b" "b < MAX_ORDER" "free_list ba b \<noteq> 0" by (auto simp: find_Some_iff)
    with rep_head [OF assms(1)] obtain k ks where Lb: "L b = k # ks" by (metis list.exhaust)
    note pop = pop_rep [OF assms(1) b(2) Lb]
    have sub: "pages_at b k + pages_of (L(b := ks)) \<subseteq># mset [0..<n]" using pop(4,6) by metis
    from split_loop_rep [OF pop(1) b(2,1) pop(5) sub refl]
    obtain L' where L': "buddy_rep n L' (split_loop b (page_addr (ba_start_addr ba) k) ?o
          (set_free_list b (mem (page_addr (ba_start_addr ba) k)) ba, mem))"
      "ba_start_addr (fst (split_loop b (page_addr (ba_start_addr ba) k) ?o
          (set_free_list b (mem (page_addr (ba_start_addr ba) k)) ba, mem))) = ba_start_addr ba"
      "pages_at b k + pages_of (L(b := ks)) = pages_at ?o k + pages_of L'"
      "links_only (ba_start_addr ba) (pages_at b k) mem (snd (split_loop b (page_addr (ba_start_addr ba) k) ?o
          (set_free_list b (mem (page_addr (ba_start_addr ba) k)) ba, mem)))"
      "\<forall>i < ?o. L' i = (L(b := ks)) i" by auto
    have keep: "\<forall>i < ?o. L' i = L i" using L'(5) b(1) by simp
    have "pages_at b k \<subseteq># pages_of L" using pop(4) by simp
    from links_only_trans [OF links_only_refl [where F = "{#}"] L'(4) _ this]
    have lk: "links_only (ba_start_addr ba) (pages_of L) mem (snd (split_loop b (page_addr (ba_start_addr ba) k) ?o
          (set_free_list b (mem (page_addr (ba_start_addr ba) k)) ba, mem)))" by simp
    have "2 ^ ?o dvd k" using pop(5) b(1) by (rule power_le_dvd)
    moreover have "alloc_pages pages (ba, mem) = (Some (page_addr (ba_start_addr ba) k),
        split_loop b (page_addr (ba_start_addr ba) k) ?o (set_free_list b (mem (page_addr (ba_start_addr ba) k)) ba, mem))"
      using b pop(2,3) by (simp add: al Some split_block_def Let_def)
    moreover have "pages_of L = pages_at ?o k + pages_of L'" using L'(3) pop(4) by metis
    ultimately show ?thesis using L'(1,2) lk keep by auto
  qed
qed

section \<open>Finding and removing a buddy\<close>

lemma remove_buddy_walk:
  assumes "chain mem cur xs" and "xs \<noteq> []"
  shows "remove_buddy ord b prev cur (ba, mem) =
    Some (if b \<in> set xs then
        let us = takeWhile (\<lambda>x. x \<noteq> b) xs; q = (if us = [] then prev else last us) in
        Some (if q \<noteq> 0 then (ba, mem(q := mem b)) else (set_free_list ord (mem b) ba, mem))
      else None)"
  using assms
proof (induction xs arbitrary: prev cur)
  case (Cons x xs)
  have cur: "cur = x" "x \<noteq> 0" "chain mem (mem x) xs" using Cons.prems(1) by auto
  show ?case
  proof (cases "x = b")
    case True
    then show ?thesis by (subst remove_buddy.simps) (simp add: cur Let_def)
  next
    case False
    show ?thesis
    proof (cases "xs = []")
      case True
      with False cur show ?thesis by (subst remove_buddy.simps) simp
    next
      case ne: False
      have "mem x \<noteq> 0" using cur(3) ne by (cases xs) auto
      then have "remove_buddy ord b prev cur (ba, mem) = remove_buddy ord b x (mem x) (ba, mem)"
        using False cur by (subst remove_buddy.simps) simp
      also note Cons.IH [OF cur(3) ne, of x]
      finally show ?thesis using False by (simp add: Let_def cur)
    qed
  qed
qed simp

lemma takeWhile_split:
  assumes "b \<in> set xs" and "distinct xs"
  obtains us vs where "xs = us @ b # vs" and "takeWhile (\<lambda>x. x \<noteq> b) xs = us" and "remove1 b xs = us @ vs"
proof -
  from split_list_first [OF assms(1)] obtain us vs where "xs = us @ b # vs" "b \<notin> set us" by blast
  moreover from this have "takeWhile (\<lambda>x. x \<noteq> b) xs = us" by (auto simp: takeWhile_append)
  ultimately show ?thesis using that by (simp add: remove1_append)
qed

lemma blocks_apart:
  assumes "lists_ok n L" and "ord < MAX_ORDER" and "mset (L ord) = add_mset k (mset ks)"
    and "j < MAX_ORDER" and "x \<in> set ((L(ord := ks)) j)"
  shows "x \<noteq> k"
proof
  assume "x = k"
  have "pages_at ord k + pages_of (L(ord := ks)) \<subseteq># mset [0..<n]"
    using assms(1) pages_of_pop [OF assms(2), of L k ks, OF assms(3)] unfolding lists_ok_def by metis
  then have "k \<notin># pages_of (L(ord := ks))" by (rule page_once(1)) simp_all
  moreover have "pages_at j x \<subseteq># pages_of (L(ord := ks))" by (rule block_in_pages [OF assms(4), where L = "L(ord := ks)", OF assms(5)])
  then have "x \<in># pages_of (L(ord := ks))" by (rule mset_subset_eqD) (simp add: in_pages_at)
  ultimately show False using \<open>x = k\<close> by simp
qed

lemma list_distinct:
  assumes "lists_ok n L" and "ord < MAX_ORDER"
  shows "distinct (L ord)"
proof (rule ccontr)
  assume "\<not> distinct (L ord)"
  then obtain xs ys zs k where "L ord = xs @ [k] @ ys @ [k] @ zs" using not_distinct_decomp by blast
  with blocks_apart [OF assms, of k "xs @ ys @ [k] @ zs" ord k] assms(2) show False by simp
qed

lemma lists_ok_remove:
  assumes "lists_ok n L" and "ord < MAX_ORDER" and "mset (L ord) = add_mset k (mset ks)"
  shows "lists_ok n (L(ord := ks))"
proof -
  have "pages_of (L(ord := ks)) \<subseteq># mset [0..<n]"
    using assms(1) pages_of_pop [OF assms(2), of L k ks, OF assms(3)] unfolding lists_ok_def
    by (metis mset_subset_eq_add_right subset_mset.order_trans)
  moreover have "set ks \<subseteq> set (L ord)" using arg_cong [OF assms(3), of set_mset] by auto
  ultimately show ?thesis using assms(1) by (auto simp: lists_ok_def)
qed

lemma remove_absent:
  assumes "buddy_rep n L (ba, mem)" and "ord < MAX_ORDER" and "free_list ba ord \<noteq> 0"
    and "b \<notin> page_addr (ba_start_addr ba) ` set (L ord)"
  shows "remove_buddy ord b 0 (free_list ba ord) (ba, mem) = Some None"
proof -
  have "chain mem (free_list ba ord) (map (page_addr (ba_start_addr ba)) (L ord))" "L ord \<noteq> []"
    using assms(1-3) rep_head by (auto simp: buddy_rep_def)
  with remove_buddy_walk [of mem "free_list ba ord" _ ord b 0 ba] assms(4) show ?thesis by simp
qed

lemma remove_present:
  assumes "buddy_rep n L (ba, mem)" and "ord < MAX_ORDER" and "j \<in> set (L ord)"
  shows "\<exists>st. remove_buddy ord (page_addr (ba_start_addr ba) j) 0 (free_list ba ord) (ba, mem) = Some (Some st) \<and>
    buddy_rep n (L(ord := remove1 j (L ord))) st \<and> ba_start_addr (fst st) = ba_start_addr ba \<and>
    links_only (ba_start_addr ba) (pages_of L) mem (snd st)"
proof -
  let ?p = "page_addr (ba_start_addr ba)"
  have r: "region_ok ba n" and ok: "lists_ok n L"
    and ch: "\<And>ord. ord < MAX_ORDER \<Longrightarrow> chain mem (free_list ba ord) (map ?p (L ord))"
    using assms(1) by (simp_all add: buddy_rep_def)
  have dist: "distinct (L ord)" by (rule list_distinct [OF ok assms(2)])
  from takeWhile_split [OF assms(3) dist] obtain us vs where
    spl: "L ord = us @ j # vs" and rem: "remove1 j (L ord) = us @ vs" by metis
  have lt: "x < n" if "x \<in> set (L ord)" for x using block_below(1) [OF ok assms(2), of x, OF that] .
  have inj: "?p x = ?p y \<longleftrightarrow> x = y" if "x \<in> set (L ord)" "y \<in> set (L ord)" for x y
    using page_addr_eq_iff [OF r, of x y] lt [OF that(1)] lt [OF that(2)] by simp
  have us: "takeWhile (\<lambda>x. x \<noteq> ?p j) (map ?p (L ord)) = map ?p us"
  proof -
    have "?p x \<noteq> ?p j" if "x \<in> set us" for x using inj [of x j] that dist by (auto simp: spl)
    then show ?thesis by (auto simp: spl takeWhile_append)
  qed
  have pdist: "distinct (map ?p (L ord))" using dist inj by (simp add: distinct_map inj_on_def)
  have ms: "mset (L ord) = add_mset j (mset (us @ vs))" by (simp add: spl)
  have ok': "lists_ok n (L(ord := us @ vs))" by (rule lists_ok_remove [OF ok assms(2) ms])
  have walk: "remove_buddy ord (?p j) 0 (free_list ba ord) (ba, mem) = Some (Some
      (if us = [] then (set_free_list ord (mem (?p j)) ba, mem) else (ba, mem(?p (last us) := mem (?p j)))))"
  proof -
    have "?p (last us) \<noteq> 0" if "us \<noteq> []"
      using page_addr_nonzero [OF r, of "last us"] lt [of "last us"] that by (simp add: spl)
    moreover have "L ord \<noteq> []" using assms(3) by auto
    ultimately show ?thesis
      using remove_buddy_walk [OF ch [OF assms(2)], of ord "?p j" 0 ba] assms(3)
      unfolding us by (auto simp: Let_def last_map)
  qed
  show ?thesis
  proof (cases "us = []")
    case True
    then have "L ord = j # vs" by (simp add: spl)
    from pop_rep(1) [OF assms(1,2) this] True walk rem show ?thesis by simp
  next
    case False
    let ?u = "last us" let ?mem = "mem(?p ?u := mem (?p j))"
    have u: "?u \<in> set (L ord)" using False by (simp add: spl)
    have "chain ?mem (free_list ba i) (map ?p ((L(ord := us @ vs)) i))" if i: "i < MAX_ORDER" for i
    proof (cases "i = ord")
      case True
      have "chain mem (free_list ba ord) (map ?p us @ ?p j # map ?p vs)" "distinct (map ?p us @ ?p j # map ?p vs)"
        using ch [OF assms(2)] pdist by (simp_all add: spl)
      from chain_remove [OF this(1) _ this(2)] False True show ?thesis by (simp add: last_map)
    next
      case ne: False
      have "?p ?u \<notin> set (map ?p (L i))"
      proof
        assume "?p ?u \<in> set (map ?p (L i))"
        then obtain x where x: "x \<in> set (L i)" "?p ?u = ?p x" by auto
        with block_below(1) [OF ok i, of x] lt [OF u] page_addr_eq_iff [OF r, of ?u x] have "x = ?u" by simp
        moreover have "mset (L ord) = add_mset ?u (mset (remove1 ?u (L ord)))" using u by simp
        from blocks_apart [OF ok assms(2) this i, of x] x(1) ne have "x \<noteq> ?u" by simp
        ultimately show False by simp
      qed
      with ch [OF i] ne show ?thesis by (simp add: chain_upd del: fun_upd_apply add: fun_upd_other)
    qed
    with r ok' have "buddy_rep n (L(ord := us @ vs)) (ba, ?mem)" by (simp add: buddy_rep_def)
    moreover have "links_only (ba_start_addr ba) (pages_of L) mem ?mem"
      by (rule links_only_upd [OF block_below(2) [OF ok assms(2) u]])
    ultimately show ?thesis using False walk rem by simp
  qed
qed

section \<open>Coalescing\<close>

lemma xor_disjoint:
  assumes "2 ^ ord dvd k" and "m < 2 ^ ord"
  shows "k XOR m = k + (m :: nat)"
proof -
  obtain q where k: "k = push_bit ord q" using assms(1) by (auto simp: push_bit_eq_mult ac_simps elim: dvdE)
  have "m = take_bit ord m" using assms(2) by (simp add: take_bit_nat_eq_self)
  then have "bit m i \<Longrightarrow> i < ord" for i by (metis bit_take_bit_iff)
  then have apart: "\<not> bit k i \<or> \<not> bit m i" for i by (auto simp: k bit_push_bit_iff not_le)
  have "k XOR m = k OR m" by (rule bit_eqI) (use apart in \<open>auto simp: bit_xor_iff bit_or_iff\<close>)
  also have "\<dots> = k + m" using apart by (simp add: disjunctive_add)
  finally show ?thesis .
qed

text \<open>The buddy of a block is the other half of the block above it.\<close>

lemma buddy_cases:
  assumes "2 ^ ord dvd k"
  obtains (right) "2 ^ Suc ord dvd k" and "k XOR 2 ^ ord = k + 2 ^ ord"
    | (left) "2 ^ ord \<le> k" and "2 ^ Suc ord dvd k - 2 ^ ord" and "k XOR 2 ^ ord = (k :: nat) - 2 ^ ord"
proof -
  obtain q where k: "k = 2 ^ ord * q" using assms by (elim dvdE)
  have "push_bit ord q XOR push_bit ord 1 = push_bit ord (q XOR 1)" by (simp add: push_bit_xor)
  then have x: "k XOR 2 ^ ord = 2 ^ ord * (q XOR 1)" by (simp add: k push_bit_eq_mult ac_simps)
  show ?thesis
  proof (cases "even q")
    case True
    then have "q XOR 1 = q + 1" using xor_one_eq [of q] by simp
    with x have "k XOR 2 ^ ord = k + 2 ^ ord" by (simp add: k)
    with True show ?thesis by (intro right) (simp_all add: k)
  next
    case False
    then have "q XOR 1 = q - 1" "0 < q" "even (q - 1)" using xor_one_eq [of q] by (simp_all add: odd_pos)
    moreover from this have "k - 2 ^ ord = 2 ^ ord * (q - 1)" by (simp add: k diff_mult_distrib2)
    moreover have "2 ^ ord \<le> k" using \<open>0 < q\<close> by (simp add: k)
    ultimately show ?thesis using x by (intro left) simp_all
  qed
qed

lemma buddy_addr_eq:
  "start + ((page_addr start k - start) XOR (of_nat m * PAGE_SIZE)) = page_addr start (k XOR m)"
proof -
  have "push_bit 12 k XOR push_bit 12 m = push_bit 12 (k XOR m)" by (simp add: push_bit_xor)
  then have "(k * 4096) XOR (m * 4096) = (k XOR m) * 4096" by (simp add: push_bit_eq_mult)
  then have "(of_nat (k * 4096) :: u64) XOR of_nat (m * 4096) = of_nat ((k XOR m) * 4096)"
    by (metis of_nat_xor_eq)
  then show ?thesis by (simp add: page_addr_def)
qed

lemma merge_pages:
  assumes "2 ^ ord dvd k"
  shows "pages_at ord k + pages_at ord (k XOR 2 ^ ord) = pages_at (Suc ord) (min k (k XOR 2 ^ ord)) \<and>
    2 ^ Suc ord dvd min k (k XOR 2 ^ ord) \<and> k XOR 2 ^ ord \<le> k + 2 ^ ord"
  using assms
proof (cases rule: buddy_cases)
  case right
  then have "min k (k XOR 2 ^ ord) = k" by simp
  with right show ?thesis by (simp only: pages_at_split order_refl)
next
  case left
  then have "min k (k XOR 2 ^ ord) = k - 2 ^ ord" "k - 2 ^ ord + 2 ^ ord = k" by simp_all
  with left show ?thesis by (simp only: pages_at_split add.commute) simp
qed

lemma coalesce_step:
  assumes "start = ba_start_addr ba"
  shows "coalesce ord (of_nat m) (page_addr start k) (ba, mem) =
    (if ord < MAX_ORDER - 1 \<and> free_list ba ord \<noteq> 0
     then case remove_buddy ord (page_addr start (k XOR m)) 0 (free_list ba ord) (ba, mem) of
         None \<Rightarrow> Inl Hang
       | Some None \<Rightarrow> Inr (ord, page_addr start k, ba, mem)
       | Some (Some st) \<Rightarrow>
           coalesce (Suc ord) (of_nat (m * 2)) (min (page_addr start k) (page_addr start (k XOR m))) st
     else Inr (ord, page_addr start k, ba, mem))"
  unfolding coalesce.simps [of ord] Let_def assms [symmetric] buddy_addr_eq of_nat_mult of_nat_numeral by argo

lemma page_absent:
  assumes "buddy_rep n L (ba, mem)" and "ord < MAX_ORDER" and "j \<le> n + 2 ^ 16" and "j \<notin> set (L ord)"
  shows "page_addr (ba_start_addr ba) j \<notin> page_addr (ba_start_addr ba) ` set (L ord)"
proof
  have r: "region_ok ba n" and ok: "lists_ok n L" using assms(1) by (simp_all add: buddy_rep_def)
  assume "page_addr (ba_start_addr ba) j \<in> page_addr (ba_start_addr ba) ` set (L ord)"
  then obtain x where x: "x \<in> set (L ord)" "page_addr (ba_start_addr ba) j = page_addr (ba_start_addr ba) x" by auto
  with block_below(1) [OF ok assms(2), of x] assms(3) page_addr_eq_iff [OF r, of j x] have "j = x" by simp
  with x(1) assms(4) show False by simp
qed

lemma coalesce_rep:
  assumes "buddy_rep n L (ba, mem)" and "ord < MAX_ORDER" and "2 ^ ord dvd k"
    and "pages_at ord k + pages_of L \<subseteq># mset [0..<n]" and "start = ba_start_addr ba"
  shows "\<exists>ord' k' st L'. coalesce ord (of_nat (2 ^ ord)) (page_addr start k) (ba, mem) = Inr (ord', page_addr start k', st) \<and>
    buddy_rep n L' st \<and> ba_start_addr (fst st) = start \<and> ord' < MAX_ORDER \<and> 2 ^ ord' dvd k' \<and>
    pages_at ord' k' + pages_of L' = pages_at ord k + pages_of L \<and> links_only start (pages_of L) mem (snd st)"
  using assms
proof (induction "MAX_ORDER - ord" arbitrary: ord k L ba mem)
  case 0
  then show ?case by simp
next
  case (Suc d)
  let ?j = "k XOR 2 ^ ord"
  have stop: ?case if "coalesce ord (of_nat (2 ^ ord)) (page_addr start k) (ba, mem) = Inr (ord, page_addr start k, ba, mem)"
    using that Suc.prems by (intro exI [of _ ord] exI [of _ k] exI [of _ "(ba, mem)"] exI [of _ L]) simp
  have r: "region_ok ba n" using Suc.prems(1) by (simp add: buddy_rep_def)
  note m = merge_pages [OF Suc.prems(3)]
  have kn: "k + 2 ^ ord \<le> n" by (rule block_bound [OF Suc.prems(4)])
  have "(2 :: nat) ^ ord \<le> 2 ^ 16" using Suc.prems(2) by (intro power_increasing) (simp_all add: MAX_ORDER_def)
  then have bnd: "?j \<le> n + 2 ^ 16" "k \<le> n + 2 ^ 16" using m kn by linarith+
  note step = coalesce_step [OF Suc.prems(5), of ord "2 ^ ord" k mem]
  consider (fin) "\<not> (ord < MAX_ORDER - 1 \<and> free_list ba ord \<noteq> 0)"
    | (absent) "ord < MAX_ORDER - 1" "free_list ba ord \<noteq> 0" "?j \<notin> set (L ord)"
    | (found) "ord < MAX_ORDER - 1" "free_list ba ord \<noteq> 0" "?j \<in> set (L ord)" by blast
  then show ?case
  proof cases
    case fin
    show ?thesis by (rule stop) (simp only: step fin if_False)
  next
    case absent
    with page_absent [OF Suc.prems(1,2) bnd(1)] remove_absent [OF Suc.prems(1,2)]
    have "remove_buddy ord (page_addr start ?j) 0 (free_list ba ord) (ba, mem) = Some None" by (simp add: Suc.prems(5))
    with absent show ?thesis by (intro stop, unfold step) simp
  next
    case found
    from remove_present [OF Suc.prems(1,2), of ?j, OF found(3)] Suc.prems(5) obtain ba1 mem1 where
      st: "remove_buddy ord (page_addr start ?j) 0 (free_list ba ord) (ba, mem) = Some (Some (ba1, mem1))"
        "buddy_rep n (L(ord := remove1 ?j (L ord))) (ba1, mem1)" "start = ba_start_addr ba1"
        "links_only start (pages_of L) mem mem1" by (metis fst_conv snd_conv prod.collapse)
    have ms: "mset (L ord) = add_mset ?j (mset (remove1 ?j (L ord)))" using found(3) by simp
    have pg: "pages_of L = pages_at ord ?j + pages_of (L(ord := remove1 ?j (L ord)))"
      by (rule pages_of_pop [OF Suc.prems(2), of L, OF ms])
    have min: "min (page_addr start k) (page_addr start ?j) = page_addr start (min k ?j)"
      using unat_page_addr [OF r bnd(1)] unat_page_addr [OF r bnd(2)] Suc.prems(5)
      by (auto simp: min_def word_le_nat_alt)
    have go: "coalesce ord (of_nat (2 ^ ord)) (page_addr start k) (ba, mem) =
        coalesce (Suc ord) (of_nat (2 ^ Suc ord)) (page_addr start (min k ?j)) (ba1, mem1)"
      using found(1,2) unfolding step st(1) min by (simp add: mult.commute)
    have eq: "pages_at (Suc ord) (min k ?j) + pages_of (L(ord := remove1 ?j (L ord))) = pages_at ord k + pages_of L"
      unfolding pg m [THEN conjunct1, symmetric] add.assoc ..
    have "d = MAX_ORDER - Suc ord" "Suc ord < MAX_ORDER" using Suc.hyps(2) found(1) by auto
    from Suc.hyps(1) [OF this(1) st(2) this(2) m [THEN conjunct2, THEN conjunct1] _ st(3)] Suc.prems(4)
    obtain ord' k' st' L' where
      "coalesce (Suc ord) (of_nat (2 ^ Suc ord)) (page_addr start (min k ?j)) (ba1, mem1) = Inr (ord', page_addr start k', st')"
      "buddy_rep n L' st'" "ba_start_addr (fst st') = start" "ord' < MAX_ORDER" "2 ^ ord' dvd k'"
      "pages_at ord' k' + pages_of L' = pages_at ord k + pages_of L"
      "links_only start (pages_of (L(ord := remove1 ?j (L ord)))) mem1 (snd st')" unfolding eq by blast
    moreover from links_only_trans [OF st(4) this(7) subset_mset.order_refl] have "links_only start (pages_of L) mem (snd st')"
      by (simp add: pg)
    ultimately show ?thesis unfolding go by blast
  qed
qed

section \<open>Freeing\<close>

lemma coalesce_odd_size:
  assumes "buddy_rep n L (ba, mem)" and "ord < MAX_ORDER" and "2 ^ ord dvd k" and "k < n"
    and "0 < m" and "m < 2 ^ ord" and "start = ba_start_addr ba"
  shows "coalesce ord (of_nat m) (page_addr start k) (ba, mem) = Inr (ord, page_addr start k, ba, mem)"
proof -
  have x: "k XOR m = k + m" using assms(3,6) by (rule xor_disjoint)
  have "\<not> 2 ^ ord dvd k + m" using assms(3,5,6) by (metis dvd_add_right_iff nat_dvd_not_less)
  then have "k + m \<notin> set (L ord)" using assms(1,2) by (auto simp: buddy_rep_def lists_ok_def)
  moreover have "(2 :: nat) ^ ord \<le> 2 ^ 16" using assms(2) by (intro power_increasing) (simp_all add: MAX_ORDER_def)
  ultimately have "page_addr start (k XOR m) \<notin> page_addr start ` set (L ord)"
    using page_absent [OF assms(1,2), of "k + m"] assms(4,6) by (simp add: x assms(7))
  with remove_absent [OF assms(1,2)] assms(7)
  have "free_list ba ord \<noteq> 0 \<Longrightarrow> remove_buddy ord (page_addr start (k XOR m)) 0 (free_list ba ord) (ba, mem) = Some None"
    by simp
  then show ?thesis unfolding coalesce_step [OF assms(7)] by simp
qed

lemma is_aligned_page: "is_aligned a PAGE_SIZE \<longleftrightarrow> unat a mod 4096 = 0"
proof -
  have "is_aligned a PAGE_SIZE \<longleftrightarrow> unat a div 4096 * 4096 = unat a"
    by (simp add: is_aligned_def u64_eq_iff_unat unat_pg_round_down_page)
  then show ?thesis by (metis add_cancel_left_right div_mult_mod_eq)
qed

lemma free_run:
  assumes "buddy_rep n L (ba, mem)" and "0 < unat pages" and "unat pages \<le> 2 ^ 15" and "k < n"
  shows "free_pages (page_addr (ba_start_addr ba) k) pages (ba, mem) =
      bindr (coalesce (order pages) (of_nat (unat pages)) (page_addr (ba_start_addr ba) k) (ba, mem))
        (\<lambda>(ord, b, st). Inr (push_block ord b st))"
proof -
  let ?s = "ba_start_addr ba"
  have r: "region_ok ba n" using assms(1) by (simp add: buddy_rep_def)
  have a: "unat (page_addr ?s k) = unat ?s + k * 4096" using unat_page_addr [OF r, of k] assms(4) by simp
  have "\<not> (page_addr ?s k < ?s \<or> ba_end_addr ba \<le> page_addr ?s k)"
    using r assms(4) by (simp add: region_ok_def word_less_nat_alt word_le_nat_alt a)
  moreover have "is_aligned (page_addr ?s k) PAGE_SIZE" using r unfolding is_aligned_page a by (simp add: region_ok_def)
  ultimately show ?thesis unfolding free_pages_def max_pages_less using assms(2,3) by auto
qed

lemma free_rep:
  assumes "buddy_rep n L (ba, mem)" and "0 < unat pages" and "unat pages \<le> 2 ^ 15"
    and "2 ^ order pages dvd k" and "pages_at (order pages) k + pages_of L \<subseteq># mset [0..<n]"
  shows "\<exists>st L'. free_pages (page_addr (ba_start_addr ba) k) pages (ba, mem) = Inr st \<and> buddy_rep n L' st \<and>
    ba_start_addr (fst st) = ba_start_addr ba \<and> pages_of L' = pages_at (order pages) k + pages_of L \<and>
    links_only (ba_start_addr ba) (pages_of L') mem (snd st)"
proof -
  let ?o = "order pages" let ?s = "ba_start_addr ba"
  note ord = order_eq [OF assms(2,3)]
  have o16: "?o < MAX_ORDER" using ord(1) by (simp add: MAX_ORDER_def)
  have kn: "k < n" using page_once(2) [OF assms(5), of k] by simp
  note run = free_run [OF assms(1-3) kn]
  have "\<exists>ord' k' ba' mem' L'. coalesce ?o (of_nat (unat pages)) (page_addr ?s k) (ba, mem) = Inr (ord', page_addr ?s k', ba', mem') \<and>
      buddy_rep n L' (ba', mem') \<and> ba_start_addr ba' = ?s \<and> ord' < MAX_ORDER \<and> 2 ^ ord' dvd k' \<and>
      pages_at ord' k' + pages_of L' = pages_at ?o k + pages_of L \<and> links_only ?s (pages_of L) mem mem'"
  proof (cases "unat pages = 2 ^ ?o")
    case True
    from coalesce_rep [OF assms(1) o16 assms(4,5) refl] show ?thesis unfolding True by (metis fst_conv snd_conv prod.collapse)
  next
    case False
    with ord(3) have "unat pages < 2 ^ ?o" by simp
    from coalesce_odd_size [OF assms(1) o16 assms(4) kn assms(2) this refl] assms(1,4) o16 show ?thesis using links_only_refl by blast
  qed
  then obtain ord' k' ba' mem' L' where co: "coalesce ?o (of_nat (unat pages)) (page_addr ?s k) (ba, mem) = Inr (ord', page_addr ?s k', ba', mem')"
      "buddy_rep n L' (ba', mem')" "ba_start_addr ba' = ?s" "ord' < MAX_ORDER" "2 ^ ord' dvd k'"
      "pages_at ord' k' + pages_of L' = pages_at ?o k + pages_of L" "links_only ?s (pages_of L) mem mem'" by blast
  have sub: "pages_at ord' k' + pages_of L' \<subseteq># mset [0..<n]" unfolding co(6) by (rule assms(5))
  have "buddy_rep n (L'(ord' := k' # L' ord')) (push_block ord' (page_addr ?s k') (ba', mem'))"
    using push_rep [OF co(2,4,5) sub] by (simp add: co(3))
  moreover have "ba_start_addr (fst (push_block ord' (page_addr ?s k') (ba', mem'))) = ?s" using co(3) by (simp add: push_block_def)
  moreover have pg: "pages_of (L'(ord' := k' # L' ord')) = pages_at ?o k + pages_of L"
    unfolding pages_of_push [OF co(4)] by (rule co(6))
  moreover have "k' \<in># pages_at ?o k + pages_of L" unfolding co(6) [symmetric] by (simp add: in_pages_at)
  from links_only_trans [OF co(7) links_only_upd [OF this] _ subset_mset.order_refl]
  have "links_only ?s (pages_of (L'(ord' := k' # L' ord'))) mem (snd (push_block ord' (page_addr ?s k') (ba', mem')))"
    unfolding pg by (simp add: push_block_def)
  ultimately show ?thesis unfolding run co(1) by auto
qed

section \<open>Initialisation\<close>

lemma unat_exp: "c \<le> 16 \<Longrightarrow> unat (push_bit c 1 :: u64) = 2 ^ c"
  using unat_of_nat_u64 [of "2 ^ c"] power_increasing [of c 16 "2 :: nat"] by (simp add: push_bit_eq_mult)

lemma init_shrink_step:
  assumes "region_ok ba n" and "k < n" and "c \<le> 15"
  shows "init_shrink (of_nat n) (ba_end_addr ba) (page_addr (ba_start_addr ba) k) (push_bit c 1) =
    (if n < k + 2 ^ c
     then init_shrink (of_nat n) (ba_end_addr ba) (page_addr (ba_start_addr ba) k) (drop_bit 1 (push_bit c 1))
     else Inr (push_bit c 1))"
proof -
  have c: "(2 :: nat) ^ c \<le> 2 ^ 16" using assms(3) by (intro power_increasing) simp_all
  have n: "n < usize_range" using assms(1) by (simp add: region_ok_def)
  have "of_nat n < (push_bit c 1 :: u64) \<longleftrightarrow> n < 2 ^ c"
    using unat_exp [of c] assms(3) n by (simp add: word_less_nat_alt unat_of_nat_u64)
  moreover have "unat (page_addr (ba_start_addr ba) (k + 2 ^ c)) = unat (ba_start_addr ba) + (k + 2 ^ c) * 4096"
    by (rule unat_page_addr [OF assms(1)]) (use assms(2) c in linarith)
  then have "ba_end_addr ba < page_addr (ba_start_addr ba) (k + 2 ^ c) \<longleftrightarrow> n < k + 2 ^ c"
    using assms(1) by (simp add: word_less_nat_alt region_ok_def) linarith
  moreover have "(push_bit c 1 :: u64) \<noteq> 0" using unat_exp [of c] assms(3) by auto
  ultimately show ?thesis
    unfolding init_shrink.simps [of _ _ _ "push_bit c 1"] page_addr_add by auto
qed

lemma init_shrink_eq:
  assumes "region_ok ba n" and "k < n" and "c \<le> 15"
  shows "\<exists>c' \<le> c. init_shrink (of_nat n) (ba_end_addr ba) (page_addr (ba_start_addr ba) k) (push_bit c 1) = Inr (push_bit c' 1) \<and>
    k + 2 ^ c' \<le> n \<and> (c' < c \<longrightarrow> n < k + 2 ^ Suc c')"
  using assms(3)
proof (induction c)
  case 0
  show ?case using init_shrink_step [OF assms(1,2), of 0] assms(2) by (intro exI [of _ 0]) simp
next
  case (Suc c)
  have "drop_bit 1 (push_bit (Suc c) 1 :: u64) = push_bit c 1"
    by (rule bit_word_eqI) (use Suc.prems in \<open>auto simp: bit_simps\<close>)
  note step = init_shrink_step [OF assms(1,2) Suc.prems, unfolded this]
  show ?case
  proof (cases "n < k + 2 ^ Suc c")
    case True
    have "c \<le> 15" using Suc.prems by simp
    from Suc.IH [OF this] obtain c' where "c' \<le> c"
      "init_shrink (of_nat n) (ba_end_addr ba) (page_addr (ba_start_addr ba) k) (push_bit c 1) = Inr (push_bit c' 1)"
      "k + 2 ^ c' \<le> n" "c' < c \<longrightarrow> n < k + 2 ^ Suc c'" by blast
    with True show ?thesis unfolding step by (intro exI [of _ c']) (cases "c' = c"; simp)
  next
    case False
    then have "k + 2 ^ Suc c \<le> n" by simp
    with False show ?thesis unfolding step by (intro exI [of _ "Suc c"]) simp
  qed
qed

lemma init_loop_rep:
  assumes "buddy_rep n L (ba, mem)" and "start = ba_start_addr ba" and "k \<le> n" and "c \<le> 15" and "2 ^ c dvd k"
    and "pages_of L = mset [0..<k]" and "length (L 0) \<le> 1" and "L 0 \<noteq> [] \<or> c = 0 \<longrightarrow> k = n"
  shows "\<exists>st L'. init_loop (of_nat n) (ba_end_addr ba) (push_bit c 1) (page_addr start k) (ba, mem) = Some (Inr st) \<and>
    buddy_rep n L' st \<and> ba_start_addr (fst st) = start \<and> pages_of L' = mset [0..<n] \<and> length (L' 0) \<le> 1"
  using assms
proof (induction "n - k" arbitrary: L ba mem k c rule: less_induct)
  case less
  have r: "region_ok ba n" using less.prems(1) by (simp add: buddy_rep_def)
  have lt: "page_addr start k < ba_end_addr ba \<longleftrightarrow> k < n"
    using unat_page_addr [OF r, of k] r less.prems(2,3) by (simp add: word_less_nat_alt region_ok_def)
  show ?case
  proof (cases "k < n")
    case False
    with less.prems(3) have "k = n" by simp
    with less.prems lt show ?thesis by (subst init_loop.simps) auto
  next
    case True
    from init_shrink_eq [OF r True less.prems(4)] obtain c' where
      c': "c' \<le> c" "init_shrink (of_nat n) (ba_end_addr ba) (page_addr start k) (push_bit c 1) = Inr (push_bit c' 1)"
        "k + 2 ^ c' \<le> n" "c' < c \<longrightarrow> n < k + 2 ^ Suc c'" using less.prems(2) by metis
    have L0: "L 0 = []" "0 < c" using less.prems(8) True by auto
    have c15: "c' \<le> 15" "c' < MAX_ORDER" using c'(1) less.prems(4) by (simp_all add: MAX_ORDER_def)
    have nz: "(push_bit c' 1 :: u64) \<noteq> 0" using unat_exp [of c'] c15(1) by auto
    have dv: "2 ^ c' dvd k" using less.prems(5) c'(1) by (rule power_le_dvd)
    have tz: "trailing_zeros (push_bit c' 1) = c'" using c15(1) by (intro trailing_zeros_exp) simp
    have pg: "pages_at c' k + pages_of L = mset [0..<k + 2 ^ c']"
      unfolding less.prems(6) pages_at_def upt_add_eq_append [OF le0] by simp
    have sub: "pages_at c' k + pages_of L \<subseteq># mset [0..<n]"
      unfolding pg using upt_add_eq_append [of 0 "k + 2 ^ c'" "n - (k + 2 ^ c')"] c'(3) by simp
    let ?L = "L(c' := k # L c')"
    obtain ba1 mem1 where st: "push_block c' (page_addr start k) (ba, mem) = (ba1, mem1)" by (metis prod.exhaust)
    have b1: "start = ba_start_addr ba1" "ba_end_addr ba1 = ba_end_addr ba" using st less.prems(2) by (auto simp: push_block_def)
    have rep: "buddy_rep n ?L (ba1, mem1)" using push_rep [OF less.prems(1) c15(2) dv sub] st less.prems(2) by simp
    have go: "init_loop (of_nat n) (ba_end_addr ba) (push_bit c 1) (page_addr start k) (ba, mem) =
        init_loop (of_nat n) (ba_end_addr ba1) (push_bit c' 1) (page_addr start (k + 2 ^ c')) (ba1, mem1)"
      unfolding init_loop.simps [of _ _ "push_bit c 1"] page_addr_add c'(2) b1(2) using lt True nz
      by (simp add: tz st page_addr_add del: push_bit_of_1 PAGE_SIZE_eq)
    show ?thesis unfolding go
    proof (rule less.hyps [OF _ rep b1(1) c'(3) c15(1)])
      show "n - (k + 2 ^ c') < n - k" using True by (simp add: diff_less_mono2)
      show "2 ^ c' dvd k + 2 ^ c'" using dv by simp
      show "pages_of ?L = mset [0..<k + 2 ^ c']" unfolding pages_of_push [OF c15(2)] by (rule pg)
      show "length (?L 0) \<le> 1" using L0 by simp
      show "?L 0 \<noteq> [] \<or> c' = 0 \<longrightarrow> k + 2 ^ c' = n" using L0 c'(3,4) by (cases "c' = 0") auto
    qed
  qed
qed

text \<open>The region that \<open>init\<close> manages: whole pages between the two addresses.\<close>

definition region_start :: "u64 \<Rightarrow> nat" where
  "region_start start_addr = (unat start_addr + 4095) div 4096"

definition region_pages :: "u64 \<Rightarrow> u64 \<Rightarrow> nat" where
  "region_pages start_addr end_addr = unat end_addr div 4096 - region_start start_addr"

lemma empty_rep:
  assumes "region_ok ba n" and "ba_free_lists ba = replicate MAX_ORDER 0"
  shows "buddy_rep n (\<lambda>_. []) (ba, mem)"
  using assms by (simp add: buddy_rep_def lists_ok_def pages_of_def)

lemma init_rep:
  assumes "ba_free_lists ba = replicate MAX_ORDER 0" and "0 < unat start_addr"
    and "0 < region_pages start_addr end_addr" and "unat end_addr < 2 ^ 63"
  shows "\<exists>st L. buddy_init start_addr end_addr (ba, mem) = Inr st \<and> buddy_rep (region_pages start_addr end_addr) L st \<and>
    unat (ba_start_addr (fst st)) = region_start start_addr * 4096 \<and>
    pages_of L = mset [0..<region_pages start_addr end_addr] \<and> length (L 0) \<le> 1"
proof -
  let ?n = "region_pages start_addr end_addr"
  let ?s = "pg_round_up start_addr PAGE_SIZE" and ?e = "pg_round_down end_addr PAGE_SIZE"
  let ?ba = "ba\<lparr>ba_start_addr := ?s, ba_end_addr := ?e\<rparr>"
  have lt: "region_start start_addr < unat end_addr div 4096" using assms(3) by (simp add: region_pages_def)
  have e: "unat ?e = unat end_addr div 4096 * 4096" by (simp add: unat_pg_round_down_page)
  have "unat start_addr + 4095 < unat end_addr + 4096" using lt unfolding region_start_def by linarith
  then have s: "unat ?s = region_start start_addr * 4096"
    using unat_pg_round_up [of start_addr 12] assms(4) by (simp add: region_start_def)
  have es: "unat ?e = unat ?s + ?n * 4096" unfolding e s region_pages_def using lt by (simp add: diff_mult_distrib)
  have se: "?s < ?e" using es assms(3) by (simp add: word_less_nat_alt)
  have "unat (?e - ?s) = ?n * 4096" using es se by (simp add: unat_sub_u64 order_less_imp_le)
  then have "unat ((?e - ?s) div PAGE_SIZE) = ?n" by (simp add: unat_div)
  then have pg: "(?e - ?s) div PAGE_SIZE = of_nat ?n" by (metis word_unat_eq_iff unat_of_nat_u64 unat_u64_less)
  have r: "region_ok ?ba ?n"
    using assms(1,2,4) es s e by (simp add: region_ok_def region_start_def) linarith
  have "buddy_rep ?n (\<lambda>_. []) (?ba, mem)" by (rule empty_rep [OF r]) (simp add: assms(1))
  from init_loop_rep [OF this refl, of 0 15] obtain st L where
    st: "init_loop (of_nat ?n) ?e (push_bit 15 1) ?s (?ba, mem) = Some (Inr st)" "buddy_rep ?n L st"
      "ba_start_addr (fst st) = ?s" "pages_of L = mset [0..<?n]" "length (L 0) \<le> 1" by (auto simp: pages_of_def page_addr_def)
  have "buddy_init start_addr end_addr (ba, mem) = Inr st"
    unfolding buddy_init_def prod.case Let_def pg using se st(1) by (simp add: MAX_ORDER_def)
  with st s show ?thesis by metis
qed

section \<open>Writes of the owner of a frame\<close>

lemma write_rep:
  assumes "buddy_rep n L (ba, mem)" and "k < n" and "k \<notin># pages_of L"
    and "w = page_addr (ba_start_addr ba) k + of_nat off" and "off < 4096"
  shows "buddy_rep n L (ba, mem(w := v))"
proof -
  have r: "region_ok ba n" and ok: "lists_ok n L" using assms(1) by (simp_all add: buddy_rep_def)
  have "unat w = unat (ba_start_addr ba) + k * 4096 + off"
  proof -
    have "unat (page_addr (ba_start_addr ba) k) = unat (ba_start_addr ba) + k * 4096"
      using unat_page_addr [OF r, of k] assms(2) by simp
    moreover have "unat (ba_start_addr ba) + k * 4096 + off < usize_range"
      using r assms(2,5) by (simp add: region_ok_def)
    ultimately show ?thesis unfolding assms(4) using assms(5) by (simp add: unat_add_u64 unat_of_nat_u64)
  qed
  then have "page_addr (ba_start_addr ba) x = w \<Longrightarrow> x = k" if "x < n" for x
    using unat_page_addr [OF r, of x] that assms(5) by simp
  then have "w \<notin> set (map (page_addr (ba_start_addr ba)) (L ord))" if "ord < MAX_ORDER" for ord
    using block_below [OF ok that] assms(3) by fastforce
  with assms(1) show ?thesis by (simp add: buddy_rep_def chain_upd del: fun_upd_apply)
qed

end
