(* ===== verification/Frames.thy ===== *)
theory Frames
  imports Buddy_Correct
begin

text \<open>
  The contract of \<open>FrameAllocator\<close> (\<open>kernel/src/mem/allocator/mod.rs\<close>) and what its clients
  may rely on. A client allocates blocks of pages, writes into the blocks it holds and
  gives them back in any order. The locale \<open>frame_source\<close> states the laws of the two trait
  methods over the multiset of free pages; the behaviour of whole client runs is proved
  from the laws alone, and the buddy allocator is shown to have them.
\<close>

section \<open>Client runs\<close>

text \<open>
  A state of a run: the allocator with the memory, and the blocks the clients hold, each
  with its address and the number of pages that was asked for. Clients store aligned
  words.
\<close>

inductive frame_step ::
  "(u64 \<Rightarrow> 's \<Rightarrow> u64 option \<times> 's) \<Rightarrow> (u64 \<Rightarrow> u64 \<Rightarrow> 's \<Rightarrow> 's result) \<Rightarrow> (u64 \<Rightarrow> u64 \<Rightarrow> 's \<Rightarrow> 's) \<Rightarrow>
   's \<times> (u64 \<times> u64) list \<Rightarrow> 's \<times> (u64 \<times> u64) list \<Rightarrow> bool"
  for alloc release store where
  step_alloc: "alloc p s = (Some a, s') \<Longrightarrow> frame_step alloc release store (s, A) (s', (a, p) # A)"
| step_refuse: "alloc p s = (None, s') \<Longrightarrow> frame_step alloc release store (s, A) (s', A)"
| step_free: "(a, p) \<in> set A \<Longrightarrow> release a p s = Inr s' \<Longrightarrow>
    frame_step alloc release store (s, A) (s', remove1 (a, p) A)"
| step_store: "(a, p) \<in> set A \<Longrightarrow> unat a \<le> unat w \<Longrightarrow> unat w < unat a + unat p * 4096 \<Longrightarrow> unat w mod 8 = 0 \<Longrightarrow>
    frame_step alloc release store (s, A) (store w v s, A)"

inductive_cases frame_stepE [consumes 1, case_names step_alloc step_refuse step_free step_store]: "frame_step alloc release store (s, A) t"

text \<open>The blocks \<open>ks\<close> of pages behind the addresses the clients hold.\<close>

definition held_pages :: "(nat \<times> u64) list \<Rightarrow> nat multiset" where
  "held_pages ks = sum_list (map (\<lambda>(k, p). pages_at (order p) k) ks)"

definition block_ok :: "nat \<times> u64 \<Rightarrow> bool" where
  "block_ok = (\<lambda>(k, p). 0 < unat p \<and> unat p \<le> 2 ^ 15 \<and> 2 ^ order p dvd k)"

lemma held_pages_simps [simp]:
  "held_pages [] = {#}" "held_pages ((k, p) # ks) = pages_at (order p) k + held_pages ks"
  by (simp_all add: held_pages_def)

lemma held_pages_remove1: "(k, p) \<in> set ks \<Longrightarrow> held_pages ks = pages_at (order p) k + held_pages (remove1 (k, p) ks)"
  by (induction ks) (auto simp: held_pages_def)

lemma map_remove1_inj: "inj_on f (set xs) \<Longrightarrow> x \<in> set xs \<Longrightarrow> map f (remove1 x xs) = remove1 (f x) (map f xs)"
  by (induction xs) (auto simp: inj_on_def)

section \<open>The contract\<close>

locale frame_source =
  fixes alloc :: "u64 \<Rightarrow> 's \<Rightarrow> u64 option \<times> 's"
    and release :: "u64 \<Rightarrow> u64 \<Rightarrow> 's \<Rightarrow> 's result"
    and load :: "u64 \<Rightarrow> 's \<Rightarrow> u64"
    and store :: "u64 \<Rightarrow> u64 \<Rightarrow> 's \<Rightarrow> 's"
    and base :: nat
    and n :: nat
    and inv :: "nat multiset \<Rightarrow> 's \<Rightarrow> bool"
  assumes region: "inv F s \<Longrightarrow> base + n * 4096 < 2 ^ 63"
    and alloc_some: "inv F s \<Longrightarrow> alloc p s = (Some a, s') \<Longrightarrow>
      \<exists>k F'. unat a = base + k * 4096 \<and> block_ok (k, p) \<and> F = pages_at (order p) k + F' \<and> inv F' s'"
    and alloc_none: "inv F s \<Longrightarrow> alloc p s = (None, s') \<Longrightarrow> s' = s"
    and release_ok: "inv F s \<Longrightarrow> block_ok (k, p) \<Longrightarrow> pages_at (order p) k + F \<subseteq># mset [0..<n] \<Longrightarrow> unat a = base + k * 4096 \<Longrightarrow>
      \<exists>s'. release a p s = Inr s' \<and> inv (pages_at (order p) k + F) s'"
    and store_ok: "inv F s \<Longrightarrow> k < n \<Longrightarrow> k \<notin># F \<Longrightarrow> base + k * 4096 \<le> unat w \<Longrightarrow> unat w < base + Suc k * 4096 \<Longrightarrow>
      inv F (store w v s)"
    and alloc_keeps: "inv F s \<Longrightarrow> alloc p s = (Some a, s') \<Longrightarrow> \<forall>k \<in># F. unat w \<noteq> base + k * 4096 \<Longrightarrow> load w s' = load w s"
    and release_keeps: "inv F s \<Longrightarrow> block_ok (k, p) \<Longrightarrow> pages_at (order p) k + F \<subseteq># mset [0..<n] \<Longrightarrow> unat a = base + k * 4096 \<Longrightarrow>
      release a p s = Inr s' \<Longrightarrow> \<forall>k \<in># pages_at (order p) k + F. unat w \<noteq> base + k * 4096 \<Longrightarrow> load w s' = load w s"
begin

text \<open>The invariant of a run: the held blocks and the free pages make up the region.\<close>

definition run_inv :: "(nat \<times> u64) list \<Rightarrow> 's \<times> (u64 \<times> u64) list \<Rightarrow> bool" where
  "run_inv ks t \<longleftrightarrow> (\<exists>F. inv F (fst t) \<and> held_pages ks + F = mset [0..<n]) \<and>
     list_all block_ok ks \<and> map (\<lambda>(a, p). (unat a, p)) (snd t) = map (\<lambda>(k, p). (base + k * 4096, p)) ks"

lemma held_block:
  assumes "run_inv ks (s, A)" and "(a, p) \<in> set A"
  obtains k where "(k, p) \<in> set ks" and "unat a = base + k * 4096"
proof -
  have "(unat a, p) \<in> set (map (\<lambda>(a, p). (unat a, p)) A)" using assms(2) by force
  moreover have "map (\<lambda>(a, p). (unat a, p)) A = map (\<lambda>(k, p). (base + k * 4096, p)) ks" using assms(1) by (simp add: run_inv_def)
  ultimately have "(unat a, p) \<in> set (map (\<lambda>(k, p). (base + k * 4096, p)) ks)" by (simp only:)
  then obtain k where "(k, p) \<in> set ks" "unat a = base + k * 4096" by auto
  then show ?thesis by (rule that)
qed

lemma release_held:
  assumes "run_inv ks (s, A)" and "(k, p) \<in> set ks" and "unat a = base + k * 4096"
  shows "\<exists>s'. release a p s = Inr s' \<and> run_inv (remove1 (k, p) ks) (s', remove1 (a, p) A)"
proof -
  obtain F where F: "inv F s" "held_pages ks + F = mset [0..<n]" using assms(1) by (auto simp: run_inv_def)
  have ok: "list_all block_ok ks" and A: "map (\<lambda>(a, p). (unat a, p)) A = map (\<lambda>(k, p). (base + k * 4096, p)) ks"
    using assms(1) by (simp_all add: run_inv_def)
  have b: "block_ok (k, p)" using ok assms(2) by (auto simp: list_all_iff)
  have pg: "held_pages (remove1 (k, p) ks) + (pages_at (order p) k + F) = mset [0..<n]"
    using F(2) held_pages_remove1 [OF assms(2)] by (simp add: ac_simps)
  then have "pages_at (order p) k + F \<subseteq># mset [0..<n]" by (metis mset_subset_eq_add_right)
  from release_ok [OF F(1) b this assms(3)] obtain s' where
    s': "release a p s = Inr s'" "inv (pages_at (order p) k + F) s'" by blast
  have "(unat a, p) \<in> set (map (\<lambda>(a, p). (unat a, p)) A)" unfolding A using assms(2,3) by force
  then have mem: "(a, p) \<in> set A" by (auto simp: u64_eq_iff_unat [symmetric])
  have i1: "inj_on (\<lambda>(a, p). (unat a, p)) (set A)" and i2: "inj_on (\<lambda>(k, p). (base + k * 4096, p)) (set ks)"
    by (auto simp: inj_on_def u64_eq_iff_unat)
  have "map (\<lambda>(a, p). (unat a, p)) (remove1 (a, p) A) = remove1 (unat a, p) (map (\<lambda>(a, p). (unat a, p)) A)"
    using map_remove1_inj [OF i1 mem] by simp
  also have "\<dots> = map (\<lambda>(k, p). (base + k * 4096, p)) (remove1 (k, p) ks)"
    unfolding A using map_remove1_inj [OF i2 assms(2)] by (simp add: assms(3))
  finally have A': "map (\<lambda>(a, p). (unat a, p)) (remove1 (a, p) A) = map (\<lambda>(k, p). (base + k * 4096, p)) (remove1 (k, p) ks)" .
  have "list_all block_ok (remove1 (k, p) ks)" using ok by (auto simp: list_all_iff dest: notin_set_remove1)
  with s' pg A' show ?thesis by (auto simp: run_inv_def)
qed

lemma held_word:
  assumes "run_inv ks (s, A)" and "(a, p) \<in> set A" and "unat a \<le> unat w" and "unat w < unat a + unat p * 4096"
    and "held_pages ks + F = mset [0..<n]"
  obtains j where "j < n" and "j \<notin># F" and "base + j * 4096 \<le> unat w" and "unat w < base + Suc j * 4096"
proof -
  from held_block [OF assms(1,2)] obtain k where k: "(k, p) \<in> set ks" "unat a = base + k * 4096" .
  have b: "block_ok (k, p)" using assms(1) k(1) by (auto simp: run_inv_def list_all_iff)
  define j where "j = (unat w - base) div 4096"
  have jw: "base + j * 4096 \<le> unat w" "unat w < base + Suc j * 4096"
    using assms(3) k(2) unfolding j_def mult_Suc by linarith+
  have "k \<le> j" "j < k + unat p" using jw assms(3,4) k(2) unfolding mult_Suc by linarith+
  moreover have "unat p \<le> 2 ^ order p" using b order_eq(3) [of p] by (simp add: block_ok_def)
  ultimately have j: "k \<le> j" "j < k + 2 ^ order p" by linarith+
  have "pages_at (order p) k + (held_pages (remove1 (k, p) ks) + F) = mset [0..<n]"
    using assms(5) held_pages_remove1 [OF k(1)] by (simp add: ac_simps)
  then have sub: "pages_at (order p) k + (held_pages (remove1 (k, p) ks) + F) \<subseteq># mset [0..<n]" by simp
  from page_once [OF sub j] have "j \<notin># F" "j < n" by simp_all
  with jw show ?thesis by (intro that)
qed

lemma page_start_only:
  assumes "j \<notin># F" and "base + j * 4096 \<le> unat w" and "unat w < base + Suc j * 4096"
  shows "\<forall>k \<in># F. unat w \<noteq> base + k * 4096"
proof
  fix k assume "k \<in># F"
  show "unat w \<noteq> base + k * 4096"
  proof
    assume "unat w = base + k * 4096"
    with assms(2,3) have "k = j" unfolding mult_Suc by linarith
    with \<open>k \<in># F\<close> assms(1) show False by simp
  qed
qed

lemma step_inv:
  assumes "run_inv ks t" and "frame_step alloc release store t t'"
  shows "\<exists>ks'. run_inv ks' t'"
proof (cases t)
  case t: (Pair s A)
  obtain F where F: "inv F s" "held_pages ks + F = mset [0..<n]" using assms(1) by (auto simp: run_inv_def t)
  from assms(2) [unfolded t] show ?thesis
  proof (cases rule: frame_stepE)
    case (step_alloc p a s')
    from alloc_some [OF F(1) step_alloc(2)] obtain k F' where
      k: "unat a = base + k * 4096" "block_ok (k, p)" "F = pages_at (order p) k + F'" "inv F' s'" by blast
    have "held_pages ((k, p) # ks) + F' = mset [0..<n]" using F(2) k(3) by (simp add: ac_simps)
    with k assms(1) have "run_inv ((k, p) # ks) t'" unfolding step_alloc(1) t by (auto simp: run_inv_def)
    then show ?thesis ..
  next
    case (step_refuse p s')
    with assms(1) alloc_none [OF F(1) step_refuse(2)] t show ?thesis by auto
  next
    case (step_free a p s')
    from assms(1) t have r: "run_inv ks (s, A)" by simp
    from held_block [OF r step_free(2)] obtain k where k: "(k, p) \<in> set ks" "unat a = base + k * 4096" .
    from release_held [OF r k] step_free show ?thesis by auto
  next
    case (step_store a p w v)
    from assms(1) t have r: "run_inv ks (s, A)" by simp
    from held_word [OF r step_store(2-4) F(2)] obtain j where
      j: "j < n" "j \<notin># F" "base + j * 4096 \<le> unat w" "unat w < base + Suc j * 4096" .
    from store_ok [OF F(1) j] F(2) r show ?thesis unfolding step_store(1) by (auto simp: run_inv_def)
  qed
qed

lemma run_inv_reachable:
  assumes "inv (mset [0..<n]) s" and "(frame_step alloc release store)\<^sup>*\<^sup>* (s, []) t"
  shows "\<exists>ks. run_inv ks t"
  using assms(2)
proof (induction rule: rtranclp_induct)
  case base
  from assms(1) have "run_inv [] (s, [])" by (simp add: run_inv_def)
  then show ?case ..
next
  case (step t t')
  then show ?case using step_inv by blast
qed

text \<open>What a client sees of the invariant.\<close>

lemma step_keeps:
  assumes "run_inv ks (s, A)" and "frame_step alloc release (\<lambda>_ _ s. s) (s, A) (s', A')"
    and "(a, p) \<in> set A" and "(a, p) \<in> set A'" and "unat a \<le> unat w" and "unat w < unat a + unat p * 4096"
  shows "load w s' = load w s"
proof -
  obtain F where F: "inv F s" "held_pages ks + F = mset [0..<n]" using assms(1) by (auto simp: run_inv_def)
  from assms(2) show ?thesis
  proof (cases rule: frame_stepE)
    case (step_alloc q b)
    from held_word [OF assms(1,3,5,6) F(2)] page_start_only have "\<forall>k \<in># F. unat w \<noteq> base + k * 4096" by metis
    with alloc_keeps [OF F(1)] step_alloc show ?thesis by auto
  next
    case (step_refuse q)
    with alloc_none [OF F(1)] show ?thesis by auto
  next
    case (step_free b q)
    from held_block [OF assms(1) step_free(2)] obtain k where k: "(k, q) \<in> set ks" "unat b = base + k * 4096" .
    from release_held [OF assms(1) k] step_free have r: "run_inv (remove1 (k, q) ks) (s', remove1 (b, q) A)" by auto
    have pg: "held_pages (remove1 (k, q) ks) + (pages_at (order q) k + F) = mset [0..<n]"
      using F(2) held_pages_remove1 [OF k(1)] by (simp add: ac_simps)
    then have sub: "pages_at (order q) k + F \<subseteq># mset [0..<n]" by (metis mset_subset_eq_add_right)
    have "(a, p) \<in> set (remove1 (b, q) A)" using assms(4) step_free by simp
    from held_word [OF r this assms(5,6) pg] page_start_only have "\<forall>j \<in># pages_at (order q) k + F. unat w \<noteq> base + j * 4096" by metis
    moreover have "block_ok (k, q)" using assms(1) k(1) by (auto simp: run_inv_def list_all_iff)
    ultimately show ?thesis using release_keeps [OF F(1) _ sub k(2)] step_free by auto
  qed auto
qed

lemma held_in_region:
  assumes "run_inv ks (s, A)" and "(a, p) \<in> set A"
  shows "base \<le> unat a \<and> unat a + unat p * 4096 \<le> base + n * 4096 \<and> (unat a - base) mod (2 ^ order p * 4096) = 0"
proof -
  obtain F where F: "held_pages ks + F = mset [0..<n]" using assms(1) by (auto simp: run_inv_def)
  from held_block [OF assms] obtain k where k: "(k, p) \<in> set ks" "unat a = base + k * 4096" .
  have b: "block_ok (k, p)" using assms(1) k(1) by (auto simp: run_inv_def list_all_iff)
  have "pages_at (order p) k + (held_pages (remove1 (k, p) ks) + F) = mset [0..<n]"
    using F held_pages_remove1 [OF k(1)] by (simp add: ac_simps)
  then have "pages_at (order p) k + (held_pages (remove1 (k, p) ks) + F) \<subseteq># mset [0..<n]" by simp
  from block_bound [OF this] have "k + 2 ^ order p \<le> n" .
  moreover have "unat p \<le> 2 ^ order p" using b order_eq(3) [of p] by (simp add: block_ok_def)
  ultimately have "k + unat p \<le> n" by linarith
  moreover have "(k * 4096) mod (2 ^ order p * 4096) = 0" using b by (simp add: block_ok_def mod_mult_mult2)
  ultimately show ?thesis by (simp add: k(2))
qed

lemma held_apart:
  assumes "run_inv ks (s, A)" and "i < j" and "j < length A" and "A ! i = (a, p)" and "A ! j = (b, q)"
  shows "unat a + unat p * 4096 \<le> unat b \<or> unat b + unat q * 4096 \<le> unat a"
proof -
  obtain F where F: "held_pages ks + F = mset [0..<n]" using assms(1) by (auto simp: run_inv_def)
  have A: "map (\<lambda>(a, p). (unat a, p)) A = map (\<lambda>(k, p). (base + k * 4096, p)) ks"
    using assms(1) by (simp add: run_inv_def)
  have len: "length A = length ks" using arg_cong [OF A, of length] by simp
  obtain k p' l q' where kl: "ks ! i = (k, p')" "ks ! j = (l, q')" by (metis prod.exhaust)
  have "map (\<lambda>(a, p). (unat a, p)) A ! i = map (\<lambda>(k, p). (base + k * 4096, p)) ks ! i"
    "map (\<lambda>(a, p). (unat a, p)) A ! j = map (\<lambda>(k, p). (base + k * 4096, p)) ks ! j" by (simp_all only: A)
  then have ab: "unat a = base + k * 4096" "p' = p" "unat b = base + l * 4096" "q' = q"
    using assms(2-5) kl len by auto
  have ok: "block_ok (k, p)" "block_ok (l, q)"
    using assms(1-3) kl ab len nth_mem [of i ks] nth_mem [of j ks] by (auto simp: run_inv_def list_all_iff)
  have p: "unat p \<le> 2 ^ order p" "0 < unat p" "unat q \<le> 2 ^ order q" "0 < unat q"
    using ok order_eq(3) by (auto simp: block_ok_def)
  have "ks = take i ks @ (k, p) # drop (Suc i) ks" using id_take_nth_drop [of i ks] assms(2,3) len kl ab by simp
  then have "held_pages ks = pages_at (order p) k + (held_pages (take i ks) + held_pages (drop (Suc i) ks))"
    by (metis (no_types, lifting) held_pages_def held_pages_simps(2) map_append sum_list_append add.left_commute)
  with F have sub: "pages_at (order p) k + (held_pages (take i ks) + held_pages (drop (Suc i) ks) + F) \<subseteq># mset [0..<n]"
    by (simp add: ac_simps)
  have "(l, q) \<in> set (drop (Suc i) ks)"
    using assms(2,3) len kl ab by (auto simp: in_set_conv_nth intro!: exI [of _ "j - Suc i"])
  from held_pages_remove1 [OF this] have "x \<in># pages_at (order q) l \<Longrightarrow> x \<in># held_pages (drop (Suc i) ks)" for x by auto
  then have no: "x \<in># pages_at (order q) l \<Longrightarrow> \<not> (k \<le> x \<and> x < k + 2 ^ order p)" for x
    using page_once(1) [OF sub, of x] by auto
  have "k + unat p \<le> l \<or> l + unat q \<le> k"
  proof (cases "k \<le> l")
    case True
    with no [of l] p show ?thesis by (simp add: in_pages_at)
  next
    case False
    then have "\<not> k < l + 2 ^ order q" using no [of k] by (auto simp: in_pages_at)
    with p show ?thesis by linarith
  qed
  then show ?thesis unfolding ab by linarith
qed

lemma held_released:
  assumes "run_inv ks (s, A)" and "(a, p) \<in> set A"
  shows "\<exists>s'. release a p s = Inr s'"
  using held_block [OF assms] release_held [OF assms(1)] by metis

lemma run_inv_size:
  assumes "run_inv ks (s, A)"
  shows "\<exists>F. inv F s \<and> size F + (\<Sum>(a, p) \<leftarrow> A. 2 ^ order p) = n \<and> (A = [] \<longrightarrow> F = mset [0..<n])"
proof -
  obtain F where F: "inv F s" "held_pages ks + F = mset [0..<n]" using assms by (auto simp: run_inv_def)
  have A: "map (\<lambda>(a, p). (unat a, p)) A = map (\<lambda>(k, p). (base + k * 4096, p)) ks" using assms by (simp add: run_inv_def)
  have "map snd A = map snd ks" using arg_cong [OF A, of "map snd"] by (simp add: comp_def case_prod_beta)
  then have "map (\<lambda>(a, p). (2 :: nat) ^ order p) A = map (\<lambda>(k, p). 2 ^ order p) ks"
    using map_map [of "\<lambda>p. (2 :: nat) ^ order p" snd A] map_map [of "\<lambda>p. (2 :: nat) ^ order p" snd ks]
    by (simp add: comp_def case_prod_unfold)
  moreover have "size (held_pages ks) = (\<Sum>(k, p) \<leftarrow> ks. 2 ^ order p)"
    by (induction ks) (auto simp: pages_at_def)
  moreover have "size (held_pages ks) + size F = n" using arg_cong [OF F(2), of size] by simp
  moreover have "A = [] \<Longrightarrow> F = mset [0..<n]" using A F(2) by simp
  ultimately show ?thesis using F(1) by (metis add.commute)
qed

end

section \<open>The buddy allocator keeps the contract\<close>

definition store_word :: "u64 \<Rightarrow> u64 \<Rightarrow> buddy \<times> memory \<Rightarrow> buddy \<times> memory" where
  "store_word w v = (\<lambda>(ba, mem). (ba, mem(w := v)))"

definition load_word :: "u64 \<Rightarrow> buddy \<times> memory \<Rightarrow> u64" where
  "load_word w = (\<lambda>(ba, mem). mem w)"

definition buddy_inv :: "nat \<Rightarrow> nat \<Rightarrow> nat multiset \<Rightarrow> buddy \<times> memory \<Rightarrow> bool" where
  "buddy_inv base n F st \<longleftrightarrow> unat (ba_start_addr (fst st)) = base \<and> (\<exists>L. buddy_rep n L st \<and> pages_of L = F)"

lemma alloc_pages_bounds:
  assumes "alloc_pages p st = (Some a, st')"
  shows "0 < unat p" and "unat p \<le> 2 ^ 15"
proof -
  have "p \<noteq> 0" "\<not> push_bit (MAX_ORDER - 1) 1 < p" using assms by (auto simp: alloc_pages_def simp del: push_bit_of_1 split: prod.splits if_splits)
  then show "0 < unat p" "unat p \<le> 2 ^ 15" unfolding max_pages_less by (simp_all add: unat_gt_0 not_less)
qed

lemma buddy_alloc_some:
  assumes "buddy_inv base n F st" and "alloc_pages p st = (Some a, st')"
  shows "\<exists>k F'. unat a = base + k * 4096 \<and> block_ok (k, p) \<and> F = pages_at (order p) k + F' \<and> buddy_inv base n F' st'"
proof (cases st)
  case (Pair ba mem)
  with assms(1) obtain L where L: "buddy_rep n L (ba, mem)" "pages_of L = F" "unat (ba_start_addr ba) = base"
    by (auto simp: buddy_inv_def)
  note p = alloc_pages_bounds [OF assms(2)]
  from alloc_rep [OF L(1) p] assms(2) Pair obtain k L' where
    k: "a = page_addr (ba_start_addr ba) k" "buddy_rep n L' st'" "ba_start_addr (fst st') = ba_start_addr ba"
      "2 ^ order p dvd k" "pages_of L = pages_at (order p) k + pages_of L'" by auto
  have r: "region_ok ba n" and sub: "pages_at (order p) k + pages_of L' \<subseteq># mset [0..<n]"
    using L(1) k(5) by (auto simp: buddy_rep_def lists_ok_def)
  have "unat a = base + k * 4096" using unat_page_addr [OF r, of k] block_bound [OF sub] k(1) L(3) by simp
  with k p L show ?thesis by (auto simp: block_ok_def buddy_inv_def)
qed

lemma buddy_alloc_none:
  assumes "buddy_inv base n F st" and "alloc_pages p st = (None, st')"
  shows "st' = st"
proof (cases st)
  case (Pair ba mem)
  with assms(1) obtain L where L: "buddy_rep n L (ba, mem)" by (auto simp: buddy_inv_def)
  show ?thesis
  proof (cases "0 < unat p \<and> unat p \<le> 2 ^ 15")
    case True
    with alloc_rep [OF L, of p] assms(2) Pair show ?thesis by auto
  next
    case False
    then have "p = 0 \<or> push_bit (MAX_ORDER - 1) 1 < p" unfolding max_pages_less by (auto simp: unat_eq_0)
    with assms(2) Pair show ?thesis by (auto simp: alloc_pages_def simp del: push_bit_of_1 One_nat_def split: if_splits)
  qed
qed

lemma buddy_release:
  assumes "buddy_inv base n F st" and "block_ok (k, p)" and "pages_at (order p) k + F \<subseteq># mset [0..<n]"
    and "unat a = base + k * 4096"
  shows "\<exists>st'. free_pages a p st = Inr st' \<and> buddy_inv base n (pages_at (order p) k + F) st'"
proof (cases st)
  case (Pair ba mem)
  with assms(1) obtain L where L: "buddy_rep n L (ba, mem)" "pages_of L = F" "unat (ba_start_addr ba) = base"
    by (auto simp: buddy_inv_def)
  have r: "region_ok ba n" using L(1) by (simp add: buddy_rep_def)
  have "a = page_addr (ba_start_addr ba) k"
    using unat_page_addr [OF r, of k] block_bound [OF assms(3)] assms(4) L(3) by (simp add: u64_eq_iff_unat)
  with free_rep [OF L(1), of p k] assms(2,3) L Pair show ?thesis by (auto simp: block_ok_def buddy_inv_def)
qed

lemma buddy_store:
  assumes "buddy_inv base n F st" and "k < n" and "k \<notin># F" and "base + k * 4096 \<le> unat w" and "unat w < base + Suc k * 4096"
  shows "buddy_inv base n F (store_word w v st)"
proof (cases st)
  case (Pair ba mem)
  with assms(1) obtain L where L: "buddy_rep n L (ba, mem)" "pages_of L = F" "unat (ba_start_addr ba) = base"
    by (auto simp: buddy_inv_def)
  have r: "region_ok ba n" using L(1) by (simp add: buddy_rep_def)
  define off where "off = unat w - (base + k * 4096)"
  have off: "off < 4096" "unat w = base + k * 4096 + off" using assms(4,5) unfolding off_def mult_Suc by linarith+
  have p: "unat (page_addr (ba_start_addr ba) k) = base + k * 4096" using unat_page_addr [OF r, of k] assms(2) L(3) by simp
  have "unat (page_addr (ba_start_addr ba) k + of_nat off) = unat w"
    using off unat_u64_less [of w] by (subst unat_add_u64) (simp_all add: unat_of_nat_u64 p)
  then have "w = page_addr (ba_start_addr ba) k + of_nat off" by (simp add: u64_eq_iff_unat)
  from write_rep [OF L(1) assms(2) _ this off(1)] assms(3) L Pair show ?thesis
    by (auto simp: buddy_inv_def store_word_def)
qed

lemma links_only_word:
  assumes "region_ok ba n" and "F \<subseteq># mset [0..<n]" and "links_only (ba_start_addr ba) F mem mem'"
    and "\<forall>k \<in># F. unat w \<noteq> unat (ba_start_addr ba) + k * 4096"
  shows "mem' w = mem w"
proof -
  have "w \<noteq> page_addr (ba_start_addr ba) k" if "k \<in># F" for k
  proof -
    have "k \<in># mset [0..<n]" using assms(2) that by (rule mset_subset_eqD)
    with unat_page_addr [OF assms(1), of k] assms(4) that show ?thesis by auto
  qed
  with assms(3) show ?thesis by (simp add: links_only_def)
qed

lemma buddy_alloc_keeps:
  assumes "buddy_inv base n F st" and "alloc_pages p st = (Some a, st')" and "\<forall>k \<in># F. unat w \<noteq> base + k * 4096"
  shows "load_word w st' = load_word w st"
proof (cases st)
  case (Pair ba mem)
  with assms(1) obtain L where L: "buddy_rep n L (ba, mem)" "pages_of L = F" "unat (ba_start_addr ba) = base"
    by (auto simp: buddy_inv_def)
  from alloc_rep [OF L(1) alloc_pages_bounds [OF assms(2)]] assms(2) Pair
  have "links_only (ba_start_addr ba) F mem (snd st')" by (auto simp: L(2))
  with links_only_word [of ba n F mem "snd st'" w] L assms(3) Pair show ?thesis
    by (auto simp: buddy_rep_def lists_ok_def load_word_def case_prod_unfold)
qed

lemma buddy_release_keeps:
  assumes "buddy_inv base n F st" and "block_ok (k, p)" and "pages_at (order p) k + F \<subseteq># mset [0..<n]"
    and "unat a = base + k * 4096" and "free_pages a p st = Inr st'"
    and "\<forall>k \<in># pages_at (order p) k + F. unat w \<noteq> base + k * 4096"
  shows "load_word w st' = load_word w st"
proof (cases st)
  case (Pair ba mem)
  with assms(1) obtain L where L: "buddy_rep n L (ba, mem)" "pages_of L = F" "unat (ba_start_addr ba) = base"
    by (auto simp: buddy_inv_def)
  have r: "region_ok ba n" using L(1) by (simp add: buddy_rep_def)
  have "a = page_addr (ba_start_addr ba) k"
    using unat_page_addr [OF r, of k] block_bound [OF assms(3)] assms(4) L(3) by (simp add: u64_eq_iff_unat)
  with free_rep [OF L(1), of p k] assms(2,3,5) L Pair
  have "links_only (ba_start_addr ba) (pages_at (order p) k + F) mem (snd st')" by (auto simp: block_ok_def)
  with links_only_word [OF r assms(3), of mem "snd st'" w] L assms(6) Pair show ?thesis
    by (auto simp: load_word_def case_prod_unfold)
qed

interpretation bfr: frame_source alloc_pages free_pages load_word store_word base n "buddy_inv base n" for base n
proof
  show "buddy_inv base n F s \<Longrightarrow> base + n * 4096 < 2 ^ 63" for F s
    by (auto simp: buddy_inv_def buddy_rep_def region_ok_def)
qed (fact buddy_alloc_some buddy_alloc_none buddy_release buddy_store buddy_alloc_keeps buddy_release_keeps)+

lemma init_inv:
  assumes "ba_free_lists ba = replicate MAX_ORDER 0" and "0 < unat start_addr"
    and "0 < region_pages start_addr end_addr" and "unat end_addr < 2 ^ 63"
  shows "\<exists>st. buddy_init start_addr end_addr (ba, mem) = Inr st \<and>
    buddy_inv (region_start start_addr * 4096) (region_pages start_addr end_addr) (mset [0..<region_pages start_addr end_addr]) st"
  using init_rep [OF assms, of mem] by (auto simp: buddy_inv_def)

section \<open>Pairs of pages that can be had\<close>

text \<open>The number of blocks of two pages that the free lists above order 0 can be split into.\<close>

definition list_len :: "memory \<Rightarrow> u64 \<Rightarrow> nat" where
  "list_len mem p = (THE m. \<exists>xs. chain mem p xs \<and> length xs = m)"

definition pairs :: "buddy \<times> memory \<Rightarrow> nat" where
  "pairs st = (\<Sum>ord = 1..<MAX_ORDER. 2 ^ (ord - 1) * list_len (snd st) (free_list (fst st) ord))"

lemma chain_unique: "chain mem p xs \<Longrightarrow> chain mem p ys \<Longrightarrow> xs = ys"
proof (induction xs arbitrary: p ys)
  case Nil
  then show ?case by (cases ys) auto
next
  case (Cons x xs)
  then show ?case by (cases ys) auto
qed

lemma list_len: "chain mem p xs \<Longrightarrow> list_len mem p = length xs"
  unfolding list_len_def by (rule the_equality) (use chain_unique in blast)+

lemma size_pages_of: "size (pages_of L) = (\<Sum>ord < MAX_ORDER. 2 ^ ord * length (L ord))"
proof -
  have "size (\<Sum>k \<in># M. pages_at ord k) = 2 ^ ord * size M" for ord M
    by (induction M) (simp_all add: pages_at_def)
  then show ?thesis unfolding pages_of_def by simp
qed

lemma pairs_size:
  assumes "buddy_rep n L st"
  shows "2 * pairs st + length (L 0) = size (pages_of L)"
proof -
  have len: "list_len (snd st) (free_list (fst st) ord) = length (L ord)" if "ord < MAX_ORDER" for ord
    using assms that list_len [of "snd st"] by (auto simp: buddy_rep_def)
  have "2 * pairs st = (\<Sum>ord = 1..<MAX_ORDER. 2 ^ ord * length (L ord))"
    unfolding pairs_def sum_distrib_left
  proof (rule sum.cong [OF refl])
    fix ord assume "ord \<in> {1..<MAX_ORDER}"
    then show "2 * (2 ^ (ord - 1) * list_len (snd st) (free_list (fst st) ord)) = 2 ^ ord * length (L ord)"
      using len [of ord] by (cases ord) simp_all
  qed
  moreover have "{..<MAX_ORDER} = insert 0 {1..<MAX_ORDER}" by (auto simp: MAX_ORDER_def)
  ultimately show ?thesis by (simp add: size_pages_of)
qed

lemma buddy_alloc_pairs:
  assumes "buddy_inv base n F st" and "alloc_pages 2 st = (r, st')"
  shows "pairs st = (case r of None \<Rightarrow> 0 | Some a \<Rightarrow> Suc (pairs st'))"
proof -
  obtain ba mem where st: "st = (ba, mem)" by (cases st)
  with assms(1) obtain L where L: "buddy_rep n L (ba, mem)" "pages_of L = F" by (auto simp: buddy_inv_def)
  have o: "order 2 = 1" by code_simp
  have "unat (2 :: u64) = 2" by simp
  note al = alloc_rep [OF L(1), of 2, unfolded assms(2) [unfolded st] prod.case o this]
  show ?thesis
  proof (cases r)
    case None
    with al have "L ord = []" if "1 \<le> ord" "ord < MAX_ORDER" for ord using that by simp
    then have "list_len mem (free_list ba ord) = 0" if "1 \<le> ord" "ord < MAX_ORDER" for ord
      using that L(1) list_len [of mem "free_list ba ord" "[]"] by (fastforce simp: buddy_rep_def)
    with None show ?thesis by (simp add: pairs_def st)
  next
    case (Some a)
    with al obtain k L' where "buddy_rep n L' st'" "pages_of L = pages_at 1 k + pages_of L'" "L' 0 = L 0" by auto
    with pairs_size [OF L(1)] pairs_size [of n L' st'] Some show ?thesis by (simp add: st pages_at_def)
  qed
qed

lemma init_pairs:
  assumes "ba_free_lists ba = replicate MAX_ORDER 0" and "0 < unat start_addr"
    and "0 < region_pages start_addr end_addr" and "unat end_addr < 2 ^ 63" and "buddy_init start_addr end_addr (ba, mem) = Inr st"
  shows "region_pages start_addr end_addr \<le> 2 * pairs st + 1"
proof -
  from init_rep [OF assms(1-4), of mem] assms(5) obtain L where
    "buddy_rep (region_pages start_addr end_addr) L st" "pages_of L = mset [0..<region_pages start_addr end_addr]" "length (L 0) \<le> 1" by auto
  with pairs_size [of _ L st] show ?thesis by (metis add_left_mono length_upt minus_nat.diff_0 size_mset)
qed

section \<open>Properties of the frame allocator\<close>

text \<open>
  C17: Initialisation gives every whole page of the region to the free lists exactly once,
  for any region below \<open>2 ^ 63\<close> that has a page: \<open>init\<close> returns, neither loop runs on.
\<close>

theorem init_frees_every_page:
  assumes "0 < unat start_addr" and "0 < region_pages start_addr end_addr" and "unat end_addr < 2 ^ 63"
  shows "\<exists>st. buddy_init start_addr end_addr (buddy_new, mem) = Inr st \<and>
    buddy_inv (region_start start_addr * 4096) (region_pages start_addr end_addr) (mset [0..<region_pages start_addr end_addr]) st"
  by (rule init_inv [OF _ assms]) (simp add: buddy_new_def)

theorem init_frees_every_page_witness:
  "\<exists>st. buddy_init 0x80210000 0x80218000 (buddy_new, \<lambda>_. 0) = Inr st \<and> buddy_inv 0x80210000 8 (mset [0..<8]) st"
  using init_frees_every_page [of "0x80210000" "0x80218000" "\<lambda>_. 0"] by (simp add: region_pages_def region_start_def)

text \<open>
  C9: No two blocks share memory. However clients allocate, write into their blocks and
  free them, from initialisation on, the blocks held at any moment lie inside the region,
  are aligned to their size relative to its start, and are pairwise disjoint; and neither
  an allocation nor a free changes a word of a block that stays held.
\<close>

theorem frames_never_shared:
  assumes "0 < unat start_addr" and "0 < region_pages start_addr end_addr" and "unat end_addr < 2 ^ 63"
    and "buddy_init start_addr end_addr (buddy_new, mem) = Inr st"
    and "(frame_step alloc_pages free_pages store_word)\<^sup>*\<^sup>* (st, []) (s, A)"
  shows "(\<forall>(a, p) \<in> set A. region_start start_addr * 4096 \<le> unat a \<and> unat a + unat p * 4096 \<le> unat end_addr \<and>
      (unat a - region_start start_addr * 4096) mod (2 ^ order p * 4096) = 0) \<and>
    (\<forall>i j a p b q. i < j \<and> j < length A \<and> A ! i = (a, p) \<and> A ! j = (b, q) \<longrightarrow>
      unat a + unat p * 4096 \<le> unat b \<or> unat b + unat q * 4096 \<le> unat a) \<and>
    (\<forall>s' A' a p w. frame_step alloc_pages free_pages (\<lambda>_ _ s. s) (s, A) (s', A') \<and> (a, p) \<in> set A \<and> (a, p) \<in> set A' \<and>
      unat a \<le> unat w \<and> unat w < unat a + unat p * 4096 \<longrightarrow> load_word w s' = load_word w s)"
proof -
  let ?n = "region_pages start_addr end_addr" and ?b = "region_start start_addr * 4096"
  have "buddy_inv ?b ?n (mset [0..<?n]) st"
    using init_inv [of buddy_new, OF _ assms(1-3), of mem] assms(4) by (auto simp: buddy_new_def)
  from bfr.run_inv_reachable [OF this assms(5)] obtain ks where ks: "bfr.run_inv ?b ?n ks (s, A)" ..
  have "?b + ?n * 4096 \<le> unat end_addr" using assms(2) unfolding region_pages_def by linarith
  with bfr.held_in_region [OF ks]
  have "\<forall>(a, p) \<in> set A. ?b \<le> unat a \<and> unat a + unat p * 4096 \<le> unat end_addr \<and> (unat a - ?b) mod (2 ^ order p * 4096) = 0"
    by fastforce
  with bfr.held_apart [OF ks] bfr.step_keeps [OF ks] show ?thesis by blast
qed

lemma demo_allocs:
  "case buddy_init 0x80210000 0x80218000 (buddy_new, \<lambda>_. 0) of Inl e \<Rightarrow> False
   | Inr st \<Rightarrow> fst (alloc_pages 3 st) = Some 0x80210000 \<and>
       fst (alloc_pages 2 (snd (alloc_pages 3 st))) = Some 0x80214000 \<and>
       fst (alloc_pages 4 (snd (alloc_pages 2 (snd (alloc_pages 3 st))))) = None"
  by code_simp

lemma demo_run:
  obtains st s1 s2 where "buddy_init 0x80210000 0x80218000 (buddy_new, \<lambda>_. 0) = Inr st"
    and "alloc_pages 3 st = (Some 0x80210000, s1)" and "alloc_pages 2 s1 = (Some 0x80214000, s2)"
proof (cases "buddy_init 0x80210000 0x80218000 (buddy_new, \<lambda>_. 0)")
  case (Inr st)
  with demo_allocs have "alloc_pages 3 st = (Some 0x80210000, snd (alloc_pages 3 st))"
    "alloc_pages 2 (snd (alloc_pages 3 st)) = (Some 0x80214000, snd (alloc_pages 2 (snd (alloc_pages 3 st))))"
    by (simp_all add: prod_eq_iff)
  with Inr that show ?thesis by blast
qed (use demo_allocs in simp)

lemma demo_reachable:
  assumes "alloc_pages 3 st = (Some 0x80210000, s1)" and "alloc_pages 2 s1 = (Some 0x80214000, s2)"
  shows "(frame_step alloc_pages free_pages store_word)\<^sup>*\<^sup>* (st, [])
    (store_word 0x80210008 7 s2, [(0x80214000, 2), (0x80210000, 3)])"
proof -
  let ?R = "frame_step alloc_pages free_pages store_word"
  have "?R (st, []) (s1, [(0x80210000, 3)])" by (rule step_alloc) (rule assms(1))
  moreover have "?R (s1, [(0x80210000, 3)]) (s2, [(0x80214000, 2), (0x80210000, 3)])" by (rule step_alloc) (rule assms(2))
  moreover have "?R (s2, [(0x80214000, 2), (0x80210000, 3)])
      (store_word 0x80210008 7 s2, [(0x80214000, 2), (0x80210000, 3)])" by (rule step_store [of "0x80210000" 3]) simp_all
  ultimately show ?thesis by (meson converse_rtranclp_into_rtranclp r_into_rtranclp)
qed

theorem frames_never_shared_witness:
  "\<exists>st s. buddy_init 0x80210000 0x80218000 (buddy_new, \<lambda>_. 0) = Inr st \<and>
    (frame_step alloc_pages free_pages store_word)\<^sup>*\<^sup>* (st, []) (s, [(0x80214000, 2), (0x80210000, 3)]) \<and>
    unat (0x80210000 :: u64) + unat (3 :: u64) * 4096 \<le> unat (0x80214000 :: u64)"
proof -
  obtain st s1 s2 where d: "buddy_init 0x80210000 0x80218000 (buddy_new, \<lambda>_. 0) = Inr st"
    "alloc_pages 3 st = (Some 0x80210000, s1)" "alloc_pages 2 s1 = (Some 0x80214000, s2)" by (rule demo_run)
  note r = demo_reachable [OF d(2,3)]
  have "0 < region_pages 0x80210000 0x80218000" by (simp add: region_pages_def region_start_def)
  from frames_never_shared [OF _ this _ d(1) r, THEN conjunct2, THEN conjunct1, THEN spec, of 0, THEN spec, of 1]
  have "unat (0x80210000 :: u64) + unat (3 :: u64) * 4096 \<le> unat (0x80214000 :: u64)" by simp
  with d(1) r show ?thesis by blast
qed

text \<open>
  C11: No page is lost. In every reachable state the free pages and the pages of the held
  blocks, each rounded up to a power of two, make up the region; freeing a held block
  always returns; and when nothing is held, every page is free again.
\<close>

theorem frames_conserved:
  assumes "0 < unat start_addr" and "0 < region_pages start_addr end_addr" and "unat end_addr < 2 ^ 63"
    and "buddy_init start_addr end_addr (buddy_new, mem) = Inr st"
    and "(frame_step alloc_pages free_pages store_word)\<^sup>*\<^sup>* (st, []) (s, A)"
  shows "(\<exists>F. buddy_inv (region_start start_addr * 4096) (region_pages start_addr end_addr) F s \<and>
      size F + (\<Sum>(a, p) \<leftarrow> A. 2 ^ order p) = region_pages start_addr end_addr \<and>
      (A = [] \<longrightarrow> F = mset [0..<region_pages start_addr end_addr])) \<and>
    (\<forall>(a, p) \<in> set A. \<exists>s'. free_pages a p s = Inr s')"
proof -
  let ?n = "region_pages start_addr end_addr" and ?b = "region_start start_addr * 4096"
  have "buddy_inv ?b ?n (mset [0..<?n]) st"
    using init_inv [of buddy_new, OF _ assms(1-3), of mem] assms(4) by (auto simp: buddy_new_def)
  from bfr.run_inv_reachable [OF this assms(5)] obtain ks where ks: "bfr.run_inv ?b ?n ks (s, A)" ..
  from bfr.run_inv_size [OF ks] bfr.held_released [OF ks] show ?thesis by auto
qed

theorem frames_conserved_witness:
  "\<exists>st s F. buddy_init 0x80210000 0x80218000 (buddy_new, \<lambda>_. 0) = Inr st \<and>
    (frame_step alloc_pages free_pages store_word)\<^sup>*\<^sup>* (st, []) (s, [(0x80214000, 2), (0x80210000, 3)]) \<and>
    buddy_inv 0x80210000 8 F s \<and> size F = 2 \<and> (\<exists>s'. free_pages 0x80210000 3 s = Inr s')"
proof -
  obtain st s1 s2 where d: "buddy_init 0x80210000 0x80218000 (buddy_new, \<lambda>_. 0) = Inr st"
    "alloc_pages 3 st = (Some 0x80210000, s1)" "alloc_pages 2 s1 = (Some 0x80214000, s2)" by (rule demo_run)
  note r = demo_reachable [OF d(2,3)]
  have o: "order 2 = 1" "order 3 = 2" by code_simp+
  from frames_conserved [OF _ _ _ d(1) r] o
  have "\<exists>F. buddy_inv 0x80210000 8 F (store_word 0x80210008 7 s2) \<and> size F = 2"
    "\<exists>s'. free_pages 0x80210000 3 (store_word 0x80210008 7 s2) = Inr s'" by (simp_all add: region_pages_def region_start_def)
  with d(1) r show ?thesis by blast
qed

text \<open>
  C18: An allocation fails only for want of a block: for a request of 1 to \<open>2 ^ 15\<close> pages
  \<open>alloc_pages\<close> returns a block exactly when one of the lists from the order of the request
  upwards has one, and a refused request changes nothing.
\<close>

theorem alloc_succeeds_iff:
  assumes "buddy_rep n L st" and "0 < unat p" and "unat p \<le> 2 ^ 15"
  shows "((\<exists>a st'. alloc_pages p st = (Some a, st')) \<longleftrightarrow> (\<exists>ord. order p \<le> ord \<and> ord < MAX_ORDER \<and> L ord \<noteq> [])) \<and>
    (\<forall>st'. alloc_pages p st = (None, st') \<longrightarrow> st' = st)"
proof (cases st)
  case (Pair ba mem)
  have rep: "buddy_rep n L (ba, mem)" using assms(1) Pair by simp
  let ?o = "order p"
  have al: "alloc_pages p st = (case find (\<lambda>k. free_list ba k \<noteq> 0) [?o..<MAX_ORDER] of
      None \<Rightarrow> (None, st) | Some k \<Rightarrow> split_block k ?o st)"
    unfolding alloc_pages_def Let_def max_pages_less order_def [symmetric] Pair using assms(2,3) by auto
  show ?thesis
  proof (cases "find (\<lambda>k. free_list ba k \<noteq> 0) [?o..<MAX_ORDER]")
    case None
    then have "\<forall>ord. ?o \<le> ord \<and> ord < MAX_ORDER \<longrightarrow> L ord = []" using rep_head [OF rep] by (auto simp: find_None_iff)
    then show ?thesis unfolding al None by auto
  next
    case (Some b)
    then have b: "?o \<le> b" "b < MAX_ORDER" "free_list ba b \<noteq> 0" by (auto simp: find_Some_iff)
    then have "alloc_pages p st = (Some (free_list ba b), split_loop b (free_list ba b) ?o
        (set_free_list b (mem (free_list ba b)) ba, mem))" unfolding al Some by (simp add: Pair split_block_def Let_def)
    then show ?thesis using b rep_head [OF rep b(2)] by auto
  qed
qed

theorem alloc_succeeds_iff_witness:
  "\<exists>L st. buddy_rep 8 L st \<and> (\<exists>a st'. alloc_pages 3 st = (Some a, st')) \<and>
    (\<exists>ord. order 3 \<le> ord \<and> ord < MAX_ORDER \<and> L ord \<noteq> [])"
proof -
  obtain st s1 s2 where d: "buddy_init 0x80210000 0x80218000 (buddy_new, \<lambda>_. 0) = Inr st"
    "alloc_pages 3 st = (Some 0x80210000, s1)" "alloc_pages 2 s1 = (Some 0x80214000, s2)" by (rule demo_run)
  have "\<exists>L. buddy_rep 8 L st"
    using init_inv [of buddy_new "0x80210000" "0x80218000" "\<lambda>_. 0"] d(1)
    by (auto simp: buddy_new_def region_pages_def region_start_def buddy_inv_def)
  then obtain L where L: "buddy_rep 8 L st" ..
  from alloc_succeeds_iff [OF L, of 3] d(2) have "\<exists>ord. order 3 \<le> ord \<and> ord < MAX_ORDER \<and> L ord \<noteq> []" by auto
  with d(2) L show ?thesis by blast
qed

text \<open>
  C40: A block whose requested size is not a power of two is never merged when it is freed.
  \<open>free_pages\<close> computes the buddy with the requested number of pages instead of the size of
  the block, so the buddy is never found, even when it is free.
\<close>

theorem odd_sizes_never_merge:
  assumes "buddy_rep n L (ba, mem)" and "0 < unat p" and "unat p \<le> 2 ^ 15" and "unat p \<noteq> 2 ^ order p"
    and "2 ^ order p dvd k" and "pages_at (order p) k + pages_of L \<subseteq># mset [0..<n]"
  shows "free_pages (page_addr (ba_start_addr ba) k) p (ba, mem) =
    Inr (push_block (order p) (page_addr (ba_start_addr ba) k) (ba, mem))"
proof -
  note ord = order_eq [OF assms(2,3)]
  have o16: "order p < MAX_ORDER" using ord(1) by (simp add: MAX_ORDER_def)
  have kn: "k < n" using page_once(2) [OF assms(6), of k] by simp
  have lt: "unat p < 2 ^ order p" using ord(3) assms(4) by simp
  show ?thesis unfolding free_run [OF assms(1-3) kn]
    coalesce_odd_size [OF assms(1) o16 assms(5) kn assms(2) lt refl] by simp
qed

lemma demo_half_free:
  obtains L ba mem where "buddy_rep 8 L (ba, mem)" and "ba_start_addr ba = 0x80210000" and "L 2 = [4]"
    and "pages_of L = pages_at 2 4"
proof -
  let ?ba = "\<lparr>ba_free_lists = replicate MAX_ORDER 0, ba_start_addr = 0x80210000, ba_end_addr = 0x80218000\<rparr>"
  have e: "buddy_rep 8 (\<lambda>_. []) (?ba, \<lambda>_. 0)" by (rule empty_rep) (simp_all add: region_ok_def)
  have none: "pages_of (\<lambda>_. []) = {#}" by (simp add: pages_of_def)
  have sub: "pages_at 2 4 + pages_of (\<lambda>_. []) \<subseteq># mset [0..<8]" unfolding none by code_simp
  have o: "2 < MAX_ORDER" by (simp add: MAX_ORDER_def)
  have "pages_of ((\<lambda>_. [])(2 := [4])) = pages_at 2 4" using pages_of_push [OF o, of "\<lambda>_. []" 4] none by simp
  with push_rep [OF e o _ sub] that [of "(\<lambda>_. [])(2 := [4])"] show ?thesis by (simp add: push_block_def)
qed

theorem odd_sizes_never_merge_witness:
  "\<exists>L ba mem. buddy_rep 8 L (ba, mem) \<and> L 2 = [4] \<and>
    free_pages (page_addr (ba_start_addr ba) 0) 3 (ba, mem) = Inr (push_block 2 (page_addr (ba_start_addr ba) 0) (ba, mem))"
proof -
  obtain L ba mem where d: "buddy_rep 8 L (ba, mem)" "L 2 = [4]" "pages_of L = pages_at 2 4" by (rule demo_half_free)
  have o: "order 3 = 2" by code_simp
  have "pages_at 2 0 + pages_at 2 4 \<subseteq># mset [0..<8]" by code_simp
  with odd_sizes_never_merge [OF d(1), of 3 0] d o show ?thesis by auto
qed

end
