(* ===== verification/Slab.thy ===== *)
theory Slab
  imports Frames
begin

text \<open>
  The slab allocator (\<open>kernel/src/mem/allocator/slab_allocator.rs\<close>) and the global allocator
  on top of it (\<open>kernel/src/mem/allocator/mod.rs\<close>). A slab is two page frames with a header
  of five words at its start: the head of its free list, the first address of its objects
  and the one after the last, the number of objects in use, and the next slab. The
  mutexes around the caches and the frame allocator are taken in one order and never
  twice by one call, so they are not modelled.
\<close>

section \<open>Slab headers\<close>

definition SLAB_PAGES :: u64 where
  "SLAB_PAGES = 2"

definition MAX_SLAB_ORDER :: nat where
  "MAX_SLAB_ORDER = 12"

definition SLAB_HEADER_SIZE :: u64 where
  "SLAB_HEADER_SIZE = 40"

text \<open>The fields of a header in memory.\<close>

abbreviation (input) hdr_free_list :: "u64 \<Rightarrow> u64" where "hdr_free_list slab \<equiv> slab"
abbreviation (input) hdr_object_start :: "u64 \<Rightarrow> u64" where "hdr_object_start slab \<equiv> slab + 8"
abbreviation (input) hdr_object_end :: "u64 \<Rightarrow> u64" where "hdr_object_end slab \<equiv> slab + 16"
abbreviation (input) hdr_active_objects :: "u64 \<Rightarrow> u64" where "hdr_active_objects slab \<equiv> slab + 24"
abbreviation (input) hdr_next :: "u64 \<Rightarrow> u64" where "hdr_next slab \<equiv> slab + 32"

text \<open>The loop of \<open>SlabHeader::init\<close>: each object is put in front of the free list.\<close>

primrec init_objects :: "nat \<Rightarrow> u64 \<Rightarrow> u64 \<Rightarrow> memory \<Rightarrow> u64 \<times> memory" where
  "init_objects 0 object_start object_size mem = (0, mem)"
| "init_objects (Suc i) object_start object_size mem =
     (case init_objects i object_start object_size mem of (head, mem) \<Rightarrow>
        let obj = object_start + of_nat i * object_size in (obj, mem(obj := head)))"

definition slab_header_init :: "u64 \<Rightarrow> u64 \<Rightarrow> u64 \<Rightarrow> u64 \<Rightarrow> memory \<Rightarrow> memory" where
  "slab_header_init slab object_start object_size total_objects mem =
     (case init_objects (unat total_objects) object_start object_size mem of (head, mem) \<Rightarrow>
        mem(hdr_free_list slab := head, hdr_next slab := 0, hdr_active_objects slab := 0,
            hdr_object_start slab := object_start,
            hdr_object_end slab := object_start + object_size * total_objects))"

definition slab_header_alloc :: "u64 \<Rightarrow> memory \<Rightarrow> u64 option \<times> memory" where
  "slab_header_alloc slab mem =
     (let node = mem (hdr_free_list slab) in
      if node = 0 then (None, mem)
      else let mem = mem(hdr_free_list slab := mem node) in
        (Some node, mem(hdr_active_objects slab := mem (hdr_active_objects slab) + 1)))"

definition slab_header_free :: "u64 \<Rightarrow> u64 \<Rightarrow> memory \<Rightarrow> memory" where
  "slab_header_free slab obj mem =
     (let mem = mem(obj := mem (hdr_free_list slab));
          mem = mem(hdr_active_objects slab := mem (hdr_active_objects slab) - 1)
      in mem(hdr_free_list slab := obj))"

definition slab_header_contains :: "u64 \<Rightarrow> u64 \<Rightarrow> memory \<Rightarrow> bool" where
  "slab_header_contains slab obj mem \<longleftrightarrow> mem (hdr_object_start slab) \<le> obj \<and> obj < mem (hdr_object_end slab)"

section \<open>Caches of one object size\<close>

record mem_cache =
  mc_object_size :: u64
  mc_align :: u64
  mc_slabs :: u64

definition is_power_of_two :: "u64 \<Rightarrow> bool" where
  "is_power_of_two w \<longleftrightarrow> w \<noteq> 0 \<and> w AND (w - 1) = 0"

definition mem_cache_new :: "u64 \<Rightarrow> u64 \<Rightarrow> mem_cache result" where
  "mem_cache_new object_size align =
     check (is_power_of_two align) (check (align \<le> object_size) (check (8 \<le> object_size) (check (8 \<le> align)
       (Inr \<lparr>mc_object_size = object_size, mc_align = align, mc_slabs = 0\<rparr>))))"

definition alloc_slab :: "mem_cache \<Rightarrow> buddy \<times> memory \<Rightarrow> (u64 option \<times> mem_cache \<times> buddy \<times> memory) result" where
  "alloc_slab mc st =
     (case alloc_pages SLAB_PAGES st of
        (None, st) \<Rightarrow> Inr (None, mc, st)
      | (Some page, (ba, mem)) \<Rightarrow>
          let object_start = pg_round_up (page + SLAB_HEADER_SIZE) (mc_align mc);
              object_end = page + SLAB_PAGES * PAGE_SIZE in
          check (object_start < object_end)
            (check (mc_object_size mc \<noteq> 0)
              (let mem = slab_header_init page object_start (mc_object_size mc)
                           ((object_end - object_start) div mc_object_size mc) mem;
                   mem = mem(hdr_next page := mc_slabs mc)
               in Inr (Some page, mc\<lparr>mc_slabs := page\<rparr>, ba, mem))))"

text \<open>The walk over the slabs to the first one with a free object; \<open>None\<close> when it never ends.\<close>

partial_function (option) slab_search :: "u64 \<Rightarrow> memory \<Rightarrow> u64 option option" where
  "slab_search current_slab mem =
     (if current_slab = 0 then Some None
      else if mem (hdr_free_list current_slab) \<noteq> 0 then Some (Some current_slab)
      else slab_search (mem (hdr_next current_slab)) mem)"

partial_function (option) mem_cache_alloc ::
  "mem_cache \<Rightarrow> buddy \<times> memory \<Rightarrow> (u64 option \<times> mem_cache \<times> buddy \<times> memory) result option" where
  "mem_cache_alloc mc st =
     (case slab_search (mc_slabs mc) (snd st) of
        None \<Rightarrow> None
      | Some (Some slab) \<Rightarrow>
          (case slab_header_alloc slab (snd st) of (obj, mem) \<Rightarrow> Some (Inr (obj, mc, fst st, mem)))
      | Some None \<Rightarrow>
          (case alloc_slab mc st of
             Inl e \<Rightarrow> Some (Inl e)
           | Inr (None, mc, st) \<Rightarrow> Some (Inr (None, mc, st))
           | Inr (Some page, mc, st) \<Rightarrow> mem_cache_alloc mc st))"

text \<open>
  The search of \<open>free_slab\<close> for the predecessor of the slab. The loop body declares a second
  \<open>slab_ptr\<close>, which hides the parameter, so what it looks for is a slab that is its own
  successor.
\<close>

partial_function (option) unlink_walk :: "u64 \<Rightarrow> memory \<Rightarrow> memory option" where
  "unlink_walk current_slab mem =
     (if current_slab = 0 then Some mem
      else if mem (hdr_next current_slab) = current_slab
      then Some (mem(hdr_next current_slab :=
             (if mem (hdr_next current_slab) \<noteq> 0 then mem (hdr_next (mem (hdr_next current_slab))) else 0)))
      else unlink_walk (mem (hdr_next current_slab)) mem)"

definition free_slab :: "u64 \<Rightarrow> mem_cache \<Rightarrow> buddy \<times> memory \<Rightarrow> (mem_cache \<times> buddy \<times> memory) result" where
  "free_slab slab mc st =
     bindr (free_pages slab SLAB_PAGES st) (\<lambda>(ba, mem).
       if mc_slabs mc = slab then Inr (mc\<lparr>mc_slabs := mem (hdr_next slab)\<rparr>, ba, mem)
       else case unlink_walk (mc_slabs mc) mem of
           None \<Rightarrow> Inl Hang
         | Some mem \<Rightarrow> Inr (mc, ba, mem))"

partial_function (option) mem_cache_free_loop ::
  "u64 \<Rightarrow> u64 \<Rightarrow> mem_cache \<Rightarrow> buddy \<times> memory \<Rightarrow> (mem_cache \<times> buddy \<times> memory) result option" where
  "mem_cache_free_loop obj current_slab mc st =
     (if current_slab = 0 then Some (Inr (mc, st))
      else if slab_header_contains current_slab obj (snd st) then
        let mem = slab_header_free current_slab obj (snd st) in
        if mem (hdr_active_objects current_slab) = 0 then Some (free_slab current_slab mc (fst st, mem))
        else Some (Inr (mc, fst st, mem))
      else mem_cache_free_loop obj (snd st (hdr_next current_slab)) mc st)"

definition mem_cache_free :: "u64 \<Rightarrow> mem_cache \<Rightarrow> buddy \<times> memory \<Rightarrow> (mem_cache \<times> buddy \<times> memory) result option" where
  "mem_cache_free obj mc st = mem_cache_free_loop obj (mc_slabs mc) mc st"

declare slab_search.simps [code] mem_cache_alloc.simps [code] unlink_walk.simps [code] mem_cache_free_loop.simps [code]

section \<open>The slab allocator\<close>

type_synonym slab_state = "mem_cache list \<times> buddy \<times> memory"

text \<open>A loop that does not end is a hang of the call.\<close>

definition run_loop :: "'a result option \<Rightarrow> 'a result" where
  "run_loop r = (case r of None \<Rightarrow> Inl Hang | Some r \<Rightarrow> r)"

definition cache_sizes :: "u64 list" where
  "cache_sizes = [8, 8, 8, 8, 16, 32, 64, 128, 256, 512, 1024, 2048, 4096]"

primrec caches_new :: "u64 list \<Rightarrow> mem_cache list result" where
  "caches_new [] = Inr []"
| "caches_new (s # ss) = bindr (mem_cache_new s s) (\<lambda>c. bindr (caches_new ss) (\<lambda>cs. Inr (c # cs)))"

definition slab_allocator_new :: "mem_cache list result" where
  "slab_allocator_new = caches_new cache_sizes"

definition slab_alloc :: "nat \<Rightarrow> slab_state \<Rightarrow> (u64 option \<times> slab_state) result" where
  "slab_alloc ord = (\<lambda>(caches, st).
     check (ord \<le> MAX_SLAB_ORDER) (check (ord < length caches)
       (bindr (run_loop (mem_cache_alloc (caches ! ord) st)) (\<lambda>(obj, mc, st). Inr (obj, caches[ord := mc], st)))))"

definition slab_free :: "nat \<Rightarrow> u64 \<Rightarrow> slab_state \<Rightarrow> slab_state result" where
  "slab_free ord obj = (\<lambda>(caches, st).
     check (ord \<le> MAX_SLAB_ORDER) (check (ord < length caches)
       (bindr (run_loop (mem_cache_free obj (caches ! ord) st)) (\<lambda>(mc, st). Inr (caches[ord := mc], st)))))"

section \<open>The global allocator\<close>

text \<open>A null pointer is 0; the assertion fails on a block that is not aligned as asked.\<close>

definition global_alloc :: "u64 \<Rightarrow> u64 \<Rightarrow> slab_state \<Rightarrow> (u64 \<times> slab_state) result" where
  "global_alloc sz align = (\<lambda>(caches, st).
     bindr (if MAX_SLAB_ORDER < order sz
            then (case alloc_pages ((sz + (PAGE_SIZE - 1)) div PAGE_SIZE) st of (r, st) \<Rightarrow> Inr (r, caches, st))
            else slab_alloc (order sz) (caches, st))
       (\<lambda>(r, s). let result = (case r of None \<Rightarrow> 0 | Some a \<Rightarrow> a) in
          if result \<noteq> 0 then check (align \<noteq> 0 \<and> result mod align = 0) (Inr (result, s)) else Inr (result, s)))"

definition global_dealloc :: "u64 \<Rightarrow> u64 \<Rightarrow> slab_state \<Rightarrow> slab_state result" where
  "global_dealloc ptr sz = (\<lambda>(caches, st).
     if MAX_SLAB_ORDER < order sz
     then bindr (free_pages ptr ((sz + (PAGE_SIZE - 1)) div PAGE_SIZE) st) (\<lambda>st. Inr (caches, st))
     else slab_free (order sz) ptr (caches, st))"

definition init_allocator :: "u64 \<Rightarrow> u64 \<Rightarrow> slab_state \<Rightarrow> slab_state result" where
  "init_allocator mem_start mem_end = (\<lambda>(caches, st).
     bindr (buddy_init mem_start mem_end st) (\<lambda>st. Inr (caches, st)))"

end
