(* ===== verification/Bytes.thy ===== *)
theory Bytes
  imports Prelude
begin

unbundle bit_operations_syntax

text \<open>
  The layout of Rust values in memory: little-endian \<open>u64\<close> fields, arrays of them, and
  UTF-8. The file system reads and writes its on-disk structures by casting a pointer
  into a block buffer (\<open>BlockCache::get_ref\<close>, \<open>get_mut\<close>), so what it stores is decided by
  these encodings.
\<close>

section \<open>Little-endian 64-bit integers\<close>

definition le64 :: "u64 \<Rightarrow> bytes" where
  "le64 w = map (\<lambda>i. ucast (drop_bit (8 * i) w)) [0..<8]"

definition un_le64 :: "bytes \<Rightarrow> u64" where
  "un_le64 bs = foldr (\<lambda>b acc. ucast b OR push_bit 8 acc) bs 0"

definition u64_at :: "nat \<Rightarrow> bytes \<Rightarrow> u64" where
  "u64_at off bs = un_le64 (get_slice off 8 bs)"

definition put_u64 :: "nat \<Rightarrow> u64 \<Rightarrow> bytes \<Rightarrow> bytes" where
  "put_u64 off w bs = put_slice off (le64 w) bs"

lemma length_le64 [simp]: "length (le64 w) = 8"
  by (simp add: le64_def)

lemma nth_le64: "i < 8 \<Longrightarrow> le64 w ! i = ucast (drop_bit (8 * i) w)"
  by (simp add: le64_def)

lemma bit_un_le64:
  "bit (un_le64 bs) n \<longleftrightarrow> n < 64 \<and> n < 8 * length bs \<and> bit (bs ! (n div 8)) (n mod 8)"
proof (induction bs arbitrary: n)
  case Nil
  then show ?case by (simp add: un_le64_def)
next
  case (Cons b bs)
  have step: "un_le64 (b # bs) = ucast b OR push_bit 8 (un_le64 bs)"
    by (simp add: un_le64_def)
  show ?case
  proof (cases "n < 8")
    case True
    then show ?thesis by (simp add: step bit_simps)
  next
    case False
    then obtain m where m: "n = m + 8" using le_Suc_ex by (metis add.commute not_less)
    have "\<not> bit b (m + 8)" by (auto dest: bit_imp_le_length)
    moreover have "(m + 8) div 8 = Suc (m div 8)" by simp
    ultimately show ?thesis
      using m Cons.IH [of m] by (auto simp: step bit_simps)
  qed
qed

lemma un_le64_le64 [simp]: "un_le64 (le64 w) = w"
proof (rule bit_word_eqI)
  fix n assume n: "n < LENGTH(64)"
  then have d: "n div 8 < 8" and m: "n mod 8 < 8" by auto
  have "bit (un_le64 (le64 w)) n \<longleftrightarrow> bit (le64 w ! (n div 8)) (n mod 8)"
    using n by (simp add: bit_un_le64)
  also have "\<dots> \<longleftrightarrow> bit w (8 * (n div 8) + n mod 8)"
    using d m by (simp add: nth_le64 bit_simps)
  finally show "bit (un_le64 (le64 w)) n = bit w n" by simp
qed

lemma le64_inject [simp]: "le64 v = le64 w \<longleftrightarrow> v = w"
  by (metis un_le64_le64)

lemma u64_at_put_u64_same [simp]: "off + 8 \<le> length bs \<Longrightarrow> u64_at off (put_u64 off w bs) = w"
  by (simp add: u64_at_def put_u64_def)

lemma u64_at_put_u64_other:
  assumes "off + 8 \<le> length bs" and "off' + 8 \<le> length bs"
    and "off' + 8 \<le> off \<or> off + 8 \<le> off'"
  shows "u64_at off' (put_u64 off w bs) = u64_at off' bs"
  using assms by (simp add: u64_at_def put_u64_def get_put_slice_disjoint)

lemma length_put_u64 [simp]: "off + 8 \<le> length bs \<Longrightarrow> length (put_u64 off w bs) = length bs"
  by (simp add: put_u64_def)

section \<open>Arrays of 64-bit integers\<close>

definition le64s :: "u64 list \<Rightarrow> bytes" where
  "le64s ws = concat (map le64 ws)"

definition u64s_at :: "nat \<Rightarrow> nat \<Rightarrow> bytes \<Rightarrow> u64 list" where
  "u64s_at off n bs = map (\<lambda>i. u64_at (off + 8 * i) bs) [0..<n]"

lemma length_le64s [simp]: "length (le64s ws) = 8 * length ws"
  by (induction ws) (auto simp: le64s_def)

lemma length_u64s_at [simp]: "length (u64s_at off n bs) = n"
  by (simp add: u64s_at_def)

lemma get_slice_append_left:
  "off + n \<le> length xs \<Longrightarrow> get_slice off n (xs @ ys) = get_slice off n xs"
  by (simp add: get_slice_def)

lemma get_slice_append_right:
  "length xs \<le> off \<Longrightarrow> get_slice off n (xs @ ys) = get_slice (off - length xs) n ys"
  by (simp add: get_slice_def)

lemma get_slice_le64s: "i < length ws \<Longrightarrow> get_slice (8 * i) 8 (le64s ws) = le64 (ws ! i)"
proof (induction ws arbitrary: i)
  case Nil
  then show ?case by simp
next
  case (Cons w ws)
  show ?case
  proof (cases i)
    case 0
    then show ?thesis by (simp add: le64s_def get_slice_def)
  next
    case (Suc j)
    with Cons have "get_slice (8 * j) 8 (le64s ws) = le64 (ws ! j)" by simp
    with Suc show ?thesis
      by (simp add: le64s_def get_slice_append_right)
  qed
qed

lemma u64s_at_le64s:
  assumes "length ws = n" and "length pre = off"
  shows "u64s_at off n (pre @ le64s ws) = ws"
proof (rule nth_equalityI)
  fix i assume "i < length (u64s_at off n (pre @ le64s ws))"
  then have "i < n" by simp
  with assms show "u64s_at off n (pre @ le64s ws) ! i = ws ! i"
    by (simp add: u64s_at_def u64_at_def get_slice_append_right get_slice_le64s)
qed (simp add: assms)

section \<open>UTF-8\<close>

definition utf8_cont :: "u8 \<Rightarrow> bool" where
  "utf8_cont b \<longleftrightarrow> 0x80 \<le> b \<and> b \<le> 0xBF"

text \<open>The well-formed byte sequences of \<open>core::str::from_utf8\<close> (Unicode table 3-7).\<close>

fun utf8_valid :: "bytes \<Rightarrow> bool" where
  "utf8_valid [] = True"
| "utf8_valid (a # bs) =
    (if a \<le> 0x7F then utf8_valid bs
     else if 0xC2 \<le> a \<and> a \<le> 0xDF then
       (case bs of b # cs \<Rightarrow> utf8_cont b \<and> utf8_valid cs | _ \<Rightarrow> False)
     else if 0xE0 \<le> a \<and> a \<le> 0xEF then
       (case bs of b # c # ds \<Rightarrow>
          (if a = 0xE0 then 0xA0 \<le> b \<and> b \<le> 0xBF
           else if a = 0xED then 0x80 \<le> b \<and> b \<le> 0x9F
           else utf8_cont b) \<and> utf8_cont c \<and> utf8_valid ds
        | _ \<Rightarrow> False)
     else if 0xF0 \<le> a \<and> a \<le> 0xF4 then
       (case bs of b # c # d # es \<Rightarrow>
          (if a = 0xF0 then 0x90 \<le> b \<and> b \<le> 0xBF
           else if a = 0xF4 then 0x80 \<le> b \<and> b \<le> 0x8F
           else utf8_cont b) \<and> utf8_cont c \<and> utf8_cont d \<and> utf8_valid es
        | _ \<Rightarrow> False)
     else False)"

lemma utf8_valid_ascii: "(\<And>b. b \<in> set bs \<Longrightarrow> b \<le> 0x7F) \<Longrightarrow> utf8_valid bs"
  by (induction bs) auto

end
