(* ===== verification/Page_Table.thy ===== *)
theory Page_Table
  imports Slab Bytes
begin

text \<open>
  Sv39 page tables (\<open>kernel/src/mem/page/page_table.rs\<close>) and the kernel's own table
  (\<open>kvm_make\<close> and \<open>init\<close> of \<open>kernel/src/mem/mod.rs\<close>). The operations are written over an
  interface to memory: a page allocator (\<open>FromRawPage::new_zeroed\<close>) and loads and stores of
  words. The kernel's instance is \<open>kernel_pages\<close>, on the global allocator. A table entry is
  the word in memory; a pointer to a table is its address. Kernel virtual and physical
  addresses are the same (\<open>va2pa!\<close> and \<open>pa2va!\<close> are the identity).
\<close>

section \<open>Pages and words\<close>

record 's page_ops =
  po_new_zeroed :: "'s \<Rightarrow> (u64 \<times> 's) result"
  po_load :: "u64 \<Rightarrow> 's \<Rightarrow> u64"
  po_store :: "u64 \<Rightarrow> u64 \<Rightarrow> 's \<Rightarrow> 's"

text \<open>
  \<open>Box::new_zeroed\<close> asks the global allocator for a page and clears it; when there is none
  the allocation error handler panics.
\<close>

definition clear_page :: "u64 \<Rightarrow> memory \<Rightarrow> memory" where
  "clear_page p mem = (\<lambda>w. if p \<le> w \<and> w - p < PAGE_SIZE then 0 else mem w)"

definition new_zeroed :: "slab_state \<Rightarrow> (u64 \<times> slab_state) result" where
  "new_zeroed s =
     bindr (global_alloc PAGE_SIZE PAGE_SIZE s) (\<lambda>(p, caches, ba, mem).
       check (p \<noteq> 0) (check (p mod 4096 = 0) (Inr (p, caches, ba, clear_page p mem))))"

definition kernel_pages :: "slab_state page_ops" where
  "kernel_pages = \<lparr>po_new_zeroed = new_zeroed, po_load = (\<lambda>w (caches, ba, mem). mem w),
     po_store = (\<lambda>w v (caches, ba, mem). (caches, ba, mem(w := v)))\<rparr>"

section \<open>Entries\<close>

type_synonym pte = u64

definition PTE_V :: u64 where "PTE_V = 1"
definition PTE_R :: u64 where "PTE_R = 2"
definition PTE_W :: u64 where "PTE_W = 4"
definition PTE_X :: u64 where "PTE_X = 8"
definition PTE_U :: u64 where "PTE_U = 16"
definition PTE_G :: u64 where "PTE_G = 32"
definition PTE_A :: u64 where "PTE_A = 64"
definition PTE_D :: u64 where "PTE_D = 128"

definition pte_empty :: pte where
  "pte_empty = 0"

definition pte_is_empty :: "pte \<Rightarrow> bool" where
  "pte_is_empty p \<longleftrightarrow> p = 0"

definition pte_new :: "u64 \<Rightarrow> u64 \<Rightarrow> pte" where
  "pte_new pa flags = push_bit 10 (drop_bit PG_SHIFT pa) OR flags"

definition pte_pa :: "pte \<Rightarrow> u64" where
  "pte_pa p = push_bit PG_SHIFT (drop_bit 10 p)"

definition pte_flags :: "pte \<Rightarrow> u64" where
  "pte_flags p = take_bit 8 p"

definition pte_is_valid :: "pte \<Rightarrow> bool" where
  "pte_is_valid p \<longleftrightarrow> pte_flags p AND PTE_V \<noteq> 0"

definition pte_is_readable :: "pte \<Rightarrow> bool" where
  "pte_is_readable p \<longleftrightarrow> pte_flags p AND PTE_R \<noteq> 0"

definition pte_is_writable :: "pte \<Rightarrow> bool" where
  "pte_is_writable p \<longleftrightarrow> pte_flags p AND PTE_W \<noteq> 0"

definition pte_is_executable :: "pte \<Rightarrow> bool" where
  "pte_is_executable p \<longleftrightarrow> pte_flags p AND PTE_X \<noteq> 0"

definition pte_is_directory :: "pte \<Rightarrow> bool" where
  "pte_is_directory p \<longleftrightarrow> pte_is_valid p \<and> pte_is_readable p \<and> pte_is_writable p \<and> pte_is_executable p"

definition pte_is_page :: "pte \<Rightarrow> bool" where
  "pte_is_page p \<longleftrightarrow> pte_is_valid p \<and> \<not> pte_is_directory p"

section \<open>Walking and mapping\<close>

definition entry_addr :: "u64 \<Rightarrow> nat \<Rightarrow> u64 \<Rightarrow> u64" where
  "entry_addr table level va = table + px level va * 8"

text \<open>
  \<open>walk\<close> returns the address of the entry for a virtual address, or \<open>None\<close> when a table is
  missing and must not be made. \<open>as_mut\<close> panics on a null address.
\<close>

primrec walk_levels :: "nat list \<Rightarrow> 's page_ops \<Rightarrow> u64 \<Rightarrow> u64 \<Rightarrow> bool \<Rightarrow> 's \<Rightarrow> (u64 option \<times> 's) result" where
  "walk_levels [] ops table va alloc s = Inr (Some (entry_addr table 0 va), s)"
| "walk_levels (level # levels) ops table va alloc s =
     (let pte = po_load ops (entry_addr table level va) s in
      if pte_is_valid pte
      then check (pte_pa pte \<noteq> 0) (walk_levels levels ops (pte_pa pte) va alloc s)
      else check (pte = pte_empty)
        (if \<not> alloc then Inr (None, s)
         else bindr (po_new_zeroed ops s) (\<lambda>(pa, s).
           let s = po_store ops (entry_addr table level va) (pte_new pa PTE_V) s in
           check (pa \<noteq> 0) (walk_levels levels ops pa va alloc s))))"

definition walk :: "'s page_ops \<Rightarrow> u64 \<Rightarrow> u64 \<Rightarrow> bool \<Rightarrow> 's \<Rightarrow> (u64 option \<times> 's) result" where
  "walk ops table va alloc s = check (va < MAX_VA) (walk_levels [2, 1] ops table va alloc s)"

text \<open>One round of the loop of \<open>map\<close>: the entry must not be in use yet.\<close>

definition map_page :: "'s page_ops \<Rightarrow> u64 \<Rightarrow> u64 \<Rightarrow> u64 \<Rightarrow> u64 \<Rightarrow> 's \<Rightarrow> 's result" where
  "map_page ops table va pa perm s =
     bindr (walk ops table va True s) (\<lambda>(r, s).
       case r of
         None \<Rightarrow> Inl Panic
       | Some e \<Rightarrow> check (\<not> pte_is_valid (po_load ops e s)) (Inr (po_store ops e (pte_new pa (PTE_V OR perm)) s)))"

partial_function (option) map_loop ::
  "'s page_ops \<Rightarrow> u64 \<Rightarrow> u64 \<Rightarrow> u64 \<Rightarrow> u64 \<Rightarrow> u64 \<Rightarrow> 's \<Rightarrow> 's result option" where
  "map_loop ops table va pa end_va perm s =
     (if va = end_va then Some (Inr s)
      else case map_page ops table va pa perm s of
          Inl e \<Rightarrow> Some (Inl e)
        | Inr s \<Rightarrow> map_loop ops table (va + PAGE_SIZE) (pa + PAGE_SIZE) end_va perm s)"

declare map_loop.simps [code]

definition map_range :: "'s page_ops \<Rightarrow> u64 \<Rightarrow> u64 \<Rightarrow> u64 \<Rightarrow> u64 \<Rightarrow> u64 \<Rightarrow> 's \<Rightarrow> 's result" where
  "map_range ops table va pa sz perm s =
     check (0 < sz)
       (let va = pg_round_down va PAGE_SIZE;
            pa = pg_round_down pa PAGE_SIZE;
            end_va = pg_round_up (va + sz) PAGE_SIZE
        in run_loop (map_loop ops table va pa end_va perm s))"

definition make_satp :: "u64 \<Rightarrow> u64" where
  "make_satp addr = push_bit 60 8 OR drop_bit 12 addr"

text \<open>
  \<open>user_vm_init\<close> copies a whole page from the slice, however short the slice is; reading past
  its end is undefined.
\<close>

definition copy_page :: "'s page_ops \<Rightarrow> bytes \<Rightarrow> u64 \<Rightarrow> 's \<Rightarrow> 's" where
  "copy_page ops src page = fold (\<lambda>i. po_store ops (page + of_nat (8 * i)) (u64_at (8 * i) src)) [0..<512]"

definition user_vm_init :: "'s page_ops \<Rightarrow> u64 \<Rightarrow> bytes \<Rightarrow> 's \<Rightarrow> 's result" where
  "user_vm_init ops table src s =
     check (length src \<le> 4096)
       (bindr (po_new_zeroed ops s) (\<lambda>(page, s).
          if length src < 4096 then Inl Undefined
          else map_range ops table 0 page PAGE_SIZE (PTE_R OR PTE_W OR PTE_X OR PTE_U) (copy_page ops src page s)))"

section \<open>The kernel's page table\<close>

text \<open>\<open>etext\<close> and \<open>trampoline\<close> are addresses the linker gives.\<close>

definition kvm_make :: "'s page_ops \<Rightarrow> u64 \<Rightarrow> u64 \<Rightarrow> 's \<Rightarrow> (u64 \<times> 's) result" where
  "kvm_make ops etext trampoline s =
     bindr (po_new_zeroed ops s) (\<lambda>(pt, s).
     check (pt \<noteq> 0) (
     bindr (map_range ops pt KERNEL_BASE KERNEL_BASE (etext - KERNEL_BASE) (PTE_R OR PTE_X) s) (\<lambda>s.
     bindr (map_range ops pt etext etext (MEM_END - etext) (PTE_R OR PTE_W) s) (\<lambda>s.
     bindr (map_range ops pt TRAMPOLINE trampoline PAGE_SIZE (PTE_R OR PTE_X OR PTE_G) s) (\<lambda>s.
     bindr (map_range ops pt VIRTIO_MMIO_BASE VIRTIO_MMIO_BASE VIRTIO_MMIO_LEN (PTE_R OR PTE_W) s) (\<lambda>s.
     bindr (map_range ops pt PLIC_BASE PLIC_BASE 0x4000000 (PTE_R OR PTE_W OR PTE_G) s) (\<lambda>s.
     Inr (pt, s))))))))"

text \<open>\<open>init\<close> returns the value it writes to \<open>satp\<close>, which turns paging on.\<close>

definition mem_init :: "u64 \<Rightarrow> u64 \<Rightarrow> u64 \<Rightarrow> slab_state \<Rightarrow> (u64 \<times> slab_state) result" where
  "mem_init end_addr etext trampoline s =
     bindr (init_allocator end_addr MEM_END s) (\<lambda>s.
     bindr (kvm_make kernel_pages etext trampoline s) (\<lambda>(pt, s). Inr (make_satp pt, s)))"

end
