(* ===== verification/Proc.thy ===== *)
theory Proc
  imports Page_Table
begin

text \<open>
  Processes (\<open>kernel/src/proc\<close>): tasks, the task list and the first user process. The task
  list owns its tasks; the \<open>Arc\<close> and \<open>BTreeMap\<close> nodes that hold them are heap objects of the
  library and only their addresses matter, which are arguments where the code takes them.
\<close>

section \<open>Saved registers\<close>

record proc_context =
  ctx_ra :: u64
  ctx_sp :: u64
  ctx_s :: "u64 list"

text \<open>\<open>Context::default\<close>: twelve callee-saved registers.\<close>

definition context_default :: proc_context where
  "context_default = \<lparr>ctx_ra = 0, ctx_sp = 0, ctx_s = replicate 12 0\<rparr>"

record trap_frame =
  tf_kernel_satp :: u64
  tf_kernel_sp :: u64
  tf_kernel_trap :: u64
  tf_epc :: u64
  tf_kernel_hartid :: u64
  tf_ra :: u64
  tf_sp :: u64
  tf_regs :: "u64 list"

text \<open>
  \<open>TrapFrame::default\<close>: five kernel words, then \<open>ra\<close> and \<open>sp\<close>, then the other 29 user
  registers from \<open>gp\<close> to \<open>t6\<close>.
\<close>

definition trap_frame_default :: trap_frame where
  "trap_frame_default = \<lparr>tf_kernel_satp = 0, tf_kernel_sp = 0, tf_kernel_trap = 0, tf_epc = 0,
     tf_kernel_hartid = 0, tf_ra = 0, tf_sp = 0, tf_regs = replicate 29 0\<rparr>"

section \<open>Tasks\<close>

datatype task_state = Init | Sleeping | Runnable | Running | Blocked | Exited "32 word"

record task =
  task_pid :: u64
  task_state :: task_state
  task_kernel_stack :: u64
  task_context :: proc_context
  task_trap_frame :: trap_frame
  task_page_table :: "u64 option"

definition KERNEL_STACK_SIZE :: u64 where
  "KERNEL_STACK_SIZE = PAGE_SIZE * 2"

definition MAX_PROC :: u64 where
  "MAX_PROC = 64"

text \<open>
  \<open>init_user_page_table\<close>: a fresh empty table with the trampoline and the page of the trap
  frame, whose address is \<open>tf_addr\<close>.
\<close>

definition init_user_page_table ::
  "'s page_ops \<Rightarrow> u64 \<Rightarrow> u64 \<Rightarrow> task \<Rightarrow> 's \<Rightarrow> (task \<times> 's) result" where
  "init_user_page_table ops trampoline tf_addr t s =
     bindr (po_new_zeroed ops s) (\<lambda>(pt, s).
     bindr (map_range ops pt TRAMPOLINE trampoline PAGE_SIZE (PTE_R OR PTE_X) s) (\<lambda>s.
     bindr (map_range ops pt TRAPFRAME tf_addr PAGE_SIZE (PTE_R OR PTE_W) s) (\<lambda>s.
     Inr (t\<lparr>task_page_table := Some pt\<rparr>, s))))"

section \<open>The task list\<close>

record task_list =
  tl_tasks :: "u64 \<rightharpoonup> task"
  tl_next_id :: u64

definition task_list_new :: task_list where
  "task_list_new = \<lparr>tl_tasks = Map.empty, tl_next_id = 0\<rparr>"

definition task_list_get :: "task_list \<Rightarrow> u64 \<Rightarrow> task option" where
  "task_list_get ts i = tl_tasks ts i"

definition alloc_pid :: "task_list \<Rightarrow> u64 \<times> task_list" where
  "alloc_pid ts = (let ts = ts\<lparr>tl_next_id := tl_next_id ts + 1\<rparr> in (tl_next_id ts - 1, ts))"

text \<open>
  \<open>new_task\<close>: \<open>usertrapret\<close> is the address of that function, \<open>stack\<close> the address of the
  stack the allocator gives.
\<close>

definition new_task :: "u64 \<Rightarrow> u64 \<Rightarrow> task_list \<Rightarrow> (u64 \<times> task_list) result" where
  "new_task usertrapret stack ts =
     (case alloc_pid ts of (pid, ts) \<Rightarrow>
        if MAX_PROC < pid then Inl Panic
        else let trap_frame = trap_frame_default\<lparr>tf_epc := 0, tf_sp := KERNEL_STACK_SIZE\<rparr>;
                 context = context_default\<lparr>ctx_ra := usertrapret, ctx_sp := stack + KERNEL_STACK_SIZE\<rparr>;
                 task = \<lparr>task_pid = pid, task_state = Init, task_kernel_stack = stack, task_context = context,
                         task_trap_frame = trap_frame, task_page_table = None\<rparr>
             in check (tl_tasks ts pid = None) (Inr (pid, ts\<lparr>tl_tasks := (tl_tasks ts)(pid \<mapsto> task)\<rparr>)))"

definition current_task :: "task_list \<Rightarrow> task option" where
  "current_task ts = tl_tasks ts 0"

definition INITCODE :: bytes where
  "INITCODE =
     [0x17, 0x05, 0x00, 0x00, 0x13, 0x05, 0x45, 0x02,
      0x97, 0x05, 0x00, 0x00, 0x93, 0x85, 0x35, 0x02,
      0x93, 0x08, 0x70, 0x00, 0x73, 0x00, 0x00, 0x00,
      0x93, 0x08, 0x20, 0x00, 0x73, 0x00, 0x00, 0x00,
      0xef, 0xf0, 0x9f, 0xff, 0x2f, 0x69, 0x6e, 0x69,
      0x74, 0x00, 0x00, 0x24, 0x00, 0x00, 0x00, 0x00,
      0x00, 0x00, 0x00, 0x00]"

text \<open>\<open>user_init\<close>: the page table pointer is set by \<open>init_user_page_table\<close>.\<close>

definition user_init ::
  "'s page_ops \<Rightarrow> u64 \<Rightarrow> u64 \<Rightarrow> u64 \<Rightarrow> u64 \<Rightarrow> task_list \<Rightarrow> 's \<Rightarrow> (task_list \<times> 's) result" where
  "user_init ops usertrapret trampoline stack tf_addr ts s =
     bindr (new_task usertrapret stack ts) (\<lambda>(pid, ts).
       case tl_tasks ts pid of
         None \<Rightarrow> Inl Panic
       | Some t \<Rightarrow>
           check (task_pid t = 0)
             (bindr (init_user_page_table ops trampoline tf_addr t s) (\<lambda>(t, s).
                case task_page_table t of
                  None \<Rightarrow> Inl Panic
                | Some pt \<Rightarrow> bindr (user_vm_init ops pt INITCODE s) (\<lambda>s.
                    Inr (ts\<lparr>tl_tasks := (tl_tasks ts)(pid \<mapsto> t\<lparr>task_state := Runnable\<rparr>)\<rparr>, s)))))"

text \<open>\<open>schedule\<close> switches to the context of the first process and does not come back.\<close>

definition schedule :: "task_list \<Rightarrow> proc_context result" where
  "schedule ts = (case tl_tasks ts 0 of None \<Rightarrow> Inl Panic | Some t \<Rightarrow> Inr (task_context t))"

section \<open>The invariant of the task list\<close>

text \<open>
  Identifiers are handed out in order and every task is stored under its own; the
  identifiers in use are exactly those below the next one.
\<close>

definition task_list_inv :: "task_list \<Rightarrow> bool" where
  "task_list_inv ts \<longleftrightarrow> unat (tl_next_id ts) \<le> 65 \<and> (\<forall>i. tl_tasks ts i \<noteq> None \<longleftrightarrow> i < tl_next_id ts) \<and>
     (\<forall>i t. tl_tasks ts i = Some t \<longrightarrow> task_pid t = i)"

lemma task_list_inv_new: "task_list_inv task_list_new"
  by (simp add: task_list_inv_def task_list_new_def)

lemma new_task_step:
  assumes "task_list_inv ts"
  shows "new_task usertrapret stack ts =
    (if tl_next_id ts = 65 then Inl Panic
     else Inr (tl_next_id ts, ts\<lparr>tl_next_id := tl_next_id ts + 1,
       tl_tasks := (tl_tasks ts)(tl_next_id ts \<mapsto>
         \<lparr>task_pid = tl_next_id ts, task_state = Init, task_kernel_stack = stack,
          task_context = context_default\<lparr>ctx_ra := usertrapret, ctx_sp := stack + KERNEL_STACK_SIZE\<rparr>,
          task_trap_frame = trap_frame_default\<lparr>tf_epc := 0, tf_sp := KERNEL_STACK_SIZE\<rparr>, task_page_table = None\<rparr>)\<rparr>))"
proof -
  have "tl_tasks ts (tl_next_id ts) = None" using assms by (auto simp: task_list_inv_def)
  moreover have "64 < tl_next_id ts \<longleftrightarrow> tl_next_id ts = 65"
    using assms by (auto simp: task_list_inv_def word_less_nat_alt u64_eq_iff_unat)
  ultimately show ?thesis by (simp add: new_task_def alloc_pid_def Let_def MAX_PROC_def)
qed

lemma new_task_inv:
  assumes "task_list_inv ts" and "new_task usertrapret stack ts = Inr (pid, ts')"
  shows "task_list_inv ts'" and "pid = tl_next_id ts" and "tl_next_id ts' = tl_next_id ts + 1"
proof -
  have ne: "tl_next_id ts \<noteq> 65" and pid: "pid = tl_next_id ts" and id: "tl_next_id ts' = tl_next_id ts + 1"
    using assms(2) unfolding new_task_step [OF assms(1)] by (auto split: if_splits)
  have tasks: "\<exists>t. task_pid t = tl_next_id ts \<and> tl_tasks ts' = (tl_tasks ts)(tl_next_id ts \<mapsto> t)"
    using assms(2) ne unfolding new_task_step [OF assms(1)]
    by (metis (no_types, lifting) Inr_inject Pair_inject task.select_convs(1) task_list.select_convs(1) task_list.surjective
        task_list.update_convs(1))
  have le: "unat (tl_next_id ts) \<le> 64" using assms(1) ne by (auto simp: task_list_inv_def u64_eq_iff_unat)
  then have un: "unat (tl_next_id ts + 1) = unat (tl_next_id ts) + 1" by (subst unat_add_u64) simp_all
  have "i < tl_next_id ts + 1 \<longleftrightarrow> i = tl_next_id ts \<or> i < tl_next_id ts" for i
    by (auto simp: word_less_nat_alt un u64_eq_iff_unat)
  with tasks le assms(1) show "task_list_inv ts'" unfolding task_list_inv_def id by (auto simp: un split: if_splits)
  show "pid = tl_next_id ts" "tl_next_id ts' = tl_next_id ts + 1" by (fact pid id)+
qed

text \<open>Making one task per stack.\<close>

primrec new_tasks :: "u64 \<Rightarrow> u64 list \<Rightarrow> task_list \<Rightarrow> (u64 list \<times> task_list) result" where
  "new_tasks usertrapret [] ts = Inr ([], ts)"
| "new_tasks usertrapret (stack # stacks) ts =
     bindr (new_task usertrapret stack ts) (\<lambda>(pid, ts).
     bindr (new_tasks usertrapret stacks ts) (\<lambda>(pids, ts). Inr (pid # pids, ts)))"

lemma new_tasks_run:
  assumes "task_list_inv ts" and "unat (tl_next_id ts) = i"
  shows "if i + length stacks \<le> 65
    then \<exists>ts'. new_tasks usertrapret stacks ts = Inr (map of_nat [i..<i + length stacks], ts') \<and> task_list_inv ts' \<and>
      unat (tl_next_id ts') = i + length stacks
    else new_tasks usertrapret stacks ts = Inl Panic"
  using assms
proof (induction stacks arbitrary: ts i)
  case Nil
  then show ?case by (auto simp: task_list_inv_def)
next
  case (Cons stack stacks)
  show ?case
  proof (cases "tl_next_id ts = 65")
    case True
    with Cons.prems have "i = 65" by simp
    then show ?thesis using True by (simp add: new_task_step [OF Cons.prems(1)])
  next
    case False
    then obtain ts' where ts': "new_task usertrapret stack ts = Inr (tl_next_id ts, ts')"
      using new_task_step [OF Cons.prems(1)] by simp
    note inv = new_task_inv [OF Cons.prems(1) ts']
    have "i \<le> 64" using Cons.prems False by (auto simp: task_list_inv_def u64_eq_iff_unat)
    then have un: "unat (tl_next_id ts') = Suc i" using Cons.prems(2) inv(3) by (simp add: unat_add_u64)
    have id: "tl_next_id ts = of_nat i" using Cons.prems(2) \<open>i \<le> 64\<close> by (simp add: u64_eq_iff_unat unat_of_nat_u64)
    have up: "[i..<Suc (i + length stacks)] = i # [Suc i..<Suc (i + length stacks)]" by (rule upt_conv_Cons) simp
    show ?thesis using Cons.IH [OF inv(1) un] ts' by (auto simp: id up simp del: upt_Suc)
  qed
qed

section \<open>Properties of processes\<close>

text \<open>
  C36: Tasks get the identifiers 0, 1, 2, ... in order, each stored under its own, and the
  list takes one task more than \<open>MAX_PROC\<close>: 65 calls of \<open>new_task\<close> succeed and the next one
  panics.
\<close>

theorem new_task_limit:
  "if length stacks \<le> 65
   then \<exists>ts. new_tasks usertrapret stacks task_list_new = Inr (map of_nat [0..<length stacks], ts) \<and> task_list_inv ts
   else new_tasks usertrapret stacks task_list_new = Inl Panic"
  using new_tasks_run [OF task_list_inv_new, of 0 stacks usertrapret] by (auto simp: task_list_new_def split: if_splits)

section \<open>The first process\<close>

text \<open>
  The program of the first process has 52 bytes and \<open>user_vm_init\<close> copies 4096 bytes from it.
\<close>

lemma user_vm_init_short:
  "length src < 4096 \<Longrightarrow> user_vm_init ops pt src s = bindr (po_new_zeroed ops s) (\<lambda>_. Inl Undefined)"
  by (simp add: user_vm_init_def case_prod_unfold)

lemma length_INITCODE [simp]: "length INITCODE = 52"
  by (simp add: INITCODE_def)

end
