(* ===== verification/Block_Dev.thy ===== *)
theory Block_Dev
  imports Bytes
begin

unbundle bit_operations_syntax

text \<open>
  The on-disk structures of \<open>fs/src/block_dev.rs\<close>: the layout constants, the super
  block, the bitmap block with its allocator, directory entries and disk inodes, each
  with the bytes it occupies in a block.
\<close>

section \<open>Layout constants\<close>

definition BLOCK_SIZE :: nat where
  "BLOCK_SIZE = 4096"

definition FS_MAGIC :: u64 where
  "FS_MAGIC = 0x102030"

definition N_DIRECT :: nat where
  "N_DIRECT = 28"

definition DINODE_SIZE :: nat where
  "DINODE_SIZE = 8 + 8 + 8 + 8 + 8 * N_DIRECT"

definition INODES_PER_BLOCK :: nat where
  "INODES_PER_BLOCK = BLOCK_SIZE div DINODE_SIZE"

definition BITMAP_PER_BLOCK :: nat where
  "BITMAP_PER_BLOCK = BLOCK_SIZE * 8"

definition N_INDIRECT :: nat where
  "N_INDIRECT = BLOCK_SIZE div 8"

definition MAX_BLOCKS_PER_INODE :: nat where
  "MAX_BLOCKS_PER_INODE = N_DIRECT + N_INDIRECT"

definition CAPACITY_PER_INODE :: nat where
  "CAPACITY_PER_INODE = MAX_BLOCKS_PER_INODE * BLOCK_SIZE"

definition DIR_NAME_SIZE :: nat where
  "DIR_NAME_SIZE = 24"

definition DIR_ENTRY_SIZE :: nat where
  "DIR_ENTRY_SIZE = 8 + DIR_NAME_SIZE"

definition MAX_DIRENTS_PER_INODE :: nat where
  "MAX_DIRENTS_PER_INODE = CAPACITY_PER_INODE div DIR_ENTRY_SIZE"

section \<open>Super block\<close>

record super_block =
  sb_magic :: u64
  sb_blocks :: u64
  sb_inode_bmap_start :: u64
  sb_inode_start :: u64
  sb_inode_blocks :: u64
  sb_data_bmap_start :: u64
  sb_data_start :: u64
  sb_data_blocks :: u64

definition super_block_new ::
  "u64 \<Rightarrow> u64 \<Rightarrow> u64 \<Rightarrow> u64 \<Rightarrow> u64 \<Rightarrow> u64 \<Rightarrow> u64 \<Rightarrow> super_block" where
  "super_block_new blocks inode_bmap_start inode_start inode_blocks data_bmap_start
     data_start data_blocks =
     \<lparr>sb_magic = FS_MAGIC, sb_blocks = blocks, sb_inode_bmap_start = inode_bmap_start,
      sb_inode_start = inode_start, sb_inode_blocks = inode_blocks,
      sb_data_bmap_start = data_bmap_start, sb_data_start = data_start,
      sb_data_blocks = data_blocks\<rparr>"

definition super_block_is_valid :: "super_block \<Rightarrow> bool" where
  "super_block_is_valid sb \<longleftrightarrow> sb_magic sb = FS_MAGIC"

definition find_inode :: "super_block \<Rightarrow> u64 \<Rightarrow> u64 \<times> u64" where
  "find_inode sb inum =
     (let block_id = inum div of_nat INODES_PER_BLOCK + sb_inode_start sb;
          offset = (inum mod of_nat INODES_PER_BLOCK) * of_nat DINODE_SIZE
      in (block_id, offset))"

definition SUPER_BLOCK_SIZE :: nat where
  "SUPER_BLOCK_SIZE = 64"

definition super_block_fields :: "super_block \<Rightarrow> u64 list" where
  "super_block_fields sb =
     [sb_magic sb, sb_blocks sb, sb_inode_bmap_start sb, sb_inode_start sb,
      sb_inode_blocks sb, sb_data_bmap_start sb, sb_data_start sb, sb_data_blocks sb]"

definition encode_super_block :: "super_block \<Rightarrow> bytes" where
  "encode_super_block sb = le64s (super_block_fields sb)"

definition decode_super_block :: "bytes \<Rightarrow> super_block" where
  "decode_super_block bs =
     \<lparr>sb_magic = u64_at 0 bs, sb_blocks = u64_at 8 bs, sb_inode_bmap_start = u64_at 16 bs,
      sb_inode_start = u64_at 24 bs, sb_inode_blocks = u64_at 32 bs,
      sb_data_bmap_start = u64_at 40 bs, sb_data_start = u64_at 48 bs,
      sb_data_blocks = u64_at 56 bs\<rparr>"

section \<open>Bitmap block\<close>

text \<open>The inner loop of \<open>BitmapBlock::allocate\<close>: the first clear bit of one byte.\<close>

function bitmap_probe :: "u8 \<Rightarrow> nat \<Rightarrow> nat option" where
  "bitmap_probe byte offset =
     (if offset < 8 then
        (if byte AND push_bit offset 1 = 0 then Some offset
         else bitmap_probe byte (Suc offset))
      else None)"
  by pat_completeness auto
termination
  by (relation "measure (\<lambda>(byte, offset). 8 - offset)") auto

text \<open>The outer loop, over \<open>inner.iter().enumerate()\<close> from index \<open>i\<close> on.\<close>

fun bitmap_scan :: "nat \<Rightarrow> bytes \<Rightarrow> (nat \<times> nat) option" where
  "bitmap_scan i [] = None"
| "bitmap_scan i (byte # rest) =
     (if byte = 0xff then bitmap_scan (Suc i) rest
      else (case bitmap_probe byte 0 of
              Some offset \<Rightarrow> Some (i, offset)
            | None \<Rightarrow> bitmap_scan (Suc i) rest))"

definition bitmap_allocate :: "bytes \<Rightarrow> nat option \<times> bytes" where
  "bitmap_allocate inner =
     (case bitmap_scan 0 inner of
        Some (i, offset) \<Rightarrow>
          (Some (i * 8 + offset), inner[i := inner ! i OR push_bit offset 1])
      | None \<Rightarrow> (None, inner))"

definition bitmap_free :: "nat \<Rightarrow> bytes \<Rightarrow> bytes result" where
  "bitmap_free idx inner =
     (let byte = idx div 8; offset = idx mod 8
      in check (byte < length inner)
          (check (inner ! byte AND push_bit offset 1 \<noteq> 0)
            (Inr (inner[byte := inner ! byte AND NOT (push_bit offset 1)]))))"

section \<open>Directory entries\<close>

record dir_entry =
  de_inode_num :: u64
  de_name :: bytes

definition dir_entry_empty :: dir_entry where
  "dir_entry_empty = \<lparr>de_inode_num = 0, de_name = replicate DIR_NAME_SIZE 0\<rparr>"

definition dir_entry_new :: "bytes \<Rightarrow> u64 \<Rightarrow> dir_entry result" where
  "dir_entry_new name inum =
     check (length name \<le> DIR_NAME_SIZE)
       (Inr \<lparr>de_inode_num = inum,
             de_name = put_slice 0 name (replicate DIR_NAME_SIZE 0)\<rparr>)"

text \<open>
  \<open>(0..DIR_NAME_SIZE).find(|i| self.name[i] == 0).unwrap_or(DIR_NAME_SIZE)\<close>, then
  \<open>from_utf8(..).expect(..)\<close>.
\<close>

definition dir_entry_name :: "dir_entry \<Rightarrow> bytes result" where
  "dir_entry_name de =
     (let len = (case find (\<lambda>i. de_name de ! i = 0) [0..<DIR_NAME_SIZE] of
                   Some i \<Rightarrow> i | None \<Rightarrow> DIR_NAME_SIZE);
          s = get_slice 0 len (de_name de)
      in check (utf8_valid s) (Inr s))"

definition encode_dir_entry :: "dir_entry \<Rightarrow> bytes" where
  "encode_dir_entry de = le64 (de_inode_num de) @ de_name de"

definition decode_dir_entry :: "bytes \<Rightarrow> dir_entry" where
  "decode_dir_entry bs = \<lparr>de_inode_num = u64_at 0 bs, de_name = get_slice 8 DIR_NAME_SIZE bs\<rparr>"

definition dir_entry_wf :: "dir_entry \<Rightarrow> bool" where
  "dir_entry_wf de \<longleftrightarrow> length (de_name de) = DIR_NAME_SIZE"

section \<open>Disk inodes\<close>

datatype inode_type = Invalid | File | Directory

record dinode =
  di_type :: inode_type
  di_indirect :: u64
  di_links_num :: u64
  di_size :: u64
  di_addresses :: "u64 list"

definition dinode_new :: "inode_type \<Rightarrow> u64 \<Rightarrow> u64 \<Rightarrow> u64 \<Rightarrow> u64 list \<Rightarrow> dinode" where
  "dinode_new ty indirect links_num sz addresses =
     \<lparr>di_type = ty, di_indirect = indirect, di_links_num = links_num, di_size = sz,
      di_addresses = addresses\<rparr>"

definition dinode_initialize :: "inode_type \<Rightarrow> dinode \<Rightarrow> dinode" where
  "dinode_initialize ty d =
     \<lparr>di_type = ty, di_indirect = 0, di_links_num = 0, di_size = 0,
      di_addresses = replicate N_DIRECT 0\<rparr>"

definition dinode_is_valid :: "dinode \<Rightarrow> bool" where
  "dinode_is_valid d \<longleftrightarrow> di_type d \<noteq> Invalid"

definition dinode_wf :: "dinode \<Rightarrow> bool" where
  "dinode_wf d \<longleftrightarrow> length (di_addresses d) = N_DIRECT"

text \<open>
  The discriminant of \<open>InodeType\<close> is one byte; the seven bytes after it are padding,
  which an assignment leaves as they are. A byte above 2 is no value of the enum.
\<close>

fun encode_inode_type :: "inode_type \<Rightarrow> u8" where
  "encode_inode_type Invalid = 0"
| "encode_inode_type File = 1"
| "encode_inode_type Directory = 2"

definition decode_inode_type :: "u8 \<Rightarrow> inode_type result" where
  "decode_inode_type b =
     (if b = 0 then Inr Invalid else if b = 1 then Inr File
      else if b = 2 then Inr Directory else Inl Undefined)"

definition encode_dinode :: "dinode \<Rightarrow> bytes \<Rightarrow> bytes" where
  "encode_dinode d old =
     (encode_inode_type (di_type d) # get_slice 1 7 old) @ le64 (di_indirect d) @
     le64 (di_links_num d) @ le64 (di_size d) @ le64s (di_addresses d)"

definition decode_dinode :: "bytes \<Rightarrow> dinode result" where
  "decode_dinode bs =
     bindr (decode_inode_type (bs ! 0)) (\<lambda>t.
       Inr (dinode_new t (u64_at 8 bs) (u64_at 16 bs) (u64_at 24 bs) (u64s_at 32 N_DIRECT bs)))"

section \<open>The interface of an identifier allocator\<close>

text \<open>
  What the rest of the file system relies on when it calls \<open>BitmapBlock\<close>: a set of
  numbers in use, first-fit allocation, and a release that refuses a free number.
\<close>

fun alloc_times :: "('s \<Rightarrow> nat option \<times> 's) \<Rightarrow> nat \<Rightarrow> 's \<Rightarrow> nat option list \<times> 's" where
  "alloc_times alloc 0 s = ([], s)"
| "alloc_times alloc (Suc k) s =
     (let (r, s1) = alloc s; (rs, s2) = alloc_times alloc k s1 in (r # rs, s2))"

locale id_pool =
  fixes used :: "'s \<Rightarrow> nat set"
    and cap :: "'s \<Rightarrow> nat"
    and alloc :: "'s \<Rightarrow> nat option \<times> 's"
    and release :: "nat \<Rightarrow> 's \<Rightarrow> 's result"
  assumes used_below_cap: "used s \<subseteq> {..<cap s}"
    and alloc_Some: "alloc s = (Some n, s') \<Longrightarrow>
          n < cap s \<and> n \<notin> used s \<and> {..<n} \<subseteq> used s \<and> used s' = insert n (used s) \<and> cap s' = cap s"
    and alloc_None: "alloc s = (None, s') \<Longrightarrow> s' = s \<and> used s = {..<cap s}"
    and release_used: "n \<in> used s \<Longrightarrow>
          \<exists>s'. release n s = Inr s' \<and> used s' = used s - {n} \<and> cap s' = cap s"
    and release_unused: "n \<notin> used s \<Longrightarrow> release n s = Inl Panic"
begin

lemma alloc_prefix:
  assumes "used s = {..<m}" and "m < cap s"
  shows "\<exists>s'. alloc s = (Some m, s') \<and> used s' = {..<Suc m} \<and> cap s' = cap s"
proof (cases "alloc s")
  case (Pair r s')
  show ?thesis
  proof (cases r)
    case None
    with Pair have "used s = {..<cap s}" using alloc_None [of s s'] by simp
    with assms show ?thesis by simp
  next
    case (Some n)
    with Pair alloc_Some [of s n s']
    have n: "n \<notin> used s" "{..<n} \<subseteq> used s" "used s' = insert n (used s)" "cap s' = cap s"
      by auto
    with assms(1) have "n = m" by simp
    with n assms(1) Pair Some show ?thesis by (simp add: lessThan_Suc)
  qed
qed

lemma alloc_times_prefix:
  assumes "used s = {..<m}" and "m + k \<le> cap s"
  shows "\<exists>s'. alloc_times alloc k s = (map Some [m..<m + k], s') \<and> used s' = {..<m + k} \<and> cap s' = cap s"
  using assms
proof (induction k arbitrary: s m)
  case 0
  then show ?case by simp
next
  case (Suc k)
  then obtain s1 where s1: "alloc s = (Some m, s1)" "used s1 = {..<Suc m}" "cap s1 = cap s"
    using alloc_prefix [of s m] by auto
  from Suc.IH [OF s1(2)] s1(3) Suc.prems
  obtain s2 where "alloc_times alloc k s1 = (map Some [Suc m..<Suc m + k], s2)"
    "used s2 = {..<Suc m + k}" "cap s2 = cap s" by auto
  moreover have "[m..<m + Suc k] = m # [Suc m..<Suc m + k]"
    by (simp add: upt_conv_Cons del: upt_Suc)
  ultimately show ?case using s1 by (simp del: upt_Suc)
qed

lemma alloc_full: "used s = {..<cap s} \<Longrightarrow> alloc s = (None, s)"
  using alloc_Some [of s] alloc_None [of s] by (metis lessThan_iff option.exhaust surj_pair)

lemma alloc_then_release:
  assumes "alloc s = (Some n, s')"
  shows "\<exists>s''. release n s' = Inr s'' \<and> used s'' = used s"
  using alloc_Some [OF assms] release_used [of n s'] by auto

end

section \<open>The bitmap block is an identifier allocator\<close>

definition bitmap_used :: "bytes \<Rightarrow> nat set" where
  "bitmap_used inner = {n. n < 8 * length inner \<and> bit (inner ! (n div 8)) (n mod 8)}"

definition bitmap_cap :: "bytes \<Rightarrow> nat" where
  "bitmap_cap inner = 8 * length inner"

lemma byte_full_iff: "(b :: u8) = 0xff \<longleftrightarrow> (\<forall>k < 8. bit b k)"
proof -
  have "bit (0xff :: u8) k" if "k < 8" for k
    using that by (simp add: less_Suc_eq numeral_eq_Suc) (auto simp: bit_simps)
  then show ?thesis by (auto intro!: bit_word_eqI)
qed

declare bitmap_probe.simps [simp del]

lemma bitmap_probe_Some:
  "bitmap_probe b off = Some k \<Longrightarrow> off \<le> k \<and> k < 8 \<and> \<not> bit b k \<and> (\<forall>j. off \<le> j \<and> j < k \<longrightarrow> bit b j)"
proof (induction b off rule: bitmap_probe.induct)
  case (1 b off)
  show ?case
  proof (cases "off < 8 \<and> bit b off")
    case True
    with 1 have "Suc off \<le> k \<and> k < 8 \<and> \<not> bit b k \<and> (\<forall>j. Suc off \<le> j \<and> j < k \<longrightarrow> bit b j)"
      by (simp add: bitmap_probe.simps [of b off] and_exp_eq_0_iff_not_bit)
    with True show ?thesis by (metis Suc_leD le_eq_less_or_eq Suc_leI)
  next
    case False
    with 1(2) show ?thesis
      by (auto simp: bitmap_probe.simps [of b off] and_exp_eq_0_iff_not_bit split: if_splits)
  qed
qed

lemma bitmap_probe_None: "bitmap_probe b off = None \<Longrightarrow> off \<le> j \<Longrightarrow> j < 8 \<Longrightarrow> bit b j"
proof (induction b off rule: bitmap_probe.induct)
  case (1 b off)
  then have "bit b off" and "Suc off \<le> j \<Longrightarrow> bit b j"
    by (auto simp: bitmap_probe.simps [of b off] and_exp_eq_0_iff_not_bit split: if_splits)
  with 1(3) show ?case by (cases "j = off") auto
qed

lemma bitmap_scan_Some:
  "bitmap_scan i bs = Some (p, k) \<Longrightarrow>
     i \<le> p \<and> p < i + length bs \<and> k < 8 \<and> \<not> bit (bs ! (p - i)) k \<and>
     (\<forall>j < k. bit (bs ! (p - i)) j) \<and> (\<forall>q < p - i. \<forall>j < 8. bit (bs ! q) j)"
proof (induction i bs rule: bitmap_scan.induct)
  case (1 i)
  then show ?case by simp
next
  case (2 i b bs)
  show ?case
  proof (cases "b = 0xff \<or> bitmap_probe b 0 = None")
    case True
    then have full: "\<forall>j < 8. bit b j"
      using byte_full_iff bitmap_probe_None by blast
    from True 2 have IH: "Suc i \<le> p \<and> p < Suc i + length bs \<and> k < 8 \<and> \<not> bit (bs ! (p - Suc i)) k \<and>
     (\<forall>j < k. bit (bs ! (p - Suc i)) j) \<and> (\<forall>q < p - Suc i. \<forall>j < 8. bit (bs ! q) j)"
      by (auto split: if_splits)
    then have "p - i = Suc (p - Suc i)" by linarith
    with IH full show ?thesis by (auto simp: nth_Cons split: nat.splits)
  next
    case False
    with "2.prems" have "p = i" "bitmap_probe b 0 = Some k" by auto
    with bitmap_probe_Some show ?thesis by fastforce
  qed
qed

lemma bitmap_scan_None: "bitmap_scan i bs = None \<Longrightarrow> q < length bs \<Longrightarrow> j < 8 \<Longrightarrow> bit (bs ! q) j"
proof (induction i bs arbitrary: q rule: bitmap_scan.induct)
  case (1 i)
  then show ?case by simp
next
  case (2 i b bs)
  then have "bit b j" and "bitmap_scan (Suc i) bs = None"
    using byte_full_iff bitmap_probe_None by (auto split: if_splits option.splits)
  with 2 show ?case by (cases q) (auto split: if_splits option.splits)
qed

lemma bitmap_used_upd:
  "p < length inner \<Longrightarrow> bitmap_used (inner[p := b]) =
     {n. n < 8 * length inner \<and> bit (if n div 8 = p then b else inner ! (n div 8)) (n mod 8)}"
  by (auto simp: bitmap_used_def nth_list_update)

lemma byte_index_eq:
  assumes "k < 8"
  shows "n = p * 8 + k \<longleftrightarrow> n div 8 = p \<and> n mod 8 = (k :: nat)"
proof
  assume "n = p * 8 + k"
  with assms show "n div 8 = p \<and> n mod 8 = k" by simp
next
  assume "n div 8 = p \<and> n mod 8 = k"
  then show "n = p * 8 + k" using div_mult_mod_eq [of n 8] by simp
qed

lemma byte_index_less:
  assumes "k < 8" and "m < p * 8 + (k :: nat)"
  shows "m div 8 < p \<or> m div 8 = p \<and> m mod 8 < k"
proof -
  have "m div 8 \<le> (p * 8 + k) div 8"
    by (rule div_le_mono) (use assms in simp)
  then have "m div 8 \<le> p" using assms by simp
  moreover have "m div 8 = p \<Longrightarrow> m mod 8 < k"
    using div_mult_mod_eq [of m 8] assms by simp
  ultimately show ?thesis by linarith
qed

lemma bitmap_used_set:
  assumes "p < length inner" and "k < 8"
  shows "bitmap_used (inner[p := inner ! p OR push_bit k 1]) = insert (p * 8 + k) (bitmap_used inner)"
proof (rule set_eqI)
  fix n
  have "p * 8 + k < 8 * length inner" using assms by linarith
  then show "n \<in> bitmap_used (inner[p := inner ! p OR push_bit k 1]) \<longleftrightarrow>
      n \<in> insert (p * 8 + k) (bitmap_used inner)"
    unfolding bitmap_used_upd [OF assms(1)] insert_iff byte_index_eq [OF assms(2)]
    using assms by (auto simp: bitmap_used_def bit_or_iff bit_exp_iff)
qed

lemma bitmap_used_clear:
  assumes "p < length inner" and "k < 8"
  shows "bitmap_used (inner[p := inner ! p AND NOT (push_bit k 1)]) = bitmap_used inner - {p * 8 + k}"
proof (rule set_eqI)
  fix n
  show "n \<in> bitmap_used (inner[p := inner ! p AND NOT (push_bit k 1)]) \<longleftrightarrow>
      n \<in> bitmap_used inner - {p * 8 + k}"
    unfolding bitmap_used_upd [OF assms(1)] Diff_iff singleton_iff byte_index_eq [OF assms(2)]
    using assms by (auto simp: bitmap_used_def bit_and_iff bit_not_iff bit_exp_iff)
qed

lemma bitmap_allocate_Some:
  assumes "bitmap_allocate inner = (Some n, inner')"
  shows "n < 8 * length inner" and "n \<notin> bitmap_used inner" and "{..<n} \<subseteq> bitmap_used inner"
    and "bitmap_used inner' = insert n (bitmap_used inner)" and "length inner' = length inner"
proof -
  from assms obtain p k where scan: "bitmap_scan 0 inner = Some (p, k)"
    and n: "n = p * 8 + k" and inner': "inner' = inner[p := inner ! p OR push_bit k 1]"
    by (auto simp: bitmap_allocate_def split: option.splits)
  from bitmap_scan_Some [OF scan] have pk: "p < length inner" "k < 8" "\<not> bit (inner ! p) k"
    "\<forall>j < k. bit (inner ! p) j" "\<forall>q < p. \<forall>j < 8. bit (inner ! q) j"
    by auto
  show "n < 8 * length inner" and "n \<notin> bitmap_used inner"
    using pk(1,2,3) n by (simp_all add: bitmap_used_def)
  show "bitmap_used inner' = insert n (bitmap_used inner)" and "length inner' = length inner"
    using bitmap_used_set [OF pk(1,2)] n inner' by simp_all
  show "{..<n} \<subseteq> bitmap_used inner"
  proof
    fix m assume "m \<in> {..<n}"
    with n have "m < p * 8 + k" by simp
    with pk(2) have "m div 8 < p \<or> m div 8 = p \<and> m mod 8 < k" by (rule byte_index_less)
    then have "bit (inner ! (m div 8)) (m mod 8)"
    proof
      assume "m div 8 < p"
      with pk(5) show ?thesis by simp
    next
      assume "m div 8 = p \<and> m mod 8 < k"
      with pk(4) show ?thesis by simp
    qed
    with \<open>m < p * 8 + k\<close> n \<open>n < 8 * length inner\<close> show "m \<in> bitmap_used inner"
      by (simp add: bitmap_used_def)
  qed
qed

lemma bitmap_allocate_None:
  assumes "bitmap_allocate inner = (None, inner')"
  shows "inner' = inner" and "bitmap_used inner = {..<8 * length inner}"
proof -
  from assms have "bitmap_scan 0 inner = None" and "inner' = inner"
    by (auto simp: bitmap_allocate_def split: option.splits)
  then show "inner' = inner" and "bitmap_used inner = {..<8 * length inner}"
    using bitmap_scan_None by (auto simp: bitmap_used_def)
qed

lemma bitmap_free_used:
  assumes "n \<in> bitmap_used inner"
  shows "\<exists>inner'. bitmap_free n inner = Inr inner' \<and> bitmap_used inner' = bitmap_used inner - {n} \<and>
    length inner' = length inner"
proof -
  from assms have n: "n div 8 < length inner" "bit (inner ! (n div 8)) (n mod 8)"
    by (auto simp: bitmap_used_def)
  then have "bitmap_free n inner = Inr (inner[n div 8 := inner ! (n div 8) AND NOT (push_bit (n mod 8) 1)])"
    by (simp add: bitmap_free_def Let_def and_exp_eq_0_iff_not_bit)
  moreover have "n div 8 * 8 + n mod 8 = n" by (rule div_mult_mod_eq)
  ultimately show ?thesis
    using bitmap_used_clear [OF n(1), of "n mod 8"] by simp
qed

lemma bitmap_free_unused: "n \<notin> bitmap_used inner \<Longrightarrow> bitmap_free n inner = Inl Panic"
  by (auto simp: bitmap_free_def bitmap_used_def and_exp_eq_0_iff_not_bit check_def Let_def)

interpretation bmap: id_pool bitmap_used bitmap_cap bitmap_allocate bitmap_free
proof
  fix s show "bitmap_used s \<subseteq> {..<bitmap_cap s}"
    by (auto simp: bitmap_used_def bitmap_cap_def)
next
  fix s n s' assume "bitmap_allocate s = (Some n, s')"
  then show "n < bitmap_cap s \<and> n \<notin> bitmap_used s \<and> {..<n} \<subseteq> bitmap_used s \<and>
      bitmap_used s' = insert n (bitmap_used s) \<and> bitmap_cap s' = bitmap_cap s"
    using bitmap_allocate_Some [of s n s'] by (simp add: bitmap_cap_def)
next
  fix s s' assume "bitmap_allocate s = (None, s')"
  then show "s' = s \<and> bitmap_used s = {..<bitmap_cap s}"
    using bitmap_allocate_None [of s s'] by (simp add: bitmap_cap_def)
next
  fix n s assume "n \<in> bitmap_used s"
  then show "\<exists>s'. bitmap_free n s = Inr s' \<and> bitmap_used s' = bitmap_used s - {n} \<and>
      bitmap_cap s' = bitmap_cap s"
    using bitmap_free_used [of n s] by (auto simp: bitmap_cap_def)
next
  fix n s assume "n \<notin> bitmap_used s"
  then show "bitmap_free n s = Inl Panic" by (rule bitmap_free_unused)
qed

lemma bitmap_used_zero: "bitmap_used (replicate m 0) = {}"
  by (auto simp: bitmap_used_def)

section \<open>The byte encodings are faithful\<close>

lemma length_encode_super_block [simp]: "length (encode_super_block sb) = SUPER_BLOCK_SIZE"
  by (simp add: encode_super_block_def super_block_fields_def SUPER_BLOCK_SIZE_def)

lemma u64_at_le64s: "i < length ws \<Longrightarrow> u64_at (8 * i) (le64s ws) = ws ! i"
  by (simp add: u64_at_def get_slice_le64s)

lemma u64_at_append_left: "off + 8 \<le> length xs \<Longrightarrow> u64_at off (xs @ ys) = u64_at off xs"
  by (simp add: u64_at_def get_slice_append_left)

lemma u64_at_append_right: "length xs \<le> off \<Longrightarrow> u64_at off (xs @ ys) = u64_at (off - length xs) ys"
  by (simp add: u64_at_def get_slice_append_right)

lemma u64_at_le64 [simp]: "u64_at 0 (le64 w @ ys) = w"
  by (simp add: u64_at_def get_slice_def)

lemma decode_encode_super_block [simp]:
  "decode_super_block (encode_super_block sb) = sb"
  using u64_at_le64s [of 0 "super_block_fields sb"] u64_at_le64s [of 1 "super_block_fields sb"]
    u64_at_le64s [of 2 "super_block_fields sb"] u64_at_le64s [of 3 "super_block_fields sb"]
    u64_at_le64s [of 4 "super_block_fields sb"] u64_at_le64s [of 5 "super_block_fields sb"]
    u64_at_le64s [of 6 "super_block_fields sb"] u64_at_le64s [of 7 "super_block_fields sb"]
  by (simp add: decode_super_block_def encode_super_block_def super_block_fields_def)

lemma length_encode_dir_entry [simp]:
  "dir_entry_wf de \<Longrightarrow> length (encode_dir_entry de) = DIR_ENTRY_SIZE"
  by (simp add: encode_dir_entry_def dir_entry_wf_def DIR_ENTRY_SIZE_def)

lemma decode_encode_dir_entry [simp]:
  "dir_entry_wf de \<Longrightarrow> decode_dir_entry (encode_dir_entry de) = de"
  by (simp add: decode_dir_entry_def encode_dir_entry_def dir_entry_wf_def get_slice_append_right)

lemma decode_encode_inode_type [simp]: "decode_inode_type (encode_inode_type t) = Inr t"
  by (cases t) (simp_all add: decode_inode_type_def)

lemma length_encode_dinode [simp]:
  "dinode_wf d \<Longrightarrow> length old = DINODE_SIZE \<Longrightarrow> length (encode_dinode d old) = DINODE_SIZE"
  by (simp add: encode_dinode_def dinode_wf_def DINODE_SIZE_def N_DIRECT_def)

lemma decode_encode_dinode [simp]:
  assumes "dinode_wf d" and "length old = DINODE_SIZE"
  shows "decode_dinode (encode_dinode d old) = Inr d"
proof -
  define pad where "pad = encode_inode_type (di_type d) # get_slice 1 7 old"
  have pad: "length pad = 8"
    using assms(2) by (simp add: pad_def DINODE_SIZE_def)
  have enc: "encode_dinode d old = pad @ le64 (di_indirect d) @ le64 (di_links_num d) @
      le64 (di_size d) @ le64s (di_addresses d)"
    by (simp add: encode_dinode_def pad_def)
  then have enc4: "encode_dinode d old = (pad @ le64 (di_indirect d) @ le64 (di_links_num d) @
      le64 (di_size d)) @ le64s (di_addresses d)"
    by simp
  have "encode_dinode d old ! 0 = encode_inode_type (di_type d)"
    by (simp add: enc pad_def)
  moreover have "u64_at 8 (encode_dinode d old) = di_indirect d"
    "u64_at 16 (encode_dinode d old) = di_links_num d"
    "u64_at 24 (encode_dinode d old) = di_size d"
    using pad by (simp_all add: enc u64_at_append_right)
  moreover have "u64s_at 32 N_DIRECT (encode_dinode d old) = di_addresses d"
    unfolding enc4 using pad assms(1) by (intro u64s_at_le64s) (auto simp: dinode_wf_def)
  ultimately show ?thesis
    by (simp add: decode_dinode_def dinode_new_def)
qed

lemma decode_dinode_wf: "decode_dinode bs = Inr d \<Longrightarrow> dinode_wf d"
  by (auto simp: decode_dinode_def dinode_new_def dinode_wf_def outcome_eqs)

lemma decode_dinode_zero: "decode_dinode (replicate DINODE_SIZE 0) =
   Inr (dinode_new Invalid 0 0 0 (replicate N_DIRECT 0))"
proof -
  have z: "get_slice off 8 (replicate DINODE_SIZE 0) = le64 0" if "off + 8 \<le> DINODE_SIZE" for off
    using that by (simp add: get_slice_def le64_def) (simp add: numeral_eq_Suc)
  then have u: "u64_at off (replicate DINODE_SIZE 0) = 0" if "off + 8 \<le> DINODE_SIZE" for off
    using that by (simp add: u64_at_def)
  then have "u64s_at 32 N_DIRECT (replicate DINODE_SIZE 0) = replicate N_DIRECT 0"
    by (intro nth_equalityI) (simp_all add: u64s_at_def DINODE_SIZE_def N_DIRECT_def)
  with u show ?thesis
    by (simp add: decode_dinode_def decode_inode_type_def DINODE_SIZE_def N_DIRECT_def)
qed

lemma dir_entry_name_take:
  assumes "length (de_name de) = DIR_NAME_SIZE"
  shows "dir_entry_name de =
    check (utf8_valid (takeWhile (\<lambda>b. b \<noteq> 0) (de_name de))) (Inr (takeWhile (\<lambda>b. b \<noteq> 0) (de_name de)))"
proof -
  define xs where "xs = de_name de"
  define n where "n = length (takeWhile (\<lambda>b. b \<noteq> 0) xs)"
  have len: "DIR_NAME_SIZE = length xs" using assms by (simp add: xs_def)
  have nz: "xs ! j \<noteq> 0" if "j < n" for j
  proof -
    from that have "takeWhile (\<lambda>b. b \<noteq> 0) xs ! j \<in> set (takeWhile (\<lambda>b. b \<noteq> 0) xs)"
      unfolding n_def by (rule nth_mem)
    then have "takeWhile (\<lambda>b. b \<noteq> 0) xs ! j \<noteq> 0" by (auto dest: set_takeWhileD)
    with that show ?thesis by (simp add: n_def takeWhile_nth)
  qed
  have "(case find (\<lambda>i. xs ! i = 0) [0..<length xs] of Some i \<Rightarrow> i | None \<Rightarrow> length xs) = n"
  proof (cases "n = length xs")
    case True
    with nz have "find (\<lambda>i. xs ! i = 0) [0..<length xs] = None"
      by (auto simp: find_None_iff)
    with True show ?thesis by simp
  next
    case False
    then have n: "n < length xs" by (simp add: n_def length_takeWhile_le le_neq_implies_less)
    then have "xs ! n = 0" using nth_length_takeWhile [of "\<lambda>b. b \<noteq> 0" xs] by (simp add: n_def)
    with n nz have "find (\<lambda>i. xs ! i = 0) [0..<length xs] = Some n"
      by (auto simp: find_Some_iff)
    then show ?thesis by simp
  qed
  moreover have "get_slice 0 n xs = takeWhile (\<lambda>b. b \<noteq> 0) xs"
    by (simp add: get_slice_def n_def takeWhile_eq_take [symmetric])
  ultimately show ?thesis
    unfolding dir_entry_name_def Let_def xs_def [symmetric] len by simp
qed

lemma takeWhile_name_padding:
  "(0 :: u8) \<notin> set name \<Longrightarrow> takeWhile (\<lambda>b. b \<noteq> 0) (name @ replicate k 0) = name"
  by (subst takeWhile_append2) (auto simp: takeWhile_replicate)

lemma dir_entry_new_wf:
  "dir_entry_new name inum = Inr de \<Longrightarrow> dir_entry_wf de \<and> de_inode_num de = inum"
  by (auto simp: dir_entry_new_def dir_entry_wf_def outcome_eqs)

lemma dir_entry_name_of_new:
  assumes "dir_entry_new name inum = Inr de" and "utf8_valid name" and "0 \<notin> set name"
  shows "dir_entry_name de = Inr name"
proof -
  from assms(1) have "length name \<le> DIR_NAME_SIZE"
    and "de_name de = name @ replicate (DIR_NAME_SIZE - length name) 0"
    by (auto simp: dir_entry_new_def put_slice_def outcome_eqs)
  with assms(2,3) show ?thesis
    by (simp add: dir_entry_name_take takeWhile_name_padding)
qed

section \<open>Properties\<close>

text \<open>
  C24: allocating in a bitmap block is first fit. If some bit is clear the call returns
  the least clear one and sets exactly that bit; if none is clear it returns \<open>None\<close> and
  leaves the block as it was.
\<close>

theorem bitmap_allocate_first_fit:
  "case bitmap_allocate inner of
     (Some n, inner') \<Rightarrow>
        n < 8 * length inner \<and> bitmap_used inner \<inter> {..n} = {..<n} \<and>
        bitmap_used inner' = insert n (bitmap_used inner) \<and> length inner' = length inner
   | (None, inner') \<Rightarrow> inner' = inner \<and> bitmap_used inner = {..<8 * length inner}"
proof (cases "bitmap_allocate inner")
  case (Pair r inner')
  show ?thesis
  proof (cases r)
    case None
    with Pair bitmap_allocate_None [of inner inner'] show ?thesis by simp
  next
    case (Some n)
    with Pair bitmap_allocate_Some [of inner n inner']
    have n: "n < 8 * length inner" "n \<notin> bitmap_used inner" "{..<n} \<subseteq> bitmap_used inner"
      "bitmap_used inner' = insert n (bitmap_used inner)" "length inner' = length inner" by auto
    have "bitmap_used inner \<inter> {..n} = {..<n}"
      using n(2,3) by (metis Int_insert_right_if0 lessThan_Suc_atMost lessThan_Suc inf.absorb_iff2)
    with n Pair Some show ?thesis by simp
  qed
qed

text \<open>
  From an empty bitmap block the allocations return 0, 1, 2, and so on through every
  bit of the block, and the next one fails.
\<close>

theorem bitmap_allocate_all_then_none:
  "\<exists>full. alloc_times bitmap_allocate BITMAP_PER_BLOCK (replicate BLOCK_SIZE 0)
       = (map Some [0..<BITMAP_PER_BLOCK], full) \<and> bitmap_allocate full = (None, full)"
proof -
  have "\<exists>full. alloc_times bitmap_allocate BITMAP_PER_BLOCK (replicate BLOCK_SIZE 0)
       = (map Some [0..<0 + BITMAP_PER_BLOCK], full) \<and> bitmap_used full = {..<0 + BITMAP_PER_BLOCK} \<and>
       bitmap_cap full = bitmap_cap (replicate BLOCK_SIZE 0)"
    by (rule bmap.alloc_times_prefix)
      (simp_all add: bitmap_used_zero bitmap_cap_def BITMAP_PER_BLOCK_def)
  then obtain full where full: "alloc_times bitmap_allocate BITMAP_PER_BLOCK (replicate BLOCK_SIZE 0)
       = (map Some [0..<BITMAP_PER_BLOCK], full)" "bitmap_used full = {..<BITMAP_PER_BLOCK}"
    "bitmap_cap full = BITMAP_PER_BLOCK"
    by (auto simp: bitmap_cap_def BITMAP_PER_BLOCK_def)
  with bmap.alloc_full [of full] show ?thesis by simp
qed

text \<open>
  Freeing a bit that is set clears exactly that bit; freeing one that is clear, or one
  beyond the block, panics.
\<close>

theorem bitmap_free_exact:
  "case bitmap_free n inner of
     Inr inner' \<Rightarrow> n \<in> bitmap_used inner \<and> bitmap_used inner' = bitmap_used inner - {n} \<and>
                   length inner' = length inner
   | Inl e \<Rightarrow> n \<notin> bitmap_used inner \<and> e = Panic"
proof (cases "n \<in> bitmap_used inner")
  case True
  from bitmap_free_used [OF True] obtain inner' where "bitmap_free n inner = Inr inner'"
    "bitmap_used inner' = bitmap_used inner - {n}" "length inner' = length inner" by blast
  with True show ?thesis by simp
next
  case False
  with bitmap_free_unused [OF False] show ?thesis by simp
qed

text \<open>
  C25: a directory entry keeps its name. For a name of at most 24 bytes of UTF-8 without a
  NUL byte, building the entry, storing its 32 bytes, loading them and asking for the
  name gives the name back, with the inode number; a longer name panics.
\<close>

theorem dir_entry_roundtrip:
  assumes "utf8_valid name" and "0 \<notin> set name"
  shows "bindr (dir_entry_new name inum) (\<lambda>de.
           let de' = decode_dir_entry (encode_dir_entry de)
           in bindr (dir_entry_name de') (\<lambda>s. Inr (s, de_inode_num de', length (encode_dir_entry de))))
         = (if length name \<le> DIR_NAME_SIZE then Inr (name, inum, DIR_ENTRY_SIZE) else Inl Panic)"
proof (cases "dir_entry_new name inum")
  case (Inl e)
  then show ?thesis by (auto simp: dir_entry_new_def check_def split: if_splits)
next
  case (Inr de)
  then have "length name \<le> DIR_NAME_SIZE" by (simp add: dir_entry_new_def outcome_eqs)
  with Inr dir_entry_new_wf [OF Inr] dir_entry_name_of_new [OF Inr assms] show ?thesis by simp
qed

theorem dir_entry_roundtrip_witness:
  "bindr (dir_entry_new [0x62, 0x69, 0x6e] 1) (\<lambda>de.
     let de' = decode_dir_entry (encode_dir_entry de)
     in bindr (dir_entry_name de') (\<lambda>s. Inr (s, de_inode_num de', length (encode_dir_entry de))))
   = Inr ([0x62, 0x69, 0x6e], 1, DIR_ENTRY_SIZE)"
  using dir_entry_roundtrip [of "[0x62, 0x69, 0x6e]" 1] by (simp add: DIR_NAME_SIZE_def)

end
