(* ===== verification/Block_Cache.thy ===== *)
theory Block_Cache
  imports Block_Dev
begin

text \<open>
  The block cache (\<open>fs/src/block_cache.rs\<close>) over a block device (the trait
  \<open>BlockDevice\<close> of \<open>fs/src/block_dev.rs\<close>): cached blocks with their dirty flag, the
  buffer that owns them through reference counts, eviction, write-back, and typed
  reads and writes through a pointer into a block. The mutexes are part of the state,
  so that a thread that takes one twice is seen to hang.
\<close>

section \<open>Block devices and cached blocks\<close>

text \<open>
  The trait \<open>BlockDevice\<close>: a device is a state and two operations on it. \<open>read\<close> fills
  the buffer it is given, \<open>write\<close> stores one; both may report an error.
\<close>

record 'd block_device =
  bd_read :: "'d \<Rightarrow> u64 \<Rightarrow> bytes \<Rightarrow> ((string + unit) \<times> bytes \<times> 'd) result"
  bd_write :: "'d \<Rightarrow> u64 \<Rightarrow> bytes \<Rightarrow> ((string + unit) \<times> 'd) result"

definition BLOCK_BUFFER_SIZE :: nat where
  "BLOCK_BUFFER_SIZE = 64"

record block_cache =
  bc_cache :: bytes
  bc_block_id :: u64
  bc_modified :: bool

text \<open>\<open>BlockCache::new\<close> drops the \<open>Result\<close> of the device: on an error the zeros stay.\<close>

definition block_cache_new :: "'d block_device \<Rightarrow> u64 \<Rightarrow> 'd \<Rightarrow> (block_cache \<times> 'd) result" where
  "block_cache_new ops block_id dev =
     bindr (bd_read ops dev block_id (replicate BLOCK_SIZE 0)) (\<lambda>(_, cache, dev).
       Inr (\<lparr>bc_cache = cache, bc_block_id = block_id, bc_modified = False\<rparr>, dev))"

definition block_cache_clear :: "block_cache \<Rightarrow> block_cache" where
  "block_cache_clear c = c\<lparr>bc_modified := True, bc_cache := replicate (length (bc_cache c)) 0\<rparr>"

text \<open>\<open>sync\<close> also drops the \<open>Result\<close>: a failed write is forgotten.\<close>

definition block_cache_sync :: "'d block_device \<Rightarrow> block_cache \<Rightarrow> 'd \<Rightarrow> (block_cache \<times> 'd) result" where
  "block_cache_sync ops c dev =
     (if \<not> bc_modified c then Inr (c, dev)
      else bindr (bd_write ops dev (bc_block_id c) (bc_cache c)) (\<lambda>(_, dev).
        Inr (c\<lparr>bc_modified := False\<rparr>, dev)))"

section \<open>Typed access\<close>

text \<open>
  The type parameter \<open>T\<close> of \<open>get_ref\<close> and \<open>get_mut\<close>: its size, the value the bytes stand
  for, and the bytes of a value written over old ones.
\<close>

record 'a layout =
  ly_size :: nat
  ly_dec :: "bytes \<Rightarrow> 'a result"
  ly_enc :: "'a \<Rightarrow> bytes \<Rightarrow> bytes"

definition block_cache_get_ref :: "nat \<Rightarrow> u64 \<Rightarrow> block_cache \<Rightarrow> bytes result" where
  "block_cache_get_ref sz offset c =
     check (add_usize (unat offset) sz \<le> BLOCK_SIZE)
       (check (unat offset < length (bc_cache c))
         (Inr (get_slice (unat offset) sz (bc_cache c))))"

definition block_cache_get_mut :: "nat \<Rightarrow> u64 \<Rightarrow> block_cache \<Rightarrow> (bytes \<times> block_cache) result" where
  "block_cache_get_mut sz offset c =
     bindr (block_cache_get_ref sz offset c) (\<lambda>bs. Inr (bs, c\<lparr>bc_modified := True\<rparr>))"

definition block_cache_read ::
  "'a layout \<Rightarrow> u64 \<Rightarrow> ('a \<Rightarrow> 'v result) \<Rightarrow> block_cache \<Rightarrow> 'v result" where
  "block_cache_read T offset cb c =
     bindr (block_cache_get_ref (ly_size T) offset c) (\<lambda>bs. bindr (ly_dec T bs) cb)"

definition block_cache_write ::
  "'a layout \<Rightarrow> u64 \<Rightarrow> ('a \<Rightarrow> ('v \<times> 'a) result) \<Rightarrow> block_cache \<Rightarrow> ('v \<times> block_cache) result" where
  "block_cache_write T offset cb c =
     bindr (block_cache_get_mut (ly_size T) offset c) (\<lambda>(bs, c).
     bindr (ly_dec T bs) (\<lambda>x.
     bindr (cb x) (\<lambda>(v, x').
       Inr (v, c\<lparr>bc_cache := put_slice (unat offset) (ly_enc T x' bs) (bc_cache c)\<rparr>))))"

text \<open>The type \<open>DataBlock\<close>, the bytes of a whole block.\<close>

definition data_block :: "bytes layout" where
  "data_block = \<lparr>ly_size = BLOCK_SIZE, ly_dec = Inr, ly_enc = (\<lambda>data _. data)\<rparr>"

section \<open>The buffer\<close>

text \<open>
  One element of \<open>BlockCacheBuffer::buffer\<close>: the key, the block behind the \<open>Arc\<close> and the
  mutex, the strong count of the \<open>Arc\<close>, and whether the mutex is held.
\<close>

record slot =
  sl_id :: u64
  sl_block :: block_cache
  sl_strong :: nat
  sl_locked :: bool

text \<open>
  The device, the fields of \<open>BlockCacheBuffer\<close>, and whether the mutex around the buffer
  is held.
\<close>

record 'd store =
  st_dev :: 'd
  st_buffer :: "slot list"
  st_capacity :: nat
  st_locked :: bool

definition block_cache_buffer_new :: "nat \<Rightarrow> 'd \<Rightarrow> 'd store" where
  "block_cache_buffer_new cap dev =
     \<lparr>st_dev = dev, st_buffer = [], st_capacity = cap, st_locked = False\<rparr>"

definition slot_lookup :: "u64 \<Rightarrow> slot list \<Rightarrow> slot option" where
  "slot_lookup block_id buf = find (\<lambda>sl. sl_id sl = block_id) buf"

definition slot_map :: "u64 \<Rightarrow> (slot \<Rightarrow> slot) \<Rightarrow> slot list \<Rightarrow> slot list" where
  "slot_map block_id f buf = map (\<lambda>sl. if sl_id sl = block_id then f sl else sl) buf"

text \<open>
  The recycling branch of \<open>get\<close>: the first slot nobody else holds leaves the buffer, and
  dropping it writes it back (\<open>impl Drop for BlockCache\<close>).
\<close>

definition block_cache_buffer_recycle :: "'d block_device \<Rightarrow> 'd store \<Rightarrow> 'd store result" where
  "block_cache_buffer_recycle ops s =
     (case List.extract (\<lambda>sl. sl_strong sl = 1) (st_buffer s) of
        Some (before, sl, after) \<Rightarrow>
          bindr (block_cache_sync ops (sl_block sl) (st_dev s)) (\<lambda>(_, dev).
            Inr (s\<lparr>st_dev := dev, st_buffer := before @ after\<rparr>))
      | None \<Rightarrow> Inl Panic)"

definition block_cache_buffer_get :: "'d block_device \<Rightarrow> u64 \<Rightarrow> 'd store \<Rightarrow> 'd store result" where
  "block_cache_buffer_get ops block_id s =
     (case slot_lookup block_id (st_buffer s) of
        Some _ \<Rightarrow>
          Inr (s\<lparr>st_buffer := slot_map block_id (\<lambda>sl. sl\<lparr>sl_strong := Suc (sl_strong sl)\<rparr>) (st_buffer s)\<rparr>)
      | None \<Rightarrow>
          bindr (if length (st_buffer s) = st_capacity s then block_cache_buffer_recycle ops s else Inr s) (\<lambda>s.
          bindr (block_cache_new ops block_id (st_dev s)) (\<lambda>(block, dev).
            Inr (s\<lparr>st_dev := dev,
                    st_buffer := st_buffer s @
                      [\<lparr>sl_id = block_id, sl_block = block, sl_strong = 2, sl_locked = False\<rparr>]\<rparr>))))"

fun flush_slots :: "'d block_device \<Rightarrow> slot list \<Rightarrow> 'd \<Rightarrow> (slot list \<times> 'd) result" where
  "flush_slots ops [] dev = Inr ([], dev)"
| "flush_slots ops (sl # rest) dev =
     (if sl_locked sl then Inl Hang
      else bindr (block_cache_sync ops (sl_block sl) dev) (\<lambda>(block, dev).
           bindr (flush_slots ops rest dev) (\<lambda>(rest', dev).
             Inr (sl\<lparr>sl_block := block\<rparr> # rest', dev))))"

definition block_cache_buffer_flush :: "'d block_device \<Rightarrow> 'd store \<Rightarrow> 'd store result" where
  "block_cache_buffer_flush ops s =
     bindr (flush_slots ops (st_buffer s) (st_dev s)) (\<lambda>(buf, dev).
       Inr (s\<lparr>st_dev := dev, st_buffer := buf\<rparr>))"

text \<open>Dropping the whole buffer drops its slots front to back.\<close>

fun drop_slots :: "'d block_device \<Rightarrow> slot list \<Rightarrow> 'd \<Rightarrow> 'd result" where
  "drop_slots ops [] dev = Inr dev"
| "drop_slots ops (sl # rest) dev =
     bindr (block_cache_sync ops (sl_block sl) dev) (\<lambda>(_, dev). drop_slots ops rest dev)"

section \<open>Locks and reference counts\<close>

definition lock_cache :: "'d store \<Rightarrow> 'd store result" where
  "lock_cache s = (if st_locked s then Inl Hang else Inr (s\<lparr>st_locked := True\<rparr>))"

definition unlock_cache :: "'d store \<Rightarrow> 'd store" where
  "unlock_cache s = s\<lparr>st_locked := False\<rparr>"

definition lock_block :: "u64 \<Rightarrow> 'd store \<Rightarrow> (block_cache \<times> 'd store) result" where
  "lock_block block_id s =
     (case slot_lookup block_id (st_buffer s) of
        None \<Rightarrow> Inl Undefined
      | Some sl \<Rightarrow>
          if sl_locked sl then Inl Hang
          else Inr (sl_block sl,
                 s\<lparr>st_buffer := slot_map block_id (\<lambda>sl. sl\<lparr>sl_locked := True\<rparr>) (st_buffer s)\<rparr>))"

text \<open>The guard and then the \<open>Arc\<close> go out of scope; the block has its final value.\<close>

definition release_block :: "u64 \<Rightarrow> block_cache \<Rightarrow> 'd store \<Rightarrow> 'd store" where
  "release_block block_id block s =
     s\<lparr>st_buffer := slot_map block_id
        (\<lambda>sl. sl\<lparr>sl_block := block, sl_locked := False, sl_strong := sl_strong sl - 1\<rparr>) (st_buffer s)\<rparr>"

text \<open>
  The statement forms the file system is written with. In
  \<open>cache.lock().get(id, dev).lock().read(off, cb)\<close> all guards live to the end of the
  statement; \<open>locked_read\<close> is what follows \<open>cache.lock()\<close>. In \<open>update_dinode\<close> the guard of
  the buffer is gone before the callback runs, and only the block stays locked.
\<close>

definition locked_read ::
  "'d block_device \<Rightarrow> 'a layout \<Rightarrow> u64 \<Rightarrow> u64 \<Rightarrow> ('a \<Rightarrow> 'v result) \<Rightarrow> 'd store \<Rightarrow> ('v \<times> 'd store) result" where
  "locked_read ops T block_id offset cb s =
     bindr (block_cache_buffer_get ops block_id s) (\<lambda>s.
     bindr (lock_block block_id s) (\<lambda>(block, s).
     bindr (block_cache_read T offset cb block) (\<lambda>v.
       Inr (v, unlock_cache (release_block block_id block s)))))"

definition cache_read ::
  "'d block_device \<Rightarrow> 'a layout \<Rightarrow> u64 \<Rightarrow> u64 \<Rightarrow> ('a \<Rightarrow> 'v result) \<Rightarrow> 'd store \<Rightarrow> ('v \<times> 'd store) result" where
  "cache_read ops T block_id offset cb s =
     bindr (lock_cache s) (\<lambda>s. locked_read ops T block_id offset cb s)"

definition cache_write ::
  "'d block_device \<Rightarrow> 'a layout \<Rightarrow> u64 \<Rightarrow> u64 \<Rightarrow> ('a \<Rightarrow> ('v \<times> 'a) result) \<Rightarrow> 'd store \<Rightarrow>
     ('v \<times> 'd store) result" where
  "cache_write ops T block_id offset cb s =
     bindr (lock_cache s) (\<lambda>s.
     bindr (block_cache_buffer_get ops block_id s) (\<lambda>s.
     bindr (lock_block block_id s) (\<lambda>(block, s).
     bindr (block_cache_write T offset cb block) (\<lambda>(v, block).
       Inr (v, unlock_cache (release_block block_id block s))))))"

definition cache_update ::
  "'d block_device \<Rightarrow> 'a layout \<Rightarrow> u64 \<Rightarrow> u64 \<Rightarrow>
     ('a \<Rightarrow> 'd store \<Rightarrow> ('v \<times> 'a \<times> 'd store) result) \<Rightarrow> 'd store \<Rightarrow> ('v \<times> 'd store) result" where
  "cache_update ops T block_id offset f s =
     bindr (lock_cache s) (\<lambda>s.
     bindr (block_cache_buffer_get ops block_id s) (\<lambda>s.
     bindr (lock_block block_id (unlock_cache s)) (\<lambda>(block, s).
     bindr (block_cache_get_mut (ly_size T) offset block) (\<lambda>(bs, block).
     bindr (ly_dec T bs) (\<lambda>x.
     bindr (f x s) (\<lambda>(v, x', s).
       Inr (v, release_block block_id
                (block\<lparr>bc_cache := put_slice (unat offset) (ly_enc T x' bs) (bc_cache block)\<rparr>) s)))))))"

section \<open>What the cache stands for\<close>

text \<open>
  A block device as the file system sees it: block \<open>b\<close> holds \<open>blk d b\<close>, \<open>inr d b\<close> says
  that \<open>b\<close> is in range, \<open>dinv\<close> is the invariant of the device.
\<close>

locale block_store =
  fixes ops :: "'d block_device"
    and dinv :: "'d \<Rightarrow> bool"
    and blk :: "'d \<Rightarrow> u64 \<Rightarrow> bytes"
    and inr :: "'d \<Rightarrow> u64 \<Rightarrow> bool"
  assumes read_ok: "dinv d \<Longrightarrow> inr d b \<Longrightarrow> length buf = BLOCK_SIZE \<Longrightarrow>
        \<exists>d'. bd_read ops d b buf = Inr (Inr (), blk d b, d') \<and> dinv d' \<and> blk d' = blk d \<and> inr d' = inr d"
    and write_ok: "dinv d \<Longrightarrow> inr d b \<Longrightarrow> length buf = BLOCK_SIZE \<Longrightarrow>
        \<exists>d'. bd_write ops d b buf = Inr (Inr (), d') \<and> dinv d' \<and> blk d' = (blk d)(b := buf) \<and> inr d' = inr d"
    and blk_length: "dinv d \<Longrightarrow> inr d b \<Longrightarrow> length (blk d b) = BLOCK_SIZE"

text \<open>
  The disk the cache presents: the cached copy of a block where there is one, the
  device's otherwise.
\<close>

definition st_view :: "('d \<Rightarrow> u64 \<Rightarrow> bytes) \<Rightarrow> 'd store \<Rightarrow> u64 \<Rightarrow> bytes" where
  "st_view blk s b =
     (case slot_lookup b (st_buffer s) of
        Some sl \<Rightarrow> bc_cache (sl_block sl)
      | None \<Rightarrow> blk (st_dev s) b)"

text \<open>
  The invariant of the cache while the blocks of \<open>H\<close> are locked by the running
  statement: a slot is held once by the buffer and once more by the statement if it is
  in \<open>H\<close>; a clean slot agrees with the device.
\<close>

definition slot_ok :: "('d \<Rightarrow> u64 \<Rightarrow> bytes) \<Rightarrow> ('d \<Rightarrow> u64 \<Rightarrow> bool) \<Rightarrow> u64 set \<Rightarrow> 'd \<Rightarrow> slot \<Rightarrow> bool" where
  "slot_ok blk inr H dev sl \<longleftrightarrow>
     length (bc_cache (sl_block sl)) = BLOCK_SIZE \<and> bc_block_id (sl_block sl) = sl_id sl \<and>
     inr dev (sl_id sl) \<and> sl_strong sl = (if sl_id sl \<in> H then 2 else 1) \<and>
     sl_locked sl = (sl_id sl \<in> H) \<and>
     (bc_modified (sl_block sl) \<or> bc_cache (sl_block sl) = blk dev (sl_id sl))"

definition store_ok ::
  "('d \<Rightarrow> bool) \<Rightarrow> ('d \<Rightarrow> u64 \<Rightarrow> bytes) \<Rightarrow> ('d \<Rightarrow> u64 \<Rightarrow> bool) \<Rightarrow> u64 set \<Rightarrow> 'd store \<Rightarrow> bool" where
  "store_ok dinv blk inr H s \<longleftrightarrow>
     dinv (st_dev s) \<and> distinct (map sl_id (st_buffer s)) \<and>
     length (st_buffer s) \<le> st_capacity s \<and> finite H \<and> card H < st_capacity s \<and>
     H \<subseteq> sl_id ` set (st_buffer s) \<and> (\<forall>sl \<in> set (st_buffer s). slot_ok blk inr H (st_dev s) sl)"

text \<open>
  Sequences of requests for whole blocks, once through the cache and once on a plain
  disk: the disk is the reference the cache is compared with.
\<close>

datatype block_req = Read_Block (req_block: u64) | Write_Block (req_block: u64) bytes

fun req_ok :: "block_req \<Rightarrow> bool" where
  "req_ok (Read_Block b) \<longleftrightarrow> True"
| "req_ok (Write_Block b data) \<longleftrightarrow> length data = BLOCK_SIZE"

fun cache_reqs :: "'d block_device \<Rightarrow> block_req list \<Rightarrow> 'd store \<Rightarrow> (bytes list \<times> 'd store) result" where
  "cache_reqs ops [] s = Inr ([], s)"
| "cache_reqs ops (Read_Block b # rs) s =
     bindr (cache_read ops data_block b 0 Inr s) (\<lambda>(v, s).
     bindr (cache_reqs ops rs s) (\<lambda>(vs, s). Inr (v # vs, s)))"
| "cache_reqs ops (Write_Block b data # rs) s =
     bindr (cache_write ops data_block b 0 (\<lambda>_. Inr ((), data)) s) (\<lambda>(_, s). cache_reqs ops rs s)"

fun disk_reqs :: "block_req list \<Rightarrow> (u64 \<Rightarrow> bytes) \<Rightarrow> bytes list \<times> (u64 \<Rightarrow> bytes)" where
  "disk_reqs [] D = ([], D)"
| "disk_reqs (Read_Block b # rs) D = (case disk_reqs rs D of (vs, D') \<Rightarrow> (D b # vs, D'))"
| "disk_reqs (Write_Block b data # rs) D = disk_reqs rs (D(b := data))"

text \<open>One use of the cache: build it, serve the requests, drop it.\<close>

definition cache_session :: "'d block_device \<Rightarrow> nat \<Rightarrow> block_req list \<Rightarrow> 'd \<Rightarrow> (bytes list \<times> 'd) result" where
  "cache_session ops C rs d =
     bindr (cache_reqs ops rs (block_cache_buffer_new C d)) (\<lambda>(vs, s).
     bindr (drop_slots ops (st_buffer s) (st_dev s)) (\<lambda>d. Inr (vs, d)))"

section \<open>Lemmas on slots\<close>

lemma slot_lookup_Nil [simp]: "slot_lookup b [] = None"
  by (simp add: slot_lookup_def)

lemma slot_lookup_Cons [simp]:
  "slot_lookup b (sl # buf) = (if sl_id sl = b then Some sl else slot_lookup b buf)"
  by (simp add: slot_lookup_def)

lemma slot_lookup_append:
  "slot_lookup b (xs @ ys) = (case slot_lookup b xs of Some sl \<Rightarrow> Some sl | None \<Rightarrow> slot_lookup b ys)"
  by (induction xs) auto

lemma slot_lookup_None_iff: "slot_lookup b buf = None \<longleftrightarrow> b \<notin> sl_id ` set buf"
  by (induction buf) auto

lemma slot_lookup_Some: "slot_lookup b buf = Some sl \<Longrightarrow> sl \<in> set buf \<and> sl_id sl = b"
  by (induction buf) (auto split: if_splits)

lemma slot_lookup_distinct:
  "distinct (map sl_id buf) \<Longrightarrow> sl \<in> set buf \<Longrightarrow> slot_lookup (sl_id sl) buf = Some sl"
  by (induction buf) (auto split: if_splits)

lemma slot_lookup_map:
  assumes "\<And>sl. sl_id (f sl) = sl_id sl"
  shows "slot_lookup b' (slot_map b f buf) =
    (if b' = b then map_option f (slot_lookup b buf) else slot_lookup b' buf)"
  using assms by (induction buf) (auto simp: slot_map_def)

lemma map_id_slot_map [simp]:
  "(\<And>sl. sl_id (f sl) = sl_id sl) \<Longrightarrow> map sl_id (slot_map b f buf) = map sl_id buf"
  by (simp add: slot_map_def)

lemma length_slot_map [simp]: "length (slot_map b f buf) = length buf"
  by (simp add: slot_map_def)

lemma slot_map_simps [simp]:
  "slot_map b f [] = []"
  "slot_map b f (sl # buf) = (if sl_id sl = b then f sl else sl) # slot_map b f buf"
  by (simp_all add: slot_map_def)

lemma slot_map_append: "slot_map b f (xs @ ys) = slot_map b f xs @ slot_map b f ys"
  by (simp add: slot_map_def)

lemma slot_map_comp:
  "(\<And>sl. sl_id (f sl) = sl_id sl) \<Longrightarrow> slot_map b g (slot_map b f buf) = slot_map b (\<lambda>sl. g (f sl)) buf"
  by (simp add: slot_map_def)

lemma set_slot_map:
  "set (slot_map b f buf) = (\<lambda>sl. if sl_id sl = b then f sl else sl) ` set buf"
  by (simp add: slot_map_def)

lemma ball_slot_map:
  "(\<forall>sl \<in> set (slot_map b f buf). P sl) \<longleftrightarrow> (\<forall>sl \<in> set buf. P (if sl_id sl = b then f sl else sl))"
  by (induction buf) simp_all

lemma slot_map_cong:
  "(\<And>sl. sl \<in> set buf \<Longrightarrow> sl_id sl = b \<Longrightarrow> f sl = g sl) \<Longrightarrow> slot_map b f buf = slot_map b g buf"
  by (simp add: slot_map_def)

lemma slot_map_id: "(\<And>sl. sl \<in> set buf \<Longrightarrow> sl_id sl = b \<Longrightarrow> f sl = sl) \<Longrightarrow> slot_map b f buf = buf"
  by (induction buf) (auto simp: slot_map_def)

lemma slot_map_absent: "b \<notin> sl_id ` set buf \<Longrightarrow> slot_map b f buf = buf"
  by (rule slot_map_id) (metis imageI)

lemma ids_slot_map [simp]:
  "(\<And>sl. sl_id (f sl) = sl_id sl) \<Longrightarrow> sl_id ` set (slot_map b f buf) = sl_id ` set buf"
  using map_id_slot_map [of f b buf] by (metis list.set_map)

section \<open>The cache is transparent\<close>

definition put_block :: "u64 \<Rightarrow> block_cache \<Rightarrow> 'd store \<Rightarrow> 'd store" where
  "put_block b block s = s\<lparr>st_buffer := slot_map b (\<lambda>sl. sl\<lparr>sl_block := block\<rparr>) (st_buffer s)\<rparr>"

definition hold_block :: "u64 \<Rightarrow> 'd store \<Rightarrow> 'd store" where
  "hold_block b s =
     s\<lparr>st_buffer := slot_map b (\<lambda>sl. sl\<lparr>sl_strong := 2, sl_locked := True\<rparr>) (st_buffer s)\<rparr>"

definition same_frame :: "'d store \<Rightarrow> 'd store \<Rightarrow> bool" where
  "same_frame s s' \<longleftrightarrow> st_capacity s' = st_capacity s \<and> st_locked s' = st_locked s"

definition block_for :: "('d \<Rightarrow> u64 \<Rightarrow> bytes) \<Rightarrow> 'd \<Rightarrow> u64 \<Rightarrow> block_cache \<Rightarrow> bool" where
  "block_for blk dev b block \<longleftrightarrow>
     length (bc_cache block) = BLOCK_SIZE \<and> bc_block_id block = b \<and>
     (bc_modified block \<or> bc_cache block = blk dev b)"

text \<open>
  The state between two statements: capacity \<open>C\<close>, blocks in range \<open>R\<close>, the blocks \<open>H\<close>
  locked, the buffer itself unlocked. \<open>store_gives\<close>: the computation returns \<open>v\<close> in such a
  state, and the disk it presents is \<open>D\<close>.
\<close>

definition store_at ::
  "('d \<Rightarrow> bool) \<Rightarrow> ('d \<Rightarrow> u64 \<Rightarrow> bytes) \<Rightarrow> ('d \<Rightarrow> u64 \<Rightarrow> bool) \<Rightarrow> nat \<Rightarrow> (u64 \<Rightarrow> bool) \<Rightarrow> u64 set \<Rightarrow>
     'd store \<Rightarrow> bool" where
  "store_at dinv blk inr C R H s \<longleftrightarrow>
     store_ok dinv blk inr H s \<and> \<not> st_locked s \<and> st_capacity s = C \<and> inr (st_dev s) = R"

definition store_gives ::
  "('d \<Rightarrow> bool) \<Rightarrow> ('d \<Rightarrow> u64 \<Rightarrow> bytes) \<Rightarrow> ('d \<Rightarrow> u64 \<Rightarrow> bool) \<Rightarrow> nat \<Rightarrow> (u64 \<Rightarrow> bool) \<Rightarrow> u64 set \<Rightarrow>
     ('v \<times> 'd store) result \<Rightarrow> 'v \<Rightarrow> (u64 \<Rightarrow> bytes) \<Rightarrow> bool" where
  "store_gives dinv blk inr C R H r v D \<longleftrightarrow>
     (\<exists>s'. r = Inr (v, s') \<and> store_at dinv blk inr C R H s' \<and> st_view blk s' = D)"

lemma slot_ok_clean_dev:
  assumes "slot_ok blk inr H d sl" and "inr d' = inr d"
    and "bc_modified (sl_block sl) \<or> blk d' (sl_id sl) = blk d (sl_id sl)"
  shows "slot_ok blk inr H d' sl"
  using assms by (auto simp: slot_ok_def)

lemma drop_slots_flush:
  "(\<And>sl. sl \<in> set buf \<Longrightarrow> \<not> sl_locked sl) \<Longrightarrow>
    drop_slots ops buf d = bindr (flush_slots ops buf d) (\<lambda>(_, d). Inr d)"
  by (induction buf arbitrary: d) (auto simp: bindr_def split: sum.split)

context block_store
begin

abbreviation ok :: "u64 set \<Rightarrow> 'd store \<Rightarrow> bool" where
  "ok \<equiv> store_ok dinv blk inr"

abbreviation at :: "nat \<Rightarrow> (u64 \<Rightarrow> bool) \<Rightarrow> u64 set \<Rightarrow> 'd store \<Rightarrow> bool" where
  "at \<equiv> store_at dinv blk inr"

abbreviation gives ::
  "nat \<Rightarrow> (u64 \<Rightarrow> bool) \<Rightarrow> u64 set \<Rightarrow> ('v \<times> 'd store) result \<Rightarrow> 'v \<Rightarrow> (u64 \<Rightarrow> bytes) \<Rightarrow> bool" where
  "gives \<equiv> store_gives dinv blk inr"

abbreviation view :: "'d store \<Rightarrow> u64 \<Rightarrow> bytes" where
  "view \<equiv> st_view blk"

lemma ok_slot: "ok H s \<Longrightarrow> slot_lookup b (st_buffer s) = Some sl \<Longrightarrow> slot_ok blk inr H (st_dev s) sl \<and> sl_id sl = b"
  by (auto simp: store_ok_def dest: slot_lookup_Some)

lemma sync_ok:
  assumes "dinv d" and "slot_ok blk inr H d sl"
  shows "\<exists>d'. block_cache_sync ops (sl_block sl) d = Inr ((sl_block sl)\<lparr>bc_modified := False\<rparr>, d') \<and>
    dinv d' \<and> blk d' = (blk d)(sl_id sl := bc_cache (sl_block sl)) \<and> inr d' = inr d"
proof (cases "bc_modified (sl_block sl)")
  case True
  with assms write_ok [of d "sl_id sl" "bc_cache (sl_block sl)"] show ?thesis
    by (auto simp: block_cache_sync_def slot_ok_def)
next
  case False
  with assms(2) have "(blk d)(sl_id sl := bc_cache (sl_block sl)) = blk d"
    by (auto simp: slot_ok_def)
  moreover have "(sl_block sl)\<lparr>bc_modified := False\<rparr> = sl_block sl"
    using False by (cases "sl_block sl") simp
  ultimately show ?thesis
    using False assms(1) by (simp add: block_cache_sync_def)
qed

lemma recycle_ok:
  assumes "ok H s" and "length (st_buffer s) = st_capacity s"
  shows "\<exists>s'. block_cache_buffer_recycle ops s = Inr s' \<and> ok H s' \<and> view s' = view s \<and>
    length (st_buffer s') < st_capacity s' \<and> same_frame s s' \<and> inr (st_dev s') = inr (st_dev s) \<and>
    sl_id ` set (st_buffer s') \<subseteq> sl_id ` set (st_buffer s)"
proof -
  have dist: "distinct (map sl_id (st_buffer s))" and H: "finite H" "card H < st_capacity s"
    and sub: "H \<subseteq> sl_id ` set (st_buffer s)" and dev: "dinv (st_dev s)"
    and slots: "\<And>sl. sl \<in> set (st_buffer s) \<Longrightarrow> slot_ok blk inr H (st_dev s) sl"
    using assms(1) by (auto simp: store_ok_def)
  have "card (sl_id ` set (st_buffer s)) = st_capacity s"
    using dist assms(2) distinct_card [of "map sl_id (st_buffer s)"] by simp
  then have "\<not> sl_id ` set (st_buffer s) \<subseteq> H"
    using card_mono [OF H(1)] H(2) by (metis not_less)
  then obtain sl0 where "sl0 \<in> set (st_buffer s)" "sl_id sl0 \<notin> H" by auto
  with slots have "sl0 \<in> set (st_buffer s)" "sl_strong sl0 = 1" by (auto simp: slot_ok_def)
  then have "List.extract (\<lambda>sl. sl_strong sl = 1) (st_buffer s) \<noteq> None"
    by (auto simp: extract_None_iff)
  then obtain xs sl ys where ex: "List.extract (\<lambda>sl. sl_strong sl = 1) (st_buffer s) = Some (xs, sl, ys)"
    by auto
  then have buf: "st_buffer s = xs @ sl # ys" and strong: "sl_strong sl = 1"
    by (auto simp: extract_Some_iff)
  have slok: "slot_ok blk inr H (st_dev s) sl" by (rule slots) (simp add: buf)
  with strong have nH: "sl_id sl \<notin> H" by (simp add: slot_ok_def split: if_splits)
  from sync_ok [OF dev slok] obtain d' where sync: "block_cache_sync ops (sl_block sl) (st_dev s) =
      Inr ((sl_block sl)\<lparr>bc_modified := False\<rparr>, d')" and d': "dinv d'"
    "blk d' = (blk (st_dev s))(sl_id sl := bc_cache (sl_block sl))" "inr d' = inr (st_dev s)"
    by auto
  define s' where "s' = s\<lparr>st_dev := d', st_buffer := xs @ ys\<rparr>"
  have rec: "block_cache_buffer_recycle ops s = Inr s'"
    unfolding block_cache_buffer_recycle_def ex s'_def by (simp add: sync)
  from dist buf have notin: "sl_id sl \<notin> sl_id ` set xs" "sl_id sl \<notin> sl_id ` set ys" by auto
  have "slot_ok blk inr H d' x" if "x \<in> set (xs @ ys)" for x
  proof (rule slot_ok_clean_dev [where d = "st_dev s"])
    show "slot_ok blk inr H (st_dev s) x" using that buf slots by auto
    show "bc_modified (sl_block x) \<or> blk d' (sl_id x) = blk (st_dev s) (sl_id x)"
    proof -
      have "sl_id x \<noteq> sl_id sl" using that notin by (metis Un_iff imageI set_append)
      then show ?thesis by (simp add: d'(2))
    qed
  qed (rule d'(3))
  with d' dist buf H sub nH assms(2) have "ok H s'"
    by (auto simp: store_ok_def s'_def)
  moreover have "view s' = view s"
  proof
    fix b
    have "slot_lookup (sl_id sl) xs = None" "slot_lookup (sl_id sl) ys = None"
      using notin by (simp_all add: slot_lookup_None_iff)
    then show "view s' b = view s b"
      by (cases "b = sl_id sl") (simp_all add: st_view_def s'_def buf slot_lookup_append d'(2) split: option.split)
  qed
  ultimately show ?thesis
    using rec assms(2) d'(3) by (auto simp: s'_def buf same_frame_def)
qed

lemma fresh_slot_ok:
  assumes "ok H s" and "b \<notin> sl_id ` set (st_buffer s)" and "inr (st_dev s) b"
    and "length (st_buffer s) < st_capacity s" and "b \<notin> H"
  shows "\<exists>block d'. block_cache_new ops b (st_dev s) = Inr (block, d') \<and> inr d' = inr (st_dev s) \<and>
    (let s1 = s\<lparr>st_dev := d', st_buffer := st_buffer s @
        [\<lparr>sl_id = b, sl_block = block, sl_strong = 1, sl_locked = False\<rparr>]\<rparr>
     in ok H s1 \<and> view s1 = view s)"
proof -
  have dev: "dinv (st_dev s)" using assms(1) by (simp add: store_ok_def)
  from read_ok [OF dev assms(3), of "replicate BLOCK_SIZE 0"] obtain d' where
    rd: "bd_read ops (st_dev s) b (replicate BLOCK_SIZE 0) = Inr (Inr (), blk (st_dev s) b, d')"
    and d': "dinv d'" "blk d' = blk (st_dev s)" "inr d' = inr (st_dev s)" by auto
  have len: "length (blk (st_dev s) b) = BLOCK_SIZE" by (rule blk_length [OF dev assms(3)])
  define sl where "sl = \<lparr>sl_id = b, sl_block = \<lparr>bc_cache = blk (st_dev s) b, bc_block_id = b, bc_modified = False\<rparr>,
    sl_strong = 1, sl_locked = False\<rparr>"
  define s1 where "s1 = s\<lparr>st_dev := d', st_buffer := st_buffer s @ [sl]\<rparr>"
  have "slot_ok blk inr H d' sl"
    using len assms(3,5) d' by (simp add: slot_ok_def sl_def)
  moreover have "slot_ok blk inr H d' x" if "x \<in> set (st_buffer s)" for x
    by (rule slot_ok_clean_dev [where d = "st_dev s"]) (use that assms(1) d' in \<open>auto simp: store_ok_def\<close>)
  ultimately have "ok H s1"
    using assms(1,2,4) d'(1) by (auto simp: store_ok_def s1_def sl_def)
  moreover have "slot_lookup b (st_buffer s) = None" using assms(2) by (simp add: slot_lookup_None_iff)
  then have "view s1 = view s"
    by (auto simp: fun_eq_iff st_view_def s1_def slot_lookup_append d'(2) sl_def split: option.split)
  ultimately show ?thesis
    by (simp add: block_cache_new_def rd d'(3) s1_def sl_def)
qed

lemma get_ok:
  assumes "ok H s" and "b \<notin> H" and "inr (st_dev s) b"
  shows "\<exists>s1. block_cache_buffer_get ops b s =
      Inr (s1\<lparr>st_buffer := slot_map b (\<lambda>sl. sl\<lparr>sl_strong := 2\<rparr>) (st_buffer s1)\<rparr>) \<and>
    ok H s1 \<and> view s1 = view s \<and> same_frame s s1 \<and> inr (st_dev s1) = inr (st_dev s) \<and>
    b \<in> sl_id ` set (st_buffer s1)"
proof (cases "slot_lookup b (st_buffer s)")
  case (Some sl)
  have "slot_map b (\<lambda>sl. sl\<lparr>sl_strong := Suc (sl_strong sl)\<rparr>) (st_buffer s) =
      slot_map b (\<lambda>sl. sl\<lparr>sl_strong := 2\<rparr>) (st_buffer s)"
    by (rule slot_map_cong) (use assms(1,2) in \<open>auto simp: store_ok_def slot_ok_def\<close>)
  with Some slot_lookup_Some [OF Some] assms show ?thesis
    by (intro exI [of _ s]) (auto simp: block_cache_buffer_get_def same_frame_def)
next
  case None
  then have out: "b \<notin> sl_id ` set (st_buffer s)" by (simp add: slot_lookup_None_iff)
  have "\<exists>s0. (if length (st_buffer s) = st_capacity s then block_cache_buffer_recycle ops s else Inr s) = Inr s0 \<and>
    ok H s0 \<and> view s0 = view s \<and> length (st_buffer s0) < st_capacity s0 \<and> same_frame s s0 \<and>
    inr (st_dev s0) = inr (st_dev s) \<and> sl_id ` set (st_buffer s0) \<subseteq> sl_id ` set (st_buffer s)"
  proof (cases "length (st_buffer s) = st_capacity s")
    case True
    with recycle_ok [OF assms(1) True] show ?thesis by simp
  next
    case False
    moreover from False assms(1) have "length (st_buffer s) < st_capacity s" by (simp add: store_ok_def)
    ultimately show ?thesis using assms(1) by (simp add: same_frame_def)
  qed
  then obtain s0 where s0: "(if length (st_buffer s) = st_capacity s then block_cache_buffer_recycle ops s else Inr s) = Inr s0"
    "ok H s0" "view s0 = view s" "length (st_buffer s0) < st_capacity s0" "same_frame s s0"
    "inr (st_dev s0) = inr (st_dev s)" "sl_id ` set (st_buffer s0) \<subseteq> sl_id ` set (st_buffer s)" by blast
  have out0: "b \<notin> sl_id ` set (st_buffer s0)" using out s0(7) by blast
  from fresh_slot_ok [OF s0(2) out0 _ s0(4) assms(2)] s0(6) assms(3) obtain block d' where
    new: "block_cache_new ops b (st_dev s0) = Inr (block, d')" and d': "inr d' = inr (st_dev s0)"
    and s1: "ok H (s0\<lparr>st_dev := d', st_buffer := st_buffer s0 @
        [\<lparr>sl_id = b, sl_block = block, sl_strong = 1, sl_locked = False\<rparr>]\<rparr>)"
      "view (s0\<lparr>st_dev := d', st_buffer := st_buffer s0 @
        [\<lparr>sl_id = b, sl_block = block, sl_strong = 1, sl_locked = False\<rparr>]\<rparr>) = view s0"
    by (auto simp: Let_def)
  have "slot_map b (\<lambda>sl. sl\<lparr>sl_strong := 2\<rparr>) (st_buffer s0) = st_buffer s0"
    by (rule slot_map_absent [OF out0])
  with s1 d' s0(3,5,6) show ?thesis
    by (intro exI [of _ "s0\<lparr>st_dev := d', st_buffer := st_buffer s0 @
        [\<lparr>sl_id = b, sl_block = block, sl_strong = 1, sl_locked = False\<rparr>]\<rparr>"])
      (simp add: block_cache_buffer_get_def None s0(1) new slot_map_append same_frame_def)
qed

lemma view_unlock [simp]: "view (unlock_cache s) = view s" "view (s\<lparr>st_locked := l\<rparr>) = view s"
  by (simp_all add: unlock_cache_def st_view_def fun_eq_iff split: option.split)

lemma ok_unlock [simp]: "ok H (unlock_cache s) = ok H s" "ok H (s\<lparr>st_locked := l\<rparr>) = ok H s"
  by (simp_all add: unlock_cache_def store_ok_def)

lemma hold_ok:
  assumes "ok H s" and "b \<in> sl_id ` set (st_buffer s)" and "b \<notin> H" and "Suc (card H) < st_capacity s"
  shows "ok (insert b H) (hold_block b s)" and "view (hold_block b s) = view s"
proof -
  have "slot_ok blk inr (insert b H) (st_dev s) (if sl_id x = b then x\<lparr>sl_strong := 2, sl_locked := True\<rparr> else x)"
    if "x \<in> set (st_buffer s)" for x
    using assms(1) that by (auto simp: store_ok_def slot_ok_def)
  then show "ok (insert b H) (hold_block b s)"
    using assms by (simp add: store_ok_def hold_block_def ball_slot_map)
  show "view (hold_block b s) = view s"
    by (auto simp: fun_eq_iff st_view_def hold_block_def slot_lookup_map split: option.split)
qed

lemma acquire:
  assumes "at C R H s" and "b \<notin> H" and "R b" and "Suc (card H) < C"
  shows "\<exists>s1 s2 block. lock_cache s = Inr (s\<lparr>st_locked := True\<rparr>) \<and>
    block_cache_buffer_get ops b (s\<lparr>st_locked := True\<rparr>) = Inr s1 \<and>
    lock_block b s1 = Inr (block, s2) \<and> lock_block b (unlock_cache s1) = Inr (block, unlock_cache s2) \<and>
    at C R (insert b H) (unlock_cache s2) \<and> view s2 = view s \<and>
    bc_cache block = view s b \<and> block_for blk (st_dev s2) b block"
proof -
  have a: "ok H s" "\<not> st_locked s" "st_capacity s = C" "inr (st_dev s) = R"
    using assms(1) by (auto simp: store_at_def)
  from get_ok [of H "s\<lparr>st_locked := True\<rparr>" b] a assms(2,3) obtain s1 where
    get: "block_cache_buffer_get ops b (s\<lparr>st_locked := True\<rparr>) =
      Inr (s1\<lparr>st_buffer := slot_map b (\<lambda>sl. sl\<lparr>sl_strong := 2\<rparr>) (st_buffer s1)\<rparr>)"
    and s1: "ok H s1" "view s1 = view s" "st_capacity s1 = C" "st_locked s1" "inr (st_dev s1) = R"
      "b \<in> sl_id ` set (st_buffer s1)"
    by (auto simp: same_frame_def)
  from s1(6) obtain sl where sl: "slot_lookup b (st_buffer s1) = Some sl"
    using slot_lookup_None_iff by (metis not_Some_eq)
  from ok_slot [OF s1(1) sl] assms(2) have slok: "\<not> sl_locked sl" "slot_ok blk inr H (st_dev s1) sl" "sl_id sl = b"
    by (auto simp: slot_ok_def)
  have lock: "lock_block b (s1\<lparr>st_buffer := slot_map b (\<lambda>sl. sl\<lparr>sl_strong := 2\<rparr>) (st_buffer s1)\<rparr>) =
      Inr (sl_block sl, hold_block b s1)"
    "lock_block b (unlock_cache (s1\<lparr>st_buffer := slot_map b (\<lambda>sl. sl\<lparr>sl_strong := 2\<rparr>) (st_buffer s1)\<rparr>)) =
      Inr (sl_block sl, unlock_cache (hold_block b s1))"
    using slok(1) by (simp_all add: lock_block_def unlock_cache_def hold_block_def slot_lookup_map sl slot_map_comp)
  have "ok (insert b H) (hold_block b s1)" "view (hold_block b s1) = view s"
    using hold_ok [OF s1(1,6) assms(2)] s1(2,3) assms(4) by auto
  moreover have "bc_cache (sl_block sl) = view s b"
    using sl s1(2) by (auto simp: st_view_def fun_eq_iff split: option.splits dest: spec [of _ b])
  moreover have "block_for blk (st_dev s1) b (sl_block sl)"
    using slok by (auto simp: block_for_def slot_ok_def)
  ultimately show ?thesis
    using get lock a s1(3,5)
    by (auto simp: lock_cache_def store_at_def hold_block_def unlock_cache_def)
qed

text \<open>Releasing a block while the device may have received a new copy of that block.\<close>

lemma release_dev:
  assumes "at C R (insert b H) s" and "b \<notin> H" and "dinv d" and "inr d = inr (st_dev s)"
    and "\<And>c. c \<noteq> b \<Longrightarrow> blk d c = blk (st_dev s) c" and "block_for blk d b block"
  shows "at C R H (release_block b block (s\<lparr>st_dev := d\<rparr>))"
    and "view (release_block b block (s\<lparr>st_dev := d\<rparr>)) = (view s)(b := bc_cache block)"
proof -
  have a: "ok (insert b H) s" using assms(1) by (simp add: store_at_def)
  have "\<forall>x \<in> set (st_buffer s). slot_ok blk inr H d
      (if sl_id x = b then x\<lparr>sl_block := block, sl_locked := False, sl_strong := sl_strong x - 1\<rparr> else x)"
  proof
    fix x assume "x \<in> set (st_buffer s)"
    with a have "slot_ok blk inr (insert b H) (st_dev s) x" by (simp add: store_ok_def)
    with assms(2,4,6) assms(5) [of "sl_id x"] show "slot_ok blk inr H d
        (if sl_id x = b then x\<lparr>sl_block := block, sl_locked := False, sl_strong := sl_strong x - 1\<rparr> else x)"
      by (auto simp: slot_ok_def block_for_def)
  qed
  then have "ok H (release_block b block (s\<lparr>st_dev := d\<rparr>))"
    using a assms(2,3) by (simp add: store_ok_def release_block_def ball_slot_map del: One_nat_def split del: if_split)
  then show "at C R H (release_block b block (s\<lparr>st_dev := d\<rparr>))"
    using assms(1,4) by (simp add: store_at_def release_block_def)
  have "b \<in> sl_id ` set (st_buffer s)" using a by (auto simp: store_ok_def)
  then have "slot_lookup b (st_buffer s) \<noteq> None" by (simp add: slot_lookup_None_iff)
  then show "view (release_block b block (s\<lparr>st_dev := d\<rparr>)) = (view s)(b := bc_cache block)"
    using assms(5) by (auto simp: fun_eq_iff st_view_def release_block_def slot_lookup_map split: option.split)
qed

lemma release:
  assumes "at C R (insert b H) s" and "b \<notin> H" and "block_for blk (st_dev s) b block"
  shows "at C R H (release_block b block s)"
    and "view (release_block b block s) = (view s)(b := bc_cache block)"
  using release_dev [OF assms(1,2) _ refl refl assms(3)] assms(1) by (simp_all add: store_at_def store_ok_def)

lemma gives_bind:
  assumes "gives C R H m v D"
    and "\<And>s'. at C R H s' \<Longrightarrow> view s' = D \<Longrightarrow> gives C R H (k v s') w D'"
  shows "gives C R H (bindr m (\<lambda>(v, s). k v s)) w D'"
  using assms by (auto simp: store_gives_def)

lemma gives_return: "at C R H s \<Longrightarrow> view s = D \<Longrightarrow> gives C R H (Inr (v, s)) v D"
  by (auto simp: store_gives_def)

lemma gives_Inr: "gives C R H r v D \<Longrightarrow> \<exists>s'. r = Inr (v, s') \<and> at C R H s' \<and> view s' = D"
  by (simp add: store_gives_def)

lemma view_length: "at C R H s \<Longrightarrow> R b \<Longrightarrow> length (view s b) = BLOCK_SIZE"
  using blk_length by (auto simp: store_at_def st_view_def store_ok_def slot_ok_def
      dest: slot_lookup_Some split: option.split)

lemma release_unlock: "unlock_cache (release_block b block s) = release_block b block (unlock_cache s)"
  by (simp add: unlock_cache_def release_block_def)

lemma block_for_unlock [simp]: "st_dev (unlock_cache s) = st_dev s"
  by (simp add: unlock_cache_def)

lemma get_ref_fits:
  assumes "unat off + sz \<le> BLOCK_SIZE" and "unat off < BLOCK_SIZE" and "length (bc_cache block) = BLOCK_SIZE"
  shows "block_cache_get_ref sz off block = Inr (get_slice (unat off) sz (bc_cache block))"
proof -
  have "unat off + sz < usize_range" using assms(1) by (simp add: BLOCK_SIZE_def)
  with assms show ?thesis by (simp add: block_cache_get_ref_def)
qed

text \<open>
  One statement of the file system on the disk the cache presents: the value read, the
  value written, and a critical section that runs other statements.
\<close>

lemma locked_read_gives:
  assumes "at C R H s" and "b \<notin> H" and "R b" and "Suc (card H) < C"
    and "unat off + ly_size T \<le> BLOCK_SIZE" and "unat off < BLOCK_SIZE"
    and "ly_dec T (get_slice (unat off) (ly_size T) (view s b)) = Inr x" and "cb x = Inr v"
  shows "gives C R H (locked_read ops T b off cb (s\<lparr>st_locked := True\<rparr>)) v (view s)"
proof -
  from acquire [OF assms(1-4)] obtain s1 s2 block where
    g: "block_cache_buffer_get ops b (s\<lparr>st_locked := True\<rparr>) = Inr s1" "lock_block b s1 = Inr (block, s2)"
    and h: "at C R (insert b H) (unlock_cache s2)" "view s2 = view s" "bc_cache block = view s b"
      "block_for blk (st_dev s2) b block" by blast
  have rd: "block_cache_read T off cb block = Inr v"
    using get_ref_fits [OF assms(5,6), of block] h(3,4) assms(7,8) by (simp add: block_cache_read_def block_for_def)
  have "(view s)(b := bc_cache block) = view s" using h(3) by auto
  with release [OF h(1) assms(2), of block] h(2,4) show ?thesis
    by (simp add: store_gives_def locked_read_def g rd release_unlock)
qed

lemma cache_read_gives:
  assumes "at C R H s" and "b \<notin> H" and "R b" and "Suc (card H) < C"
    and "unat off + ly_size T \<le> BLOCK_SIZE" and "unat off < BLOCK_SIZE"
    and "ly_dec T (get_slice (unat off) (ly_size T) (view s b)) = Inr x" and "cb x = Inr v"
  shows "gives C R H (cache_read ops T b off cb s) v (view s)"
  using locked_read_gives [OF assms(1-7), of cb v] assms(1,8) by (simp add: cache_read_def lock_cache_def store_at_def)

lemma cache_write_gives:
  assumes "at C R H s" and "b \<notin> H" and "R b" and "Suc (card H) < C"
    and "unat off + ly_size T \<le> BLOCK_SIZE" and "unat off < BLOCK_SIZE"
    and "ly_dec T (get_slice (unat off) (ly_size T) (view s b)) = Inr x" and "cb x = Inr (v, x')"
    and "length (ly_enc T x' (get_slice (unat off) (ly_size T) (view s b))) = ly_size T"
  shows "gives C R H (cache_write ops T b off cb s) v
    ((view s)(b := put_slice (unat off) (ly_enc T x' (get_slice (unat off) (ly_size T) (view s b))) (view s b)))"
proof -
  from acquire [OF assms(1-4)] obtain s1 s2 block where
    g: "lock_cache s = Inr (s\<lparr>st_locked := True\<rparr>)"
      "block_cache_buffer_get ops b (s\<lparr>st_locked := True\<rparr>) = Inr s1" "lock_block b s1 = Inr (block, s2)"
    and h: "at C R (insert b H) (unlock_cache s2)" "view s2 = view s" "bc_cache block = view s b"
      "block_for blk (st_dev s2) b block" by blast
  define block' where "block' = block\<lparr>bc_modified := True, bc_cache := put_slice (unat off)
    (ly_enc T x' (get_slice (unat off) (ly_size T) (view s b))) (view s b)\<rparr>"
  have wr: "block_cache_write T off cb block = Inr (v, block')"
    using get_ref_fits [OF assms(5,6), of block] h(3,4) assms(7,8)
    by (simp add: block_cache_write_def block_cache_get_mut_def block_for_def block'_def)
  have "block_for blk (st_dev s2) b block'"
    using h(3,4) assms(5,9) by (simp add: block_for_def block'_def)
  with release [OF h(1) assms(2), of block'] h(2) show ?thesis
    by (simp add: store_gives_def cache_write_def g wr release_unlock block'_def)
qed

lemma cache_update_gives:
  assumes "at C R H s" and "b \<notin> H" and "R b" and "Suc (card H) < C"
    and "unat off + ly_size T \<le> BLOCK_SIZE" and "unat off < BLOCK_SIZE"
    and "ly_dec T (get_slice (unat off) (ly_size T) (view s b)) = Inr x"
    and f: "\<And>s'. at C R (insert b H) s' \<Longrightarrow> view s' = view s \<Longrightarrow>
      \<exists>s2. f x s' = Inr (v, x', s2) \<and> at C R (insert b H) s2 \<and> view s2 = D"
    and "length (ly_enc T x' (get_slice (unat off) (ly_size T) (view s b))) = ly_size T"
  shows "gives C R H (cache_update ops T b off f s) v
    (D(b := put_slice (unat off) (ly_enc T x' (get_slice (unat off) (ly_size T) (view s b))) (view s b)))"
proof -
  from acquire [OF assms(1-4)] obtain s1 s2 block where
    g: "lock_cache s = Inr (s\<lparr>st_locked := True\<rparr>)" "block_cache_buffer_get ops b (s\<lparr>st_locked := True\<rparr>) = Inr s1"
      "lock_block b (unlock_cache s1) = Inr (block, unlock_cache s2)"
    and h: "at C R (insert b H) (unlock_cache s2)" "view s2 = view s" "bc_cache block = view s b"
      "block_for blk (st_dev s2) b block" by blast
  from f [OF h(1)] h(2) obtain s3 where s3: "f x (unlock_cache s2) = Inr (v, x', s3)"
    "at C R (insert b H) s3" "view s3 = D" by auto
  define block' where "block' = block\<lparr>bc_modified := True, bc_cache := put_slice (unat off)
    (ly_enc T x' (get_slice (unat off) (ly_size T) (view s b))) (view s b)\<rparr>"
  have gm: "block_cache_get_mut (ly_size T) off block =
      Inr (get_slice (unat off) (ly_size T) (view s b), block\<lparr>bc_modified := True\<rparr>)"
    using get_ref_fits [OF assms(5,6), of block] h(3,4) by (simp add: block_cache_get_mut_def block_for_def)
  have "block_for blk (st_dev s3) b block'"
    using h(3,4) assms(5,9) by (simp add: block_for_def block'_def)
  with release [OF s3(2) assms(2), of block'] s3(3) show ?thesis
    by (simp add: store_gives_def cache_update_def g gm assms(7) s3(1) block'_def h(3))
qed

text \<open>Write-back: afterwards every slot is clean and the device holds what the cache presented.\<close>

lemma flush_slots_ok:
  assumes "dinv d" and "distinct (map sl_id buf)" and "\<forall>sl \<in> set buf. slot_ok blk inr {} d sl"
  shows "\<exists>d'. flush_slots ops buf d =
      Inr (map (\<lambda>sl. sl\<lparr>sl_block := (sl_block sl)\<lparr>bc_modified := False\<rparr>\<rparr>) buf, d') \<and> dinv d' \<and> inr d' = inr d \<and>
    blk d' = (\<lambda>b. case slot_lookup b buf of Some sl \<Rightarrow> bc_cache (sl_block sl) | None \<Rightarrow> blk d b)"
  using assms
proof (induction buf arbitrary: d)
  case Nil
  then show ?case by simp
next
  case (Cons sl buf)
  have slok: "slot_ok blk inr {} d sl" using Cons.prems(3) by simp
  then have unl: "\<not> sl_locked sl" by (simp add: slot_ok_def)
  from sync_ok [OF Cons.prems(1) slok] obtain d1 where
    d1: "block_cache_sync ops (sl_block sl) d = Inr ((sl_block sl)\<lparr>bc_modified := False\<rparr>, d1)" "dinv d1"
      "blk d1 = (blk d)(sl_id sl := bc_cache (sl_block sl))" "inr d1 = inr d" by auto
  have notin: "sl_id sl \<notin> sl_id ` set buf" using Cons.prems(2) by simp
  have "\<forall>x \<in> set buf. slot_ok blk inr {} d1 x"
  proof
    fix x assume x: "x \<in> set buf"
    have "sl_id x \<noteq> sl_id sl" using notin x by (metis imageI)
    then have "blk d1 (sl_id x) = blk d (sl_id x)" by (simp add: d1(3))
    with Cons.prems(3) x d1(4) show "slot_ok blk inr {} d1 x"
      by (metis slot_ok_clean_dev list.set_intros(2))
  qed
  from Cons.IH [OF d1(2) _ this] Cons.prems(2) obtain d2 where
    d2: "flush_slots ops buf d1 = Inr (map (\<lambda>sl. sl\<lparr>sl_block := (sl_block sl)\<lparr>bc_modified := False\<rparr>\<rparr>) buf, d2)"
      "dinv d2" "inr d2 = inr d1"
      "blk d2 = (\<lambda>b. case slot_lookup b buf of Some sl \<Rightarrow> bc_cache (sl_block sl) | None \<Rightarrow> blk d1 b)" by auto
  have "slot_lookup (sl_id sl) buf = None" using notin by (simp add: slot_lookup_None_iff)
  then have "blk d2 = (\<lambda>b. case slot_lookup b (sl # buf) of Some sl \<Rightarrow> bc_cache (sl_block sl) | None \<Rightarrow> blk d b)"
    by (auto simp: d2(4) d1(3) fun_eq_iff split: option.split)
  with unl d1 d2(1-3) show ?case by simp
qed

lemma slot_lookup_map_same:
  "(\<And>sl. sl_id (f sl) = sl_id sl) \<Longrightarrow> slot_lookup b (map f buf) = map_option f (slot_lookup b buf)"
  by (induction buf) auto

lemma flush_gives:
  assumes "at C R {} s"
  shows "\<exists>s'. block_cache_buffer_flush ops s = Inr s' \<and> at C R {} s' \<and> view s' = view s \<and> blk (st_dev s') = view s"
proof -
  let ?f = "\<lambda>sl. sl\<lparr>sl_block := (sl_block sl)\<lparr>bc_modified := False\<rparr>\<rparr>"
  have a: "dinv (st_dev s)" "distinct (map sl_id (st_buffer s))"
    "\<forall>sl \<in> set (st_buffer s). slot_ok blk inr {} (st_dev s) sl"
    using assms by (simp_all add: store_at_def store_ok_def)
  from flush_slots_ok [OF a] obtain d' where d': "flush_slots ops (st_buffer s) (st_dev s) = Inr (map ?f (st_buffer s), d')"
    "dinv d'" "inr d' = inr (st_dev s)" and v: "blk d' = view s"
    by (auto simp: st_view_def fun_eq_iff)
  define s' where "s' = s\<lparr>st_dev := d', st_buffer := map ?f (st_buffer s)\<rparr>"
  have "slot_ok blk inr {} d' (?f sl)" if "sl \<in> set (st_buffer s)" for sl
  proof -
    have "bc_cache (sl_block sl) = view s (sl_id sl)"
      using slot_lookup_distinct [OF a(2) that] by (simp add: st_view_def)
    with a(3) that d'(3) v show ?thesis by (auto simp: slot_ok_def)
  qed
  then have "at C R {} s'"
    using assms d'(2,3) by (auto simp: store_at_def store_ok_def s'_def comp_def)
  moreover have "view s' = view s"
    by (auto simp: st_view_def s'_def slot_lookup_map_same fun_eq_iff v split: option.split)
  ultimately show ?thesis
    by (auto simp: block_cache_buffer_flush_def d'(1) s'_def v)
qed

lemma drop_gives:
  assumes "at C R {} s"
  shows "\<exists>d'. drop_slots ops (st_buffer s) (st_dev s) = Inr d' \<and> dinv d' \<and> inr d' = R \<and> blk d' = view s"
proof -
  have a: "dinv (st_dev s)" "distinct (map sl_id (st_buffer s))"
    "\<forall>sl \<in> set (st_buffer s). slot_ok blk inr {} (st_dev s) sl" "inr (st_dev s) = R"
    using assms by (simp_all add: store_at_def store_ok_def)
  have "drop_slots ops (st_buffer s) (st_dev s) =
      bindr (flush_slots ops (st_buffer s) (st_dev s)) (\<lambda>(_, d). Inr d)"
    by (rule drop_slots_flush) (use a(3) in \<open>auto simp: slot_ok_def\<close>)
  with flush_slots_ok [OF a(1-3)] a(4) show ?thesis
    by (auto simp: st_view_def fun_eq_iff)
qed

lemma new_at:
  "dinv d \<Longrightarrow> 0 < C \<Longrightarrow> at C (inr d) {} (block_cache_buffer_new C d) \<and> view (block_cache_buffer_new C d) = blk d"
  by (simp add: store_at_def store_ok_def block_cache_buffer_new_def st_view_def fun_eq_iff)

lemma read_block_gives:
  assumes "at C R H s" and "b \<notin> H" and "R b" and "Suc (card H) < C" and "cb (view s b) = Inr v"
  shows "gives C R H (cache_read ops data_block b 0 cb s) v (view s)"
  using cache_read_gives [OF assms(1-4), of 0 data_block "view s b" cb v] view_length [OF assms(1,3)] assms(5)
  by (simp add: data_block_def BLOCK_SIZE_def)

lemma write_block_gives:
  assumes "at C R H s" and "b \<notin> H" and "R b" and "Suc (card H) < C"
    and "cb (view s b) = Inr (v, data)" and "length data = BLOCK_SIZE"
  shows "gives C R H (cache_write ops data_block b 0 cb s) v ((view s)(b := data))"
  using cache_write_gives [OF assms(1-4), of 0 data_block "view s b" cb v data] view_length [OF assms(1,3)] assms(5,6)
  by (simp add: data_block_def BLOCK_SIZE_def)

lemma cache_reqs_gives:
  assumes "at C R {} s" and "1 < C" and "\<forall>r \<in> set rs. R (req_block r) \<and> req_ok r"
  shows "gives C R {} (cache_reqs ops rs s) (fst (disk_reqs rs (view s))) (snd (disk_reqs rs (view s)))"
  using assms
proof (induction rs arbitrary: s)
  case Nil
  then show ?case by (simp add: gives_return)
next
  case (Cons r rs)
  note IH = Cons.IH [OF _ Cons.prems(2)]
  show ?case
  proof (cases r)
    case (Read_Block b)
    have "gives C R {} (cache_read ops data_block b 0 Inr s) (view s b) (view s)"
      by (rule read_block_gives) (use Cons.prems Read_Block in simp_all)
    then show ?thesis
      unfolding Read_Block cache_reqs.simps
      by (rule gives_bind) (use IH Cons.prems(3) in \<open>force simp: split_def store_gives_def\<close>)
  next
    case (Write_Block b data)
    have "gives C R {} (cache_write ops data_block b 0 (\<lambda>_. Inr ((), data)) s) () ((view s)(b := data))"
      by (rule write_block_gives) (use Cons.prems Write_Block in simp_all)
    then show ?thesis
      unfolding Write_Block cache_reqs.simps
      by (rule gives_bind) (metis IH Cons.prems(3) disk_reqs.simps(3) list.set_intros(2))
  qed
qed

lemma session_ok:
  assumes "dinv d" and "1 < C" and "\<forall>r \<in> set rs. inr d (req_block r) \<and> req_ok r"
  shows "\<exists>d'. cache_session ops C rs d = Inr (fst (disk_reqs rs (blk d)), d') \<and> dinv d' \<and>
    blk d' = snd (disk_reqs rs (blk d)) \<and> inr d' = inr d"
proof -
  have new: "at C (inr d) {} (block_cache_buffer_new C d)" "view (block_cache_buffer_new C d) = blk d"
    using new_at [of d C] assms(1,2) by simp_all
  from gives_Inr [OF cache_reqs_gives [OF new(1) assms(2,3)]] new(2) obtain s' where
    s': "cache_reqs ops rs (block_cache_buffer_new C d) = Inr (fst (disk_reqs rs (blk d)), s')"
    "at C (inr d) {} s'" "view s' = snd (disk_reqs rs (blk d))" by auto
  from drop_gives [OF s'(2)] s' show ?thesis by (auto simp: cache_session_def)
qed

end

section \<open>Eviction order\<close>

text \<open>
  C30: Eviction is first-in first-out, not least recently used: in a full buffer the slot
  at the front is the one evicted by the next miss, although it has just been used. A hit
  hands out the block and leaves the order of the buffer as it is.
\<close>

theorem block_cache_evicts_oldest:
  assumes "st_buffer s = sl # rest" and "sl_strong sl = 1" and "sl_id sl \<notin> sl_id ` set rest"
    and "length (st_buffer s) = st_capacity s" and "slot_lookup b (st_buffer s) = None"
    and "block_cache_buffer_get ops (sl_id sl) s = Inr s1"
    and "block_cache_buffer_get ops b (release_block (sl_id sl) (sl_block sl) s1) = Inr s2"
  shows "map sl_id (st_buffer s1) = map sl_id (st_buffer s) \<and> map sl_id (st_buffer s2) = map sl_id rest @ [b]"
proof
  have rest: "slot_map (sl_id sl) f rest = rest" for f
    by (rule slot_map_absent [OF assms(3)])
  have s1: "s1 = s\<lparr>st_buffer := sl\<lparr>sl_strong := 2\<rparr> # rest\<rparr>"
    using assms(6) by (auto simp: block_cache_buffer_get_def assms(1,2) rest)
  show "map sl_id (st_buffer s1) = map sl_id (st_buffer s)" by (simp add: s1 assms(1))
  have rel: "st_buffer (release_block (sl_id sl) (sl_block sl) s1) = sl\<lparr>sl_strong := 1, sl_locked := False\<rparr> # rest"
    by (simp add: s1 release_block_def rest)
  have cap: "st_capacity (release_block (sl_id sl) (sl_block sl) s1) = Suc (length rest)"
    using assms(4) by (simp add: s1 release_block_def assms(1))
  have miss: "slot_lookup b rest = None" "sl_id sl \<noteq> b" using assms(5) by (auto simp: assms(1) split: if_splits)
  show "map sl_id (st_buffer s2) = map sl_id rest @ [b]"
    using assms(7) miss
    by (auto simp: block_cache_buffer_get_def block_cache_buffer_recycle_def rel cap extract_Cons_code
        bindr_eq_Inr split: if_splits)
qed

theorem block_cache_evicts_oldest_witness:
  "let ops = \<lparr>bd_read = (\<lambda>d b buf. Inr (Inr (), buf, d)), bd_write = (\<lambda>d b buf. Inr (Inr (), d))\<rparr>;
       block = (\<lambda>b. \<lparr>bc_cache = replicate BLOCK_SIZE 0, bc_block_id = b, bc_modified = False\<rparr>);
       sl = (\<lambda>b. \<lparr>sl_id = b, sl_block = block b, sl_strong = 1, sl_locked = False\<rparr>);
       s = \<lparr>st_dev = (), st_buffer = [sl 4, sl 9], st_capacity = 2, st_locked = False\<rparr>
   in \<exists>s1 s2. block_cache_buffer_get ops 4 s = Inr s1 \<and>
        block_cache_buffer_get ops 5 (release_block 4 (block 4) s1) = Inr s2 \<and>
        map sl_id (st_buffer s1) = [4, 9] \<and> map sl_id (st_buffer s2) = [9, 5]"
proof -
  let ?ops = "\<lparr>bd_read = (\<lambda>d b buf. Inr (Inr (), buf, d)), bd_write = (\<lambda>d b buf. Inr (Inr (), d))\<rparr> :: unit block_device"
  let ?block = "\<lambda>b. \<lparr>bc_cache = replicate BLOCK_SIZE 0, bc_block_id = b, bc_modified = False\<rparr>"
  let ?sl = "\<lambda>b. \<lparr>sl_id = b, sl_block = ?block b, sl_strong = 1, sl_locked = False\<rparr>"
  let ?s = "\<lparr>st_dev = (), st_buffer = [?sl 4, ?sl 9], st_capacity = 2, st_locked = False\<rparr>"
  obtain s1 where s1: "block_cache_buffer_get ?ops 4 ?s = Inr s1"
    by (simp add: block_cache_buffer_get_def)
  obtain s2 where s2: "block_cache_buffer_get ?ops 5 (release_block 4 (?block 4) s1) = Inr s2"
    using s1 by (auto simp: block_cache_buffer_get_def release_block_def block_cache_buffer_recycle_def
        extract_Cons_code block_cache_sync_def block_cache_new_def)
  from block_cache_evicts_oldest [of ?s "?sl 4" "[?sl 9]" 5 ?ops s1 s2] s1 s2 show ?thesis
    by (auto simp: Let_def)
qed

end
