(* ===== verification/Virtio.thy ===== *)
theory Virtio
  imports Block_Cache
begin

text \<open>
  The virtio block driver (\<open>kernel/src/drivers/virtio\<close>). The queue the driver shares with
  the device, the driver's own state and the memory requests are built in are explicit;
  the device is a function argument: given the number written to \<open>queue_notify\<close>, the queue,
  memory and its own state it says what it has done when it next moves the used index, and
  \<open>None\<close> when it never does.
  Registers of the device are written in an order, which is kept as the list of writes,
  and what a read returns may depend on them.
\<close>

unbundle bit_operations_syntax

section \<open>The virtqueue\<close>

definition QUEUE_SIZE :: nat where
  "QUEUE_SIZE = 16"

record virtq_desc =
  vd_addr :: u64
  vd_len :: u32
  vd_flags :: u16
  vd_next :: u16

definition VIRTQ_DESC_NEXT :: u16 where
  "VIRTQ_DESC_NEXT = 1"

definition VIRTQ_DESC_WRITE :: u16 where
  "VIRTQ_DESC_WRITE = 2"

text \<open>Descriptors, the available ring with its index, the used ring (id, length) with its index.\<close>

record virtqueue =
  vq_desc :: "virtq_desc list"
  vq_avail_idx :: u16
  vq_avail_ring :: "u16 list"
  vq_used_idx :: u16
  vq_used_ring :: "(u32 \<times> u32) list"

definition virtqueue_new :: virtqueue where
  "virtqueue_new =
     \<lparr>vq_desc = replicate QUEUE_SIZE \<lparr>vd_addr = 0, vd_len = 0, vd_flags = 0, vd_next = 0\<rparr>,
      vq_avail_idx = 0, vq_avail_ring = replicate QUEUE_SIZE 0,
      vq_used_idx = 0, vq_used_ring = replicate QUEUE_SIZE (0, 0)\<rparr>"

section \<open>Memory of requests\<close>

type_synonym gmem = "u64 \<Rightarrow> u8"

definition put_mem :: "u64 \<Rightarrow> bytes \<Rightarrow> gmem \<Rightarrow> gmem" where
  "put_mem a bs gm = (\<lambda>w. if unat (w - a) < length bs then bs ! unat (w - a) else gm w)"

definition get_mem :: "u64 \<Rightarrow> nat \<Rightarrow> gmem \<Rightarrow> bytes" where
  "get_mem a n gm = map (\<lambda>i. gm (a + of_nat i)) [0..<n]"

section \<open>The driver\<close>

datatype req_type = Read | Write

definition req_code :: "req_type \<Rightarrow> u32" where
  "req_code op = (case op of Read \<Rightarrow> 0 | Write \<Rightarrow> 1)"

datatype req_status = Pending | Done

datatype virtio_init_error = InvalidMagic u32 | InvalidVersion u32

datatype virtio_error = InvalidBufferSize nat | OutOfCapacity u64

record virtio_block =
  vb_queue :: virtqueue
  vb_used_idx :: u16
  vb_sectors_num :: u64
  vb_status :: "req_status list"
  vb_capacity :: u64
  vb_locked :: bool

text \<open>\<open>VirtIOBlockReq\<close>: type, a reserved word and the sector, little endian.\<close>

definition le32 :: "u32 \<Rightarrow> bytes" where
  "le32 w = take 4 (le64 (ucast w))"

definition encode_req :: "req_type \<Rightarrow> u64 \<Rightarrow> bytes" where
  "encode_req op sector = le32 (req_code op) @ le32 0 @ le64 sector"

text \<open>The three descriptors of a request: header, data, status.\<close>

definition req_descs :: "u64 \<Rightarrow> u64 \<Rightarrow> u64 \<Rightarrow> req_type \<Rightarrow> virtq_desc list \<Rightarrow> virtq_desc list" where
  "req_descs header buf_ptr status_ptr op ds =
     ds[0 := \<lparr>vd_addr = header, vd_len = 16, vd_flags = VIRTQ_DESC_NEXT, vd_next = 1\<rparr>,
        1 := \<lparr>vd_addr = buf_ptr, vd_len = of_nat BLOCK_SIZE,
              vd_flags = (case op of Read \<Rightarrow> VIRTQ_DESC_NEXT OR VIRTQ_DESC_WRITE | Write \<Rightarrow> VIRTQ_DESC_NEXT),
              vd_next = 2\<rparr>,
        2 := \<lparr>vd_addr = status_ptr, vd_len = 1, vd_flags = VIRTQ_DESC_WRITE, vd_next = 0\<rparr>]"

text \<open>A write to \<open>queue_notify\<close> hands the number of a queue to the device.\<close>

type_synonym 'h device = "u32 \<Rightarrow> virtqueue \<Rightarrow> gmem \<Rightarrow> 'h \<Rightarrow> (virtqueue \<times> gmem \<times> 'h) option"

text \<open>
  \<open>send\<close>: the boxes of the header and of the status byte are at \<open>header\<close> and \<open>status_ptr\<close>. The
  driver waits for the used index to leave its own copy of it, then moves that copy and
  asserts that the device has reported success.
\<close>

definition virtio_send ::
  "'h device \<Rightarrow> u64 \<Rightarrow> u64 \<Rightarrow> u64 \<Rightarrow> u64 \<Rightarrow> req_type \<Rightarrow> virtio_block \<times> gmem \<times> 'h \<Rightarrow>
   ((virtio_error + unit) \<times> virtio_block \<times> gmem \<times> 'h) result" where
  "virtio_send dev header status_ptr block_id buf_ptr op = (\<lambda>(vb, gm, h).
     if vb_locked vb then Inl Hang
     else let sector = block_id * (of_nat BLOCK_SIZE div 512);
              sector_end = sector + (of_nat BLOCK_SIZE div 512) in
       if vb_sectors_num vb \<le> sector_end then Inr (Inl (OutOfCapacity sector_end), vb, gm, h)
       else let gm = put_mem status_ptr [0xff] (put_mem header (encode_req op sector) gm);
                q = vb_queue vb;
                q = q\<lparr>vq_desc := req_descs header buf_ptr status_ptr op (vq_desc q),
                      vq_avail_ring := (vq_avail_ring q)[unat (vq_avail_idx q) mod QUEUE_SIZE := 0],
                      vq_avail_idx := vq_avail_idx q + 1\<rparr> in
         case dev 0 q gm h of
           None \<Rightarrow> Inl Hang
         | Some (q, gm, h) \<Rightarrow>
             if vq_used_idx q = vb_used_idx vb then Inl Hang
             else check (gm status_ptr = 0)
               (Inr (Inr (), vb\<lparr>vb_queue := q, vb_used_idx := vb_used_idx vb + 1\<rparr>, gm, h)))"

definition virtio_read_block ::
  "'h device \<Rightarrow> u64 \<Rightarrow> u64 \<Rightarrow> u64 \<Rightarrow> u64 \<Rightarrow> nat \<Rightarrow> virtio_block \<times> gmem \<times> 'h \<Rightarrow>
   ((virtio_error + unit) \<times> virtio_block \<times> gmem \<times> 'h) result" where
  "virtio_read_block dev header status_ptr block_id buf_ptr len st =
     (if len \<noteq> BLOCK_SIZE then Inr (Inl (InvalidBufferSize len), st)
      else virtio_send dev header status_ptr block_id buf_ptr Read st)"

definition virtio_write_block ::
  "'h device \<Rightarrow> u64 \<Rightarrow> u64 \<Rightarrow> u64 \<Rightarrow> u64 \<Rightarrow> nat \<Rightarrow> virtio_block \<times> gmem \<times> 'h \<Rightarrow>
   ((virtio_error + unit) \<times> virtio_block \<times> gmem \<times> 'h) result" where
  "virtio_write_block dev header status_ptr block_id buf_ptr len st =
     (if len \<noteq> BLOCK_SIZE then Inr (Inl (InvalidBufferSize len), st)
      else virtio_send dev header status_ptr block_id buf_ptr Write st)"

section \<open>The block device\<close>

text \<open>\<open>Display for VirtIOError\<close>, with numbers in decimal.\<close>

fun show_dec :: "nat \<Rightarrow> string" where
  "show_dec n = (if n < 10 then [char_of (48 + n)] else show_dec (n div 10) @ [char_of (48 + n mod 10)])"

declare show_dec.simps [simp del]

definition virtio_error_to_string :: "virtio_error \<Rightarrow> string" where
  "virtio_error_to_string e =
     (case e of
        InvalidBufferSize n \<Rightarrow> ''Invalid buffer size: '' @ show_dec n
      | OutOfCapacity sector \<Rightarrow> ''Out of capacity: '' @ show_dec (unat sector))"

definition map_err :: "virtio_error + unit \<Rightarrow> string + unit" where
  "map_err r = (case r of Inl e \<Rightarrow> Inl (virtio_error_to_string e) | Inr u \<Rightarrow> Inr u)"

text \<open>
  \<open>impl BlockDevice for VirtIOBlock\<close>: the caller's buffer is the memory at \<open>buf_ptr\<close>, which the
  device reads or fills.
\<close>

definition virtio_ops :: "'h device \<Rightarrow> u64 \<Rightarrow> u64 \<Rightarrow> u64 \<Rightarrow> (virtio_block \<times> gmem \<times> 'h) block_device" where
  "virtio_ops dev header status_ptr buf_ptr =
     \<lparr>bd_read = (\<lambda>(vb, gm, h) block_id buf.
        bindr (virtio_read_block dev header status_ptr block_id buf_ptr (length buf) (vb, put_mem buf_ptr buf gm, h))
          (\<lambda>(r, vb, gm, h). Inr (map_err r, get_mem buf_ptr (length buf) gm, (vb, gm, h)))),
      bd_write = (\<lambda>(vb, gm, h) block_id buf.
        bindr (virtio_write_block dev header status_ptr block_id buf_ptr (length buf) (vb, put_mem buf_ptr buf gm, h))
          (\<lambda>(r, vb, gm, h). Inr (map_err r, (vb, gm, h))))\<rparr>"

section \<open>Interrupts\<close>

text \<open>The loop runs to the used index that was read before it.\<close>

function drain_used :: "u16 \<Rightarrow> virtio_block \<Rightarrow> virtio_block result" where
  "drain_used idx vb =
     (if vb_used_idx vb = idx then Inr vb
      else let id = fst (vq_used_ring (vb_queue vb) ! (unat (vb_used_idx vb) mod QUEUE_SIZE)) in
        check (unat id < length (vb_status vb))
          (drain_used idx (vb\<lparr>vb_status := (vb_status vb)[unat id := Done], vb_used_idx := vb_used_idx vb + 1\<rparr>)))"
  by pat_completeness auto
termination
proof (relation "measure (\<lambda>(idx, vb). unat (idx - vb_used_idx vb))")
  fix idx :: u16 and vb :: virtio_block and id
  assume "vb_used_idx vb \<noteq> idx"
  then have "idx - vb_used_idx vb \<noteq> 0" by simp
  then have "unat (idx - vb_used_idx vb - 1) < unat (idx - vb_used_idx vb)"
    by (metis diff_less less_numeral_extra(1) unat_gt_0 unat_minus_one)
  then show "((idx, vb\<lparr>vb_status := (vb_status vb)[unat id := Done], vb_used_idx := vb_used_idx vb + 1\<rparr>), idx, vb)
      \<in> measure (\<lambda>(idx, vb). unat (idx - vb_used_idx vb))" by (simp add: diff_diff_eq)
qed simp

declare drain_used.simps [simp del]

definition virtio_handle_interrupt :: "virtio_block \<Rightarrow> virtio_block result" where
  "virtio_handle_interrupt vb =
     (if vb_locked vb then Inl Hang else drain_used (vq_used_idx (vb_queue vb)) vb)"

text \<open>The table of registered devices; an entry whose device is gone is \<open>None\<close>.\<close>

primrec handle_virtio_interrupt :: "virtio_block option list \<Rightarrow> virtio_block option list result" where
  "handle_virtio_interrupt [] = Inr []"
| "handle_virtio_interrupt (d # ds) =
     bindr (case d of None \<Rightarrow> Inr None | Some vb \<Rightarrow> bindr (virtio_handle_interrupt vb) (\<lambda>vb. Inr (Some vb))) (\<lambda>d.
     bindr (handle_virtio_interrupt ds) (\<lambda>ds. Inr (d # ds)))"

text \<open>The table at the start, what \<open>init\<close> and \<open>drop\<close> do to it, and the size of the device in bytes.\<close>

definition MAX_BLK_DEVICES :: nat where "MAX_BLK_DEVICES = 16"

definition VIRTIO_BLK_DEVICES :: "virtio_block option list" where
  "VIRTIO_BLK_DEVICES = replicate MAX_BLK_DEVICES None"

definition virtio_register :: "virtio_block \<Rightarrow> virtio_block option list \<Rightarrow> virtio_block option list" where
  "virtio_register vb devices = devices[0 := Some vb]"

definition virtio_drop :: "virtio_block option list \<Rightarrow> virtio_block option list" where
  "virtio_drop devices = devices[0 := None]"

definition virtio_capacity :: "virtio_block \<Rightarrow> u64" where
  "virtio_capacity vb = vb_capacity vb"

section \<open>Initialisation\<close>

text \<open>Registers by their offset.\<close>

datatype virtio_reg = Magic | Version | DeviceFeatures | DriverFeatures | QueueSel | QueueNum | QueueReady | Status
  | QueueDescLow | QueueDescHigh | QueueDriverLow | QueueDriverHigh | QueueDeviceLow | QueueDeviceHigh

type_synonym reg_writes = "(virtio_reg \<times> u32) list"

definition VIRTIO_MAGIC :: u32 where
  "VIRTIO_MAGIC = 0x74726976"

definition DEVICE_TYPE_BLOCK :: u32 where
  "DEVICE_TYPE_BLOCK = 2"

definition STATUS_ACKNOWLEDGE :: u32 where "STATUS_ACKNOWLEDGE = 1"
definition STATUS_DRIVER :: u32 where "STATUS_DRIVER = 2"
definition STATUS_DRIVER_OK :: u32 where "STATUS_DRIVER_OK = 4"
definition STATUS_FEATURES_OK :: u32 where "STATUS_FEATURES_OK = 8"

definition known_features :: u32 where
  "known_features = push_bit 5 1 OR push_bit 7 1 OR push_bit 11 1 OR push_bit 12 1 OR push_bit 27 1 OR
     push_bit 28 1 OR push_bit 29 1"

text \<open>\<open>from_bits_truncate\<close> keeps the known bits; the driver then removes the ones it cannot use.\<close>

definition negotiate :: "u32 \<Rightarrow> u32" where
  "negotiate offered =
     (let features = offered AND known_features in
      features AND NOT (push_bit 5 1 OR push_bit 7 1 OR push_bit 11 1 OR push_bit 12 1 OR push_bit 27 1 OR
        push_bit 29 1 OR push_bit 28 1))"

definition low32 :: "u64 \<Rightarrow> u32" where "low32 a = ucast a"
definition high32 :: "u64 \<Rightarrow> u32" where "high32 a = ucast (drop_bit 32 a)"

text \<open>
  \<open>read_reg\<close> is what the device answers after a list of writes, \<open>capacity\<close> the field of its
  configuration, and the last three arguments the addresses of the queue's parts. The
  result comes with the writes, in order.
\<close>

definition virtio_init ::
  "(virtio_reg \<Rightarrow> reg_writes \<Rightarrow> u32) \<Rightarrow> u64 \<Rightarrow> u64 \<Rightarrow> u64 \<Rightarrow> u64 \<Rightarrow> ((virtio_init_error + virtio_block) \<times> reg_writes) result" where
  "virtio_init read_reg capacity desc avail used =
     (if read_reg Magic [] \<noteq> VIRTIO_MAGIC then Inr (Inl (InvalidMagic (read_reg Magic [])), [])
      else if read_reg Version [] \<noteq> DEVICE_TYPE_BLOCK then Inr (Inl (InvalidVersion (read_reg Version [])), [])
      else let ws = [(Status, 0), (Status, STATUS_ACKNOWLEDGE), (Status, STATUS_DRIVER)];
               ws = ws @ [(DriverFeatures, negotiate (read_reg DeviceFeatures ws)), (Status, STATUS_FEATURES_OK), (QueueSel, 0)]
           in check (read_reg QueueReady ws = 0)
             (let ws = ws @ [(QueueNum, of_nat QUEUE_SIZE), (QueueDescLow, low32 desc), (QueueDescHigh, high32 desc),
                        (QueueDriverLow, low32 avail), (QueueDriverHigh, high32 avail),
                        (QueueDeviceLow, low32 used), (QueueDeviceHigh, high32 used),
                        (QueueReady, 1), (Status, STATUS_DRIVER_OK)]
              in Inr (Inr \<lparr>vb_queue = virtqueue_new, vb_used_idx = 0, vb_sectors_num = capacity,
                         vb_status = replicate QUEUE_SIZE Pending, vb_capacity = capacity * 512, vb_locked = False\<rparr>, ws)))"

end
