(* ===== verification/Trap.thy ===== *)
theory Trap
  imports Proc Virtio
begin

text \<open>
  Traps and interrupts (\<open>kernel/src/intr\<close>): the trap entry points, the dispatch on the cause,
  the timer and the interrupt controller. The state is what the code reads and writes: the
  control registers, the memory-mapped registers of the controller, the task list with its
  locks, the block devices and the tick counter. How \<open>scause\<close> is decoded is the \<open>riscv\<close>
  crate's business and an argument here, as are the addresses the linker gives.
\<close>

section \<open>Machine state\<close>

record machine =
  m_sie :: bool
  m_sext :: bool
  m_stimer :: bool
  m_spp_user :: bool
  m_spie :: bool
  m_stvec :: u64
  m_sepc :: u64
  m_time :: u64
  m_timer :: u64
  m_ticks :: u64
  m_plic :: "u64 \<Rightarrow> u32"
  m_tasks :: task_list
  m_tasks_locked :: bool
  m_task_locked :: bool
  m_devices :: "virtio_block option list"

datatype trap_cause = PageFault | OtherException | UnknownException | SupervisorTimer | SupervisorExternal
  | OtherInterrupt | UnknownInterrupt

section \<open>The timer\<close>

definition INTERVAL :: u64 where
  "INTERVAL = 100000"

definition set_next_timer :: "machine \<Rightarrow> machine" where
  "set_next_timer m = m\<lparr>m_timer := m_time m + INTERVAL\<rparr>"

definition tick :: "machine \<Rightarrow> machine" where
  "tick m = (let m = set_next_timer m in m\<lparr>m_ticks := m_ticks m + 1\<rparr>)"

section \<open>The interrupt controller\<close>

datatype irq = UART0 | VIRTIO

text \<open>The discriminants of \<open>IRQ\<close>; \<open>transmute\<close> of any other number is undefined.\<close>

definition irq_code :: "irq \<Rightarrow> u32" where
  "irq_code i = (case i of UART0 \<Rightarrow> 10 | VIRTIO \<Rightarrow> 1)"

definition irq_from :: "u32 \<Rightarrow> irq result" where
  "irq_from v = (if v = 10 then Inr UART0 else if v = 1 then Inr VIRTIO else Inl Undefined)"

definition plic_irq_senable :: "u64 \<Rightarrow> u64" where
  "plic_irq_senable hart = PLIC_BASE + 0x2080 + hart * 0x100"

definition plic_irq_spriority :: "u64 \<Rightarrow> u64" where
  "plic_irq_spriority hart = PLIC_BASE + 0x201000 + hart * 0x2000"

definition plic_sclaim :: "u64 \<Rightarrow> u64" where
  "plic_sclaim hart = PLIC_BASE + 0x201004 + hart * 0x2000"

definition plic_init :: "machine \<Rightarrow> machine" where
  "plic_init m =
     (let plic = m_plic m;
          plic = plic(plic_irq_senable 0 := plic (plic_irq_senable 0) OR push_bit (unat (irq_code VIRTIO)) 1);
          plic = plic(plic_irq_spriority 0 := 0)
      in m\<lparr>m_plic := plic\<rparr>)"

definition set_irq :: "irq \<Rightarrow> u32 \<Rightarrow> machine \<Rightarrow> machine" where
  "set_irq i v m = m\<lparr>m_plic := (m_plic m)(PLIC_BASE + ucast (irq_code i) * 4 := v)\<rparr>"

definition cpu_id :: u64 where
  "cpu_id = 0"

definition handle_plic :: "machine \<Rightarrow> machine result" where
  "handle_plic m =
     bindr (irq_from (m_plic m (plic_sclaim cpu_id))) (\<lambda>i.
       case i of
         VIRTIO \<Rightarrow> bindr (handle_virtio_interrupt (m_devices m)) (\<lambda>ds. Inr (m\<lparr>m_devices := ds\<rparr>))
       | UART0 \<Rightarrow> Inl Panic)"

section \<open>Dispatch\<close>

definition disable_supervisor_interrupt :: "machine \<Rightarrow> machine" where
  "disable_supervisor_interrupt m = m\<lparr>m_sie := False\<rparr>"

definition enable_supervisor_interrupt :: "machine \<Rightarrow> machine" where
  "enable_supervisor_interrupt m = m\<lparr>m_sie := True\<rparr>"

definition disable_supervisor_external_interrupt :: "machine \<Rightarrow> machine" where
  "disable_supervisor_external_interrupt m = m\<lparr>m_sext := False\<rparr>"

definition enable_supervisor_external_interrupt :: "machine \<Rightarrow> machine" where
  "enable_supervisor_external_interrupt m = m\<lparr>m_sext := True\<rparr>"

definition handle :: "trap_cause \<Rightarrow> machine \<Rightarrow> machine result" where
  "handle cause m =
     (let m = disable_supervisor_interrupt (disable_supervisor_external_interrupt m) in
      bindr (case cause of
               SupervisorTimer \<Rightarrow> Inr (tick m)
             | SupervisorExternal \<Rightarrow> handle_plic m
             | _ \<Rightarrow> Inl Panic) (\<lambda>m.
        Inr (enable_supervisor_external_interrupt (enable_supervisor_interrupt m))))"

section \<open>Trap entry and exit\<close>

text \<open>
  Both trap entries take the write lock of the task list and the lock of the current task,
  and hold them while the trap is handled. \<open>enter_trap\<close> is that, with what is done to the
  trap frame; \<open>leave_trap\<close> drops the guards.
\<close>

definition enter_trap :: "(trap_frame \<Rightarrow> trap_frame) \<Rightarrow> machine \<Rightarrow> machine result" where
  "enter_trap f m =
     (if m_tasks_locked m then Inl Hang
      else let m = m\<lparr>m_tasks_locked := True\<rparr> in
        case current_task (m_tasks m) of
          None \<Rightarrow> Inl Panic
        | Some t \<Rightarrow>
            if m_task_locked m then Inl Hang
            else Inr (m\<lparr>m_task_locked := True,
                   m_tasks := (m_tasks m)\<lparr>tl_tasks := (tl_tasks (m_tasks m))(0 \<mapsto> t\<lparr>task_trap_frame := f (task_trap_frame t)\<rparr>)\<rparr>\<rparr>))"

definition leave_trap :: "machine \<Rightarrow> machine" where
  "leave_trap m = m\<lparr>m_tasks_locked := False, m_task_locked := False\<rparr>"

definition usertrap :: "(machine \<Rightarrow> trap_cause) \<Rightarrow> machine \<Rightarrow> machine result" where
  "usertrap scause m =
     (if \<not> m_spp_user m then Inl Panic
      else bindr (enter_trap (\<lambda>tf. tf\<lparr>tf_epc := m_sepc m\<rparr>) m) (\<lambda>m.
           bindr (handle (scause m) m) (\<lambda>m. Inr (leave_trap m))))"

definition kerneltrap :: "(machine \<Rightarrow> trap_cause) \<Rightarrow> machine \<Rightarrow> machine result" where
  "kerneltrap scause m =
     bindr (enter_trap (\<lambda>tf. tf) m) (\<lambda>m. bindr (handle (scause m) m) (\<lambda>m. Inr (leave_trap m)))"

text \<open>
  \<open>usertrapret\<close> returns what it passes to the trampoline: the address it jumps to, the
  address of the trap frame, and the value for \<open>satp\<close>.
\<close>

definition usertrapret :: "u64 \<Rightarrow> u64 \<Rightarrow> u64 \<Rightarrow> machine \<Rightarrow> ((u64 \<times> u64 \<times> u64) \<times> machine) result" where
  "usertrapret trampoline uservec userret m =
     (if m_tasks_locked m then Inl Hang
      else let m = disable_supervisor_interrupt m;
               m = m\<lparr>m_stvec := TRAMPOLINE + (uservec - trampoline)\<rparr> in
        case current_task (m_tasks m) of
          None \<Rightarrow> Inl Panic
        | Some t \<Rightarrow>
            if m_task_locked m then Inl Hang
            else let m = m\<lparr>m_spp_user := True, m_spie := True, m_sepc := tf_epc (task_trap_frame t)\<rparr> in
              case task_page_table t of
                None \<Rightarrow> Inl Panic
              | Some pt \<Rightarrow> Inr ((TRAMPOLINE + (userret - trampoline), TRAPFRAME, make_satp pt), m))"

text \<open>\<open>init\<close> of the interrupt module.\<close>

definition intr_init :: "u64 \<Rightarrow> machine \<Rightarrow> machine" where
  "intr_init kernelvec m =
     (let m = m\<lparr>m_stvec := kernelvec, m_stimer := True\<rparr>;
          m = plic_init m;
          m = enable_supervisor_external_interrupt (enable_supervisor_interrupt m)
      in set_next_timer m)"

section \<open>Properties of traps\<close>

lemmas interrupt_switches = disable_supervisor_interrupt_def enable_supervisor_interrupt_def
  disable_supervisor_external_interrupt_def enable_supervisor_external_interrupt_def

lemma handle_plic_eq:
  "handle_plic m =
    (if m_plic m (plic_sclaim cpu_id) = 1 then bindr (handle_virtio_interrupt (m_devices m)) (\<lambda>ds. Inr (m\<lparr>m_devices := ds\<rparr>))
     else if m_plic m (plic_sclaim cpu_id) = 10 then Inl Panic else Inl Undefined)"
  by (simp add: handle_plic_def irq_from_def)

lemma handle_keeps:
  assumes "handle cause m = Inr m'"
  shows "m_sie m' \<and> m_sext m' \<and> m_tasks_locked m' = m_tasks_locked m \<and> m_task_locked m' = m_task_locked m \<and> m_tasks m' = m_tasks m"
  using assms
  by (auto simp: handle_def Let_def outcome_eqs interrupt_switches tick_def set_next_timer_def handle_plic_eq
      split: trap_cause.splits if_splits)

text \<open>
  C33: A trap is not safe against the next one. When the dispatch of a trap returns,
  interrupts are on again while the entry point still holds the lock of the task list, and
  any trap taken then never returns.
\<close>

theorem nested_trap_hangs:
  assumes "enter_trap f m = Inr m1" and "handle cause m1 = Inr m2"
  shows "m_sie m2 \<and> m_sext m2 \<and> (\<forall>scause. kerneltrap scause m2 = Inl Hang)"
proof -
  have "m_tasks_locked m1" using assms(1) by (auto simp: enter_trap_def Let_def split: if_splits option.splits)
  with handle_keeps [OF assms(2)] have "m_sie m2" "m_sext m2" "m_tasks_locked m2" by simp_all
  then show ?thesis by (simp add: kerneltrap_def enter_trap_def)
qed

definition demo_machine :: machine where
  "demo_machine =
     \<lparr>m_sie = True, m_sext = True, m_stimer = True, m_spp_user = True, m_spie = False, m_stvec = 0, m_sepc = 0x40,
      m_time = 7, m_timer = 0, m_ticks = 0, m_plic = (\<lambda>_. 0),
      m_tasks = \<lparr>tl_tasks = [0 \<mapsto> \<lparr>task_pid = 0, task_state = Runnable, task_kernel_stack = 0, task_context = context_default,
        task_trap_frame = trap_frame_default, task_page_table = None\<rparr>], tl_next_id = 1\<rparr>,
      m_tasks_locked = False, m_task_locked = False, m_devices = []\<rparr>"

theorem nested_trap_hangs_witness:
  "\<exists>m1 m2. enter_trap (\<lambda>tf. tf) demo_machine = Inr m1 \<and> handle SupervisorTimer m1 = Inr m2 \<and>
    kerneltrap (\<lambda>_. SupervisorTimer) m2 = Inl Hang"
proof -
  obtain m1 where m1: "enter_trap (\<lambda>tf. tf) demo_machine = Inr m1"
    by (simp add: enter_trap_def demo_machine_def current_task_def)
  obtain m2 where m2: "handle SupervisorTimer m1 = Inr m2" by (simp add: handle_def Let_def)
  from nested_trap_hangs [OF m1 m2] m1 m2 show ?thesis by blast
qed

text \<open>
  C28: What a trap of the kernel does, on every cause. The timer interrupt counts one tick
  and sets the next deadline; an external interrupt of the virtio device serves the block
  devices, one of the console panics, and any other claim, 0 for a spurious one included,
  is undefined behaviour; every other cause panics. In the cases that return, the locks
  are free again and interrupts are on.
\<close>

theorem kerneltrap_dispatch:
  assumes "\<not> m_tasks_locked m" and "\<not> m_task_locked m" and "current_task (m_tasks m) = Some t"
  shows "kerneltrap (\<lambda>_. cause) m =
    (let served = m\<lparr>m_sie := True, m_sext := True, m_tasks := (m_tasks m)\<lparr>tl_tasks := (tl_tasks (m_tasks m))(0 \<mapsto> t)\<rparr>\<rparr>;
         claim = m_plic m (PLIC_BASE + 0x201004) in
     case cause of
       SupervisorTimer \<Rightarrow> Inr (served\<lparr>m_timer := m_time m + 100000, m_ticks := m_ticks m + 1\<rparr>)
     | SupervisorExternal \<Rightarrow>
         if claim = 1 then bindr (handle_virtio_interrupt (m_devices m)) (\<lambda>ds. Inr (served\<lparr>m_devices := ds\<rparr>))
         else if claim = 10 then Inl Panic else Inl Undefined
     | _ \<Rightarrow> Inl Panic)"
  using assms
  by (cases cause) (auto simp: kerneltrap_def enter_trap_def handle_def leave_trap_def Let_def interrupt_switches tick_def
      set_next_timer_def INTERVAL_def handle_plic_eq plic_sclaim_def cpu_id_def bindr_assoc bindr_def split: sum.splits)

theorem kerneltrap_dispatch_witness:
  "\<exists>m. kerneltrap (\<lambda>_. SupervisorTimer) demo_machine = Inr m \<and> m_ticks m = 1 \<and> m_timer m = 100007 \<and>
    kerneltrap (\<lambda>_. SupervisorExternal) demo_machine = Inl Undefined"
proof -
  have d: "\<not> m_tasks_locked demo_machine" "\<not> m_task_locked demo_machine" by (simp_all add: demo_machine_def)
  have t: "current_task (m_tasks demo_machine) = Some (the (current_task (m_tasks demo_machine)))"
    by (simp add: demo_machine_def current_task_def)
  from kerneltrap_dispatch [OF d t, of SupervisorTimer] kerneltrap_dispatch [OF d t, of SupervisorExternal] show ?thesis
    by (simp add: Let_def demo_machine_def)
qed

end
