(* ===== verification/Block_File.thy ===== *)
theory Block_File
  imports Block_Cache
begin

text \<open>
  \<open>BlockFile\<close> of \<open>fs/src/bin/mkfs.rs\<close>, the block device that is a file of the host: the
  bytes of the file and the position of its handle. It satisfies the contract of block
  devices, and so the block cache over it is transparent: whatever is evicted and
  reloaded, reads return what was last written, and write-back stores it in the file.
\<close>

section \<open>Files of the host\<close>

text \<open>
  \<open>std::fs::File\<close> on a regular file: \<open>seek\<close> fails on offsets that are no \<open>i64\<close>, \<open>read\<close>
  stops at the end of the file, and \<open>write\<close> fills a gap with zeros and extends the file.
\<close>

record block_file =
  bf_data :: bytes
  bf_pos :: nat

definition file_seek :: "u64 \<Rightarrow> block_file \<Rightarrow> block_file result" where
  "file_seek off f = check (unat off < 2 ^ 63) (Inr (f\<lparr>bf_pos := unat off\<rparr>))"

definition file_read :: "nat \<Rightarrow> block_file \<Rightarrow> bytes \<times> block_file" where
  "file_read n f =
     (let got = get_slice (bf_pos f) n (bf_data f) in (got, f\<lparr>bf_pos := bf_pos f + length got\<rparr>))"

definition file_write :: "bytes \<Rightarrow> block_file \<Rightarrow> nat \<times> block_file" where
  "file_write buf f =
     (let gap = replicate (bf_pos f - length (bf_data f)) 0
      in (length buf, \<lparr>bf_data = put_slice (bf_pos f) buf (bf_data f @ gap), bf_pos = bf_pos f + length buf\<rparr>))"

section \<open>The block device\<close>

definition block_file_read ::
  "block_file \<Rightarrow> u64 \<Rightarrow> bytes \<Rightarrow> ((string + unit) \<times> bytes \<times> block_file) result" where
  "block_file_read file block_id buf =
     bindr (file_seek (block_id * of_nat BLOCK_SIZE) file) (\<lambda>file.
       case file_read (length buf) file of
         (got, file) \<Rightarrow> check (length got = BLOCK_SIZE) (Inr (Inr (), put_slice 0 got buf, file)))"

definition block_file_write ::
  "block_file \<Rightarrow> u64 \<Rightarrow> bytes \<Rightarrow> ((string + unit) \<times> block_file) result" where
  "block_file_write file block_id buf =
     bindr (file_seek (block_id * of_nat BLOCK_SIZE) file) (\<lambda>file.
       case file_write buf file of
         (n, file) \<Rightarrow> check (n = BLOCK_SIZE) (Inr (Inr (), file)))"

definition block_file_ops :: "block_file block_device" where
  "block_file_ops = \<lparr>bd_read = block_file_read, bd_write = block_file_write\<rparr>"

text \<open>The blocks of the file.\<close>

definition bf_in_range :: "block_file \<Rightarrow> u64 \<Rightarrow> bool" where
  "bf_in_range f b \<longleftrightarrow> Suc (unat b) * BLOCK_SIZE \<le> length (bf_data f) \<and> length (bf_data f) \<le> 2 ^ 63"

definition bf_block :: "block_file \<Rightarrow> u64 \<Rightarrow> bytes" where
  "bf_block f b = (if bf_in_range f b then get_slice (unat b * BLOCK_SIZE) BLOCK_SIZE (bf_data f) else [])"

lemma bf_seek:
  assumes "bf_in_range f b"
  shows "file_seek (b * of_nat BLOCK_SIZE) f = Inr (f\<lparr>bf_pos := unat b * BLOCK_SIZE\<rparr>)"
proof -
  have "unat b * BLOCK_SIZE < 2 ^ 63" using assms by (simp add: bf_in_range_def BLOCK_SIZE_def)
  moreover from this have "unat (b * of_nat BLOCK_SIZE) = unat b * BLOCK_SIZE"
    by (subst unat_mult_u64) (simp_all add: BLOCK_SIZE_def unat_of_nat_u64)
  ultimately show ?thesis by (simp add: file_seek_def)
qed

lemma bf_blocks_disjoint:
  "a \<noteq> b \<Longrightarrow> Suc (unat a) * BLOCK_SIZE \<le> unat b * BLOCK_SIZE \<or> Suc (unat b) * BLOCK_SIZE \<le> unat (a :: u64) * BLOCK_SIZE"
  by (metis Suc_leI linorder_neqE_nat mult_le_mono1 word_unat_eq_iff)

lemma bf_block_length: "bf_in_range d b \<Longrightarrow> length (bf_block d b) = BLOCK_SIZE"
  by (simp add: bf_block_def bf_in_range_def)

lemma bf_read_ok:
  assumes "bf_in_range d b" and "length buf = BLOCK_SIZE"
  shows "\<exists>d'. bd_read block_file_ops d b buf = Inr (Inr (), bf_block d b, d') \<and> length (bf_data d') = length (bf_data d) \<and>
    bf_block d' = bf_block d \<and> bf_in_range d' = bf_in_range d"
  using assms
  by (simp add: block_file_ops_def block_file_read_def bf_seek file_read_def bf_block_def bf_in_range_def fun_eq_iff)

lemma bf_write_ok:
  assumes r: "bf_in_range d b" and len: "length buf = BLOCK_SIZE"
  shows "\<exists>d'. bd_write block_file_ops d b buf = Inr (Inr (), d') \<and> length (bf_data d') = length (bf_data d) \<and>
    bf_block d' = (bf_block d)(b := buf) \<and> bf_in_range d' = bf_in_range d"
proof -
  have fits: "unat b * BLOCK_SIZE + BLOCK_SIZE \<le> length (bf_data d)"
    using r by (simp add: bf_in_range_def)
  let ?d' = "\<lparr>bf_data = put_slice (unat b * BLOCK_SIZE) buf (bf_data d), bf_pos = unat b * BLOCK_SIZE + BLOCK_SIZE\<rparr>"
  have w: "bd_write block_file_ops d b buf = Inr (Inr (), ?d')"
    using r len fits by (simp add: block_file_ops_def block_file_write_def bf_seek file_write_def)
  have n: "length (bf_data ?d') = length (bf_data d)" using fits len by simp
  have rng: "bf_in_range ?d' = bf_in_range d"
    using fits len by (simp add: bf_in_range_def fun_eq_iff)
  have "bf_block ?d' c = ((bf_block d)(b := buf)) c" for c
  proof (cases "c = b")
    case True
    then show ?thesis using r len fits rng by (simp add: bf_block_def)
  next
    case False
    have "get_slice (unat c * BLOCK_SIZE) BLOCK_SIZE (put_slice (unat b * BLOCK_SIZE) buf (bf_data d)) =
        get_slice (unat c * BLOCK_SIZE) BLOCK_SIZE (bf_data d)" if "bf_in_range d c"
      using bf_blocks_disjoint [OF False] that fits len
      by (intro get_put_slice_disjoint) (simp_all add: bf_in_range_def, linarith)
    with False rng show ?thesis by (simp add: bf_block_def)
  qed
  with w n rng show ?thesis by blast
qed

interpretation bfs: block_store block_file_ops "\<lambda>_. True" bf_block bf_in_range
  by unfold_locales (use bf_block_length bf_read_ok bf_write_ok in blast)+

text \<open>No operation changes the length of the file.\<close>

interpretation bfl: block_store block_file_ops "\<lambda>d. length (bf_data d) = L" bf_block bf_in_range for L
  by unfold_locales (use bf_block_length bf_read_ok bf_write_ok in blast)+

section \<open>The cache over a file\<close>

text \<open>
  C8: Over a file of the host, the block cache is equivalent to the plain disk. Whatever
  sequence of block reads and writes is served, with whatever capacity from two slots on,
  the session returns, every read returns the bytes last written to its block or those of
  the file, and when the cache is dropped the file holds exactly the disk the requests
  describe; blocks nobody wrote keep their bytes.
\<close>

theorem cache_session_equals_disk:
  assumes "1 < C" and "\<forall>r \<in> set rs. bf_in_range f (req_block r) \<and> req_ok r"
  shows "\<exists>f'. cache_session block_file_ops C rs f = Inr (fst (disk_reqs rs (bf_block f)), f') \<and>
    bf_block f' = snd (disk_reqs rs (bf_block f)) \<and> bf_in_range f' = bf_in_range f"
  using bfs.session_ok [OF TrueI assms] by simp

theorem cache_session_equals_disk_witness:
  "let f = \<lparr>bf_data = replicate (3 * BLOCK_SIZE) 7, bf_pos = 0\<rparr>;
       rs = [Write_Block 2 (replicate BLOCK_SIZE 1), Read_Block 0, Write_Block 1 (replicate BLOCK_SIZE 5), Read_Block 2]
   in (\<forall>r \<in> set rs. bf_in_range f (req_block r) \<and> req_ok r) \<and>
      (\<exists>f'. cache_session block_file_ops 2 rs f = Inr ([bf_block f 0, replicate BLOCK_SIZE 1], f') \<and>
        bf_block f' 2 = replicate BLOCK_SIZE 1 \<and> bf_block f' 0 = bf_block f 0)"
proof -
  let ?f = "\<lparr>bf_data = replicate (3 * BLOCK_SIZE) 7, bf_pos = 0\<rparr>"
  let ?rs = "[Write_Block 2 (replicate BLOCK_SIZE 1), Read_Block 0, Write_Block 1 (replicate BLOCK_SIZE 5), Read_Block 2]"
  have r: "\<forall>r \<in> set ?rs. bf_in_range ?f (req_block r) \<and> req_ok r"
    by (simp add: bf_in_range_def BLOCK_SIZE_def)
  with cache_session_equals_disk [of 2 ?rs ?f] show ?thesis by (force simp: Let_def)
qed

end
