(* ===== verification/Dinode_Io.thy ===== *)
theory Dinode_Io
  imports Block_File
begin

text \<open>
  The data of an inode (\<open>DInode::get_bid\<close>, \<open>set_bid\<close>, \<open>read_data\<close> and \<open>write_data\<close> of
  \<open>fs/src/block_dev.rs\<close>): block addresses through the direct and the indirect table, and
  the copy loops between a buffer and the blocks of a file. The specification is the
  file as a sequence of bytes.
\<close>

section \<open>Block addresses\<close>

definition index_block :: "u64 list layout" where
  "index_block = \<lparr>ly_size = BLOCK_SIZE, ly_dec = (\<lambda>bs. Inr (u64s_at 0 N_INDIRECT bs)),
     ly_enc = (\<lambda>ws _. le64s ws)\<rparr>"

definition dinode_get_bid :: "'d block_device \<Rightarrow> dinode \<Rightarrow> nat \<Rightarrow> 'd store \<Rightarrow> (u64 \<times> 'd store) result" where
  "dinode_get_bid ops d idx s =
     check (idx < MAX_BLOCKS_PER_INODE)
       (if idx < N_DIRECT then Inr (di_addresses d ! idx, s)
        else if idx < N_DIRECT + N_INDIRECT
        then cache_read ops index_block (di_indirect d) 0 (\<lambda>ib. Inr (ib ! (idx - N_DIRECT))) s
        else Inl Panic)"

definition dinode_set_bid ::
  "'d block_device \<Rightarrow> nat \<Rightarrow> u64 \<Rightarrow> dinode \<Rightarrow> 'd store \<Rightarrow> (dinode \<times> 'd store) result" where
  "dinode_set_bid ops idx block_id d s =
     check (idx < MAX_BLOCKS_PER_INODE)
       (if idx < N_DIRECT then Inr (d\<lparr>di_addresses := (di_addresses d)[idx := block_id]\<rparr>, s)
        else if idx < N_DIRECT + N_INDIRECT
        then bindr (cache_write ops index_block (di_indirect d) 0
               (\<lambda>ib. Inr ((), ib[idx - N_DIRECT := block_id])) s) (\<lambda>(_, s). Inr (d, s))
        else Inl Panic)"

section \<open>Copy loops\<close>

text \<open>
  The range \<open>a..a + n\<close> of an array of length \<open>len\<close>, with the sum as \<open>usize\<close>: indexing
  panics unless it is ordered and inside.
\<close>

definition slice_in :: "nat \<Rightarrow> nat \<Rightarrow> nat \<Rightarrow> bool" where
  "slice_in a n len \<longleftrightarrow> a \<le> add_usize a n \<and> add_usize a n \<le> len"

text \<open>
  The loop of \<open>read_data\<close>. The guard of \<open>cache.lock()\<close> is alive when the argument
  \<open>get_bid\<close> of \<open>get\<close> is evaluated. Every pass copies at least one byte into \<open>buf\<close>, so the
  fuel \<open>Suc (length buf)\<close> is never used up.
\<close>

primrec read_loop ::
  "nat \<Rightarrow> 'd block_device \<Rightarrow> dinode \<Rightarrow> nat \<Rightarrow> nat \<Rightarrow> nat \<Rightarrow> nat \<Rightarrow> bytes \<Rightarrow> 'd store \<Rightarrow>
     ((nat \<times> bytes) \<times> 'd store) result" where
  "read_loop 0 ops d end start start_block completed buf s = Inl Hang"
| "read_loop (Suc fuel) ops d end start start_block completed buf s =
     (if start < end then
        let incr = sub_usize (min end (mul_usize (add_usize start_block 1) BLOCK_SIZE)) start in
        check (slice_in completed incr (length buf))
          (bindr (lock_cache s) (\<lambda>s.
           bindr (dinode_get_bid ops d start_block s) (\<lambda>(bid, s).
           bindr (locked_read ops data_block bid 0 (\<lambda>data.
                    check (slice_in (start mod BLOCK_SIZE) incr (length data))
                      (Inr (get_slice (start mod BLOCK_SIZE) incr data))) s) (\<lambda>(src, s).
             read_loop fuel ops d end (add_usize start incr) (add_usize start_block 1)
               (add_usize completed incr) (put_slice completed src buf) s))))
      else Inr ((completed, buf), s))"

definition dinode_read_data ::
  "'d block_device \<Rightarrow> dinode \<Rightarrow> nat \<Rightarrow> bytes \<Rightarrow> 'd store \<Rightarrow> ((nat \<times> bytes) \<times> 'd store) result" where
  "dinode_read_data ops d offset buf s =
     (let end = add_usize offset (min (length buf) (sub_usize (unat (di_size d)) offset))
      in read_loop (Suc (length buf)) ops d end offset (offset div BLOCK_SIZE) 0 buf s)"

text \<open>The loop of \<open>write_data\<close> asks for the block before it takes the lock of the buffer.\<close>

primrec write_loop ::
  "nat \<Rightarrow> 'd block_device \<Rightarrow> dinode \<Rightarrow> nat \<Rightarrow> nat \<Rightarrow> nat \<Rightarrow> nat \<Rightarrow> bytes \<Rightarrow> 'd store \<Rightarrow> (nat \<times> 'd store) result" where
  "write_loop 0 ops d end start start_block completed buf s = Inl Hang"
| "write_loop (Suc fuel) ops d end start start_block completed buf s =
     (if start < end then
        let incr = sub_usize (min end (mul_usize (add_usize start_block 1) BLOCK_SIZE)) start in
        bindr (dinode_get_bid ops d start_block s) (\<lambda>(bid, s).
        bindr (cache_write ops data_block bid 0 (\<lambda>data.
                 check (slice_in completed incr (length buf))
                   (check (slice_in (start mod BLOCK_SIZE) incr (length data))
                     (Inr ((), put_slice (start mod BLOCK_SIZE) (get_slice completed incr buf) data)))) s)
          (\<lambda>(_, s).
          write_loop fuel ops d end (add_usize start incr) (add_usize start_block 1)
            (add_usize completed incr) buf s))
      else Inr (completed, s))"

definition dinode_write_data ::
  "'d block_device \<Rightarrow> dinode \<Rightarrow> nat \<Rightarrow> bytes \<Rightarrow> 'd store \<Rightarrow> (nat \<times> 'd store) result" where
  "dinode_write_data ops d offset buf s =
     (let end = add_usize offset (min (length buf) (sub_usize (unat (di_size d)) offset))
      in write_loop (Suc (length buf)) ops d end offset (offset div BLOCK_SIZE) 0 buf s)"

section \<open>A file as a sequence of bytes\<close>

definition dinode_bid :: "(u64 \<Rightarrow> bytes) \<Rightarrow> dinode \<Rightarrow> nat \<Rightarrow> u64" where
  "dinode_bid D d idx =
     (if idx < N_DIRECT then di_addresses d ! idx
      else u64s_at 0 N_INDIRECT (D (di_indirect d)) ! (idx - N_DIRECT))"

definition dinode_byte :: "(u64 \<Rightarrow> bytes) \<Rightarrow> dinode \<Rightarrow> nat \<Rightarrow> u8" where
  "dinode_byte D d p = D (dinode_bid D d (p div BLOCK_SIZE)) ! (p mod BLOCK_SIZE)"

definition dinode_content :: "(u64 \<Rightarrow> bytes) \<Rightarrow> dinode \<Rightarrow> bytes" where
  "dinode_content D d = map (dinode_byte D d) [0..<unat (di_size d)]"

section \<open>Arithmetic of the copy loops\<close>

lemma block_step:
  fixes start "end" :: nat
  assumes "start < end"
  defines "nxt \<equiv> min end (Suc (start div BLOCK_SIZE) * BLOCK_SIZE)"
  shows "start < nxt" and "nxt \<le> end" and "start mod BLOCK_SIZE + (nxt - start) \<le> BLOCK_SIZE"
    and "nxt < end \<Longrightarrow> nxt div BLOCK_SIZE = Suc (start div BLOCK_SIZE)"
    and "start \<le> p \<Longrightarrow> p < nxt \<Longrightarrow> p div BLOCK_SIZE = start div BLOCK_SIZE \<and>
      p mod BLOCK_SIZE = start mod BLOCK_SIZE + (p - start)"
proof -
  define q r where "q = start div BLOCK_SIZE" and "r = start mod BLOCK_SIZE"
  have d: "start = q * BLOCK_SIZE + r" by (simp add: q_def r_def)
  have r: "r < BLOCK_SIZE" by (simp add: r_def BLOCK_SIZE_def)
  have nxt: "nxt = min end (q * BLOCK_SIZE + BLOCK_SIZE)" by (simp add: nxt_def q_def)
  show 1: "start < nxt" using assms(1) d r by (simp add: nxt)
  show "nxt \<le> end" by (simp add: nxt)
  have le: "nxt \<le> q * BLOCK_SIZE + BLOCK_SIZE" by (simp add: nxt)
  with d 1 show "start mod BLOCK_SIZE + (nxt - start) \<le> BLOCK_SIZE" by (simp flip: r_def)
  show "nxt div BLOCK_SIZE = Suc (start div BLOCK_SIZE)" if "nxt < end"
    unfolding q_def [symmetric] using that by (simp add: nxt min_def BLOCK_SIZE_def split: if_splits)
  show "p div BLOCK_SIZE = start div BLOCK_SIZE \<and> p mod BLOCK_SIZE = start mod BLOCK_SIZE + (p - start)"
    if "start \<le> p" "p < nxt"
  proof -
    define x where "x = r + (p - start)"
    have "p = x + q * BLOCK_SIZE" and "x < BLOCK_SIZE" unfolding x_def using that d le by linarith+
    then have "p div BLOCK_SIZE = q" and "p mod BLOCK_SIZE = x" by simp_all
    then show ?thesis by (simp add: x_def q_def r_def)
  qed
qed

lemma block_incr:
  assumes "start < end" and "end \<le> CAPACITY_PER_INODE"
  shows "sub_usize (min end (mul_usize (add_usize (start div BLOCK_SIZE) 1) BLOCK_SIZE)) start =
      min end (Suc (start div BLOCK_SIZE) * BLOCK_SIZE) - start"
    and "add_usize (start div BLOCK_SIZE) 1 = Suc (start div BLOCK_SIZE)"
    and "start div BLOCK_SIZE < MAX_BLOCKS_PER_INODE"
    and "add_usize start (min end (Suc (start div BLOCK_SIZE) * BLOCK_SIZE) - start) =
      min end (Suc (start div BLOCK_SIZE) * BLOCK_SIZE)"
proof -
  define q where "q = start div BLOCK_SIZE"
  have cap: "CAPACITY_PER_INODE = 2211840" by (simp add: CAPACITY_PER_INODE_def MAX_BLOCKS_PER_INODE_def
        N_DIRECT_def N_INDIRECT_def BLOCK_SIZE_def)
  have q: "q < 540" using assms cap unfolding q_def BLOCK_SIZE_def by linarith
  then show "start div BLOCK_SIZE < MAX_BLOCKS_PER_INODE"
    by (simp add: MAX_BLOCKS_PER_INODE_def N_DIRECT_def N_INDIRECT_def BLOCK_SIZE_def q_def)
  show 1: "add_usize (start div BLOCK_SIZE) 1 = Suc (start div BLOCK_SIZE)"
    using q unfolding q_def [symmetric] by simp
  have m: "mul_usize (Suc q) BLOCK_SIZE = Suc q * BLOCK_SIZE"
    using q by (intro mul_usize_exact) (simp add: BLOCK_SIZE_def)
  note st = block_step [OF assms(1)]
  show "sub_usize (min end (mul_usize (add_usize (start div BLOCK_SIZE) 1) BLOCK_SIZE)) start =
      min end (Suc (start div BLOCK_SIZE) * BLOCK_SIZE) - start"
    unfolding 1 using m st(1) by (simp add: q_def)
  show "add_usize start (min end (Suc (start div BLOCK_SIZE) * BLOCK_SIZE) - start) =
      min end (Suc (start div BLOCK_SIZE) * BLOCK_SIZE)"
    using st(1,2) assms(2) cap by simp
qed

lemma slice_in_exact: "a + n \<le> len \<Longrightarrow> len < usize_range \<Longrightarrow> slice_in a n len"
  by (simp add: slice_in_def)

lemma put_slice_append:
  "off + length xs + length ys \<le> length zs \<Longrightarrow>
    put_slice (off + length xs) ys (put_slice off xs zs) = put_slice off (xs @ ys) zs"
  by (simp add: put_slice_def ac_simps)

lemma get_slice_map_upt:
  assumes "a + n \<le> length xs" and "\<And>p. b \<le> p \<Longrightarrow> p < b + n \<Longrightarrow> f p = xs ! (a + (p - b))"
  shows "get_slice a n xs = map f [b..<b + n]"
  using assms by (intro nth_equalityI) (simp_all add: nth_get_slice)

section \<open>The loops on the disk the cache presents\<close>

context block_store
begin

lemma get_bid_gives:
  assumes "at C R {} s" and "1 < C" and "idx < MAX_BLOCKS_PER_INODE"
    and "N_DIRECT \<le> idx \<Longrightarrow> R (di_indirect d)"
  shows "gives C R {} (dinode_get_bid ops d idx s) (dinode_bid (view s) d idx) (view s)"
proof (cases "idx < N_DIRECT")
  case True
  with assms show ?thesis
    by (simp add: dinode_get_bid_def dinode_bid_def gives_return)
next
  case False
  then have "gives C R {} (cache_read ops index_block (di_indirect d) 0 (\<lambda>ib. Inr (ib ! (idx - N_DIRECT))) s)
      (dinode_bid (view s) d idx) (view s)"
    using assms view_length [OF assms(1), of "di_indirect d"]
    by (intro cache_read_gives [OF assms(1)]) (simp_all add: index_block_def dinode_bid_def BLOCK_SIZE_def)
  with False assms(3) show ?thesis
    by (simp add: dinode_get_bid_def MAX_BLOCKS_PER_INODE_def)
qed

lemma read_loop_gives:
  assumes "at C R {} s" and "1 < C" and "start \<le> end" and "end \<le> N_DIRECT * BLOCK_SIZE"
    and "start < end \<Longrightarrow> start_block = start div BLOCK_SIZE" and "end - start < fuel"
    and "completed + (end - start) \<le> length buf" and "length buf < usize_range"
    and "\<forall>idx. idx * BLOCK_SIZE < end \<longrightarrow> R (di_addresses d ! idx)"
  shows "gives C R {} (read_loop fuel ops d end start start_block completed buf s)
    (completed + (end - start), put_slice completed (map (dinode_byte (view s) d) [start..<end]) buf) (view s)"
  using assms(1,3,5-8)
proof (induction fuel arbitrary: start start_block completed buf s)
  case 0
  then show ?case by simp
next
  case (Suc fuel)
  show ?case
  proof (cases "start < end")
    case False
    with Suc.prems show ?thesis by (simp add: gives_return put_slice_def)
  next
    case True
    define nxt where "nxt = min end (Suc (start div BLOCK_SIZE) * BLOCK_SIZE)"
    let ?bid = "di_addresses d ! (start div BLOCK_SIZE)"
    have cap: "end \<le> CAPACITY_PER_INODE" using assms(4)
      by (simp add: CAPACITY_PER_INODE_def MAX_BLOCKS_PER_INODE_def N_DIRECT_def BLOCK_SIZE_def)
    note st = block_step [OF True, folded nxt_def] and inc = block_incr [OF True cap, folded nxt_def]
    have sb: "start_block = start div BLOCK_SIZE" using Suc.prems(3) True by simp
    have dir: "start div BLOCK_SIZE < N_DIRECT"
      using True assms(4) by (simp add: BLOCK_SIZE_def div_less_iff_less_mult)
    have R: "R ?bid" using assms(9) True by (metis div_times_less_eq_dividend le_less_trans)
    have len: "length (view s ?bid) = BLOCK_SIZE" by (rule view_length [OF Suc.prems(1) R])
    let ?src = "map (dinode_byte (view s) d) [start..<nxt]"
    have src: "get_slice (start mod BLOCK_SIZE) (nxt - start) (view s ?bid) = ?src"
    proof -
      have "get_slice (start mod BLOCK_SIZE) (nxt - start) (view s ?bid) =
          map (dinode_byte (view s) d) [start..<start + (nxt - start)]"
      proof (rule get_slice_map_upt)
        fix p assume "start \<le> p" "p < start + (nxt - start)"
        with st(1) st(5) [of p] dir show "dinode_byte (view s) d p = view s ?bid ! (start mod BLOCK_SIZE + (p - start))"
          by (simp add: dinode_byte_def dinode_bid_def)
      qed (simp add: len st(3))
      with st(1) show ?thesis by simp
    qed
    have si: "slice_in completed (nxt - start) (length buf)" "slice_in (start mod BLOCK_SIZE) (nxt - start) BLOCK_SIZE"
      using Suc.prems(5,6) st(1,2) slice_in_exact [OF st(3)] by (simp_all add: slice_in_exact BLOCK_SIZE_def)
    have lock: "lock_cache s = Inr (s\<lparr>st_locked := True\<rparr>)"
      using Suc.prems(1) by (simp add: lock_cache_def store_at_def)
    have rd: "gives C R {} (locked_read ops data_block ?bid 0 (\<lambda>data. check (slice_in (start mod BLOCK_SIZE) (nxt - start) (length data))
          (Inr (get_slice (start mod BLOCK_SIZE) (nxt - start) data))) (s\<lparr>st_locked := True\<rparr>)) ?src (view s)"
      by (rule locked_read_gives [OF Suc.prems(1), where x = "view s ?bid"])
        (use assms(2) R len si src in \<open>simp_all add: data_block_def BLOCK_SIZE_def\<close>)
    have add: "add_usize completed (nxt - start) = completed + (nxt - start)"
      using Suc.prems(5,6) st(1,2) by simp
    have IH: "gives C R {} (read_loop fuel ops d end nxt (Suc (start div BLOCK_SIZE)) (completed + (nxt - start))
          (put_slice completed ?src buf) s') (completed + (end - start),
          put_slice completed (map (dinode_byte (view s) d) [start..<end]) buf) (view s)"
      if "at C R {} s'" "view s' = view s" for s'
    proof -
      have "[start..<nxt] @ [nxt..<end] = [start..<end]" using st(1,2)
        by (metis le_add_diff_inverse less_imp_le upt_add_eq_append)
      then have app: "put_slice (completed + (nxt - start)) (map (dinode_byte (view s) d) [nxt..<end])
          (put_slice completed ?src buf) = put_slice completed (map (dinode_byte (view s) d) [start..<end]) buf"
        using put_slice_append [of completed ?src "map (dinode_byte (view s) d) [nxt..<end]" buf] st(1,2) Suc.prems(5)
        by (simp flip: map_append)
      show ?thesis
        using Suc.IH [of s' nxt "Suc (start div BLOCK_SIZE)" "completed + (nxt - start)" "put_slice completed ?src buf"]
          that st(1,2,4) Suc.prems(4-6) app by simp
    qed
    from gives_Inr [OF rd] obtain s' where s': "locked_read ops data_block ?bid 0
        (\<lambda>data. check (slice_in (start mod BLOCK_SIZE) (nxt - start) (length data))
          (Inr (get_slice (start mod BLOCK_SIZE) (nxt - start) data))) (s\<lparr>st_locked := True\<rparr>) = Inr (?src, s')"
      "at C R {} s'" "view s' = view s" by blast
    show ?thesis
      unfolding read_loop.simps Let_def sb inc(1) unfolding inc(2,4) add
      using True si(1) dir inc(3) IH [OF s'(2,3)]
      by (simp add: lock dinode_get_bid_def s'(1))
  qed
qed

end

section \<open>What a write changes\<close>

text \<open>
  The blocks of the first \<open>end\<close> bytes are in range, pairwise different and none of them is
  the index block in use. \<open>dinode_written\<close>: \<open>D'\<close> is \<open>D\<close> with the bytes from \<open>start\<close> to
  \<open>end\<close> of the file replaced, and nothing else changed on the disk.
\<close>

definition dinode_blocks_ok :: "(u64 \<Rightarrow> bool) \<Rightarrow> (u64 \<Rightarrow> bytes) \<Rightarrow> dinode \<Rightarrow> nat \<Rightarrow> bool" where
  "dinode_blocks_ok R D d end \<longleftrightarrow>
     inj_on (dinode_bid D d) {idx. idx * BLOCK_SIZE < end} \<and>
     (\<forall>idx. idx * BLOCK_SIZE < end \<longrightarrow> R (dinode_bid D d idx) \<and>
        (N_DIRECT * BLOCK_SIZE < end \<longrightarrow> dinode_bid D d idx \<noteq> di_indirect d)) \<and>
     (N_DIRECT * BLOCK_SIZE < end \<longrightarrow> R (di_indirect d))"

definition dinode_written ::
  "dinode \<Rightarrow> nat \<Rightarrow> nat \<Rightarrow> (nat \<Rightarrow> u8) \<Rightarrow> (u64 \<Rightarrow> bytes) \<Rightarrow> (u64 \<Rightarrow> bytes) \<Rightarrow> bool" where
  "dinode_written d start end f D D' \<longleftrightarrow>
     (\<forall>b. b \<notin> dinode_bid D d ` {idx. start div BLOCK_SIZE \<le> idx \<and> idx * BLOCK_SIZE < end} \<longrightarrow> D' b = D b) \<and>
     (\<forall>p. p div BLOCK_SIZE * BLOCK_SIZE < end \<longrightarrow>
        dinode_byte D' d p = (if start \<le> p \<and> p < end then f p else dinode_byte D d p))"

lemma dinode_bid_upd:
  assumes "dinode_blocks_ok R D d end" and "i * BLOCK_SIZE < end" and "j * BLOCK_SIZE < end"
  shows "dinode_bid (D(dinode_bid D d i := data)) d j = dinode_bid D d j"
proof (cases "j < N_DIRECT")
  case True
  then show ?thesis by (simp add: dinode_bid_def)
next
  case False
  then have "N_DIRECT * BLOCK_SIZE \<le> j * BLOCK_SIZE" by (simp add: BLOCK_SIZE_def)
  with assms(3) have "N_DIRECT * BLOCK_SIZE < end" by linarith
  with assms(1,2) have "dinode_bid D d i \<noteq> di_indirect d" by (simp add: dinode_blocks_ok_def)
  then show ?thesis by (simp add: dinode_bid_def)
qed

lemma dinode_blocks_ok_upd:
  assumes "dinode_blocks_ok R D d end" and "i * BLOCK_SIZE < end"
  shows "dinode_blocks_ok R (D(dinode_bid D d i := data)) d end"
proof -
  let ?D' = "D(dinode_bid D d i := data)"
  have eq: "dinode_bid ?D' d j = dinode_bid D d j" if "j * BLOCK_SIZE < end" for j
    by (rule dinode_bid_upd [OF assms that])
  have "inj_on (dinode_bid ?D' d) {idx. idx * BLOCK_SIZE < end} = inj_on (dinode_bid D d) {idx. idx * BLOCK_SIZE < end}"
    by (rule inj_on_cong) (simp add: eq)
  with assms(1) eq show ?thesis by (simp add: dinode_blocks_ok_def)
qed

lemma block_start_less: "(p :: nat) < end \<Longrightarrow> p div BLOCK_SIZE * BLOCK_SIZE < end"
  by (metis div_times_less_eq_dividend le_less_trans)

lemma dinode_byte_upd:
  assumes ok: "dinode_blocks_ok R D d end" and start: "start < end" and nxt: "start < nxt" "nxt \<le> end"
    and fits: "start mod BLOCK_SIZE + (nxt - start) \<le> BLOCK_SIZE"
    and len: "length (D (dinode_bid D d (start div BLOCK_SIZE))) = BLOCK_SIZE" "length src = nxt - start"
    and p: "p div BLOCK_SIZE * BLOCK_SIZE < end"
  shows "dinode_byte (D(dinode_bid D d (start div BLOCK_SIZE) :=
      put_slice (start mod BLOCK_SIZE) src (D (dinode_bid D d (start div BLOCK_SIZE))))) d p =
    (if start \<le> p \<and> p < nxt then src ! (p - start) else dinode_byte D d p)"
proof -
  let ?q = "start div BLOCK_SIZE" let ?b = "dinode_bid D d ?q"
  let ?data = "put_slice (start mod BLOCK_SIZE) src (D ?b)"
  have q: "?q * BLOCK_SIZE < end" by (rule block_start_less [OF start])
  have s: "?q * BLOCK_SIZE + start mod BLOCK_SIZE = start" by simp
  have pm: "p div BLOCK_SIZE * BLOCK_SIZE + p mod BLOCK_SIZE = p" "p mod BLOCK_SIZE < BLOCK_SIZE"
    by (simp_all add: BLOCK_SIZE_def)
  have byte: "dinode_byte (D(?b := ?data)) d p = (D(?b := ?data)) (dinode_bid D d (p div BLOCK_SIZE)) ! (p mod BLOCK_SIZE)"
    unfolding dinode_byte_def dinode_bid_upd [OF ok q p] ..
  show ?thesis
  proof (cases "p div BLOCK_SIZE = ?q")
    case True
    then have b: "dinode_byte (D(?b := ?data)) d p = ?data ! (p mod BLOCK_SIZE)" using byte by simp
    have le: "start \<le> p \<longleftrightarrow> start mod BLOCK_SIZE \<le> p mod BLOCK_SIZE"
      and lt: "p < nxt \<longleftrightarrow> p mod BLOCK_SIZE < start mod BLOCK_SIZE + (nxt - start)"
      and df: "start \<le> p \<Longrightarrow> p - start = p mod BLOCK_SIZE - start mod BLOCK_SIZE"
      using True pm s nxt(1) by (simp, linarith)+
    have nth: "?data ! (p mod BLOCK_SIZE) = (if start mod BLOCK_SIZE \<le> p mod BLOCK_SIZE \<and>
        p mod BLOCK_SIZE < start mod BLOCK_SIZE + length src then src ! (p mod BLOCK_SIZE - start mod BLOCK_SIZE)
        else D ?b ! (p mod BLOCK_SIZE))"
      by (rule nth_put_slice) (use len fits pm(2) in simp_all)
    show ?thesis
      unfolding b nth using le lt df len(2) True by (simp add: dinode_byte_def)
  next
    case False
    have "inj_on (dinode_bid D d) {idx. idx * BLOCK_SIZE < end}" using ok by (simp add: dinode_blocks_ok_def)
    from inj_onD [OF this, of "p div BLOCK_SIZE" ?q] False p q
    have ne: "dinode_bid D d (p div BLOCK_SIZE) \<noteq> ?b" by auto
    have "\<not> (start \<le> p \<and> p < nxt)"
    proof
      assume r: "start \<le> p \<and> p < nxt"
      have "p div BLOCK_SIZE = ?q"
      proof (rule antisym)
        have "p < ?q * BLOCK_SIZE + BLOCK_SIZE" using r fits s nxt(1) by linarith
        then have "p < Suc ?q * BLOCK_SIZE" by simp
        then show "p div BLOCK_SIZE \<le> ?q" by (metis less_Suc_eq_le less_mult_imp_div_less)
        show "?q \<le> p div BLOCK_SIZE" using r by (simp add: div_le_mono)
      qed
      with False show False ..
    qed
    with ne show ?thesis unfolding byte by (auto simp: dinode_byte_def)
  qed
qed

lemma dinode_written_step:
  assumes ok: "dinode_blocks_ok R D d end" and start: "start < end" and nxt: "start < nxt" "nxt \<le> end"
    and fits: "start mod BLOCK_SIZE + (nxt - start) \<le> BLOCK_SIZE"
    and len: "length (D (dinode_bid D d (start div BLOCK_SIZE))) = BLOCK_SIZE" "length src = nxt - start"
    and src: "\<And>p. start \<le> p \<Longrightarrow> p < nxt \<Longrightarrow> src ! (p - start) = f p"
    and wr: "dinode_written d nxt end f (D(dinode_bid D d (start div BLOCK_SIZE) :=
      put_slice (start mod BLOCK_SIZE) src (D (dinode_bid D d (start div BLOCK_SIZE))))) D'"
  shows "dinode_written d start end f D D'"
proof -
  let ?q = "start div BLOCK_SIZE" let ?b = "dinode_bid D d ?q"
  define D1 where "D1 = D(?b := put_slice (start mod BLOCK_SIZE) src (D ?b))"
  have q: "?q * BLOCK_SIZE < end" by (rule block_start_less [OF start])
  have bid: "dinode_bid D1 d j = dinode_bid D d j" if "j * BLOCK_SIZE < end" for j
    unfolding D1_def by (rule dinode_bid_upd [OF ok q that])
  have mono: "?q \<le> nxt div BLOCK_SIZE" using nxt(1) by (simp add: div_le_mono)
  have "D' b = D b" if b: "b \<notin> dinode_bid D d ` {idx. ?q \<le> idx \<and> idx * BLOCK_SIZE < end}" for b
  proof -
    have "b \<noteq> ?b" using b q by auto
    moreover have "b \<notin> dinode_bid D1 d ` {idx. nxt div BLOCK_SIZE \<le> idx \<and> idx * BLOCK_SIZE < end}"
    proof
      assume "b \<in> dinode_bid D1 d ` {idx. nxt div BLOCK_SIZE \<le> idx \<and> idx * BLOCK_SIZE < end}"
      then obtain j where "nxt div BLOCK_SIZE \<le> j" "j * BLOCK_SIZE < end" "b = dinode_bid D1 d j" by auto
      with bid b mono show False by (metis (mono_tags, lifting) imageI le_trans mem_Collect_eq)
    qed
    ultimately show ?thesis using wr unfolding D1_def [symmetric] by (simp add: dinode_written_def D1_def)
  qed
  moreover have "dinode_byte D' d p = (if start \<le> p \<and> p < end then f p else dinode_byte D d p)"
    if p: "p div BLOCK_SIZE * BLOCK_SIZE < end" for p
  proof -
    have "dinode_byte D' d p = (if nxt \<le> p \<and> p < end then f p else dinode_byte D1 d p)"
      using wr p unfolding D1_def [symmetric] by (simp add: dinode_written_def)
    moreover have "dinode_byte D1 d p = (if start \<le> p \<and> p < nxt then src ! (p - start) else dinode_byte D d p)"
      unfolding D1_def by (rule dinode_byte_upd [OF ok start nxt fits len p])
    ultimately show ?thesis using nxt src by auto
  qed
  ultimately show ?thesis by (simp add: dinode_written_def)
qed

context block_store
begin

lemma write_loop_gives:
  assumes "1 < C" and "end \<le> CAPACITY_PER_INODE" and "end - offset \<le> length buf" and "length buf < usize_range"
    and "at C R {} s" and "offset \<le> start" and "start \<le> end"
    and "start < end \<Longrightarrow> start_block = start div BLOCK_SIZE" and "end - start < fuel"
    and "dinode_blocks_ok R (view s) d end"
  shows "\<exists>D'. gives C R {} (write_loop fuel ops d end start start_block (start - offset) buf s) (end - offset) D' \<and>
    dinode_written d start end (\<lambda>p. buf ! (p - offset)) (view s) D'"
  using assms(5-10)
proof (induction fuel arbitrary: start start_block s)
  case 0
  then show ?case by simp
next
  case (Suc fuel)
  show ?case
  proof (cases "start < end")
    case False
    with Suc.prems show ?thesis
      by (intro exI [of _ "view s"]) (auto simp: gives_return dinode_written_def)
  next
    case True
    define nxt where "nxt = min end (Suc (start div BLOCK_SIZE) * BLOCK_SIZE)"
    let ?q = "start div BLOCK_SIZE" let ?b = "dinode_bid (view s) d ?q"
    let ?src = "get_slice (start - offset) (nxt - start) buf"
    let ?data = "put_slice (start mod BLOCK_SIZE) ?src (view s ?b)"
    let ?D1 = "(view s)(?b := ?data)"
    note st = block_step [OF True, folded nxt_def] and inc = block_incr [OF True assms(2), folded nxt_def]
    have sb: "start_block = ?q" using Suc.prems(4) True by simp
    have q: "?q * BLOCK_SIZE < end" by (rule block_start_less [OF True])
    have R: "R ?b" using Suc.prems(6) q by (simp add: dinode_blocks_ok_def)
    have len: "length (view s ?b) = BLOCK_SIZE" by (rule view_length [OF Suc.prems(1) R])
    have slen: "length ?src = nxt - start" using st(1,2) assms(3) Suc.prems(2) by simp
    have src: "?src ! (p - start) = buf ! (p - offset)" if "start \<le> p" "p < nxt" for p
      using nth_get_slice [of "start - offset" "nxt - start" buf "p - start"] that st(2) assms(3) Suc.prems(2) by simp
    have si: "slice_in (start - offset) (nxt - start) (length buf)" "slice_in (start mod BLOCK_SIZE) (nxt - start) BLOCK_SIZE"
      using assms(3,4) Suc.prems(2) st(1,2) slice_in_exact [OF st(3)] by (simp_all add: slice_in_exact BLOCK_SIZE_def)
    have add: "add_usize (start - offset) (nxt - start) = nxt - offset"
      using assms(3,4) st(1,2) Suc.prems(2) by simp
    have "N_DIRECT \<le> ?q \<Longrightarrow> R (di_indirect d)"
      using q Suc.prems(6) unfolding dinode_blocks_ok_def by (metis mult_le_mono1 le_less_trans)
    from gives_Inr [OF get_bid_gives [OF Suc.prems(1) assms(1) inc(3) this]] obtain s1 where
      s1: "dinode_get_bid ops d ?q s = Inr (?b, s1)" "at C R {} s1" "view s1 = view s" by blast
    have "gives C R {} (cache_write ops data_block ?b 0 (\<lambda>data.
          check (slice_in (start - offset) (nxt - start) (length buf))
            (check (slice_in (start mod BLOCK_SIZE) (nxt - start) (length data))
              (Inr ((), put_slice (start mod BLOCK_SIZE) ?src data)))) s1) () ((view s1)(?b := ?data))"
      by (rule write_block_gives [OF s1(2)])
        (use R assms(1) s1(3) len slen st(3) si in \<open>simp_all\<close>)
    from gives_Inr [OF this] s1(3) obtain s2 where s2: "cache_write ops data_block ?b 0 (\<lambda>data.
          check (slice_in (start - offset) (nxt - start) (length buf))
            (check (slice_in (start mod BLOCK_SIZE) (nxt - start) (length data))
              (Inr ((), put_slice (start mod BLOCK_SIZE) ?src data)))) s1 = Inr ((), s2)"
      "at C R {} s2" "view s2 = ?D1" by auto
    have ok1: "dinode_blocks_ok R ?D1 d end" by (rule dinode_blocks_ok_upd [OF Suc.prems(6) q])
    have "\<exists>D'. gives C R {} (write_loop fuel ops d end nxt (Suc ?q) (nxt - offset) buf s2) (end - offset) D' \<and>
        dinode_written d nxt end (\<lambda>p. buf ! (p - offset)) (view s2) D'"
      by (rule Suc.IH [OF s2(2)]) (use st(1,2,4) Suc.prems(2,5) ok1 [folded s2(3)] in \<open>simp_all (no_asm_simp)\<close>)
    then obtain D' where D': "gives C R {} (write_loop fuel ops d end nxt (Suc ?q) (nxt - offset) buf s2) (end - offset) D'"
      "dinode_written d nxt end (\<lambda>p. buf ! (p - offset)) ?D1 D'" unfolding s2(3) by blast
    from dinode_written_step [OF Suc.prems(6) True st(1-3) len slen src D'(2)]
    have "dinode_written d start end (\<lambda>p. buf ! (p - offset)) (view s) D'" by blast
    moreover have "gives C R {} (write_loop (Suc fuel) ops d end start start_block (start - offset) buf s) (end - offset) D'"
      unfolding write_loop.simps Let_def sb inc(1) unfolding inc(2,4) add
      using True D'(1) by (simp add: s1(1) s2(1))
    ultimately show ?thesis by blast
  qed
qed

end

section \<open>Reading and writing the content\<close>

lemma length_dinode_content [simp]: "length (dinode_content D d) = unat (di_size d)"
  by (simp add: dinode_content_def)

lemma get_slice_content:
  "offset + n \<le> unat (di_size d) \<Longrightarrow>
    get_slice offset n (dinode_content D d) = map (dinode_byte D d) [offset..<offset + n]"
  by (rule get_slice_map_upt) (simp_all add: dinode_content_def)

lemma dinode_blocks_ok_mono: "dinode_blocks_ok R D d m \<Longrightarrow> n \<le> m \<Longrightarrow> dinode_blocks_ok R D d n"
  unfolding dinode_blocks_ok_def by (auto intro: inj_on_subset)

lemma dinode_written_bid:
  assumes ok: "dinode_blocks_ok R D d (unat (di_size d))" and wr: "dinode_written d start end f D D'"
    and "end \<le> unat (di_size d)" and "idx * BLOCK_SIZE < unat (di_size d)"
  shows "dinode_bid D' d idx = dinode_bid D d idx"
proof (cases "idx < N_DIRECT")
  case True
  then show ?thesis by (simp add: dinode_bid_def)
next
  case False
  then have "N_DIRECT * BLOCK_SIZE \<le> idx * BLOCK_SIZE" by (simp add: BLOCK_SIZE_def)
  with assms(4) have ind: "N_DIRECT * BLOCK_SIZE < unat (di_size d)" by linarith
  have "di_indirect d \<notin> dinode_bid D d ` {idx. start div BLOCK_SIZE \<le> idx \<and> idx * BLOCK_SIZE < end}"
  proof
    assume "di_indirect d \<in> dinode_bid D d ` {idx. start div BLOCK_SIZE \<le> idx \<and> idx * BLOCK_SIZE < end}"
    then obtain j where "j * BLOCK_SIZE < end" "di_indirect d = dinode_bid D d j" by auto
    with ok ind assms(3) show False unfolding dinode_blocks_ok_def by (metis less_le_trans)
  qed
  with wr have "D' (di_indirect d) = D (di_indirect d)" by (simp add: dinode_written_def)
  then show ?thesis by (simp add: dinode_bid_def)
qed

lemma dinode_written_ok:
  assumes "dinode_blocks_ok R D d (unat (di_size d))" and "dinode_written d start end f D D'"
    and "end \<le> unat (di_size d)"
  shows "dinode_blocks_ok R D' d (unat (di_size d))"
proof -
  have eq: "dinode_bid D' d idx = dinode_bid D d idx" if "idx * BLOCK_SIZE < unat (di_size d)" for idx
    by (rule dinode_written_bid [OF assms that])
  have "inj_on (dinode_bid D' d) {idx. idx * BLOCK_SIZE < unat (di_size d)} =
      inj_on (dinode_bid D d) {idx. idx * BLOCK_SIZE < unat (di_size d)}"
    by (rule inj_on_cong) (simp add: eq)
  with assms(1) eq show ?thesis by (simp add: dinode_blocks_ok_def)
qed

lemma dinode_written_content:
  assumes ok: "dinode_blocks_ok R D d (unat (di_size d))" and wr: "dinode_written d start end f D D'"
    and "start \<le> end" and "end \<le> unat (di_size d)"
  shows "dinode_content D' d = put_slice start (map f [start..<end]) (dinode_content D d)"
proof -
  have "dinode_byte D' d p = (if start \<le> p \<and> p < end then f p else dinode_byte D d p)"
    if "p < unat (di_size d)" for p
  proof (cases "p div BLOCK_SIZE * BLOCK_SIZE < end")
    case True
    then show ?thesis using wr by (simp add: dinode_written_def)
  next
    case False
    let ?q = "p div BLOCK_SIZE"
    have q: "?q * BLOCK_SIZE < unat (di_size d)" by (rule block_start_less [OF that])
    have "dinode_bid D d ?q \<notin> dinode_bid D d ` {idx. start div BLOCK_SIZE \<le> idx \<and> idx * BLOCK_SIZE < end}"
    proof
      assume "dinode_bid D d ?q \<in> dinode_bid D d ` {idx. start div BLOCK_SIZE \<le> idx \<and> idx * BLOCK_SIZE < end}"
      then obtain j where j: "j * BLOCK_SIZE < end" "dinode_bid D d ?q = dinode_bid D d j" by auto
      moreover have "inj_on (dinode_bid D d) {idx. idx * BLOCK_SIZE < unat (di_size d)}"
        using ok by (simp add: dinode_blocks_ok_def)
      ultimately have "?q = j" using q assms(4) by (auto dest!: inj_onD)
      with j(1) False show False by simp
    qed
    then have "D' (dinode_bid D d ?q) = D (dinode_bid D d ?q)" using wr by (simp add: dinode_written_def)
    moreover have "\<not> p < end" using False block_start_less by blast
    ultimately show ?thesis
      by (simp add: dinode_byte_def dinode_written_bid [OF ok wr assms(4) q])
  qed
  with assms(3,4) show ?thesis
    by (intro nth_equalityI) (auto simp: dinode_content_def nth_put_slice)
qed

context block_store
begin

lemma read_data_gives:
  assumes "at C R {} s" and "1 < C" and "offset \<le> unat (di_size d)" and "length buf < usize_range"
    and n: "n = min (length buf) (unat (di_size d) - offset)" and "offset + n \<le> N_DIRECT * BLOCK_SIZE"
    and "\<forall>idx. idx * BLOCK_SIZE < offset + n \<longrightarrow> R (di_addresses d ! idx)"
  shows "gives C R {} (dinode_read_data ops d offset buf s)
    (n, put_slice 0 (get_slice offset n (dinode_content (view s) d)) buf) (view s)"
proof -
  have "offset + n < usize_range" using assms(6) by (simp add: N_DIRECT_def BLOCK_SIZE_def)
  then have fin: "add_usize offset (min (length buf) (sub_usize (unat (di_size d)) offset)) = offset + n"
    using assms(3) by (simp add: n)
  have "gives C R {} (read_loop (Suc (length buf)) ops d (offset + n) offset (offset div BLOCK_SIZE) 0 buf s)
    (0 + (offset + n - offset), put_slice 0 (map (dinode_byte (view s) d) [offset..<offset + n]) buf) (view s)"
    by (rule read_loop_gives [OF assms(1,2) _ assms(6)]) (use assms(4,7) n in simp_all)
  moreover have "offset + n \<le> unat (di_size d)" using assms(3) by (simp add: n)
  ultimately show ?thesis
    unfolding dinode_read_data_def Let_def fin by (simp add: get_slice_content)
qed

lemma write_data_written:
  assumes "at C R {} s" and "1 < C" and "offset \<le> unat (di_size d)" and "length buf < usize_range"
    and n: "n = min (length buf) (unat (di_size d) - offset)" and "unat (di_size d) \<le> CAPACITY_PER_INODE"
    and "dinode_blocks_ok R (view s) d (unat (di_size d))"
  shows "\<exists>D'. gives C R {} (dinode_write_data ops d offset buf s) n D' \<and>
    dinode_written d offset (offset + n) (\<lambda>p. buf ! (p - offset)) (view s) D'"
proof -
  have le: "offset + n \<le> unat (di_size d)" using assms(3) by (simp add: n)
  have cap: "offset + n \<le> CAPACITY_PER_INODE" using le assms(6) by simp
  then have "offset + n < usize_range"
    by (simp add: CAPACITY_PER_INODE_def MAX_BLOCKS_PER_INODE_def N_DIRECT_def N_INDIRECT_def BLOCK_SIZE_def)
  then have fin: "add_usize offset (min (length buf) (sub_usize (unat (di_size d)) offset)) = offset + n"
    using assms(3) by (simp add: n)
  have "\<exists>D'. gives C R {} (write_loop (Suc (length buf)) ops d (offset + n) offset (offset div BLOCK_SIZE)
      (offset - offset) buf s) (offset + n - offset) D' \<and>
      dinode_written d offset (offset + n) (\<lambda>p. buf ! (p - offset)) (view s) D'"
    by (rule write_loop_gives [OF assms(2) cap _ assms(4,1)])
      (use n dinode_blocks_ok_mono [OF assms(7) le] in simp_all)
  then show ?thesis by (auto simp: dinode_write_data_def Let_def fin)
qed

lemma write_data_gives:
  assumes "at C R {} s" and "1 < C" and "offset \<le> unat (di_size d)" and "length buf < usize_range"
    and n: "n = min (length buf) (unat (di_size d) - offset)" and "unat (di_size d) \<le> CAPACITY_PER_INODE"
    and "dinode_blocks_ok R (view s) d (unat (di_size d))"
  shows "\<exists>D'. gives C R {} (dinode_write_data ops d offset buf s) n D' \<and>
    dinode_content D' d = put_slice offset (take n buf) (dinode_content (view s) d) \<and>
    dinode_blocks_ok R D' d (unat (di_size d)) \<and>
    (\<forall>b. b \<notin> dinode_bid (view s) d ` {idx. idx * BLOCK_SIZE < unat (di_size d)} \<longrightarrow> D' b = view s b)"
proof -
  have le: "offset + n \<le> unat (di_size d)" using assms(3) by (simp add: n)
  from write_data_written [OF assms] obtain D' where D': "gives C R {} (dinode_write_data ops d offset buf s) n D'"
    "dinode_written d offset (offset + n) (\<lambda>p. buf ! (p - offset)) (view s) D'" by blast
  have "map (\<lambda>p. buf ! (p - offset)) [offset..<offset + n] = take n buf"
    by (rule nth_equalityI) (simp_all add: n)
  then have "dinode_content D' d = put_slice offset (take n buf) (dinode_content (view s) d)"
    using dinode_written_content [OF assms(7) D'(2) _ le] by simp
  moreover have "D' b = view s b" if "b \<notin> dinode_bid (view s) d ` {idx. idx * BLOCK_SIZE < unat (di_size d)}" for b
  proof -
    have "b \<notin> dinode_bid (view s) d ` {idx. offset div BLOCK_SIZE \<le> idx \<and> idx * BLOCK_SIZE < offset + n}"
      using that le by auto
    with D'(2) show ?thesis by (simp add: dinode_written_def)
  qed
  ultimately show ?thesis using D'(1) dinode_written_ok [OF assms(7) D'(2) le] by blast
qed

end

section \<open>Properties of file data\<close>

text \<open>
  C13: Data written to an inode is read back. A write of \<open>buf\<close> at \<open>offset\<close> inside the size
  of the inode succeeds and stores all of it, the following read of the same range
  returns exactly \<open>buf\<close>, the content of the inode is the old one with the range replaced,
  and every block of the disk that is not a data block of the inode keeps its bytes.
\<close>

theorem write_then_read:
  assumes "store_at (\<lambda>_. True) bf_block bf_in_range C R {} s" and "1 < C"
    and "offset + length buf \<le> unat (di_size d)" and "unat (di_size d) \<le> N_DIRECT * BLOCK_SIZE"
    and "dinode_blocks_ok R (st_view bf_block s) d (unat (di_size d))"
  shows "\<exists>s1 s2. dinode_write_data block_file_ops d offset buf s = Inr (length buf, s1) \<and>
    dinode_read_data block_file_ops d offset (replicate (length buf) 0) s1 = Inr ((length buf, buf), s2) \<and>
    dinode_content (st_view bf_block s2) d = put_slice offset buf (dinode_content (st_view bf_block s) d) \<and>
    (\<forall>b. b \<notin> dinode_bid (st_view bf_block s) d ` {idx. idx * BLOCK_SIZE < unat (di_size d)} \<longrightarrow>
      st_view bf_block s2 b = st_view bf_block s b)"
proof -
  have cap: "unat (di_size d) \<le> CAPACITY_PER_INODE" and len: "length buf < usize_range"
    using assms(3,4) by (simp_all add: CAPACITY_PER_INODE_def MAX_BLOCKS_PER_INODE_def N_DIRECT_def BLOCK_SIZE_def)
  from bfs.write_data_gives [OF assms(1,2) _ len refl cap assms(5), of offset] assms(3) obtain D' where
    D': "bfs.gives C R {} (dinode_write_data block_file_ops d offset buf s) (length buf) D'"
      "dinode_content D' d = put_slice offset buf (dinode_content (st_view bf_block s) d)"
      "dinode_blocks_ok R D' d (unat (di_size d))"
      "\<forall>b. b \<notin> dinode_bid (st_view bf_block s) d ` {idx. idx * BLOCK_SIZE < unat (di_size d)} \<longrightarrow> D' b = st_view bf_block s b"
    by auto
  from bfs.gives_Inr [OF D'(1)] obtain s1 where
    s1: "dinode_write_data block_file_ops d offset buf s = Inr (length buf, s1)" "bfs.at C R {} s1" "bfs.view s1 = D'"
    by blast
  have "\<forall>idx. idx * BLOCK_SIZE < offset + length buf \<longrightarrow> R (di_addresses d ! idx)"
  proof (intro allI impI)
    fix idx assume i: "idx * BLOCK_SIZE < offset + length buf"
    with assms(3,4) have "idx < N_DIRECT" by (simp add: BLOCK_SIZE_def)
    with D'(3) i assms(3) show "R (di_addresses d ! idx)"
      unfolding dinode_blocks_ok_def by (metis dinode_bid_def less_le_trans)
  qed
  with bfs.read_data_gives [OF s1(2) assms(2), of offset d "replicate (length buf) 0" "length buf"] assms(3,4) len
  have "bfs.gives C R {} (dinode_read_data block_file_ops d offset (replicate (length buf) 0) s1)
      (length buf, get_slice offset (length buf) (dinode_content D' d)) D'"
    by (simp add: s1(3))
  from bfs.gives_Inr [OF this] s1(1) D'(2,4) assms(3) show ?thesis
    by auto
qed

theorem write_then_read_witness:
  "let f = \<lparr>bf_data = replicate (3 * BLOCK_SIZE) 7, bf_pos = 0\<rparr>;
       d = dinode_new File 0 1 10 (2 # replicate 27 0);
       s = block_cache_buffer_new 2 f
   in \<exists>s1 s2. dinode_write_data block_file_ops d 4 [1, 2, 3] s = Inr (3, s1) \<and>
        dinode_read_data block_file_ops d 4 [0, 0, 0] s1 = Inr ((3, [1, 2, 3]), s2)"
proof -
  let ?f = "\<lparr>bf_data = replicate (3 * BLOCK_SIZE) 7, bf_pos = 0\<rparr>"
  let ?d = "dinode_new File 0 1 10 (2 # replicate 27 0)"
  let ?s = "block_cache_buffer_new 2 ?f"
  have at: "store_at (\<lambda>_. True) bf_block bf_in_range 2 (bf_in_range ?f) {} ?s"
    using bfs.new_at [of 2 ?f] by simp
  have idx: "idx * BLOCK_SIZE < 10 \<longleftrightarrow> idx = 0" for idx by (cases idx) (simp_all add: BLOCK_SIZE_def)
  have "bf_in_range ?f 2" by (simp add: bf_in_range_def BLOCK_SIZE_def)
  then have "dinode_blocks_ok (bf_in_range ?f) (st_view bf_block ?s) ?d (unat (di_size ?d))"
    by (simp add: dinode_blocks_ok_def idx dinode_new_def dinode_bid_def N_DIRECT_def)
  from write_then_read [OF at _ _ _ this, of 4 "[1, 2, 3]"] show ?thesis
    by (auto simp: Let_def dinode_new_def N_DIRECT_def BLOCK_SIZE_def numeral_3_eq_3)
qed

text \<open>
  C34: \<open>read_data\<close> deadlocks on the indirect blocks of a file. A read of at least one byte
  that starts behind the 28 direct blocks never returns, on any device: \<open>get_bid\<close> takes the
  lock of the block cache that the same statement already holds.
\<close>

theorem read_data_deadlocks:
  assumes "N_DIRECT * BLOCK_SIZE \<le> offset" and "offset < unat (di_size d)"
    and "unat (di_size d) \<le> CAPACITY_PER_INODE" and "0 < length buf" and "length buf < usize_range"
    and "\<not> st_locked s"
  shows "dinode_read_data ops d offset buf s = Inl Hang"
proof -
  define fin where "fin = offset + min (length buf) (unat (di_size d) - offset)"
  have fin: "offset < fin" "fin \<le> CAPACITY_PER_INODE" using assms by (auto simp: fin_def)
  then have "fin < usize_range"
    by (simp add: CAPACITY_PER_INODE_def MAX_BLOCKS_PER_INODE_def N_DIRECT_def N_INDIRECT_def BLOCK_SIZE_def)
  then have fine: "add_usize offset (min (length buf) (sub_usize (unat (di_size d)) offset)) = fin"
    using assms(2) by (simp add: fin_def)
  note st = block_step [OF fin(1)] and inc = block_incr [OF fin]
  let ?nxt = "min fin (Suc (offset div BLOCK_SIZE) * BLOCK_SIZE)"
  have si: "slice_in 0 (?nxt - offset) (length buf)"
    using st(2) assms(5) by (intro slice_in_exact) (simp_all add: fin_def)
  have "N_DIRECT \<le> offset div BLOCK_SIZE" using assms(1) by (simp add: BLOCK_SIZE_def less_eq_div_iff_mult_less_eq)
  then have hang: "dinode_get_bid ops d (offset div BLOCK_SIZE) (s\<lparr>st_locked := True\<rparr>) = Inl Hang"
    using inc(3) by (simp add: dinode_get_bid_def cache_read_def lock_cache_def MAX_BLOCKS_PER_INODE_def)
  show ?thesis
    unfolding dinode_read_data_def Let_def fine read_loop.simps inc(1)
    using fin(1) si assms(6) by (simp add: lock_cache_def hang)
qed

theorem read_data_deadlocks_witness:
  "dinode_read_data block_file_ops (dinode_new File 0 1 114696 (replicate N_DIRECT 5)) 114688 [0, 0, 0, 0]
     (block_cache_buffer_new 64 \<lparr>bf_data = [], bf_pos = 0\<rparr>) = Inl Hang"
  by (rule read_data_deadlocks) (simp_all add: N_DIRECT_def BLOCK_SIZE_def dinode_new_def CAPACITY_PER_INODE_def
      MAX_BLOCKS_PER_INODE_def N_INDIRECT_def block_cache_buffer_new_def)

end
