(* ===== verification/Inode_Cache.thy ===== *)
theory Inode_Cache
  imports Dinode_Io
begin

text \<open>
  In-memory inodes and their cache (\<open>fs/src/inode.rs\<close>) and the state of a mounted file
  system (\<open>FileSystem\<close> of \<open>fs/src/lib.rs\<close>). An \<open>Arc<Mutex<Inode>>\<close> is the index of a cell,
  so that two handles on one inode and two copies of one inode are different things.
\<close>

section \<open>In-memory inodes\<close>

text \<open>The back pointer \<open>fs\<close> of an inode is the file system whose state holds its cell.\<close>

record inode =
  in_block_id :: u64
  in_block_offset :: u64
  in_inode_num :: u64
  in_type :: inode_type
  in_indirect :: u64
  in_links_num :: u64
  in_size :: u64
  in_addresses :: "u64 list"

definition inode_new :: "u64 \<Rightarrow> u64 \<Rightarrow> u64 \<Rightarrow> dinode \<Rightarrow> inode" where
  "inode_new block_id in_block_off inode_num d =
     \<lparr>in_block_id = block_id, in_block_offset = in_block_off, in_inode_num = inode_num,
      in_type = di_type d, in_indirect = di_indirect d, in_links_num = di_links_num d,
      in_size = di_size d, in_addresses = di_addresses d\<rparr>"

definition inode_size :: "inode \<Rightarrow> nat" where
  "inode_size i = unat (in_size i)"

definition inode_dinode :: "inode \<Rightarrow> dinode" where
  "inode_dinode i = dinode_new (in_type i) (in_indirect i) (in_links_num i) (in_size i) (in_addresses i)"

definition inode_is_valid :: "inode \<Rightarrow> bool" where
  "inode_is_valid i \<longleftrightarrow> in_type i \<noteq> Invalid"

definition inode_update :: "dinode \<Rightarrow> inode \<Rightarrow> inode" where
  "inode_update d i =
     i\<lparr>in_type := di_type d, in_indirect := di_indirect d, in_links_num := di_links_num d,
       in_size := di_size d, in_addresses := di_addresses d\<rparr>"

section \<open>The file system state\<close>

record inode_cell =
  ic_inode :: inode
  ic_locked :: bool

text \<open>
  \<open>FileSystem\<close> with the two caches behind their mutexes: \<open>fs_icache\<close>, \<open>fs_icapacity\<close> and
  \<open>fs_ilocked\<close> are the \<open>InodeCacheBuffer\<close>, \<open>fs_cells\<close> the allocations its entries point to.
\<close>

record 'd file_system =
  fs_sb :: super_block
  fs_store :: "'d store"
  fs_icache :: "(u64 \<times> nat) list"
  fs_icapacity :: nat
  fs_ilocked :: bool
  fs_cells :: "inode_cell list"

definition INODE_BUFFER_SIZE :: nat where
  "INODE_BUFFER_SIZE = 64"

definition max_inode_num :: "super_block \<Rightarrow> u64" where
  "max_inode_num sb = sb_inode_blocks sb * of_nat INODES_PER_BLOCK"

definition dinode_layout :: "dinode layout" where
  "dinode_layout = \<lparr>ly_size = DINODE_SIZE, ly_dec = decode_dinode, ly_enc = encode_dinode\<rparr>"

definition on_store ::
  "('d store \<Rightarrow> ('v \<times> 'd store) result) \<Rightarrow> 'd file_system \<Rightarrow> ('v \<times> 'd file_system) result" where
  "on_store m fs = bindr (m (fs_store fs)) (\<lambda>(v, s). Inr (v, fs\<lparr>fs_store := s\<rparr>))"

section \<open>The inode cache\<close>

text \<open>
  \<open>InodeCacheBuffer::get\<close>. A full cache gives up its last entry before the requested
  inode is looked for.
\<close>

definition inode_cache_evict :: "'d file_system \<Rightarrow> 'd file_system result" where
  "inode_cache_evict fs =
     (if length (fs_icache fs) = fs_icapacity fs
      then check (0 < fs_icapacity fs) (Inr (fs\<lparr>fs_icache := butlast (fs_icache fs)\<rparr>))
      else Inr fs)"

definition inode_cache_find ::
  "'d block_device \<Rightarrow> u64 \<Rightarrow> 'd file_system \<Rightarrow> (nat \<times> 'd file_system) result" where
  "inode_cache_find ops inum fs =
     (case List.extract (\<lambda>(id, _). id = inum) (fs_icache fs) of
        Some (before, (_, cell), after) \<Rightarrow> Inr (cell, fs\<lparr>fs_icache := before @ after\<rparr>)
      | None \<Rightarrow>
          (case find_inode (fs_sb fs) inum of (block_id, in_block_off) \<Rightarrow>
            bindr (on_store (cache_read ops dinode_layout block_id in_block_off Inr) fs) (\<lambda>(d, fs).
              Inr (length (fs_cells fs), fs\<lparr>fs_cells := fs_cells fs @
                [\<lparr>ic_inode = inode_new block_id in_block_off inum d, ic_locked = False\<rparr>]\<rparr>))))"

definition inode_cache_get ::
  "'d block_device \<Rightarrow> u64 \<Rightarrow> 'd file_system \<Rightarrow> ((u64 + nat) \<times> 'd file_system) result" where
  "inode_cache_get ops inum fs =
     (if max_inode_num (fs_sb fs) < inum then Inr (Inl inum, fs)
      else bindr (inode_cache_evict fs) (\<lambda>fs.
           bindr (inode_cache_find ops inum fs) (\<lambda>(cell, fs).
             Inr (Inr cell, fs\<lparr>fs_icache := (inum, cell) # fs_icache fs\<rparr>))))"

definition lock_inode_cache :: "'d file_system \<Rightarrow> 'd file_system result" where
  "lock_inode_cache fs = (if fs_ilocked fs then Inl Hang else Inr (fs\<lparr>fs_ilocked := True\<rparr>))"

definition unlock_inode_cache :: "'d file_system \<Rightarrow> 'd file_system" where
  "unlock_inode_cache fs = fs\<lparr>fs_ilocked := False\<rparr>"

definition lock_inode :: "nat \<Rightarrow> 'd file_system \<Rightarrow> 'd file_system result" where
  "lock_inode a fs =
     (if ic_locked (fs_cells fs ! a) then Inl Hang
      else Inr (fs\<lparr>fs_cells := (fs_cells fs)[a := (fs_cells fs ! a)\<lparr>ic_locked := True\<rparr>]\<rparr>))"

definition unlock_inode :: "nat \<Rightarrow> 'd file_system \<Rightarrow> 'd file_system" where
  "unlock_inode a fs = fs\<lparr>fs_cells := (fs_cells fs)[a := (fs_cells fs ! a)\<lparr>ic_locked := False\<rparr>]\<rparr>"

abbreviation cell_inode :: "'d file_system \<Rightarrow> nat \<Rightarrow> inode" where
  "cell_inode fs a \<equiv> ic_inode (fs_cells fs ! a)"

definition get_inode ::
  "'d block_device \<Rightarrow> u64 \<Rightarrow> 'd file_system \<Rightarrow> ((u64 + nat) \<times> 'd file_system) result" where
  "get_inode ops inum fs =
     bindr (lock_inode_cache fs) (\<lambda>fs.
     bindr (inode_cache_get ops inum fs) (\<lambda>(r, fs). Inr (r, unlock_inode_cache fs)))"

end
