(* ===== verification/File_System.thy ===== *)
theory File_System
  imports Inode_Cache
begin

text \<open>
  The file system (\<open>fs/src/lib.rs\<close>): formatting and mounting, the allocation of inodes
  and data blocks from the bitmaps, directories, reading, writing and growing files.
\<close>

definition SUPER_BLOCK_LOC :: u64 where
  "SUPER_BLOCK_LOC = 1"

definition super_block_layout :: "super_block layout" where
  "super_block_layout = \<lparr>ly_size = SUPER_BLOCK_SIZE, ly_dec = (\<lambda>bs. Inr (decode_super_block bs)),
     ly_enc = (\<lambda>sb _. encode_super_block sb)\<rparr>"

text \<open>\<open>BitmapBlock\<close> is transparent, a value is the bytes of the block.\<close>

definition bitmap_block :: "bytes layout" where
  "bitmap_block = \<lparr>ly_size = BLOCK_SIZE, ly_dec = Inr, ly_enc = (\<lambda>bm _. bm)\<rparr>"

definition u64_range :: "u64 \<Rightarrow> u64 \<Rightarrow> u64 list" where
  "u64_range a b = map of_nat [unat a..<unat b]"

section \<open>Allocation from the bitmaps\<close>

fun bmap_loop :: "'d block_device \<Rightarrow> u64 \<Rightarrow> u64 list \<Rightarrow> 'd store \<Rightarrow> (u64 option \<times> 'd store) result" where
  "bmap_loop ops start [] s = Inr (None, s)"
| "bmap_loop ops start (i # is) s =
     (let block_offset = i - start in
      bindr (cache_write ops bitmap_block i 0 (\<lambda>bmap. Inr (bitmap_allocate bmap)) s) (\<lambda>(offset, s).
        case offset of
          Some off \<Rightarrow> Inr (Some (block_offset * 8 * of_nat BLOCK_SIZE + of_nat off), s)
        | None \<Rightarrow> bmap_loop ops start is s))"

definition allocate_bmap ::
  "'d block_device \<Rightarrow> u64 \<Rightarrow> u64 \<Rightarrow> 'd file_system \<Rightarrow> (u64 option \<times> 'd file_system) result" where
  "allocate_bmap ops start fin fs = on_store (bmap_loop ops start (u64_range start fin)) fs"

definition allocate_data_block ::
  "'d block_device \<Rightarrow> 'd file_system \<Rightarrow> (u64 option \<times> 'd file_system) result" where
  "allocate_data_block ops fs =
     bindr (allocate_bmap ops (sb_data_bmap_start (fs_sb fs)) (sb_data_start (fs_sb fs)) fs) (\<lambda>(r, fs).
       case r of
         Some allocate_id \<Rightarrow>
           if sb_data_blocks (fs_sb fs) \<le> allocate_id then Inr (None, fs)
           else Inr (Some (sb_data_start (fs_sb fs) + allocate_id), fs)
       | None \<Rightarrow> Inr (None, fs))"

definition max_blocks_num :: "super_block \<Rightarrow> u64" where
  "max_blocks_num sb = min (sb_data_blocks sb) (sb_inode_blocks sb * of_nat MAX_BLOCKS_PER_INODE)"

section \<open>Updating inodes\<close>

text \<open>
  \<open>update_dinode\<close>: the callback works on the inode in the cached block and may itself use
  the block cache; the copy in memory follows it.
\<close>

definition update_dinode ::
  "'d block_device \<Rightarrow> nat \<Rightarrow> (dinode \<Rightarrow> 'd store \<Rightarrow> ('v \<times> dinode \<times> 'd store) result) \<Rightarrow> 'd file_system \<Rightarrow>
     ('v \<times> 'd file_system) result" where
  "update_dinode ops a f fs =
     (let inode = cell_inode fs a in
      bindr (on_store (cache_update ops dinode_layout (in_block_id inode) (in_block_offset inode)
               (\<lambda>d s. bindr (f d s) (\<lambda>(v, d', s). Inr ((v, d'), d', s)))) fs) (\<lambda>((v, d'), fs).
        Inr (v, fs\<lparr>fs_cells := (fs_cells fs)[a := (fs_cells fs ! a)\<lparr>ic_inode := inode_update d' inode\<rparr>]\<rparr>)))"

definition set_inode_size :: "'d block_device \<Rightarrow> nat \<Rightarrow> nat \<Rightarrow> 'd file_system \<Rightarrow> (unit \<times> 'd file_system) result" where
  "set_inode_size ops a sz fs = update_dinode ops a (\<lambda>d s. Inr ((), d\<lparr>di_size := of_nat sz\<rparr>, s)) fs"

definition allocate_inode ::
  "'d block_device \<Rightarrow> inode_type \<Rightarrow> 'd file_system \<Rightarrow> (nat option \<times> 'd file_system) result" where
  "allocate_inode ops ty fs =
     bindr (allocate_bmap ops (sb_inode_bmap_start (fs_sb fs)) (sb_inode_start (fs_sb fs)) fs) (\<lambda>(r, fs).
       case r of
         None \<Rightarrow> Inr (None, fs)
       | Some inum \<Rightarrow>
           if max_inode_num (fs_sb fs) \<le> inum then Inr (None, fs)
           else bindr (lock_inode_cache fs) (\<lambda>fs.
                bindr (inode_cache_get ops inum fs) (\<lambda>(r, fs).
                case r of
                  Inl _ \<Rightarrow> Inl Panic
                | Inr a \<Rightarrow>
                    bindr (lock_inode a fs) (\<lambda>fs.
                    bindr (update_dinode ops a (\<lambda>d s. Inr ((), dinode_initialize ty d, s)) fs) (\<lambda>(_, fs).
                      Inr (Some a, unlock_inode_cache (unlock_inode a fs)))))))"

section \<open>Files\<close>

definition read_inode ::
  "'d block_device \<Rightarrow> nat \<Rightarrow> nat \<Rightarrow> bytes \<Rightarrow> 'd file_system \<Rightarrow> ((nat \<times> bytes) \<times> 'd file_system) result" where
  "read_inode ops a offset buf fs = on_store (dinode_read_data ops (inode_dinode (cell_inode fs a)) offset buf) fs"

definition write_inode ::
  "'d block_device \<Rightarrow> nat \<Rightarrow> nat \<Rightarrow> bytes \<Rightarrow> 'd file_system \<Rightarrow> (nat \<times> 'd file_system) result" where
  "write_inode ops a offset buf fs = on_store (dinode_write_data ops (inode_dinode (cell_inode fs a)) offset buf) fs"

definition clear_block :: "'d block_device \<Rightarrow> u64 \<Rightarrow> 'd store \<Rightarrow> (unit \<times> 'd store) result" where
  "clear_block ops bid s =
     bindr (lock_cache s) (\<lambda>s.
     bindr (block_cache_buffer_get ops bid s) (\<lambda>s.
     bindr (lock_block bid (unlock_cache s)) (\<lambda>(block, s).
     bindr (block_cache_sync ops (block_cache_clear block) (st_dev s)) (\<lambda>(block, dev).
       Inr ((), release_block bid block (s\<lparr>st_dev := dev\<rparr>))))))"

datatype alloc_error = Exhausted nat | InodeExhausted | AlreadyExist bytes inode_type | TooLarge nat | InvalidName bytes

text \<open>The loop of \<open>resize_inode\<close> over the \<open>needed_blocks\<close>, with the early return of \<open>?\<close>.\<close>

fun grow_loop ::
  "'d block_device \<Rightarrow> nat \<Rightarrow> nat \<Rightarrow> nat \<Rightarrow> nat list \<Rightarrow> 'd file_system \<Rightarrow> ((alloc_error + unit) \<times> 'd file_system) result" where
  "grow_loop ops a new_size base_idx [] fs = Inr (Inr (), fs)"
| "grow_loop ops a new_size base_idx (i # is) fs =
     bindr (allocate_data_block ops fs) (\<lambda>(r, fs).
       case r of
         None \<Rightarrow> Inr (Inl (Exhausted new_size), fs)
       | Some block_id \<Rightarrow>
           bindr (on_store (clear_block ops block_id) fs) (\<lambda>(_, fs).
           bindr (update_dinode ops a (\<lambda>d s. bindr (dinode_set_bid ops (add_usize base_idx i) block_id d s)
                    (\<lambda>(d, s). Inr ((), d, s))) fs) (\<lambda>(_, fs).
             grow_loop ops a new_size base_idx is fs)))"

definition resize_inode ::
  "'d block_device \<Rightarrow> nat \<Rightarrow> nat \<Rightarrow> 'd file_system \<Rightarrow> ((alloc_error + unit) \<times> 'd file_system) result" where
  "resize_inode ops a new_size fs =
     (if CAPACITY_PER_INODE < new_size then Inr (Inl (TooLarge new_size), fs)
      else let old_size = inode_size (cell_inode fs a) in
      if old_size < new_size then
        (let in_block_off = old_size mod BLOCK_SIZE;
             increment = new_size - old_size in
         if in_block_off \<noteq> 0 \<and> increment \<le> BLOCK_SIZE - in_block_off
         then bindr (set_inode_size ops a new_size fs) (\<lambda>(_, fs). Inr (Inr (), fs))
         else
           (let increment = (if in_block_off \<noteq> 0 then increment - (BLOCK_SIZE - in_block_off) else increment);
                base_idx = add_usize old_size (BLOCK_SIZE - 1) div BLOCK_SIZE;
                needed_blocks = add_usize increment (BLOCK_SIZE - 1) div BLOCK_SIZE in
            bindr (grow_loop ops a new_size base_idx [0..<needed_blocks] fs) (\<lambda>(r, fs).
              case r of
                Inl e \<Rightarrow> Inr (Inl e, fs)
              | Inr _ \<Rightarrow> bindr (set_inode_size ops a new_size fs) (\<lambda>(_, fs). Inr (Inr (), fs)))))
      else if new_size < old_size then Inl Panic
      else Inr (Inr (), fs))"

section \<open>Directories\<close>

text \<open>One variable \<open>dirent\<close> receives every entry; the loops pass on its bytes.\<close>

fun look_up_loop ::
  "'d block_device \<Rightarrow> nat \<Rightarrow> bytes \<Rightarrow> nat list \<Rightarrow> bytes \<Rightarrow> 'd file_system \<Rightarrow> (nat option \<times> 'd file_system) result" where
  "look_up_loop ops a name [] dirent fs = Inr (None, fs)"
| "look_up_loop ops a name (i # is) dirent fs =
     bindr (read_inode ops a (mul_usize DIR_ENTRY_SIZE i) dirent fs) (\<lambda>((read_size, dirent), fs).
     check (read_size = DIR_ENTRY_SIZE)
       (bindr (dir_entry_name (decode_dir_entry dirent)) (\<lambda>entry_name.
         if entry_name = name then
           bindr (get_inode ops (de_inode_num (decode_dir_entry dirent)) fs) (\<lambda>(r, fs).
             case r of Inl _ \<Rightarrow> Inl Panic | Inr cell \<Rightarrow> Inr (Some cell, fs))
         else look_up_loop ops a name is dirent fs)))"

definition look_up ::
  "'d block_device \<Rightarrow> nat \<Rightarrow> bytes \<Rightarrow> 'd file_system \<Rightarrow> (nat option \<times> 'd file_system) result" where
  "look_up ops a name fs =
     check (in_type (cell_inode fs a) = Directory)
       (look_up_loop ops a name [0..<inode_size (cell_inode fs a) div DIR_ENTRY_SIZE]
          (encode_dir_entry dir_entry_empty) fs)"

fun children_loop ::
  "'d block_device \<Rightarrow> nat \<Rightarrow> nat list \<Rightarrow> bytes \<Rightarrow> bytes list \<Rightarrow> 'd file_system \<Rightarrow> (bytes list \<times> 'd file_system) result" where
  "children_loop ops a [] dirent ret fs = Inr (ret, fs)"
| "children_loop ops a (i # is) dirent ret fs =
     bindr (read_inode ops a (mul_usize DIR_ENTRY_SIZE i) dirent fs) (\<lambda>((read_size, dirent), fs).
     check (read_size = DIR_ENTRY_SIZE)
       (bindr (dir_entry_name (decode_dir_entry dirent)) (\<lambda>entry_name.
         children_loop ops a is dirent (ret @ [entry_name]) fs)))"

definition list_children ::
  "'d block_device \<Rightarrow> nat \<Rightarrow> 'd file_system \<Rightarrow> (bytes list \<times> 'd file_system) result" where
  "list_children ops a fs =
     check (in_type (cell_inode fs a) = Directory)
       (children_loop ops a [0..<inode_size (cell_inode fs a) div DIR_ENTRY_SIZE]
          (encode_dir_entry dir_entry_empty) [] fs)"

text \<open>
  \<open>create_inode\<close>. Names are the bytes of a \<open>&str\<close>; 47 is the slash. The new inode is locked
  to the end of the function.
\<close>

definition create_inode ::
  "'d block_device \<Rightarrow> nat \<Rightarrow> bytes \<Rightarrow> inode_type \<Rightarrow> 'd file_system \<Rightarrow>
     ((alloc_error + nat) \<times> 'd file_system) result" where
  "create_inode ops a name ty fs =
     check (in_type (cell_inode fs a) = Directory)
      (if name \<noteq> [] \<and> hd name = 47 then Inr (Inl (InvalidName name), fs)
       else bindr (look_up ops a name fs) (\<lambda>(found, fs).
         case found of
           Some _ \<Rightarrow> Inr (Inl (AlreadyExist name ty), fs)
         | None \<Rightarrow>
             bindr (allocate_inode ops ty fs) (\<lambda>(r, fs).
               case r of
                 None \<Rightarrow> Inr (Inl InodeExhausted, fs)
               | Some new \<Rightarrow>
                   let base_offset = inode_size (cell_inode fs a) in
                   bindr (resize_inode ops a (add_usize base_offset DIR_ENTRY_SIZE) fs) (\<lambda>(r, fs).
                     case r of
                       Inl e \<Rightarrow> Inr (Inl e, fs)
                     | Inr _ \<Rightarrow>
                         check (inode_size (cell_inode fs a) = add_usize base_offset DIR_ENTRY_SIZE)
                          (bindr (lock_inode new fs) (\<lambda>fs.
                           bindr (dir_entry_new name (in_inode_num (cell_inode fs new))) (\<lambda>dirent.
                           bindr (write_inode ops a base_offset (encode_dir_entry dirent) fs) (\<lambda>(written, fs).
                           check (written = DIR_ENTRY_SIZE)
                            (bindr (update_dinode ops new (\<lambda>d s. Inr ((), d\<lparr>di_links_num := di_links_num d + 1\<rparr>, s)) fs)
                              (\<lambda>(_, fs). Inr (Inr new, unlock_inode new fs)))))))))))"

definition calc_blocks_num :: "u64 \<Rightarrow> u64" where
  "calc_blocks_num total_bytes = (total_bytes + of_nat BLOCK_SIZE - 1) div of_nat BLOCK_SIZE"

section \<open>Mounting and formatting\<close>

text \<open>
  \<open>open\<close> on a device; \<open>FileSystemInvalid\<close> is the left result, after which the caches are
  dropped. They are clean, so the device stays as the read left it.
\<close>

definition fs_open ::
  "'d block_device \<Rightarrow> 'd \<Rightarrow> bool \<Rightarrow> (('d + 'd file_system)) result" where
  "fs_open ops dev validate =
     bindr (cache_read ops super_block_layout SUPER_BLOCK_LOC 0 Inr (block_cache_buffer_new BLOCK_BUFFER_SIZE dev))
       (\<lambda>(sb, s).
         if super_block_is_valid sb \<or> \<not> validate
         then Inr (Inr \<lparr>fs_sb = sb, fs_store = s, fs_icache = [], fs_icapacity = INODE_BUFFER_SIZE,
                       fs_ilocked = False, fs_cells = []\<rparr>)
         else bindr (drop_slots ops (st_buffer s) (st_dev s)) (\<lambda>dev. Inr (Inl dev)))"

definition fs_drop :: "'d block_device \<Rightarrow> 'd file_system \<Rightarrow> 'd result" where
  "fs_drop ops fs = drop_slots ops (st_buffer (fs_store fs)) (st_dev (fs_store fs))"

fun clear_blocks :: "'d block_device \<Rightarrow> u64 list \<Rightarrow> 'd store \<Rightarrow> 'd store result" where
  "clear_blocks ops [] s = Inr s"
| "clear_blocks ops (i # is) s =
     bindr (cache_write ops data_block i 0 (\<lambda>block. Inr ((), replicate (length block) 0)) s) (\<lambda>(_, s).
       clear_blocks ops is s)"

text \<open>
  \<open>init_fs\<close>: the first cache formats the device and is flushed, but lives to the end of
  the function; \<open>open\<close> makes a second one. Both are dropped when the function returns, the
  file system's first. \<open>FileSystemInitError\<close> is the left result, the inode that is
  returned the right one.
\<close>

definition init_fs :: "'d block_device \<Rightarrow> 'd \<Rightarrow> super_block \<Rightarrow> ((unit + inode) \<times> 'd) result" where
  "init_fs ops dev sb =
     bindr (clear_blocks ops (u64_range (sb_inode_bmap_start sb) (sb_data_start sb))
              (block_cache_buffer_new BLOCK_BUFFER_SIZE dev)) (\<lambda>s.
     bindr (cache_write ops super_block_layout SUPER_BLOCK_LOC 0 (\<lambda>_. Inr ((), sb)) s) (\<lambda>(_, s).
     bindr (lock_cache s) (\<lambda>s.
     bindr (block_cache_buffer_flush ops s) (\<lambda>s.
     bindr (cache_read ops super_block_layout SUPER_BLOCK_LOC 0 (\<lambda>sb_in_disk. check (sb_in_disk = sb) (Inr ()))
              (unlock_cache s)) (\<lambda>(_, s).
     bindr (fs_open ops (st_dev s) True) (\<lambda>r.
       case r of
         Inl _ \<Rightarrow> Inl Panic
       | Inr fs \<Rightarrow>
           bindr (allocate_inode ops Directory fs) (\<lambda>(root, fs).
           bindr (fs_drop ops fs) (\<lambda>dev.
           bindr (drop_slots ops (st_buffer s) dev) (\<lambda>dev.
             Inr (case root of None \<Rightarrow> Inl () | Some a \<Rightarrow> Inr (cell_inode fs a), dev))))))))))"

text \<open>
  \<open>init\<close> formats the device of a mounted file system; the caches and the super block in
  memory stay as they are.
\<close>

definition fs_init :: "'d block_device \<Rightarrow> super_block \<Rightarrow> 'd file_system \<Rightarrow> ((unit + unit) \<times> 'd file_system) result" where
  "fs_init ops sb fs =
     bindr (init_fs ops (st_dev (fs_store fs)) sb) (\<lambda>(r, dev).
       Inr (case r of Inl e \<Rightarrow> Inl e | Inr _ \<Rightarrow> Inr (), fs\<lparr>fs_store := (fs_store fs)\<lparr>st_dev := dev\<rparr>\<rparr>))"

text \<open>The layout \<open>create\<close> computes, with the assertion that there is room for data.\<close>

definition create_layout :: "u64 \<Rightarrow> u64 \<Rightarrow> super_block result" where
  "create_layout total_blocks inode_blocks =
     check (DINODE_SIZE = BLOCK_SIZE div INODES_PER_BLOCK)
      (let super_blocks = 1; logging_blocks = 1;
           rest_blocks = total_blocks - (super_blocks + logging_blocks);
           inode_bmap_blocks = inode_blocks div of_nat BLOCK_SIZE + 1;
           inode_area = inode_bmap_blocks + inode_blocks in
       check (inode_area < rest_blocks)
        (let rest_blocks = rest_blocks - inode_area;
             data_bmap_blocks = rest_blocks div of_nat BLOCK_SIZE div 8 + 1;
             data_blocks_num = rest_blocks - data_bmap_blocks;
             inode_bmap_start = SUPER_BLOCK_LOC + super_blocks;
             inode_start = inode_bmap_start + inode_bmap_blocks;
             data_bmap_start = inode_start + inode_blocks;
             data_start = data_bmap_start + data_bmap_blocks
         in Inr (super_block_new total_blocks inode_bmap_start inode_start inode_blocks data_bmap_start
                   data_start data_blocks_num)))"

definition fs_create :: "'d block_device \<Rightarrow> 'd \<Rightarrow> u64 \<Rightarrow> u64 \<Rightarrow> 'd file_system result" where
  "fs_create ops dev total_blocks inode_blocks =
     bindr (create_layout total_blocks inode_blocks) (\<lambda>sb.
     bindr (init_fs ops dev sb) (\<lambda>(r, dev).
       case r of
         Inl _ \<Rightarrow> Inl Panic
       | Inr root \<Rightarrow>
           check (in_inode_num root = 0)
            (bindr (fs_open ops dev True) (\<lambda>r. case r of Inl _ \<Rightarrow> Inl Panic | Inr fs \<Rightarrow> Inr fs))))"

definition fs_root :: "'d block_device \<Rightarrow> 'd file_system \<Rightarrow> (nat \<times> 'd file_system) result" where
  "fs_root ops fs = bindr (get_inode ops 0 fs) (\<lambda>(r, fs). case r of Inl _ \<Rightarrow> Inl Panic | Inr a \<Rightarrow> Inr (a, fs))"

end
