(* ===== verification/Path.thy ===== *)
theory Path
  imports File_System
begin

text \<open>
  Path names (\<open>skip\<close> and \<open>get_inode_from_path\<close> of \<open>fs/src/lib.rs\<close>). A path is the bytes
  of a \<open>&str\<close>; cutting it anywhere but between two characters panics.
\<close>

section \<open>Path elements\<close>

abbreviation slash :: u8 where
  "slash \<equiv> 47"

definition is_char_boundary :: "bytes \<Rightarrow> nat \<Rightarrow> bool" where
  "is_char_boundary path i \<longleftrightarrow> i = 0 \<or> i = length path \<or> (i < length path \<and> \<not> utf8_cont (path ! i))"

text \<open>The test \<open>&path[p..p + 1] == "/"\<close>.\<close>

definition slash_at :: "bytes \<Rightarrow> nat \<Rightarrow> bool result" where
  "slash_at path p =
     check (is_char_boundary path p \<and> is_char_boundary path (p + 1)) (Inr (path ! p = slash))"

text \<open>The three loops of \<open>skip\<close>: step over slashes (\<open>want\<close>) or over anything else.\<close>

function skip_loop :: "bool \<Rightarrow> bytes \<Rightarrow> nat \<Rightarrow> nat result" where
  "skip_loop want path p =
     (if p < length path
      then bindr (slash_at path p) (\<lambda>b. if b = want then skip_loop want path (p + 1) else Inr p)
      else Inr p)"
  by pat_completeness auto
termination
  by (relation "measure (\<lambda>(_, path, p). length path - p)") auto

declare skip_loop.simps [simp del]

definition skip :: "bytes \<Rightarrow> (bytes \<times> bytes) option result" where
  "skip path =
     bindr (skip_loop True path 0) (\<lambda>name_start.
       if name_start = length path then Inr None
       else bindr (skip_loop False path name_start) (\<lambda>name_end.
            bindr (skip_loop True path name_end) (\<lambda>p.
              check (is_char_boundary path name_start \<and> is_char_boundary path name_end \<and> is_char_boundary path p)
                (Inr (Some (get_slice name_start (name_end - name_start) path, drop p path))))))"

lemma skip_loop_bounds:
  "skip_loop want path p = Inr q \<Longrightarrow> p \<le> length path \<Longrightarrow>
    p \<le> q \<and> q \<le> length path \<and> (q < length path \<longrightarrow> slash_at path q = Inr (\<not> want))"
proof (induction want path p rule: skip_loop.induct)
  case (1 want path p)
  show ?case
  proof (cases "p < length path")
    case False
    with 1(2,3) show ?thesis by (simp add: skip_loop.simps [of want path p])
  next
    case True
    from 1(2) have "bindr (slash_at path p) (\<lambda>b. if b = want then skip_loop want path (p + 1) else Inr p) = Inr q"
      by (simp add: skip_loop.simps [of want path p] True)
    then obtain b where b: "slash_at path p = Inr b"
      and r: "(if b = want then skip_loop want path (p + 1) else Inr p) = Inr q" by (rule bindrE)
    show ?thesis
    proof (cases "b = want")
      case True
      with 1(1) [OF \<open>p < length path\<close> b True] r \<open>p < length path\<close> show ?thesis by simp
    next
      case False
      with r b True show ?thesis by simp
    qed
  qed
qed

lemma skip_loop_step:
  "p < length path \<Longrightarrow> slash_at path p = Inr want \<Longrightarrow> skip_loop want path p = skip_loop want path (p + 1)"
  by (simp add: skip_loop.simps [of want path p])

lemma skip_shorter:
  assumes "skip path = Inr (Some (name, rest))"
  shows "length rest < length path"
proof -
  from assms obtain a b p where a: "skip_loop True path 0 = Inr a" "a \<noteq> length path"
    and b: "skip_loop False path a = Inr b" and p: "skip_loop True path b = Inr p" "rest = drop p path"
    by (auto simp: skip_def bindr_eq_Inr check_eq_Inr split: if_splits)
  have le: "a < length path" "slash_at path a = Inr False" using skip_loop_bounds [OF a(1)] a(2) by auto
  then have "skip_loop False path (a + 1) = Inr b" using b skip_loop_step by metis
  with le have "a < b" "b \<le> length path" using skip_loop_bounds [of False path "a + 1" b] by auto
  with skip_loop_bounds [OF p(1)] have "0 < p" by simp
  with p(2) le(1) show ?thesis by simp
qed

section \<open>Resolving a path\<close>

text \<open>The guard of every directory on the way is held until the recursive call returns.\<close>

function get_inode_from_path ::
  "'d block_device \<Rightarrow> bytes \<Rightarrow> nat \<Rightarrow> 'd file_system \<Rightarrow> (nat option \<times> 'd file_system) result" where
  "get_inode_from_path ops path start_at fs =
     (if path = [] then Inr (Some start_at, fs)
      else bindr (skip path) (\<lambda>r.
        case r of
          None \<Rightarrow> Inr (None, fs)
        | Some (name, next_path) \<Rightarrow>
            bindr (lock_inode start_at fs) (\<lambda>fs.
              if in_type (cell_inode fs start_at) \<noteq> Directory then Inr (None, unlock_inode start_at fs)
              else bindr (look_up ops start_at name fs) (\<lambda>(found, fs).
                case found of
                  Some next_ip \<Rightarrow>
                    bindr (get_inode_from_path ops next_path next_ip fs) (\<lambda>(r, fs).
                      Inr (r, unlock_inode start_at fs))
                | None \<Rightarrow> Inr (None, unlock_inode start_at fs)))))"
  by pat_completeness auto
termination
  by (relation "measure (\<lambda>(_, path, _, _). length path)") (auto dest: skip_shorter)

declare get_inode_from_path.simps [simp del]

section \<open>Elements of plain paths\<close>

text \<open>The reference: what lies between the slashes.\<close>

definition path_head :: "bytes \<Rightarrow> bytes" where
  "path_head path = takeWhile (\<lambda>c. c \<noteq> slash) (dropWhile (\<lambda>c. c = slash) path)"

definition path_tail :: "bytes \<Rightarrow> bytes" where
  "path_tail path = dropWhile (\<lambda>c. c = slash) (dropWhile (\<lambda>c. c \<noteq> slash) (dropWhile (\<lambda>c. c = slash) path))"

definition ascii :: "bytes \<Rightarrow> bool" where
  "ascii path \<longleftrightarrow> (\<forall>c \<in> set path. c \<le> 0x7F)"

lemma ascii_boundary:
  assumes "ascii path" and "i \<le> length path"
  shows "is_char_boundary path i"
proof (cases "i = length path")
  case False
  with assms have "path ! i \<le> 0x7F" by (simp add: ascii_def)
  then have "\<not> utf8_cont (path ! i)" by (simp add: utf8_cont_def word_le_nat_alt)
  with False assms(2) show ?thesis by (simp add: is_char_boundary_def)
qed (simp add: is_char_boundary_def)

lemma skip_loop_ascii:
  assumes "ascii path" and "p \<le> length path"
  shows "skip_loop want path p = Inr (p + length (takeWhile (\<lambda>c. (c = slash) = want) (drop p path)))"
  using assms
proof (induction want path p rule: skip_loop.induct)
  case (1 want path p)
  show ?case
  proof (cases "p < length path")
    case True
    have at: "slash_at path p = Inr (path ! p = slash)"
      using 1(2) True by (simp add: slash_at_def ascii_boundary)
    have d: "drop p path = path ! p # drop (p + 1) path" using True by (simp add: Cons_nth_drop_Suc)
    show ?thesis
      using 1(1) [OF True at] 1(2) True unfolding skip_loop.simps [of want path p] at d by simp
  qed (simp add: skip_loop.simps [of want path p])
qed

lemma drop_length_takeWhile: "drop (length (takeWhile P xs)) xs = dropWhile P xs"
  by (metis append_eq_conv_conj takeWhile_dropWhile_id)

lemma skip_ascii:
  assumes "ascii path"
  shows "skip path = Inr (if dropWhile (\<lambda>c. c = slash) path = [] then None else Some (path_head path, path_tail path))"
proof -
  define a where "a = length (takeWhile (\<lambda>c. c = slash) path)"
  define b where "b = a + length (path_head path)"
  define p where "p = b + length (takeWhile (\<lambda>c. c = slash) (drop b path))"
  have da: "drop a path = dropWhile (\<lambda>c. c = slash) path" by (simp add: a_def drop_length_takeWhile)
  have db: "drop b path = dropWhile (\<lambda>c. c \<noteq> slash) (dropWhile (\<lambda>c. c = slash) path)"
  proof -
    have "drop b path = drop (length (path_head path)) (drop a path)" by (simp add: b_def add.commute)
    then show ?thesis by (simp only: da path_head_def drop_length_takeWhile)
  qed
  have dp: "drop p path = path_tail path"
  proof -
    have "drop p path = drop (length (takeWhile (\<lambda>c. c = slash) (drop b path))) (drop b path)"
      by (simp add: p_def add.commute)
    then show ?thesis by (simp only: db path_tail_def drop_length_takeWhile)
  qed
  have la: "a \<le> length path" by (simp add: a_def length_takeWhile_le)
  have "length (path_head path) \<le> length (drop a path)" unfolding da path_head_def by (rule length_takeWhile_le)
  then have lb: "b \<le> length path" using la by (simp add: b_def)
  have "length (takeWhile (\<lambda>c. c = slash) (drop b path)) \<le> length (drop b path)" by (rule length_takeWhile_le)
  then have lp: "p \<le> length path" using lb by (simp add: p_def)
  have l1: "skip_loop True path 0 = Inr a" using skip_loop_ascii [OF assms, of 0 True] by (simp add: a_def)
  have l2: "skip_loop False path a = Inr b"
    using skip_loop_ascii [OF assms la, of False] by (simp add: b_def path_head_def da)
  have l3: "skip_loop True path b = Inr p" using skip_loop_ascii [OF assms lb, of True] by (simp add: p_def)
  have name: "get_slice a (b - a) path = path_head path"
    unfolding get_slice_def da b_def by (simp add: path_head_def flip: takeWhile_eq_take)
  have "a = length path \<longleftrightarrow> dropWhile (\<lambda>c. c = slash) path = []"
    using da la by (metis drop_eq_Nil order_antisym order_refl)
  then show ?thesis
    unfolding skip_def l1 using ascii_boundary [OF assms] la lb lp
    by (simp add: l2 l3 name dp)
qed

text \<open>The reference for a whole path: cut it at every slash and drop the empty pieces.\<close>

fun split_slash :: "bytes \<Rightarrow> bytes list" where
  "split_slash [] = [[]]"
| "split_slash (c # cs) =
     (if c = slash then [] # split_slash cs else (c # hd (split_slash cs)) # tl (split_slash cs))"

definition path_elements :: "bytes \<Rightarrow> bytes list" where
  "path_elements path = filter (\<lambda>e. e \<noteq> []) (split_slash path)"

lemma split_slash_nonempty: "split_slash path \<noteq> []"
  by (cases path) auto

lemma split_slash_head:
  "split_slash path = takeWhile (\<lambda>c. c \<noteq> slash) path #
    (case dropWhile (\<lambda>c. c \<noteq> slash) path of [] \<Rightarrow> [] | _ # cs \<Rightarrow> split_slash cs)"
  by (induction path) auto

lemma path_elements_slashes: "path_elements (dropWhile (\<lambda>c. c = slash) path) = path_elements path"
  by (induction path) (auto simp: path_elements_def)

lemma path_elements_head:
  assumes "dropWhile (\<lambda>c. c = slash) path \<noteq> []"
  shows "path_elements path = path_head path # path_elements (path_tail path)" and "path_head path \<noteq> []"
proof -
  let ?p = "dropWhile (\<lambda>c. c = slash) path"
  have "hd ?p \<noteq> slash" using hd_dropWhile [OF assms] .
  with assms show ne: "path_head path \<noteq> []" by (cases ?p) (auto simp: path_head_def)
  have sp: "split_slash ?p = path_head path #
      (case dropWhile (\<lambda>c. c \<noteq> slash) ?p of [] \<Rightarrow> [] | _ # cs \<Rightarrow> split_slash cs)"
    unfolding path_head_def by (rule split_slash_head)
  have "path_elements ?p = path_head path # path_elements (dropWhile (\<lambda>c. c \<noteq> slash) ?p)"
  proof (cases "dropWhile (\<lambda>c. c \<noteq> slash) ?p")
    case Nil
    show ?thesis unfolding path_elements_def sp Nil using ne by simp
  next
    case (Cons c cs)
    then have "c = slash" using hd_dropWhile [of "\<lambda>c. c \<noteq> slash" ?p] by simp
    then show ?thesis unfolding path_elements_def sp Cons using ne by simp
  qed
  then show "path_elements path = path_head path # path_elements (path_tail path)"
    by (simp only: path_elements_slashes path_tail_def)
qed

text \<open>The parts of a path, and that there is only one way to take it apart.\<close>

lemma path_parts:
  assumes "dropWhile (\<lambda>c. c = slash) path \<noteq> []"
  shows "\<exists>i j. path = replicate i slash @ path_head path @ replicate j slash @ path_tail path \<and> (path_tail path \<noteq> [] \<longrightarrow> 0 < j)"
proof -
  let ?p = "dropWhile (\<lambda>c. c = slash) path" let ?q = "dropWhile (\<lambda>c. c \<noteq> slash) ?p"
  have run: "takeWhile (\<lambda>c. c = slash) xs = replicate (length (takeWhile (\<lambda>c. c = slash) xs)) slash" for xs
    by (rule replicate_length_same [symmetric]) (auto dest: set_takeWhileD)
  let ?s = "takeWhile (\<lambda>c. c = slash) path" let ?t = "takeWhile (\<lambda>c. c = slash) ?q"
  have "path = ?s @ path_head path @ ?t @ path_tail path" unfolding path_head_def path_tail_def by simp
  then have "path = replicate (length ?s) slash @ path_head path @ replicate (length ?t) slash @ path_tail path"
    unfolding run [symmetric] .
  moreover have "0 < length ?t" if t: "path_tail path \<noteq> []"
  proof -
    have q: "?q \<noteq> []" using t unfolding path_tail_def by (metis dropWhile.simps(1))
    then obtain c cs where cs: "?q = c # cs" by (meson neq_Nil_conv)
    have "c = slash" using hd_dropWhile [OF q] unfolding cs by simp
    then show ?thesis unfolding cs by simp
  qed
  ultimately show ?thesis by blast
qed

lemma path_parts_unique:
  assumes "path = replicate i slash @ name @ replicate j slash @ rest" and "rest \<noteq> [] \<longrightarrow> 0 < j" and "name \<noteq> []" and "slash \<notin> set name"
    and "rest = [] \<or> hd rest \<noteq> slash"
  shows "name = path_head path" and "rest = path_tail path"
proof -
  have drop: "dropWhile (\<lambda>c. c = slash) (replicate k slash @ xs) = xs" if "xs = [] \<or> hd xs \<noteq> slash" for k xs
    using that by (induction k) (cases xs; simp)+
  have "hd (name @ replicate j slash @ rest) \<noteq> slash" using assms(3,4) by (cases name) auto
  then have p: "dropWhile (\<lambda>c. c = slash) path = name @ replicate j slash @ rest" unfolding assms(1) using drop by blast
  have n: "\<forall>c \<in> set name. c \<noteq> slash" using assms(4) by auto
  have q: "replicate j slash @ rest = [] \<or> hd (replicate j slash @ rest) = slash" using assms(2) by (cases j) auto
  then show "name = path_head path" unfolding path_head_def p using n by (cases "replicate j slash @ rest") (auto simp: takeWhile_append2 takeWhile_eq_all_conv [THEN iffD2])
  from q have "dropWhile (\<lambda>c. c \<noteq> slash) (name @ replicate j slash @ rest) = replicate j slash @ rest"
    using n by (cases "replicate j slash @ rest") (auto simp: dropWhile_append2 dropWhile_eq_Nil_conv)
  then show "rest = path_tail path" unfolding path_tail_def p using drop [OF assms(5), of j] by simp
qed

section \<open>Properties of path names\<close>

text \<open>
  C22: On a path of ASCII characters \<open>skip\<close> always returns, and it takes off exactly the first
  element with the slashes around it. It reports none iff the path has nothing but slashes.
  Otherwise the path is made of slashes, the element, slashes and the rest, in this order:
  the element is not empty and has no slash, at least one slash stands before a rest that is
  not empty, and the rest does not begin with a slash. So the elements of the rest are the
  remaining ones.
\<close>

theorem skip_takes_first_element:
  assumes "ascii path"
  shows "\<exists>r. skip path = Inr r \<and>
    (case r of None \<Rightarrow> set path \<subseteq> {slash} \<and> path_elements path = []
     | Some (name, rest) \<Rightarrow>
         (\<exists>i j. path = replicate i slash @ name @ replicate j slash @ rest \<and> (rest \<noteq> [] \<longrightarrow> 0 < j)) \<and>
         name \<noteq> [] \<and> slash \<notin> set name \<and> (rest = [] \<or> hd rest \<noteq> slash) \<and>
         path_elements path = name # path_elements rest)"
proof (cases "dropWhile (\<lambda>c. c = slash) path = []")
  case True
  then have "path_elements path = path_elements []" by (metis path_elements_slashes)
  moreover have "set path \<subseteq> {slash}" using True by (auto simp: dropWhile_eq_Nil_conv)
  ultimately show ?thesis using True by (simp add: skip_ascii [OF assms] path_elements_def)
next
  case False
  have "slash \<notin> set (path_head path)" by (auto simp: path_head_def dest: set_takeWhileD)
  moreover have "path_tail path = [] \<or> hd (path_tail path) \<noteq> slash"
    unfolding path_tail_def using hd_dropWhile by blast
  ultimately show ?thesis using False path_elements_head [OF False] path_parts [OF False] by (simp add: skip_ascii [OF assms])
qed

theorem skip_takes_first_element_witness:
  "skip [slash, 97, slash, slash, 98, 98, slash, 99] = Inr (Some ([97], [98, 98, slash, 99]))"
proof -
  let ?path = "[slash, 97, slash, slash, 98, 98, slash, 99]"
  have "ascii ?path" by (simp add: ascii_def word_le_nat_alt)
  from skip_takes_first_element [OF this] obtain r where r: "skip ?path = Inr r"
    "case r of None \<Rightarrow> set ?path \<subseteq> {slash} \<and> path_elements ?path = []
     | Some (name, rest) \<Rightarrow>
         (\<exists>i j. ?path = replicate i slash @ name @ replicate j slash @ rest \<and> (rest \<noteq> [] \<longrightarrow> 0 < j)) \<and>
         name \<noteq> [] \<and> slash \<notin> set name \<and> (rest = [] \<or> hd rest \<noteq> slash) \<and>
         path_elements ?path = name # path_elements rest" by blast
  then obtain name rest i j where p: "r = Some (name, rest)" "?path = replicate i slash @ name @ replicate j slash @ rest"
    "rest \<noteq> [] \<longrightarrow> 0 < j" "name \<noteq> []" "slash \<notin> set name" "rest = [] \<or> hd rest \<noteq> slash" by (auto split: option.splits)
  note u = path_parts_unique [OF p(2-6)]
  have "name = [97]" "rest = [98, 98, slash, 99]" unfolding u by (simp_all add: path_head_def path_tail_def)
  with r(1) p(1) show ?thesis by simp
qed

text \<open>
  C39: The path \<open>/\<close>, like every non-empty path of slashes only, resolves to no inode: the
  search from the root directory answers \<open>None\<close> instead of the directory it starts at.
\<close>

theorem slash_path_not_found: "get_inode_from_path ops (replicate (Suc n) slash) a fs = Inr (None, fs)"
proof -
  have "ascii (replicate (Suc n) slash)" by (simp add: ascii_def)
  moreover have "dropWhile (\<lambda>c. c = slash) (replicate (Suc n) slash) = []" by (simp add: dropWhile_eq_Nil_conv)
  ultimately have "skip (replicate (Suc n) slash) = Inr None" by (simp only: skip_ascii simp_thms if_True)
  then show ?thesis by (simp add: get_inode_from_path.simps [of ops _ a fs])
qed

lemma skip_loop_multibyte:
  assumes "ascii pre" and "slash \<notin> set pre" and "\<not> utf8_cont c" and "utf8_cont e" and "p \<le> length pre"
  shows "skip_loop False (pre @ c # e # rest) p = Inl Panic"
  using assms(5)
proof (induction "length pre - p" arbitrary: p)
  case 0
  then have "slash_at (pre @ c # e # rest) p = Inl Panic"
    using assms(4) by (simp add: slash_at_def is_char_boundary_def nth_append)
  then show ?case using 0 by (subst skip_loop.simps) simp
next
  case (Suc k)
  let ?path = "pre @ c # e # rest"
  have p: "p < length pre" using Suc.hyps(2) by simp
  have b: "\<not> utf8_cont (?path ! i)" if "i \<le> length pre" for i
  proof (cases "i = length pre")
    case False
    with that have "pre ! i \<in> set pre" by simp
    with assms(1) have "pre ! i \<le> 0x7F" by (auto simp: ascii_def)
    then show ?thesis using that False by (simp add: utf8_cont_def word_le_nat_alt nth_append)
  qed (simp add: assms(3))
  have "?path ! p \<noteq> slash" using p assms(2) by (metis nth_append nth_mem)
  then have "slash_at ?path p = Inr False"
    using p b [of p] b [of "Suc p"] by (simp add: slash_at_def is_char_boundary_def)
  then have "skip_loop False ?path p = skip_loop False ?path (p + 1)" using p by (intro skip_loop_step) simp_all
  also have "\<dots> = Inl Panic" using Suc.hyps(1) [of "p + 1"] Suc.hyps(2) p by simp
  finally show ?case .
qed

text \<open>
  C38: \<open>skip\<close> panics on names with a character outside ASCII: the loop cuts one byte at a
  time, and slicing inside a multi-byte character is a panic, although such names are
  valid \<open>&str\<close> values and directory entries can hold them.
\<close>

theorem skip_panics_on_multibyte:
  assumes "ascii pre" and "slash \<notin> set pre" and "\<not> utf8_cont c" and "c \<noteq> slash" and "utf8_cont e"
  shows "skip (pre @ c # e # rest) = Inl Panic"
proof (cases "pre = []")
  case True
  have "slash_at (c # e # rest) 0 = Inl Panic"
    using assms(5) by (simp add: slash_at_def is_char_boundary_def)
  then show ?thesis using True by (simp add: skip_def skip_loop.simps [of True "c # e # rest" 0])
next
  case False
  let ?path = "pre @ c # e # rest"
  obtain x xs where pre: "pre = x # xs" using False by (cases pre) auto
  have "is_char_boundary ?path 1"
  proof (cases xs)
    case Nil
    with pre assms(3) show ?thesis by (simp add: is_char_boundary_def)
  next
    case (Cons y ys)
    with pre assms(1) have "y \<le> 0x7F" by (simp add: ascii_def)
    with pre Cons show ?thesis by (simp add: is_char_boundary_def utf8_cont_def word_le_nat_alt)
  qed
  with pre assms(2) have "slash_at ?path 0 = Inr False" by (auto simp: slash_at_def is_char_boundary_def)
  then have "skip_loop True ?path 0 = Inr 0" by (subst skip_loop.simps) simp
  with skip_loop_multibyte [OF assms(1-3,5), of 0 rest] pre show ?thesis by (simp add: skip_def)
qed

theorem skip_panics_on_multibyte_witness: "skip ([97] @ 0xC3 # 0xA9 # [98]) = Inl Panic"
  by (rule skip_panics_on_multibyte) (simp_all add: ascii_def utf8_cont_def word_le_nat_alt)

end
