(* ===== verification/Once_Cell.thy ===== *)
theory Once_Cell
  imports Prelude
begin

text \<open>
  \<open>OnceCell\<close> (\<open>kernel/src/sync/once_cell.rs\<close>): a cell that is written at most once. The lock
  around the flag is taken for one access at a time, so the operations are atomic steps.
\<close>

record 'a once_cell =
  oc_inner :: "'a option"
  oc_initialized :: bool

definition once_cell_new :: "'a once_cell" where
  "once_cell_new = \<lparr>oc_inner = None, oc_initialized = False\<rparr>"

text \<open>\<open>OnceCellAlreadySetError\<close> is the left result.\<close>

definition once_cell_set :: "'a \<Rightarrow> 'a once_cell \<Rightarrow> (unit + unit) \<times> 'a once_cell" where
  "once_cell_set v c =
     (if oc_initialized c then (Inl (), c)
      else (Inr (), c\<lparr>oc_inner := Some v, oc_initialized := True\<rparr>))"

definition once_cell_get :: "'a once_cell \<Rightarrow> 'a option" where
  "once_cell_get c = (if oc_initialized c then oc_inner c else None)"

definition once_cell_get_or_init :: "(unit \<Rightarrow> 'a) \<Rightarrow> 'a once_cell \<Rightarrow> ('a \<times> 'a once_cell) result" where
  "once_cell_get_or_init f c =
     (let c = (if once_cell_get c = None then snd (once_cell_set (f ()) c) else c) in
      case once_cell_get c of None \<Rightarrow> Inl Panic | Some v \<Rightarrow> Inr (v, c))"

section \<open>Use of a cell by several parties\<close>

text \<open>Each step of a run is one of the three calls, by anyone.\<close>

inductive once_step :: "'a once_cell \<Rightarrow> 'a once_cell \<Rightarrow> bool" where
  step_set: "once_step c (snd (once_cell_set v c))"
| step_get_or_init: "once_cell_get_or_init f c = Inr (v, c') \<Longrightarrow> once_step c c'"

inductive_cases once_stepE: "once_step c c'"

definition cell_ok :: "'a once_cell \<Rightarrow> bool" where
  "cell_ok c \<longleftrightarrow> (oc_initialized c \<longleftrightarrow> oc_inner c \<noteq> None)"

lemma once_step_ok: "once_step c c' \<Longrightarrow> cell_ok c \<Longrightarrow> cell_ok c'"
  by (erule once_stepE)
    (auto simp: once_cell_set_def once_cell_get_or_init_def cell_ok_def Let_def split: if_splits option.splits)

lemma once_step_keeps: "once_step c c' \<Longrightarrow> once_cell_get c = Some v \<Longrightarrow> once_cell_get c' = Some v"
  by (erule once_stepE)
    (auto simp: once_cell_set_def once_cell_get_def once_cell_get_or_init_def Let_def split: if_splits option.splits)

lemma once_run:
  assumes "once_step\<^sup>*\<^sup>* c c'"
  shows "cell_ok c \<Longrightarrow> cell_ok c'" and "once_cell_get c = Some v \<Longrightarrow> once_cell_get c' = Some v"
  using assms by (induction rule: rtranclp_induct) (auto intro: once_step_ok once_step_keeps)

section \<open>Property of cells\<close>

text \<open>
  C20: A cell keeps its first value. However a new cell is used, \<open>get_or_init\<close> never
  panics: it returns the stored value, or runs its argument and stores what it gives. The
  value it returns is read by everyone from then on, and every later \<open>set\<close> fails and
  changes nothing.
\<close>

theorem once_cell_write_once:
  assumes "once_step\<^sup>*\<^sup>* once_cell_new c"
  shows "\<exists>v c'. once_cell_get_or_init f c = Inr (v, c') \<and> v = (case once_cell_get c of None \<Rightarrow> f () | Some v \<Rightarrow> v) \<and>
    (\<forall>c''. once_step\<^sup>*\<^sup>* c' c'' \<longrightarrow> once_cell_get c'' = Some v \<and> (\<forall>w. once_cell_set w c'' = (Inl (), c'')))"
proof -
  let ?v = "case once_cell_get c of None \<Rightarrow> f () | Some v \<Rightarrow> v"
  have "cell_ok c" by (rule once_run(1) [OF assms]) (simp add: cell_ok_def once_cell_new_def)
  then obtain c' where c': "once_cell_get_or_init f c = Inr (?v, c')" "once_cell_get c' = Some ?v"
    by (auto simp: cell_ok_def once_cell_get_or_init_def once_cell_get_def once_cell_set_def Let_def split: if_splits)
  have "once_cell_get c'' = Some ?v \<and> (\<forall>w. once_cell_set w c'' = (Inl (), c''))" if "once_step\<^sup>*\<^sup>* c' c''" for c''
    using once_run(2) [OF that c'(2)] by (auto simp: once_cell_get_def once_cell_set_def split: if_splits)
  with c' show ?thesis by blast
qed

theorem once_cell_write_once_witness:
  "let c = snd (once_cell_set (7 :: nat) once_cell_new)
   in once_step\<^sup>*\<^sup>* once_cell_new c \<and> (\<exists>c'. once_cell_get_or_init (\<lambda>_. 8) c = Inr (7, c') \<and> once_cell_get c' = Some 7)"
proof -
  let ?c = "snd (once_cell_set (7 :: nat) once_cell_new)"
  have s: "once_step\<^sup>*\<^sup>* once_cell_new ?c" by (blast intro: r_into_rtranclp step_set)
  have "once_cell_get ?c = Some 7" by (simp add: once_cell_get_def once_cell_set_def once_cell_new_def)
  with once_cell_write_once [OF s, of "\<lambda>_. 8"] s show ?thesis by (auto simp: Let_def)
qed

end
