(* ===== verification/Kernel.thy ===== *)
theory Kernel
  imports Trap Path Once_Cell
begin

text \<open>
  The kernel (\<open>kernel/src/lib.rs\<close> and \<open>kernel/src/console.rs\<close>): the order in which its parts
  are initialised, and the console's hexadecimal dump. The memory of the allocator and the
  state of the file system are separate arguments: what library containers take from the
  heap is not modelled.
\<close>

section \<open>Console\<close>

text \<open>\<open>{:02X}\<close> of a byte.\<close>

definition hex_digit :: "nat \<Rightarrow> char" where
  "hex_digit n = char_of (if n < 10 then 48 + n else 55 + n)"

definition hex_byte :: "u8 \<Rightarrow> string" where
  "hex_byte b = [hex_digit (unat b div 16), hex_digit (unat b mod 16)]"

function hexdump :: "bytes \<Rightarrow> string" where
  "hexdump bs =
     (if bs = [] then []
      else concat (map (\<lambda>b. hex_byte b @ '' '') (take 16 bs)) @ [CHR 10] @ hexdump (drop 16 bs))"
  by pat_completeness auto
termination by (relation "measure length") auto

declare hexdump.simps [simp del]

section \<open>Mounting the root file system\<close>

text \<open>The path \<open>/bin/hello\<close>.\<close>

definition hello_path :: bytes where
  "hello_path = [47, 98, 105, 110, 47, 104, 101, 108, 108, 111]"

text \<open>The loop that prints the file, 4096 bytes at a time, until a read is short.\<close>

partial_function (option) print_loop ::
  "'d block_device \<Rightarrow> nat \<Rightarrow> nat \<Rightarrow> bytes \<Rightarrow> string \<Rightarrow> 'd file_system \<Rightarrow> (string \<times> 'd file_system) result option" where
  "print_loop ops a offset buf out fs =
     (case read_inode ops a offset buf fs of
        Inl e \<Rightarrow> Some (Inl e)
      | Inr ((sz, buf), fs) \<Rightarrow>
          let out = out @ hexdump (take sz buf) @ [CHR 10] in
          if sz \<noteq> length buf then Some (Inr (out, fs))
          else print_loop ops a (add_usize offset sz) buf out fs)"

definition kernel_init_fs ::
  "(virtio_reg \<Rightarrow> reg_writes \<Rightarrow> u32) \<Rightarrow> u64 \<Rightarrow> u64 \<Rightarrow> u64 \<Rightarrow> u64 \<Rightarrow> 'h device \<Rightarrow> u64 \<Rightarrow> u64 \<Rightarrow> u64 \<Rightarrow> gmem \<Rightarrow> 'h \<Rightarrow>
   (virtio_block \<times> gmem \<times> 'h) file_system once_cell \<Rightarrow>
   (string \<times> (virtio_block \<times> gmem \<times> 'h) file_system once_cell) result" where
  "kernel_init_fs read_reg capacity desc avail used dev header status buf gm h root_fs =
     bindr (virtio_init read_reg capacity desc avail used) (\<lambda>(r, ws).
       case r of
         Inl _ \<Rightarrow> Inl Panic
       | Inr vb \<Rightarrow>
           let ops = virtio_ops dev header status buf in
           bindr (fs_open ops (vb, gm, h) True) (\<lambda>r.
             case r of
               Inl _ \<Rightarrow> Inl Panic
             | Inr fs \<Rightarrow>
                 bindr (fs_root ops fs) (\<lambda>(root, fs).
                 bindr (get_inode_from_path ops hello_path root fs) (\<lambda>(r, fs).
                   case r of
                     None \<Rightarrow> Inl Panic
                   | Some a \<Rightarrow>
                       bindr (lock_inode a fs) (\<lambda>fs.
                       bindr (run_loop (print_loop ops a 0 (replicate 4096 0) [] fs)) (\<lambda>(out, fs).
                         Inr (out, snd (once_cell_set (unlock_inode a fs) root_fs))))))))"

section \<open>Boot\<close>

text \<open>
  \<open>init\<close>: logger, memory, file system, processes, interrupts. Addresses the linker gives and
  addresses of objects the allocator places are arguments, and so is the answer of
  \<open>set_logger\<close> of the \<open>log\<close> crate.
\<close>

record boot_addrs =
  ba_end :: u64
  ba_etext :: u64
  ba_trampoline :: u64
  ba_usertrapret :: u64
  ba_kernelvec :: u64
  ba_stack :: u64
  ba_trap_frame :: u64

definition kernel_init ::
  "unit + unit \<Rightarrow> boot_addrs \<Rightarrow> (virtio_reg \<Rightarrow> reg_writes \<Rightarrow> u32) \<Rightarrow> u64 \<Rightarrow> u64 \<Rightarrow> u64 \<Rightarrow> u64 \<Rightarrow> 'h device \<Rightarrow> u64 \<Rightarrow> u64 \<Rightarrow> u64 \<Rightarrow> gmem \<Rightarrow> 'h \<Rightarrow>
   (virtio_block \<times> gmem \<times> 'h) file_system once_cell \<Rightarrow> slab_state \<Rightarrow> machine \<Rightarrow>
   (u64 \<times> slab_state \<times> (virtio_block \<times> gmem \<times> 'h) file_system once_cell \<times> machine) result" where
  "kernel_init set_logger addrs read_reg capacity desc avail used dev header status buf gm h root_fs s m =
     (case set_logger of
        Inl _ \<Rightarrow> Inl Panic
      | Inr _ \<Rightarrow>
          bindr (mem_init (ba_end addrs) (ba_etext addrs) (ba_trampoline addrs) s) (\<lambda>(satp, s).
          bindr (kernel_init_fs read_reg capacity desc avail used dev header status buf gm h root_fs) (\<lambda>(_, root_fs).
          bindr (user_init kernel_pages (ba_usertrapret addrs) (ba_trampoline addrs) (ba_stack addrs) (ba_trap_frame addrs) (m_tasks m) s)
            (\<lambda>(tasks, s). Inr (satp, s, root_fs, intr_init (ba_kernelvec addrs) (m\<lparr>m_tasks := tasks\<rparr>))))))"

end
