(* ===== verification/Fs_Alloc.thy ===== *)
theory Fs_Alloc
  imports File_System
begin

text \<open>
  The layout computed by \<open>FileSystem::create\<close>, and the allocation of inode numbers and
  data blocks from the bitmap regions: first fit, never the same number twice.
\<close>

section \<open>Bitmap regions\<close>

text \<open>The numbers in use in a region of \<open>m\<close> bitmap blocks from block \<open>start\<close> on.\<close>

definition bmap_used :: "(u64 \<Rightarrow> bytes) \<Rightarrow> u64 \<Rightarrow> nat \<Rightarrow> nat set" where
  "bmap_used D start m =
     {n. n < m * BITMAP_PER_BLOCK \<and>
         n mod BITMAP_PER_BLOCK \<in> bitmap_used (D (start + of_nat (n div BITMAP_PER_BLOCK)))}"

text \<open>First fit: what one call may return and how it leaves the disk.\<close>

definition bmap_step :: "(u64 \<Rightarrow> bytes) \<Rightarrow> u64 \<Rightarrow> nat \<Rightarrow> nat option \<Rightarrow> (u64 \<Rightarrow> bytes) \<Rightarrow> bool" where
  "bmap_step D start m r D' \<longleftrightarrow>
     (case r of
        None \<Rightarrow> D' = D \<and> bmap_used D start m = {..<m * BITMAP_PER_BLOCK}
      | Some n \<Rightarrow> n < m * BITMAP_PER_BLOCK \<and> n \<notin> bmap_used D start m \<and> {..<n} \<subseteq> bmap_used D start m \<and>
          bmap_used D' start m = insert n (bmap_used D start m) \<and>
          (\<forall>b. b \<noteq> start + of_nat (n div BITMAP_PER_BLOCK) \<longrightarrow> D' b = D b))"

lemma of_nat_u64_eq_iff:
  "i < usize_range \<Longrightarrow> j < usize_range \<Longrightarrow> (of_nat i :: u64) = of_nat j \<longleftrightarrow> i = j"
  by (metis unat_of_nat_u64)

lemma bmap_index:
  assumes "off < BITMAP_PER_BLOCK"
  shows "(j * BITMAP_PER_BLOCK + off) div BITMAP_PER_BLOCK = j"
    and "(j * BITMAP_PER_BLOCK + off) mod BITMAP_PER_BLOCK = off"
  using assms by simp_all

lemma bmap_index_less:
  assumes "n < Suc j * BITMAP_PER_BLOCK" and "j * BITMAP_PER_BLOCK \<le> n"
  obtains off where "off < BITMAP_PER_BLOCK" and "n = j * BITMAP_PER_BLOCK + off"
  using assms by (metis add.commute le_add_diff_inverse less_diff_conv2 mult_Suc)

lemma bmap_used_block:
  assumes "j < m" and "off < BITMAP_PER_BLOCK"
  shows "j * BITMAP_PER_BLOCK + off \<in> bmap_used D start m \<longleftrightarrow> off \<in> bitmap_used (D (start + of_nat j))"
proof -
  have "Suc j * BITMAP_PER_BLOCK \<le> m * BITMAP_PER_BLOCK" using assms(1) by (intro mult_le_mono1) simp
  then have "j * BITMAP_PER_BLOCK + off < m * BITMAP_PER_BLOCK" using assms(2) by simp
  then show ?thesis unfolding bmap_used_def mem_Collect_eq bmap_index [OF assms(2)] by simp
qed

lemma bmap_used_upd:
  assumes "j < m" and "m < usize_range" and "off < BITMAP_PER_BLOCK"
    and "bitmap_used bm = insert off (bitmap_used (D (start + of_nat j)))"
  shows "bmap_used (D(start + of_nat j := bm)) start m = insert (j * BITMAP_PER_BLOCK + off) (bmap_used D start m)"
proof (rule set_eqI)
  fix n
  have bpb: "0 < BITMAP_PER_BLOCK" by (simp add: BITMAP_PER_BLOCK_def BLOCK_SIZE_def)
  define q r where "q = n div BITMAP_PER_BLOCK" and "r = n mod BITMAP_PER_BLOCK"
  have n: "n = q * BITMAP_PER_BLOCK + r" and r: "r < BITMAP_PER_BLOCK" using bpb by (simp_all add: q_def r_def)
  have eq: "n = j * BITMAP_PER_BLOCK + off \<longleftrightarrow> q = j \<and> r = off"
    using n bmap_index [OF assms(3)] by (metis q_def r_def)
  show "n \<in> bmap_used (D(start + of_nat j := bm)) start m \<longleftrightarrow>
      n \<in> insert (j * BITMAP_PER_BLOCK + off) (bmap_used D start m)"
  proof (cases "q < m")
    case True
    with assms(1,2) have ne: "(start + of_nat q = start + of_nat j) = (q = j)"
      by (simp add: of_nat_u64_eq_iff)
    show ?thesis
      unfolding insert_iff eq n [THEN arg_cong, of "\<lambda>n. n \<in> _"] bmap_used_block [OF True r]
      using ne assms(4) by auto
  next
    case False
    then have "m * BITMAP_PER_BLOCK \<le> q * BITMAP_PER_BLOCK" by (intro mult_le_mono1) simp
    then have "\<not> n < m * BITMAP_PER_BLOCK" using n by linarith
    moreover have "n \<noteq> j * BITMAP_PER_BLOCK + off" using eq False assms(1) by auto
    ultimately show ?thesis by (simp add: bmap_used_def)
  qed
qed

context block_store
begin

lemma bmap_loop_gives:
  assumes "at C R {} s" and "1 < C" and "\<forall>j < m. R (start + of_nat j)" and "m < usize_range"
    and "j \<le> m" and "{..<j * BITMAP_PER_BLOCK} \<subseteq> bmap_used (view s) start m"
  shows "\<exists>r D'. gives C R {} (bmap_loop ops start (map (\<lambda>j. start + of_nat j) [j..<m]) s) (map_option of_nat r) D' \<and>
    bmap_step (view s) start m r D'"
  using assms(1,5,6)
proof (induction "m - j" arbitrary: j s)
  case 0
  then have "j = m" by simp
  with 0 have "bmap_used (view s) start m = {..<m * BITMAP_PER_BLOCK}" by (auto simp: bmap_used_def)
  with \<open>j = m\<close> 0 show ?case
    by (intro exI [of _ None] exI [of _ "view s"]) (simp add: gives_return bmap_step_def)
next
  case (Suc k)
  let ?i = "start + of_nat j"
  have j: "j < m" and up: "[j..<m] = j # [Suc j..<m]" using Suc.hyps(2) by (simp_all add: upt_conv_Cons)
  have R: "R ?i" using assms(3) j by simp
  have len: "length (view s ?i) = BLOCK_SIZE" by (rule view_length [OF Suc.prems(1) R])
  obtain r bm where al: "bitmap_allocate (view s ?i) = (r, bm)" by (cases "bitmap_allocate (view s ?i)")
  have bml: "length bm = BLOCK_SIZE"
    using bitmap_allocate_Some(5) [of "view s ?i" _ bm] bitmap_allocate_None(1) [of "view s ?i" bm] al len
    by (cases r) auto
  have "gives C R {} (cache_write ops bitmap_block ?i 0 (\<lambda>bmap. Inr (bitmap_allocate bmap)) s) r ((view s)(?i := bm))"
    using write_block_gives [OF Suc.prems(1) _ R, of "\<lambda>bmap. Inr (bitmap_allocate bmap)" r bm] assms(2) al bml
    by (simp add: bitmap_block_def data_block_def)
  from gives_Inr [OF this] obtain s1 where
    s1: "cache_write ops bitmap_block ?i 0 (\<lambda>bmap. Inr (bitmap_allocate bmap)) s = Inr (r, s1)"
      "at C R {} s1" "view s1 = (view s)(?i := bm)" by blast
  show ?case
  proof (cases r)
    case None
    with al bitmap_allocate_None [of "view s ?i" bm] have bm: "bm = view s ?i"
      and full: "bitmap_used (view s ?i) = {..<BITMAP_PER_BLOCK}"
      by (simp_all add: len BITMAP_PER_BLOCK_def mult.commute)
    have v: "view s1 = view s" by (simp add: s1(3) bm)
    have "{..<Suc j * BITMAP_PER_BLOCK} \<subseteq> bmap_used (view s1) start m"
    proof
      fix n assume "n \<in> {..<Suc j * BITMAP_PER_BLOCK}"
      then have n: "n < Suc j * BITMAP_PER_BLOCK" by simp
      show "n \<in> bmap_used (view s1) start m"
      proof (cases "n < j * BITMAP_PER_BLOCK")
        case False
        with n obtain off where "off < BITMAP_PER_BLOCK" "n = j * BITMAP_PER_BLOCK + off"
          by (metis bmap_index_less not_less)
        with bmap_used_block [OF j] full show ?thesis by (simp add: v)
      qed (use Suc.prems(3) v in auto)
    qed
    moreover have "k = m - Suc j" using Suc.hyps(2) by simp
    ultimately obtain r' D' where IH: "gives C R {} (bmap_loop ops start (map (\<lambda>j. start + of_nat j) [Suc j..<m]) s1) (map_option of_nat r') D'"
      "bmap_step (view s) start m r' D'" using Suc.hyps(1) [of "Suc j" s1] s1(2) j v by (metis Suc_leI)
    have "bmap_loop ops start (map (\<lambda>j. start + of_nat j) [j..<m]) s =
        bmap_loop ops start (map (\<lambda>j. start + of_nat j) [Suc j..<m]) s1"
      by (simp add: up s1(1) None)
    with IH show ?thesis by auto
  next
    case (Some off)
    note al' = bitmap_allocate_Some [OF al [unfolded Some], unfolded len]
    have off: "off < BITMAP_PER_BLOCK" using al'(1) by (simp add: BITMAP_PER_BLOCK_def)
    have used: "bmap_used (view s1) start m = insert (j * BITMAP_PER_BLOCK + off) (bmap_used (view s) start m)"
      unfolding s1(3) by (rule bmap_used_upd [OF j assms(4) off]) (rule al'(4))
    have "bmap_loop ops start (map (\<lambda>j. start + of_nat j) [j..<m]) s = Inr (Some (of_nat (j * BITMAP_PER_BLOCK + off)), s1)"
      by (simp add: up s1(1) Some BITMAP_PER_BLOCK_def ac_simps)
    with s1(2) have g: "gives C R {} (bmap_loop ops start (map (\<lambda>j. start + of_nat j) [j..<m]) s)
        (map_option of_nat (Some (j * BITMAP_PER_BLOCK + off))) (view s1)"
      by (simp add: gives_return)
    have "{..<j * BITMAP_PER_BLOCK + off} \<subseteq> bmap_used (view s) start m"
    proof
      fix n assume "n \<in> {..<j * BITMAP_PER_BLOCK + off}"
      then have n: "n < j * BITMAP_PER_BLOCK + off" by simp
      show "n \<in> bmap_used (view s) start m"
      proof (cases "n < j * BITMAP_PER_BLOCK")
        case False
        then have "n = j * BITMAP_PER_BLOCK + (n - j * BITMAP_PER_BLOCK)" "n - j * BITMAP_PER_BLOCK < off" using n by simp_all
        moreover from this al'(3) have "n - j * BITMAP_PER_BLOCK \<in> bitmap_used (view s ?i)" by auto
        ultimately show ?thesis using bmap_used_block [OF j, of "n - j * BITMAP_PER_BLOCK"] off by simp
      qed (use Suc.prems(3) in auto)
    qed
    moreover have "j * BITMAP_PER_BLOCK + off \<notin> bmap_used (view s) start m"
      using bmap_used_block [OF j off] al'(2) by simp
    moreover have "j * BITMAP_PER_BLOCK + off < m * BITMAP_PER_BLOCK"
      using used by (auto simp: bmap_used_def)
    ultimately have "bmap_step (view s) start m (Some (j * BITMAP_PER_BLOCK + off)) (view s1)"
      using used bmap_index [OF off] by (simp add: bmap_step_def s1(3))
    with g show ?thesis by blast
  qed
qed

end

section \<open>Data blocks\<close>

text \<open>
  A layout as \<open>create\<close> computes it: the regions follow each other, the blocks before the data
  are in range of the device, and the data bitmap has a bit for every data block. \<open>data_in\<close>
  says that the data blocks are in range as well.
\<close>

definition sb_ok :: "(u64 \<Rightarrow> bool) \<Rightarrow> super_block \<Rightarrow> bool" where
  "sb_ok R sb \<longleftrightarrow>
     2 \<le> unat (sb_inode_bmap_start sb) \<and> unat (sb_inode_bmap_start sb) < unat (sb_inode_start sb) \<and>
     unat (sb_inode_start sb) + unat (sb_inode_blocks sb) = unat (sb_data_bmap_start sb) \<and>
     unat (sb_data_bmap_start sb) < unat (sb_data_start sb) \<and>
     unat (sb_data_start sb) + unat (sb_data_blocks sb) < usize_range \<and>
     (\<forall>b. unat b < unat (sb_data_start sb) \<longrightarrow> R b) \<and>
     unat (sb_data_blocks sb) \<le> (unat (sb_data_start sb) - unat (sb_data_bmap_start sb)) * BITMAP_PER_BLOCK \<and>
     (unat (sb_data_start sb) - unat (sb_data_bmap_start sb)) * BITMAP_PER_BLOCK < usize_range \<and>
     (unat (sb_inode_start sb) - unat (sb_inode_bmap_start sb)) * BITMAP_PER_BLOCK < usize_range \<and>
     unat (sb_inode_blocks sb) * INODES_PER_BLOCK < usize_range"

definition data_in :: "(u64 \<Rightarrow> bool) \<Rightarrow> super_block \<Rightarrow> bool" where
  "data_in R sb \<longleftrightarrow> (\<forall>b. unat (sb_data_start sb) \<le> unat b \<and> unat b < unat (sb_data_start sb) + unat (sb_data_blocks sb) \<longrightarrow> R b)"

definition data_used :: "(u64 \<Rightarrow> bytes) \<Rightarrow> super_block \<Rightarrow> nat set" where
  "data_used D sb =
     {..<unat (sb_data_blocks sb)} \<inter>
     bmap_used D (sb_data_bmap_start sb) (unat (sb_data_start sb) - unat (sb_data_bmap_start sb))"

lemma u64_range_shift:
  assumes "unat a \<le> unat b"
  shows "u64_range a b = map (\<lambda>j. a + of_nat j) [0..<unat b - unat a]"
proof -
  have "[unat a..<unat b] = map (\<lambda>j. j + unat a) [0..<unat b - unat a]"
    using map_add_upt [of "unat a" "unat b - unat a"] assms by simp
  then show ?thesis unfolding u64_range_def by (simp add: comp_def add.commute)
qed

lemma unat_offset: "n < usize_range - unat a \<Longrightarrow> unat (a + of_nat n :: u64) = unat a + n"
  by (subst unat_add_u64) (simp_all add: unat_of_nat_u64)

lemma bmap_used_cong:
  assumes "\<And>j. j < m \<Longrightarrow> D' (start + of_nat j) = D (start + of_nat j)"
  shows "bmap_used D' start m = bmap_used D start m"
proof -
  have "n div BITMAP_PER_BLOCK < m" if "n < m * BITMAP_PER_BLOCK" for n
    using that by (simp add: less_mult_imp_div_less)
  with assms show ?thesis unfolding bmap_used_def by auto
qed

text \<open>What allocation does to the bitmap stays inside the bitmap region.\<close>

lemma bmap_step_frame:
  fixes start fin b :: u64
  assumes "bmap_step D start (unat fin - unat start) r D'" and "unat start \<le> unat fin"
    and "unat b < unat start \<or> unat fin \<le> unat b"
  shows "D' b = D b"
proof (cases r)
  case None
  with assms(1) show ?thesis by (simp add: bmap_step_def)
next
  case (Some n)
  let ?j = "n div BITMAP_PER_BLOCK"
  from Some assms(1) have n: "n < (unat fin - unat start) * BITMAP_PER_BLOCK"
    and D': "\<And>b. b \<noteq> start + of_nat ?j \<Longrightarrow> D' b = D b" by (simp_all add: bmap_step_def)
  have j: "?j < unat fin - unat start" using n by (simp add: less_mult_imp_div_less)
  then have "unat (start + of_nat ?j) = unat start + ?j"
    using unat_u64_less [of fin] by (intro unat_offset) linarith
  with j assms(3) have "b \<noteq> start + of_nat ?j" by auto
  then show ?thesis by (rule D')
qed

context block_store
begin

lemma allocate_bmap_gives:
  assumes "at C R {} (fs_store fs)" and "1 < C" and "unat start \<le> unat fin"
    and "\<forall>b. unat start \<le> unat b \<and> unat b < unat fin \<longrightarrow> R b"
  shows "\<exists>r s'. allocate_bmap ops start fin fs = Inr (map_option of_nat r, fs\<lparr>fs_store := s'\<rparr>) \<and>
    at C R {} s' \<and> bmap_step (view (fs_store fs)) start (unat fin - unat start) r (view s')"
proof -
  let ?m = "unat fin - unat start"
  have m: "?m < usize_range" using unat_u64_less [of fin] by linarith
  have "\<forall>j < ?m. R (start + of_nat j)"
  proof (intro allI impI)
    fix j assume "j < ?m"
    with unat_u64_less [of fin] have "unat (start + of_nat j) = unat start + j" by (intro unat_offset) linarith
    with \<open>j < ?m\<close> assms(4) show "R (start + of_nat j)" by simp
  qed
  from bmap_loop_gives [OF assms(1,2) this m, of 0] obtain r D' where
    g: "gives C R {} (bmap_loop ops start (u64_range start fin) (fs_store fs)) (map_option of_nat r) D'"
      "bmap_step (view (fs_store fs)) start ?m r D'"
    by (auto simp: u64_range_shift [OF assms(3)])
  from gives_Inr [OF g(1)] obtain s' where
    s': "bmap_loop ops start (u64_range start fin) (fs_store fs) = Inr (map_option of_nat r, s')"
      "at C R {} s'" "view s' = D'" by blast
  with g(2) show ?thesis by (auto simp: allocate_bmap_def on_store_def)
qed

lemma allocate_data_block_gives:
  assumes "at C R {} (fs_store fs)" and "1 < C" and sb: "sb_ok R (fs_sb fs)"
  shows "\<exists>r s'. allocate_data_block ops fs = Inr (r, fs\<lparr>fs_store := s'\<rparr>) \<and> at C R {} s' \<and>
    (case r of
       None \<Rightarrow> data_used (view (fs_store fs)) (fs_sb fs) = {..<unat (sb_data_blocks (fs_sb fs))} \<and>
         data_used (view s') (fs_sb fs) = data_used (view (fs_store fs)) (fs_sb fs)
     | Some b \<Rightarrow> \<exists>n < unat (sb_data_blocks (fs_sb fs)). b = sb_data_start (fs_sb fs) + of_nat n \<and>
         n \<notin> data_used (view (fs_store fs)) (fs_sb fs) \<and> {..<n} \<subseteq> data_used (view (fs_store fs)) (fs_sb fs) \<and>
         data_used (view s') (fs_sb fs) = insert n (data_used (view (fs_store fs)) (fs_sb fs))) \<and>
    (\<forall>b. unat b < unat (sb_data_bmap_start (fs_sb fs)) \<or> unat (sb_data_start (fs_sb fs)) \<le> unat b \<longrightarrow>
      view s' b = view (fs_store fs) b)"
proof -
  let ?sb = "fs_sb fs"
  define start fin db m where "start = sb_data_bmap_start ?sb" and "fin = sb_data_start ?sb"
    and "db = sb_data_blocks ?sb" and "m = unat fin - unat start"
  note defs = start_def fin_def db_def
  have le: "unat start \<le> unat fin" and cap: "unat db \<le> m * BITMAP_PER_BLOCK"
    using sb by (auto simp: sb_ok_def defs m_def)
  have "\<forall>b. unat start \<le> unat b \<and> unat b < unat fin \<longrightarrow> R b" using sb by (auto simp: sb_ok_def defs)
  from allocate_bmap_gives [OF assms(1,2) le this] obtain r s' where
    al: "allocate_bmap ops start fin fs = Inr (map_option of_nat r, fs\<lparr>fs_store := s'\<rparr>)" "at C R {} s'"
    and st: "bmap_step (view (fs_store fs)) start m r (view s')" by (auto simp: m_def)
  have fr: "\<forall>b. unat b < unat start \<or> unat fin \<le> unat b \<longrightarrow> view s' b = view (fs_store fs) b"
    using bmap_step_frame [OF st [unfolded m_def] le] by blast
  have du: "data_used D ?sb = {..<unat db} \<inter> bmap_used D start m" for D by (simp add: data_used_def defs m_def)
  show ?thesis
  proof (cases r)
    case None
    with st have v: "view s' = view (fs_store fs)" and u: "bmap_used (view (fs_store fs)) start m = {..<m * BITMAP_PER_BLOCK}"
      by (simp_all add: bmap_step_def)
    have "{..<unat db} \<inter> bmap_used (view (fs_store fs)) start m = {..<unat db}"
      unfolding u using cap by (intro Int_absorb2) simp
    with al v show ?thesis
      by (intro exI [of _ None] exI [of _ s']) (simp add: allocate_data_block_def du None flip: defs)
  next
    case (Some n)
    with st have n: "n < m * BITMAP_PER_BLOCK" "n \<notin> bmap_used (view (fs_store fs)) start m"
      "{..<n} \<subseteq> bmap_used (view (fs_store fs)) start m"
      "bmap_used (view s') start m = insert n (bmap_used (view (fs_store fs)) start m)" by (simp_all add: bmap_step_def)
    have small: "m * BITMAP_PER_BLOCK < usize_range" using sb by (simp add: sb_ok_def defs m_def)
    have cmp: "(db \<le> of_nat n) = (unat db \<le> n)"
      using n(1) small by (simp add: word_le_nat_alt unat_of_nat_u64)
    show ?thesis
    proof (cases "unat db \<le> n")
      case True
      have "{..<unat db} \<subseteq> bmap_used (view (fs_store fs)) start m"
        using True n(3) by (metis lessThan_subset_iff order_trans)
      then have "{..<unat db} \<inter> bmap_used (view (fs_store fs)) start m = {..<unat db}" by (rule Int_absorb2)
      moreover have "{..<unat db} \<inter> bmap_used (view s') start m = {..<unat db} \<inter> bmap_used (view (fs_store fs)) start m"
        unfolding n(4) using True by (intro Int_insert_right_if0) simp
      ultimately show ?thesis using al cmp True fr
        by (intro exI [of _ None] exI [of _ s']) (simp add: allocate_data_block_def du Some flip: defs)
    next
      case False
      then have lt: "n < unat db" by simp
      have "{..<n} \<subseteq> {..<unat db} \<inter> bmap_used (view (fs_store fs)) start m"
        using lt n(3) by (intro Int_greatest) simp_all
      moreover have "{..<unat db} \<inter> bmap_used (view s') start m =
          insert n ({..<unat db} \<inter> bmap_used (view (fs_store fs)) start m)"
        unfolding n(4) using lt by (intro Int_insert_right_if1) simp
      moreover have "n \<notin> {..<unat db} \<inter> bmap_used (view (fs_store fs)) start m" using n(2) by simp
      ultimately have fresh: "\<exists>k < unat db. fin + of_nat n = fin + of_nat k \<and>
          k \<notin> {..<unat db} \<inter> bmap_used (view (fs_store fs)) start m \<and>
          {..<k} \<subseteq> {..<unat db} \<inter> bmap_used (view (fs_store fs)) start m \<and>
          {..<unat db} \<inter> bmap_used (view s') start m = insert k ({..<unat db} \<inter> bmap_used (view (fs_store fs)) start m)"
        using lt by blast
      have call: "allocate_data_block ops fs = Inr (Some (fin + of_nat n), fs\<lparr>fs_store := s'\<rparr>)"
        using al(1) cmp False by (simp add: allocate_data_block_def Some flip: defs)
      show ?thesis
        unfolding du defs [symmetric] by (intro exI conjI, rule call, rule al(2)) (use fresh fr in simp_all)
    qed
  qed
qed

end

section \<open>Repeated allocation\<close>

primrec allocate_times ::
  "'d block_device \<Rightarrow> nat \<Rightarrow> 'd file_system \<Rightarrow> (u64 option list \<times> 'd file_system) result" where
  "allocate_times ops 0 fs = Inr ([], fs)"
| "allocate_times ops (Suc k) fs =
     bindr (allocate_data_block ops fs) (\<lambda>(r, fs).
     bindr (allocate_times ops k fs) (\<lambda>(rs, fs). Inr (r # rs, fs)))"

context block_store
begin

lemma allocate_next:
  assumes "at C R {} (fs_store fs)" and "1 < C" and "sb_ok R (fs_sb fs)"
    and "data_used (view (fs_store fs)) (fs_sb fs) = {..<n}" and "n < unat (sb_data_blocks (fs_sb fs))"
  shows "\<exists>s'. allocate_data_block ops fs = Inr (Some (sb_data_start (fs_sb fs) + of_nat n), fs\<lparr>fs_store := s'\<rparr>) \<and>
    at C R {} s' \<and> data_used (view s') (fs_sb fs) = {..<Suc n}"
proof -
  from allocate_data_block_gives [OF assms(1-3)] obtain r s' where
    al: "allocate_data_block ops fs = Inr (r, fs\<lparr>fs_store := s'\<rparr>)" "at C R {} s'"
    and c: "case r of None \<Rightarrow> data_used (view (fs_store fs)) (fs_sb fs) = {..<unat (sb_data_blocks (fs_sb fs))} \<and>
         data_used (view s') (fs_sb fs) = data_used (view (fs_store fs)) (fs_sb fs)
     | Some b \<Rightarrow> \<exists>n < unat (sb_data_blocks (fs_sb fs)). b = sb_data_start (fs_sb fs) + of_nat n \<and>
         n \<notin> data_used (view (fs_store fs)) (fs_sb fs) \<and> {..<n} \<subseteq> data_used (view (fs_store fs)) (fs_sb fs) \<and>
         data_used (view s') (fs_sb fs) = insert n (data_used (view (fs_store fs)) (fs_sb fs))" by blast
  show ?thesis
  proof (cases r)
    case None
    with c assms(4,5) show ?thesis by simp
  next
    case (Some b)
    with c assms(4) obtain k where k: "b = sb_data_start (fs_sb fs) + of_nat k" "k \<notin> {..<n}" "{..<k} \<subseteq> {..<n}"
      "data_used (view s') (fs_sb fs) = insert k {..<n}" by auto
    then have "k = n" by simp
    with k al Some show ?thesis by (auto simp: lessThan_Suc)
  qed
qed

lemma allocate_full:
  assumes "at C R {} (fs_store fs)" and "1 < C" and "sb_ok R (fs_sb fs)"
    and "data_used (view (fs_store fs)) (fs_sb fs) = {..<unat (sb_data_blocks (fs_sb fs))}"
  shows "\<exists>s'. allocate_data_block ops fs = Inr (None, fs\<lparr>fs_store := s'\<rparr>)"
proof -
  from allocate_data_block_gives [OF assms(1-3)] obtain r s' where
    al: "allocate_data_block ops fs = Inr (r, fs\<lparr>fs_store := s'\<rparr>)"
    and c: "case r of None \<Rightarrow> data_used (view (fs_store fs)) (fs_sb fs) = {..<unat (sb_data_blocks (fs_sb fs))} \<and>
         data_used (view s') (fs_sb fs) = data_used (view (fs_store fs)) (fs_sb fs)
     | Some b \<Rightarrow> \<exists>n < unat (sb_data_blocks (fs_sb fs)). b = sb_data_start (fs_sb fs) + of_nat n \<and>
         n \<notin> data_used (view (fs_store fs)) (fs_sb fs) \<and> {..<n} \<subseteq> data_used (view (fs_store fs)) (fs_sb fs) \<and>
         data_used (view s') (fs_sb fs) = insert n (data_used (view (fs_store fs)) (fs_sb fs))" by blast
  have "r = None"
  proof (cases r)
    case (Some b)
    with c assms(4) obtain k where "k < unat (sb_data_blocks (fs_sb fs))" "k \<notin> {..<unat (sb_data_blocks (fs_sb fs))}" by auto
    then show ?thesis by simp
  qed
  with al show ?thesis by blast
qed

lemma allocate_times_gives:
  assumes "at C R {} (fs_store fs)" and "1 < C" and "sb_ok R (fs_sb fs)"
    and "data_used (view (fs_store fs)) (fs_sb fs) = {..<n}" and "n + k \<le> unat (sb_data_blocks (fs_sb fs))"
  shows "\<exists>s'. allocate_times ops k fs =
      Inr (map (\<lambda>i. Some (sb_data_start (fs_sb fs) + of_nat i)) [n..<n + k], fs\<lparr>fs_store := s'\<rparr>) \<and>
    at C R {} s' \<and> data_used (view s') (fs_sb fs) = {..<n + k}"
  using assms
proof (induction k arbitrary: n fs)
  case 0
  then show ?case by (intro exI [of _ "fs_store fs"]) simp
next
  case (Suc k)
  have "n < unat (sb_data_blocks (fs_sb fs))" using Suc.prems(5) by simp
  from allocate_next [OF Suc.prems(1-4) this] obtain s1 where
    s1: "allocate_data_block ops fs = Inr (Some (sb_data_start (fs_sb fs) + of_nat n), fs\<lparr>fs_store := s1\<rparr>)"
      "at C R {} s1" "data_used (view s1) (fs_sb fs) = {..<Suc n}" by blast
  from Suc.IH [of "fs\<lparr>fs_store := s1\<rparr>" "Suc n"] s1(2,3) Suc.prems(2,3,5) obtain s2 where
    s2: "allocate_times ops k (fs\<lparr>fs_store := s1\<rparr>) =
        Inr (map (\<lambda>i. Some (sb_data_start (fs_sb fs) + of_nat i)) [Suc n..<Suc n + k], fs\<lparr>fs_store := s2\<rparr>)"
      "at C R {} s2" "data_used (view s2) (fs_sb fs) = {..<Suc n + k}" by auto
  have "[n..<n + Suc k] = n # [Suc n..<Suc n + k]" by (simp add: upt_conv_Cons)
  with s1(1) s2 show ?case by (intro exI [of _ s2]) simp
qed

end

section \<open>The layout\<close>

lemma create_layout_ok:
  assumes "create_layout total_blocks inode_blocks = Inr sb"
    and "2 \<le> unat total_blocks" and "unat total_blocks < 2 ^ 60" and "unat inode_blocks < 2 ^ 60"
  shows "sb_ok (\<lambda>b. unat b < unat total_blocks) sb \<and> data_in (\<lambda>b. unat b < unat total_blocks) sb \<and> super_block_is_valid sb \<and> sb_inode_bmap_start sb = 2 \<and>
    sb_inode_blocks sb = inode_blocks \<and> unat (sb_data_start sb) + unat (sb_data_blocks sb) = unat total_blocks \<and>
    unat (sb_inode_start sb) = unat inode_blocks div 4096 + 3 \<and>
    unat (sb_data_start sb) \<le> unat inode_blocks + unat inode_blocks div 4096 + unat total_blocks div 32768 + 4"
proof -
  define a where "a = inode_blocks div 4096 + 1"
  define r where "r = total_blocks - 2 - (a + inode_blocks)"
  define m where "m = r div 4096 div 8 + 1"
  have lt: "a + inode_blocks < total_blocks - 2"
    and sb: "sb = super_block_new total_blocks 2 (2 + a) inode_blocks (2 + a + inode_blocks)
      (2 + a + inode_blocks + m) (r - m)"
    using assms(1) by (auto simp: create_layout_def Let_def check_eq_Inr BLOCK_SIZE_def SUPER_BLOCK_LOC_def
        a_def r_def m_def algebra_simps)
  have im: "unat a = unat inode_blocks div 4096 + 1"
    using assms(4) by (simp add: a_def unat_add_u64 unat_div)
  have area: "unat (a + inode_blocks) = unat a + unat inode_blocks"
    using assms(4) im by (subst unat_add_u64) simp_all
  have two: "unat (total_blocks - 2) = unat total_blocks - 2"
    using assms(2) by (subst unat_sub_u64) (simp_all add: word_le_nat_alt)
  have le: "unat a + unat inode_blocks < unat total_blocks - 2"
    using lt by (simp add: word_less_nat_alt area two)
  have rb: "unat r = unat total_blocks - 2 - (unat a + unat inode_blocks)"
    unfolding r_def using lt by (subst unat_sub_u64) (simp_all add: area two)
  have dm: "unat m = unat r div 32768 + 1"
    using assms(3) rb by (simp add: m_def unat_add_u64 unat_div div_mult2_eq [symmetric])
  have dle: "unat m \<le> unat r" "unat r < unat m * 32768" using le rb dm by auto
  have starts: "unat (2 + a) = 2 + unat a" "unat (2 + a + inode_blocks) = 2 + unat a + unat inode_blocks"
      "unat (2 + a + inode_blocks + m) = 2 + unat a + unat inode_blocks + unat m"
    using assms(3) le dle rb by (simp_all add: unat_add_u64)
  have size: "unat (r - m) = unat r - unat m" using dle(1) by (subst unat_sub_u64) (simp_all add: word_le_nat_alt)
  have tot: "2 + unat a + unat inode_blocks + unat m + (unat r - unat m) = unat total_blocks"
    using le dle rb by linarith
  have caps: "unat a * 32768 < usize_range" "unat m * 32768 < usize_range" "unat inode_blocks * 16 < usize_range"
    using assms(3,4) im dm rb by simp_all
  have "unat m \<le> unat total_blocks div 32768 + 1" unfolding dm using rb by (simp add: div_le_mono)
  then show ?thesis
    using tot caps dle im
    by (simp add: sb super_block_new_def super_block_is_valid_def sb_ok_def data_in_def starts size BITMAP_PER_BLOCK_def
        BLOCK_SIZE_def INODES_PER_BLOCK_def DINODE_SIZE_def N_DIRECT_def)
qed

section \<open>Properties of layout and allocation\<close>

text \<open>
  C19: The layout of a new file system is sound. For a device of at least two
  and fewer than \<open>2 ^ 60\<close> blocks and an inode area below \<open>2 ^ 60\<close> blocks, a layout that passes the assertion puts inode
  bitmap, inode blocks, data bitmap and data blocks one after the other from block 2 to
  the last block, without a gap and without overlap, and the data bitmap has a bit for
  every data block.
\<close>

theorem create_layout_sound:
  assumes "create_layout total_blocks inode_blocks = Inr sb"
    and "2 \<le> unat total_blocks" and "unat total_blocks < 2 ^ 60" and "unat inode_blocks < 2 ^ 60"
  shows "sb_ok (\<lambda>b. unat b < unat total_blocks) sb \<and> data_in (\<lambda>b. unat b < unat total_blocks) sb \<and> super_block_is_valid sb \<and> sb_inode_bmap_start sb = 2 \<and>
    sb_inode_blocks sb = inode_blocks \<and> unat (sb_data_start sb) + unat (sb_data_blocks sb) = unat total_blocks"
  using create_layout_ok [OF assms] by simp

theorem create_layout_sound_witness:
  "\<exists>sb. create_layout 4096 1 = Inr sb \<and> sb_ok (\<lambda>b. unat b < 4096) sb \<and>
    unat (sb_data_start sb) + unat (sb_data_blocks sb) = 4096"
proof -
  obtain sb where sb: "create_layout 4096 1 = Inr sb"
    by (simp add: create_layout_def Let_def BLOCK_SIZE_def INODES_PER_BLOCK_def DINODE_SIZE_def N_DIRECT_def
        SUPER_BLOCK_LOC_def word_less_nat_alt)
  from create_layout_sound [OF sb] sb show ?thesis by simp
qed

text \<open>
  C16: Data blocks are handed out in order and never twice. On a file system whose first
  \<open>n\<close> data blocks are in use, the next \<open>k\<close> allocations succeed and return the blocks
  \<open>data_start + n\<close>, \<open>data_start + n + 1\<close> and so on, and when the last data block is gone
  the next allocation answers \<open>None\<close>.
\<close>

theorem data_blocks_allocated_in_order:
  assumes "store_at (\<lambda>_. True) bf_block bf_in_range C R {} (fs_store fs)" and "1 < C" and "sb_ok R (fs_sb fs)"
    and "data_used (st_view bf_block (fs_store fs)) (fs_sb fs) = {..<n}"
    and "n + k \<le> unat (sb_data_blocks (fs_sb fs))"
  shows "\<exists>fs'. allocate_times block_file_ops k fs =
      Inr (map (\<lambda>i. Some (sb_data_start (fs_sb fs) + of_nat i)) [n..<n + k], fs') \<and>
    data_used (st_view bf_block (fs_store fs')) (fs_sb fs) = {..<n + k} \<and>
    (n + k = unat (sb_data_blocks (fs_sb fs)) \<longrightarrow> (\<exists>fs''. allocate_data_block block_file_ops fs' = Inr (None, fs'')))"
proof -
  from bfs.allocate_times_gives [OF assms] obtain s' where
    s': "allocate_times block_file_ops k fs =
      Inr (map (\<lambda>i. Some (sb_data_start (fs_sb fs) + of_nat i)) [n..<n + k], fs\<lparr>fs_store := s'\<rparr>)"
      "bfs.at C R {} s'" "data_used (bfs.view s') (fs_sb fs) = {..<n + k}" by blast
  have "\<exists>fs''. allocate_data_block block_file_ops (fs\<lparr>fs_store := s'\<rparr>) = Inr (None, fs'')"
    if full: "n + k = unat (sb_data_blocks (fs_sb fs))"
    using bfs.allocate_full [of C R "fs\<lparr>fs_store := s'\<rparr>"] s'(2,3) assms(2,3) full by auto
  with s'(1,3) show ?thesis by (intro exI [of _ "fs\<lparr>fs_store := s'\<rparr>"]) simp
qed

theorem data_blocks_allocated_in_order_witness:
  "let f = \<lparr>bf_data = replicate (8 * BLOCK_SIZE) 0, bf_pos = 0\<rparr>;
       fs = \<lparr>fs_sb = super_block_new 8 2 3 1 4 5 3, fs_store = block_cache_buffer_new 2 f, fs_icache = [],
             fs_icapacity = 64, fs_ilocked = False, fs_cells = []\<rparr>
   in \<exists>fs'. allocate_times block_file_ops 3 fs = Inr ([Some 5, Some 6, Some 7], fs') \<and>
        (\<exists>fs''. allocate_data_block block_file_ops fs' = Inr (None, fs''))"
proof -
  let ?f = "\<lparr>bf_data = replicate (8 * BLOCK_SIZE) 0, bf_pos = 0\<rparr>"
  let ?fs = "\<lparr>fs_sb = super_block_new 8 2 3 1 4 5 3, fs_store = block_cache_buffer_new 2 ?f, fs_icache = [],
    fs_icapacity = 64, fs_ilocked = False, fs_cells = []\<rparr>"
  have at: "store_at (\<lambda>_. True) bf_block bf_in_range 2 (bf_in_range ?f) {} (fs_store ?fs)"
    and v: "st_view bf_block (fs_store ?fs) = bf_block ?f"
    using bfs.new_at [of 2 ?f] by simp_all
  have "bf_in_range ?f b" if "unat b < 8" for b using that by (simp add: bf_in_range_def BLOCK_SIZE_def)
  then have sb: "sb_ok (bf_in_range ?f) (fs_sb ?fs)"
    by (simp add: sb_ok_def super_block_new_def BITMAP_PER_BLOCK_def BLOCK_SIZE_def INODES_PER_BLOCK_def
        DINODE_SIZE_def N_DIRECT_def)
  have "bf_block ?f 4 = replicate BLOCK_SIZE 0"
    by (simp add: bf_block_def bf_in_range_def BLOCK_SIZE_def get_slice_def)
  then have "data_used (st_view bf_block (fs_store ?fs)) (fs_sb ?fs) = {..<0}"
    unfolding v by (auto simp: data_used_def bmap_used_def super_block_new_def bitmap_used_zero)
  from data_blocks_allocated_in_order [OF at _ sb this, of 3] show ?thesis
    by (auto simp: Let_def super_block_new_def upt_rec)
qed

text \<open>
  C37: The inode bitmap is too small for a large inode area: it is sized by the number of
  inode blocks where the number of inodes is meant, so with more than 2048 inode blocks
  (4096 apart, where it fits exactly) some inodes have no bit and can never be allocated.
\<close>

theorem inode_bitmap_too_small:
  assumes "create_layout total_blocks inode_blocks = Inr sb"
    and "2048 < unat inode_blocks" and "unat inode_blocks \<noteq> 4096" and "unat inode_blocks < 2 ^ 60"
  shows "unat (sb_inode_start sb - sb_inode_bmap_start sb) * BITMAP_PER_BLOCK < unat (sb_inode_blocks sb) * INODES_PER_BLOCK"
proof -
  have "sb_inode_start sb - sb_inode_bmap_start sb = inode_blocks div 4096 + 1" and ib: "sb_inode_blocks sb = inode_blocks"
    using assms(1) by (auto simp: create_layout_def Let_def check_eq_Inr BLOCK_SIZE_def super_block_new_def)
  then have "unat (sb_inode_start sb - sb_inode_bmap_start sb) = unat inode_blocks div 4096 + 1"
    using assms(4) by (simp add: unat_add_u64 unat_div)
  moreover have "(unat inode_blocks div 4096 + 1) * 32768 < unat inode_blocks * 16"
  proof -
    define q where "q = unat inode_blocks div 4096"
    have le: "q * 4096 \<le> unat inode_blocks" by (simp add: q_def)
    consider "q = 0" | "q = 1" | "2 \<le> q" by linarith
    then show ?thesis unfolding q_def [symmetric] by cases (use assms(2,3) le in simp_all)
  qed
  ultimately show ?thesis
    by (simp add: ib BITMAP_PER_BLOCK_def BLOCK_SIZE_def INODES_PER_BLOCK_def DINODE_SIZE_def N_DIRECT_def)
qed

theorem inode_bitmap_too_small_witness:
  "\<exists>sb. create_layout 100000 3000 = Inr sb \<and>
    unat (sb_inode_start sb - sb_inode_bmap_start sb) * BITMAP_PER_BLOCK < unat (sb_inode_blocks sb) * INODES_PER_BLOCK"
proof -
  obtain sb where sb: "create_layout 100000 3000 = Inr sb"
    by (simp add: create_layout_def Let_def BLOCK_SIZE_def INODES_PER_BLOCK_def DINODE_SIZE_def N_DIRECT_def
        SUPER_BLOCK_LOC_def word_less_nat_alt)
  from inode_bitmap_too_small [OF sb] sb show ?thesis by simp
qed

end
