(* ===== verification/Fs_File.thy ===== *)
theory Fs_File
  imports Fs_Alloc
begin

text \<open>
  Growing files: \<open>update_dinode\<close>, \<open>clear_block\<close> and \<open>resize_inode\<close> on the disk the cache
  presents. A grown file keeps its bytes, the new ones are zero, the new blocks were free
  before, and no other file changes.
\<close>

section \<open>An inode and its slot on disk\<close>

text \<open>The copy \<open>i\<close> in memory and the slot on the disk hold the same disk inode \<open>d\<close>.\<close>

definition inode_at :: "super_block \<Rightarrow> (u64 \<Rightarrow> bytes) \<Rightarrow> inode \<Rightarrow> dinode \<Rightarrow> bool" where
  "inode_at sb D i d \<longleftrightarrow>
     unat (sb_inode_start sb) \<le> unat (in_block_id i) \<and> unat (in_block_id i) < unat (sb_data_bmap_start sb) \<and>
     unat (in_block_offset i) + DINODE_SIZE \<le> BLOCK_SIZE \<and>
     decode_dinode (get_slice (unat (in_block_offset i)) DINODE_SIZE (D (in_block_id i))) = Inr d \<and>
     inode_dinode i = d"

text \<open>The disk after an operation on one inode, as far as anybody else can tell.\<close>

definition fs_frame :: "super_block \<Rightarrow> u64 \<Rightarrow> nat \<Rightarrow> (u64 \<Rightarrow> bytes) \<Rightarrow> (u64 \<Rightarrow> bytes) \<Rightarrow> bool" where
  "fs_frame sb iblk off D D' \<longleftrightarrow>
     (\<forall>b. unat b < unat (sb_data_bmap_start sb) \<and> b \<noteq> iblk \<longrightarrow> D' b = D b) \<and>
     take off (D' iblk) = take off (D iblk) \<and> drop (off + DINODE_SIZE) (D' iblk) = drop (off + DINODE_SIZE) (D iblk) \<and>
     length (D' iblk) = length (D iblk) \<and> data_used D sb \<subseteq> data_used D' sb \<and>
     (\<forall>n \<in> data_used D sb. D' (sb_data_start sb + of_nat n) = D (sb_data_start sb + of_nat n))"

lemma fs_frame_refl: "fs_frame sb iblk off D D"
  by (simp add: fs_frame_def)

lemma fs_frame_trans: "fs_frame sb iblk off D D1 \<Longrightarrow> fs_frame sb iblk off D1 D2 \<Longrightarrow> fs_frame sb iblk off D D2"
  unfolding fs_frame_def by (auto simp: subset_iff)

lemma inode_dinode_update [simp]: "inode_dinode (inode_update d i) = d"
  by (simp add: inode_dinode_def inode_update_def dinode_new_def)

lemma inode_update_loc [simp]:
  "in_block_id (inode_update d i) = in_block_id i" "in_block_offset (inode_update d i) = in_block_offset i"
  "in_inode_num (inode_update d i) = in_inode_num i" "in_size (inode_update d i) = di_size d"
  "in_type (inode_update d i) = di_type d"
  by (simp_all add: inode_update_def)

definition set_cell :: "nat \<Rightarrow> inode \<Rightarrow> 'd file_system \<Rightarrow> 'd file_system" where
  "set_cell a i fs = fs\<lparr>fs_cells := (fs_cells fs)[a := (fs_cells fs ! a)\<lparr>ic_inode := i\<rparr>]\<rparr>"

lemma set_cell_simps [simp]:
  "fs_sb (set_cell a i fs) = fs_sb fs" "fs_store (set_cell a i fs) = fs_store fs"
  "a < length (fs_cells fs) \<Longrightarrow> cell_inode (set_cell a i fs) a = i"
  "length (fs_cells (set_cell a i fs)) = length (fs_cells fs)"
  by (simp_all add: set_cell_def)

lemma set_cell_twice [simp]:
  "set_cell a i (set_cell a j fs) = set_cell a i fs"
  "set_cell a i (fs\<lparr>fs_store := s\<rparr>) = (set_cell a i fs)\<lparr>fs_store := s\<rparr>"
  by (cases "a < length (fs_cells fs)") (simp_all add: set_cell_def list_update_beyond)

lemma data_used_cong:
  assumes "\<And>b. unat (sb_data_bmap_start sb) \<le> unat b \<Longrightarrow> unat b < unat (sb_data_start sb) \<Longrightarrow> D' b = D b"
  shows "data_used D' sb = data_used D sb"
proof -
  have "D' (sb_data_bmap_start sb + of_nat j) = D (sb_data_bmap_start sb + of_nat j)"
    if "j < unat (sb_data_start sb) - unat (sb_data_bmap_start sb)" for j
  proof -
    have "unat (sb_data_bmap_start sb + of_nat j) = unat (sb_data_bmap_start sb) + j"
      using that unat_u64_less [of "sb_data_start sb"] by (intro unat_offset) linarith
    with that show ?thesis by (intro assms) simp_all
  qed
  from bmap_used_cong [of _ D' _ D, OF this] show ?thesis by (simp add: data_used_def)
qed

lemma sb_okD:
  assumes "sb_ok R sb"
  shows "unat (sb_data_start sb) + unat (sb_data_blocks sb) < usize_range"
    and "unat (sb_data_bmap_start sb) < unat (sb_data_start sb)"
    and "\<And>b. unat b < unat (sb_data_start sb) \<Longrightarrow> R b"
    and "unat (sb_inode_start sb) + unat (sb_inode_blocks sb) = unat (sb_data_bmap_start sb)"
    and "unat (sb_inode_bmap_start sb) < unat (sb_inode_start sb)" and "2 \<le> unat (sb_inode_bmap_start sb)"
    and "unat (sb_inode_blocks sb) * INODES_PER_BLOCK < usize_range"
  using assms by (simp_all add: sb_ok_def)

lemma data_block_addr:
  assumes "sb_ok R sb" and "n < unat (sb_data_blocks sb)"
  shows "unat (sb_data_start sb + of_nat n) = unat (sb_data_start sb) + n" and "data_in R sb \<Longrightarrow> R (sb_data_start sb + of_nat n)"
proof -
  show 1: "unat (sb_data_start sb + of_nat n) = unat (sb_data_start sb) + n"
    using sb_okD(1) [OF assms(1)] assms(2) by (intro unat_offset) linarith
  show "R (sb_data_start sb + of_nat n)" if "data_in R sb" using that assms(2) 1 by (simp add: data_in_def)
qed

lemma data_used_bound: "n \<in> data_used D sb \<Longrightarrow> n < unat (sb_data_blocks sb)"
  by (simp add: data_used_def)

context block_store
begin

lemma clear_block_gives:
  assumes "at C R {} s" and "1 < C" and "R b"
  shows "gives C R {} (clear_block ops b s) () ((view s)(b := replicate BLOCK_SIZE 0))"
proof -
  from acquire [OF assms(1) _ assms(3)] assms(2) obtain s1 s2 block where
    g: "lock_cache s = Inr (s\<lparr>st_locked := True\<rparr>)" "block_cache_buffer_get ops b (s\<lparr>st_locked := True\<rparr>) = Inr s1"
      "lock_block b (unlock_cache s1) = Inr (block, unlock_cache s2)"
    and h: "at C R {b} (unlock_cache s2)" "view s2 = view s" "block_for blk (st_dev s2) b block"
    by auto
  have len: "length (bc_cache block) = BLOCK_SIZE" and id: "bc_block_id block = b" using h(3) by (simp_all add: block_for_def)
  have dev: "dinv (st_dev s2)" "inr (st_dev s2) b"
    using h(1) assms(3) by (auto simp: store_at_def store_ok_def)
  from write_ok [OF dev, of "replicate BLOCK_SIZE 0"] obtain d' where
    d': "bd_write ops (st_dev s2) b (replicate BLOCK_SIZE 0) = Inr (Inr (), d')" "dinv d'"
      "blk d' = (blk (st_dev s2))(b := replicate BLOCK_SIZE 0)" "inr d' = inr (st_dev s2)" by auto
  define block' where "block' = (block_cache_clear block)\<lparr>bc_modified := False\<rparr>"
  have sync: "block_cache_sync ops (block_cache_clear block) (st_dev s2) = Inr (block', d')"
    using d'(1) len id by (simp add: block_cache_sync_def block_cache_clear_def block'_def)
  have bf: "block_for blk d' b block'"
    by (simp add: block_for_def block'_def block_cache_clear_def len id d'(3))
  have cache: "bc_cache block' = replicate BLOCK_SIZE 0" by (simp add: block'_def block_cache_clear_def len)
  have other: "\<And>c. c \<noteq> b \<Longrightarrow> blk d' c = blk (st_dev (unlock_cache s2)) c" by (simp add: d'(3))
  have "inr d' = inr (st_dev (unlock_cache s2))" by (simp add: d'(4))
  from release_dev [OF h(1) _ d'(2) this other bf] h(2) cache show ?thesis
    by (simp add: store_gives_def clear_block_def g sync)
qed

lemma update_dinode_gives:
  assumes "at C R {} (fs_store fs)" and "1 < C" and sb: "sb_ok R (fs_sb fs)" and "a < length (fs_cells fs)"
    and i: "inode_at (fs_sb fs) (view (fs_store fs)) (cell_inode fs a) d"
    and f: "\<And>s. f d s = Inr (v, d', s)" and wf: "dinode_wf d'"
  shows "\<exists>s'. update_dinode ops a f fs = Inr (v, (set_cell a (inode_update d' (cell_inode fs a)) fs)\<lparr>fs_store := s'\<rparr>) \<and>
    at C R {} s' \<and> inode_at (fs_sb fs) (view s') (inode_update d' (cell_inode fs a)) d' \<and>
    fs_frame (fs_sb fs) (in_block_id (cell_inode fs a)) (unat (in_block_offset (cell_inode fs a))) (view (fs_store fs)) (view s') \<and>
    (\<forall>b. b \<noteq> in_block_id (cell_inode fs a) \<longrightarrow> view s' b = view (fs_store fs) b)"
proof -
  let ?i = "cell_inode fs a" let ?s = "fs_store fs"
  let ?b = "in_block_id ?i" let ?off = "unat (in_block_offset ?i)"
  let ?old = "get_slice ?off DINODE_SIZE (view ?s ?b)"
  let ?new = "put_slice ?off (encode_dinode d' ?old) (view ?s ?b)"
  have loc: "unat ?b < unat (sb_data_bmap_start (fs_sb fs))" "?off + DINODE_SIZE \<le> BLOCK_SIZE"
    and dec: "decode_dinode ?old = Inr d" using i by (simp_all add: inode_at_def)
  have lt: "?off < BLOCK_SIZE" using loc(2) by (simp add: DINODE_SIZE_def)
  have R: "R ?b" using loc(1) sb_okD(2,3) [OF sb] by simp
  have len: "length (view ?s ?b) = BLOCK_SIZE" by (rule view_length [OF assms(1) R])
  have enc: "length (encode_dinode d' ?old) = DINODE_SIZE" using wf len loc(2) by simp
  have "gives C R {} (cache_update ops dinode_layout ?b (in_block_offset ?i)
      (\<lambda>d s. bindr (f d s) (\<lambda>(v, d', s). Inr ((v, d'), d', s))) ?s) (v, d') ((view ?s)(?b := ?new))"
    using cache_update_gives [OF assms(1), of ?b "in_block_offset ?i" dinode_layout d
        "\<lambda>d s. bindr (f d s) (\<lambda>(v, d', s). Inr ((v, d'), d', s))" "(v, d')" d' "view ?s"]
      assms(2) R loc(2) lt dec f enc by (simp add: dinode_layout_def)
  from gives_Inr [OF this] obtain s' where
    s': "cache_update ops dinode_layout ?b (in_block_offset ?i)
        (\<lambda>d s. bindr (f d s) (\<lambda>(v, d', s). Inr ((v, d'), d', s))) ?s = Inr ((v, d'), s')"
      "at C R {} s'" "view s' = (view ?s)(?b := ?new)" by blast
  have upd: "update_dinode ops a f fs = Inr (v, (set_cell a (inode_update d' ?i) fs)\<lparr>fs_store := s'\<rparr>)"
    by (simp add: update_dinode_def on_store_def s'(1) set_cell_def)
  have "get_slice ?off DINODE_SIZE ?new = encode_dinode d' ?old" using len loc(2) enc by simp
  then have at: "inode_at (fs_sb fs) (view s') (inode_update d' ?i) d'"
    using i wf len loc(2) by (simp add: inode_at_def s'(3))
  have "data_used (view s') (fs_sb fs) = data_used (view ?s) (fs_sb fs)"
    by (rule data_used_cong) (use loc(1) in \<open>auto simp: s'(3)\<close>)
  moreover have "view s' (sb_data_start (fs_sb fs) + of_nat n) = view ?s (sb_data_start (fs_sb fs) + of_nat n)"
    if "n \<in> data_used (view ?s) (fs_sb fs)" for n
  proof -
    have "sb_data_start (fs_sb fs) + of_nat n \<noteq> ?b"
      using data_block_addr(1) [OF sb data_used_bound [OF that]] loc(1) sb_okD(2) [OF sb] by auto
    then show ?thesis by (simp add: s'(3))
  qed
  ultimately have "fs_frame (fs_sb fs) ?b ?off (view ?s) (view s')"
    using len loc(2) enc by (simp add: fs_frame_def s'(3) put_slice_def)
  with upd s' at show ?thesis by (intro exI [of _ s']) simp
qed

end

section \<open>Growing a file\<close>

text \<open>
  A file with \<open>m\<close> blocks, all of them direct: they are different data blocks in use, and
  what lies behind the size of the file is zero.
\<close>

definition file_ok :: "super_block \<Rightarrow> (u64 \<Rightarrow> bytes) \<Rightarrow> dinode \<Rightarrow> nat \<Rightarrow> bool" where
  "file_ok sb D d m \<longleftrightarrow>
     dinode_wf d \<and> m \<le> N_DIRECT \<and>
     (\<forall>idx < m. \<exists>n \<in> data_used D sb. di_addresses d ! idx = sb_data_start sb + of_nat n) \<and>
     inj_on (\<lambda>idx. di_addresses d ! idx) {..<m} \<and>
     (\<forall>p. unat (di_size d) \<le> p \<and> p < m * BLOCK_SIZE \<longrightarrow> dinode_byte D d p = 0)"

text \<open>
  The blocks of a file and the addresses of the data blocks in use. A file \<open>grown\<close> from \<open>m\<close>
  to \<open>m'\<close> blocks keeps those it had; the others were free and are all that was allocated.
  Blocks are taken first fit, so that those in use are the first ones of the disk.
\<close>

definition file_blocks :: "dinode \<Rightarrow> nat \<Rightarrow> u64 set" where
  "file_blocks d m = (\<lambda>idx. di_addresses d ! idx) ` {..<m}"

definition data_addrs :: "(u64 \<Rightarrow> bytes) \<Rightarrow> super_block \<Rightarrow> u64 set" where
  "data_addrs D sb = (\<lambda>n. sb_data_start sb + of_nat n) ` data_used D sb"

definition first_used :: "(u64 \<Rightarrow> bytes) \<Rightarrow> super_block \<Rightarrow> bool" where
  "first_used D sb \<longleftrightarrow> (\<exists>k. data_used D sb = {..<k})"

definition file_grown :: "super_block \<Rightarrow> (u64 \<Rightarrow> bytes) \<Rightarrow> dinode \<Rightarrow> nat \<Rightarrow> (u64 \<Rightarrow> bytes) \<Rightarrow> dinode \<Rightarrow> nat \<Rightarrow> bool" where
  "file_grown sb D d m D' d' m' \<longleftrightarrow>
     file_blocks d m \<subseteq> file_blocks d' m' \<and> data_addrs D' sb = data_addrs D sb \<union> file_blocks d' m' \<and>
     file_blocks d' m' \<inter> data_addrs D sb \<subseteq> file_blocks d m \<and> (first_used D sb \<longrightarrow> first_used D' sb)"

lemma file_ok_blocks_used: "file_ok sb D d m \<Longrightarrow> file_blocks d m \<subseteq> data_addrs D sb"
  by (auto simp: file_ok_def file_blocks_def data_addrs_def)

lemma file_grown_refl: "file_ok sb D d m \<Longrightarrow> file_grown sb D d m D d m"
  using file_ok_blocks_used [of sb D d m] by (auto simp: file_grown_def)

lemma file_grown_trans: "file_grown sb D d m D1 d1 m1 \<Longrightarrow> file_grown sb D1 d1 m1 D2 d2 m2 \<Longrightarrow> file_grown sb D d m D2 d2 m2"
  unfolding file_grown_def by blast

lemma data_addrs_notin:
  assumes "sb_ok R sb" and "n < unat (sb_data_blocks sb)" and "n \<notin> data_used D sb"
  shows "sb_data_start sb + of_nat n \<notin> data_addrs D sb"
proof
  assume "sb_data_start sb + of_nat n \<in> data_addrs D sb"
  then obtain k where k: "k \<in> data_used D sb" "sb_data_start sb + of_nat n = sb_data_start sb + of_nat k"
    by (auto simp: data_addrs_def)
  then have "unat (sb_data_start sb) + n = unat (sb_data_start sb) + k"
    using data_block_addr(1) [OF assms(1) data_used_bound [OF k(1)]] data_block_addr(1) [OF assms(1,2)] by simp
  with k(1) assms(3) show False by simp
qed

lemma file_grown_step:
  assumes "sb_ok R sb" and "n < unat (sb_data_blocks sb)" and "n \<notin> data_used D sb" and "{..<n} \<subseteq> data_used D sb"
    and "data_used D' sb = insert n (data_used D sb)" and "file_ok sb D d m" and "m < N_DIRECT"
    and "d' = d\<lparr>di_addresses := (di_addresses d)[m := sb_data_start sb + of_nat n]\<rparr>"
  shows "file_grown sb D d m D' d' (Suc m)"
proof -
  have "length (di_addresses d) = N_DIRECT" using assms(6) by (simp add: file_ok_def dinode_wf_def)
  then have "file_blocks d' (Suc m) = insert (sb_data_start sb + of_nat n) (file_blocks d m)"
    using assms(7,8) by (auto simp: file_blocks_def lessThan_Suc)
  moreover have "data_addrs D' sb = insert (sb_data_start sb + of_nat n) (data_addrs D sb)" by (simp add: data_addrs_def assms(5))
  moreover have "first_used D' sb" if "first_used D sb"
  proof -
    from that obtain k where k: "data_used D sb = {..<k}" by (auto simp: first_used_def)
    with assms(3,4) have "n = k" by (simp add: order_antisym)
    then show ?thesis using k assms(5) by (auto simp: first_used_def lessThan_Suc)
  qed
  ultimately show ?thesis using file_ok_blocks_used [OF assms(6)] data_addrs_notin [OF assms(1-3)] by (auto simp: file_grown_def)
qed

lemma dinode_byte_direct:
  assumes "p < m * BLOCK_SIZE" and "m \<le> N_DIRECT"
  shows "p div BLOCK_SIZE < m" and "dinode_byte D d p = D (di_addresses d ! (p div BLOCK_SIZE)) ! (p mod BLOCK_SIZE)"
proof -
  show 1: "p div BLOCK_SIZE < m" using assms(1) by (simp add: less_mult_imp_div_less)
  then show "dinode_byte D d p = D (di_addresses d ! (p div BLOCK_SIZE)) ! (p mod BLOCK_SIZE)"
    using assms(2) by (simp add: dinode_byte_def dinode_bid_def)
qed

lemma file_ok_grow:
  assumes ok: "file_ok sb D d m" and m: "m < N_DIRECT" and sb: "sb_ok R sb"
    and n: "n \<notin> data_used D sb" "n < unat (sb_data_blocks sb)"
    and used: "data_used D' sb = insert n (data_used D sb)"
    and new: "D' (sb_data_start sb + of_nat n) = replicate BLOCK_SIZE 0"
    and old: "\<And>x. x \<in> data_used D sb \<Longrightarrow> D' (sb_data_start sb + of_nat x) = D (sb_data_start sb + of_nat x)"
  defines "d' \<equiv> d\<lparr>di_addresses := (di_addresses d)[m := sb_data_start sb + of_nat n]\<rparr>"
  shows "file_ok sb D' d' (Suc m)" and "\<And>p. p < m * BLOCK_SIZE \<Longrightarrow> dinode_byte D' d' p = dinode_byte D d p"
proof -
  let ?b = "sb_data_start sb + of_nat n :: u64"
  have wf: "length (di_addresses d) = N_DIRECT" using ok by (simp add: file_ok_def dinode_wf_def)
  have addr: "di_addresses d' ! idx = (if idx = m then ?b else di_addresses d ! idx)" for idx
    using wf m by (simp add: d'_def)
  have blk: "\<exists>x \<in> data_used D sb. di_addresses d ! idx = sb_data_start sb + of_nat x" if "idx < m" for idx
    using ok that by (simp add: file_ok_def)
  have ne: "di_addresses d ! idx \<noteq> ?b" if idx: "idx < m" for idx
  proof
    assume eq: "di_addresses d ! idx = ?b"
    from blk [OF idx] obtain x where x: "x \<in> data_used D sb" "di_addresses d ! idx = sb_data_start sb + of_nat x" by blast
    then have "unat (sb_data_start sb) + x = unat (sb_data_start sb) + n"
      using data_block_addr(1) [OF sb data_used_bound [OF x(1)]] data_block_addr(1) [OF sb n(2)] eq by metis
    with x(1) n(1) show False by simp
  qed
  have same: "D' (di_addresses d ! idx) = D (di_addresses d ! idx)" if "idx < m" for idx
    using blk [OF that] old by auto
  show bytes: "dinode_byte D' d' p = dinode_byte D d p" if p: "p < m * BLOCK_SIZE" for p
  proof -
    have q: "p div BLOCK_SIZE < m" and "m \<le> N_DIRECT" using dinode_byte_direct(1) [OF p] m by simp_all
    then show ?thesis
      using dinode_byte_direct(2) [OF p] by (simp add: addr same)
  qed
  have "dinode_byte D' d' p = 0" if p: "unat (di_size d) \<le> p" "p < Suc m * BLOCK_SIZE" for p
  proof (cases "p < m * BLOCK_SIZE")
    case True
    with bytes ok p(1) show ?thesis by (simp add: file_ok_def)
  next
    case False
    have "p div BLOCK_SIZE = m"
      using False dinode_byte_direct(1) [OF p(2)] m by (metis Suc_leI less_Suc_eq not_less div_le_mono nonzero_mult_div_cancel_right
          BLOCK_SIZE_def zero_neq_numeral not_less_eq_eq le_antisym)
    moreover have "p mod BLOCK_SIZE < BLOCK_SIZE" by (simp add: BLOCK_SIZE_def)
    ultimately show ?thesis
      using dinode_byte_direct(2) [OF p(2), of D' d'] m new by (simp add: addr)
  qed
  moreover have "\<forall>idx < Suc m. \<exists>x \<in> data_used D' sb. di_addresses d' ! idx = sb_data_start sb + of_nat x"
    using blk used by (auto simp: addr less_Suc_eq)
  moreover have "inj_on (\<lambda>idx. di_addresses d' ! idx) {..<Suc m}"
  proof (rule inj_onI)
    fix x y assume xy: "x \<in> {..<Suc m}" "y \<in> {..<Suc m}" "di_addresses d' ! x = di_addresses d' ! y"
    have inj: "inj_on (\<lambda>idx. di_addresses d ! idx) {..<m}" using ok by (simp add: file_ok_def)
    show "x = y"
    proof (cases "x = m \<or> y = m")
      case True
      with xy ne [of x] ne [of y] show ?thesis by (auto simp: addr less_Suc_eq split: if_splits)
    next
      case False
      with xy have "x < m" "y < m" "di_addresses d ! x = di_addresses d ! y" by (auto simp: addr less_Suc_eq)
      with inj_onD [OF inj] show ?thesis by simp
    qed
  qed
  ultimately show "file_ok sb D' d' (Suc m)"
    using ok m by (simp add: file_ok_def d'_def dinode_wf_def)
qed

lemma inode_update_same: "inode_dinode i = d \<Longrightarrow> inode_update d i = i"
  by (auto simp: inode_update_def inode_dinode_def dinode_new_def)

lemma inode_update_twice [simp]: "inode_update d' (inode_update d i) = inode_update d' i"
  by (simp add: inode_update_def)

lemma set_cell_same: "a < length (fs_cells fs) \<Longrightarrow> (set_cell a (cell_inode fs a) fs)\<lparr>fs_store := fs_store fs\<rparr> = fs"
  by (simp add: set_cell_def list_update_id)

context block_store
begin

text \<open>One pass of the loop: a fresh block is taken, cleared and entered into the inode.\<close>

lemma grow_step_gives:
  assumes at: "at C R {} (fs_store fs)" and C: "1 < C" and sb: "sb_ok R (fs_sb fs)" and full: "data_in R (fs_sb fs)" and a: "a < length (fs_cells fs)"
    and i: "inode_at (fs_sb fs) (view (fs_store fs)) (cell_inode fs a) d"
    and ok: "file_ok (fs_sb fs) (view (fs_store fs)) d m" and m: "m < N_DIRECT"
    and free: "card (data_used (view (fs_store fs)) (fs_sb fs)) < unat (sb_data_blocks (fs_sb fs))"
    and idx: "add_usize base_idx k = m"
  shows "\<exists>d' s'. grow_loop ops a new_size base_idx (k # is) fs =
      grow_loop ops a new_size base_idx is ((set_cell a (inode_update d' (cell_inode fs a)) fs)\<lparr>fs_store := s'\<rparr>) \<and>
    at C R {} s' \<and> inode_at (fs_sb fs) (view s') (inode_update d' (cell_inode fs a)) d' \<and>
    file_ok (fs_sb fs) (view s') d' (Suc m) \<and> file_grown (fs_sb fs) (view (fs_store fs)) d m (view s') d' (Suc m) \<and>
    d' = d\<lparr>di_addresses := di_addresses d'\<rparr> \<and>
    card (data_used (view s') (fs_sb fs)) = Suc (card (data_used (view (fs_store fs)) (fs_sb fs))) \<and>
    (\<forall>p < m * BLOCK_SIZE. dinode_byte (view s') d' p = dinode_byte (view (fs_store fs)) d p) \<and>
    fs_frame (fs_sb fs) (in_block_id (cell_inode fs a)) (unat (in_block_offset (cell_inode fs a)))
      (view (fs_store fs)) (view s')"
proof -
  let ?sb = "fs_sb fs" let ?i = "cell_inode fs a" let ?D = "view (fs_store fs)"
  let ?ib = "in_block_id ?i"
  have fin: "finite (data_used ?D ?sb)" by (simp add: data_used_def)
  from allocate_data_block_gives [OF at C sb] obtain r s1 where
    al: "allocate_data_block ops fs = Inr (r, fs\<lparr>fs_store := s1\<rparr>)" "at C R {} s1"
    and c: "case r of None \<Rightarrow> data_used ?D ?sb = {..<unat (sb_data_blocks ?sb)} \<and> data_used (view s1) ?sb = data_used ?D ?sb
     | Some b \<Rightarrow> \<exists>n < unat (sb_data_blocks ?sb). b = sb_data_start ?sb + of_nat n \<and>
         n \<notin> data_used ?D ?sb \<and> {..<n} \<subseteq> data_used ?D ?sb \<and> data_used (view s1) ?sb = insert n (data_used ?D ?sb)"
    and fr1: "\<forall>b. unat b < unat (sb_data_bmap_start ?sb) \<or> unat (sb_data_start ?sb) \<le> unat b \<longrightarrow> view s1 b = ?D b"
    by blast
  have "r \<noteq> None" using c free by (auto split: option.splits)
  with c obtain n where r: "r = Some (sb_data_start ?sb + of_nat n)" and n: "n < unat (sb_data_blocks ?sb)"
    "n \<notin> data_used ?D ?sb" "data_used (view s1) ?sb = insert n (data_used ?D ?sb)" "{..<n} \<subseteq> data_used ?D ?sb" by auto
  let ?b = "sb_data_start ?sb + of_nat n :: u64"
  have bu: "unat ?b = unat (sb_data_start ?sb) + n" and Rb: "R ?b" using data_block_addr [OF sb n(1)] full by auto
  from gives_Inr [OF clear_block_gives [OF al(2) C Rb]] obtain s2 where
    cl: "clear_block ops ?b s1 = Inr ((), s2)" "at C R {} s2" "view s2 = (view s1)(?b := replicate BLOCK_SIZE 0)" by blast
  have ib: "unat ?ib < unat (sb_data_bmap_start ?sb)" using i by (simp add: inode_at_def)
  have ne: "?ib \<noteq> ?b" using ib bu sb_okD(2) [OF sb] by auto
  have "view s2 ?ib = ?D ?ib" using ne fr1 ib by (simp add: cl(3))
  with i have i2: "inode_at ?sb (view s2) ?i d" by (simp add: inode_at_def)
  have used2: "data_used (view s2) ?sb = insert n (data_used ?D ?sb)"
    unfolding n(3) [symmetric] by (rule data_used_cong) (use bu in \<open>auto simp: cl(3)\<close>)
  define d' where "d' = d\<lparr>di_addresses := (di_addresses d)[m := ?b]\<rparr>"
  have wf': "dinode_wf d'" using ok by (simp add: file_ok_def d'_def dinode_wf_def)
  have mm: "m < MAX_BLOCKS_PER_INODE" using m by (simp add: MAX_BLOCKS_PER_INODE_def)
  have f: "bindr (dinode_set_bid ops (add_usize base_idx k) ?b d s) (\<lambda>(d, s). Inr ((), d, s)) = Inr ((), d', s)" for s
    using m mm by (simp add: dinode_set_bid_def d'_def idx)
  from update_dinode_gives [of C R "fs\<lparr>fs_store := s2\<rparr>" a d "\<lambda>d s. bindr (dinode_set_bid ops (add_usize base_idx k) ?b d s)
      (\<lambda>(d, s). Inr ((), d, s))" "()" d'] C sb cl(2) a i2 f wf' obtain s' where
    up: "update_dinode ops a (\<lambda>d s. bindr (dinode_set_bid ops (add_usize base_idx k) ?b d s) (\<lambda>(d, s). Inr ((), d, s)))
        (fs\<lparr>fs_store := s2\<rparr>) = Inr ((), (set_cell a (inode_update d' ?i) fs)\<lparr>fs_store := s'\<rparr>)"
      "at C R {} s'" "inode_at ?sb (view s') (inode_update d' ?i) d'"
      "fs_frame ?sb ?ib (unat (in_block_offset ?i)) (view s2) (view s')" "\<forall>b. b \<noteq> ?ib \<longrightarrow> view s' b = view s2 b"
    by auto
  have used': "data_used (view s') ?sb = insert n (data_used ?D ?sb)"
    unfolding used2 [symmetric] by (rule data_used_cong) (metis up(5) ib leD)
  have old: "view s' (sb_data_start ?sb + of_nat x) = ?D (sb_data_start ?sb + of_nat x)" if x: "x \<in> data_used ?D ?sb" for x
  proof -
    have xu: "unat (sb_data_start ?sb + of_nat x) = unat (sb_data_start ?sb) + x"
      by (rule data_block_addr(1) [OF sb data_used_bound [OF x]])
    have "x \<noteq> n" using x n(2) by auto
    then have "sb_data_start ?sb + of_nat x \<noteq> ?b" using xu bu by (metis add_left_cancel)
    moreover have "sb_data_start ?sb + of_nat x \<noteq> ?ib" using xu ib sb_okD(2) [OF sb] by auto
    ultimately show ?thesis using up(5) fr1 xu by (simp add: cl(3))
  qed
  have new: "view s' ?b = replicate BLOCK_SIZE 0" using up(5) ne by (simp add: cl(3))
  note gr = file_ok_grow [OF ok m sb n(2,1) used' new old, folded d'_def]
  have "fs_frame ?sb ?ib (unat (in_block_offset ?i)) ?D (view s')"
  proof -
    have "view s' b = ?D b" if "unat b < unat (sb_data_bmap_start ?sb)" "b \<noteq> ?ib" for b
      using up(5) that fr1 bu sb_okD(2) [OF sb] by (auto simp: cl(3))
    moreover have "view s2 ?ib = ?D ?ib" by fact
    ultimately show ?thesis using up(4) old used' by (auto simp: fs_frame_def)
  qed
  moreover have "grow_loop ops a new_size base_idx (k # is) fs =
      grow_loop ops a new_size base_idx is ((set_cell a (inode_update d' ?i) fs)\<lparr>fs_store := s'\<rparr>)"
    by (simp add: al(1) r on_store_def cl(1) up(1))
  moreover have "card (data_used (view s') ?sb) = Suc (card (data_used ?D ?sb))" using used' n(2) fin by simp
  moreover have "d' = d\<lparr>di_addresses := di_addresses d'\<rparr>" by (simp add: d'_def)
  moreover note file_grown_step [OF sb n(1,2,4) used' ok m d'_def]
  ultimately show ?thesis using up(2,3) gr by blast
qed

lemma grow_loop_gives:
  assumes "at C R {} (fs_store fs)" and "1 < C" and "sb_ok R (fs_sb fs)" and "data_in R (fs_sb fs)" and "a < length (fs_cells fs)"
    and "inode_at (fs_sb fs) (view (fs_store fs)) (cell_inode fs a) d"
    and "file_ok (fs_sb fs) (view (fs_store fs)) d (base_idx + k)" and "k \<le> n" and "base_idx + n \<le> N_DIRECT"
    and "card (data_used (view (fs_store fs)) (fs_sb fs)) + (n - k) \<le> unat (sb_data_blocks (fs_sb fs))"
  shows "\<exists>d' s'. grow_loop ops a new_size base_idx [k..<n] fs =
      Inr (Inr (), (set_cell a (inode_update d' (cell_inode fs a)) fs)\<lparr>fs_store := s'\<rparr>) \<and>
    at C R {} s' \<and> inode_at (fs_sb fs) (view s') (inode_update d' (cell_inode fs a)) d' \<and>
    file_ok (fs_sb fs) (view s') d' (base_idx + n) \<and> d' = d\<lparr>di_addresses := di_addresses d'\<rparr> \<and>
    file_grown (fs_sb fs) (view (fs_store fs)) d (base_idx + k) (view s') d' (base_idx + n) \<and>
    (\<forall>p < (base_idx + k) * BLOCK_SIZE. dinode_byte (view s') d' p = dinode_byte (view (fs_store fs)) d p) \<and>
    fs_frame (fs_sb fs) (in_block_id (cell_inode fs a)) (unat (in_block_offset (cell_inode fs a)))
      (view (fs_store fs)) (view s')"
  using assms
proof (induction "n - k" arbitrary: k d fs)
  case 0
  then have "k = n" by simp
  moreover have "inode_update d (cell_inode fs a) = cell_inode fs a"
    using 0(7) by (intro inode_update_same) (simp add: inode_at_def)
  ultimately show ?case using 0 set_cell_same [OF 0(6)]
    by (intro exI [of _ d] exI [of _ "fs_store fs"]) (simp add: fs_frame_refl file_grown_refl)
next
  case (Suc j)
  have k: "k < n" "[k..<n] = k # [Suc k..<n]" "j = n - Suc k" using Suc.hyps(2) by (simp_all add: upt_conv_Cons)
  have idx: "add_usize base_idx k = base_idx + k" using Suc.prems(9) k(1) by (simp add: N_DIRECT_def)
  have "base_idx + k < N_DIRECT" using Suc.prems(9) k(1) by simp
  moreover have "card (data_used (view (fs_store fs)) (fs_sb fs)) < unat (sb_data_blocks (fs_sb fs))"
    using Suc.prems(10) k(1) by simp
  ultimately obtain d1 s1 where
    st: "grow_loop ops a new_size base_idx (k # [Suc k..<n]) fs = grow_loop ops a new_size base_idx [Suc k..<n]
        ((set_cell a (inode_update d1 (cell_inode fs a)) fs)\<lparr>fs_store := s1\<rparr>)"
      and s1: "at C R {} s1" "inode_at (fs_sb fs) (view s1) (inode_update d1 (cell_inode fs a)) d1"
      "file_ok (fs_sb fs) (view s1) d1 (Suc (base_idx + k))" "d1 = d\<lparr>di_addresses := di_addresses d1\<rparr>"
      "card (data_used (view s1) (fs_sb fs)) = Suc (card (data_used (view (fs_store fs)) (fs_sb fs)))"
      "file_grown (fs_sb fs) (view (fs_store fs)) d (base_idx + k) (view s1) d1 (Suc (base_idx + k))"
      "\<forall>p < (base_idx + k) * BLOCK_SIZE. dinode_byte (view s1) d1 p = dinode_byte (view (fs_store fs)) d p"
      "fs_frame (fs_sb fs) (in_block_id (cell_inode fs a)) (unat (in_block_offset (cell_inode fs a)))
        (view (fs_store fs)) (view s1)"
    using grow_step_gives [OF Suc.prems(1-7) _ _ idx, of new_size "[Suc k..<n]"] by blast
  let ?fs1 = "(set_cell a (inode_update d1 (cell_inode fs a)) fs)\<lparr>fs_store := s1\<rparr>"
  have c1: "cell_inode ?fs1 a = inode_update d1 (cell_inode fs a)" using Suc.prems(5) by (simp add: set_cell_def)
  have "\<exists>d' s'. grow_loop ops a new_size base_idx [Suc k..<n] ?fs1 =
      Inr (Inr (), (set_cell a (inode_update d' (cell_inode ?fs1 a)) ?fs1)\<lparr>fs_store := s'\<rparr>) \<and>
    at C R {} s' \<and> inode_at (fs_sb ?fs1) (view s') (inode_update d' (cell_inode ?fs1 a)) d' \<and>
    file_ok (fs_sb ?fs1) (view s') d' (base_idx + n) \<and> d' = d1\<lparr>di_addresses := di_addresses d'\<rparr> \<and>
    file_grown (fs_sb ?fs1) (view (fs_store ?fs1)) d1 (base_idx + Suc k) (view s') d' (base_idx + n) \<and>
    (\<forall>p < (base_idx + Suc k) * BLOCK_SIZE. dinode_byte (view s') d' p = dinode_byte (view (fs_store ?fs1)) d1 p) \<and>
    fs_frame (fs_sb ?fs1) (in_block_id (cell_inode ?fs1 a)) (unat (in_block_offset (cell_inode ?fs1 a)))
      (view (fs_store ?fs1)) (view s')"
    by (rule Suc.hyps(1) [OF k(3)]) (use Suc.prems(2-5,8-10) k(1) s1(1-3,5) c1 in simp_all)
  then obtain d2 s2 where s2: "grow_loop ops a new_size base_idx [Suc k..<n] ?fs1 =
      Inr (Inr (), (set_cell a (inode_update d2 (cell_inode fs a)) fs)\<lparr>fs_store := s2\<rparr>)"
    "at C R {} s2" "inode_at (fs_sb fs) (view s2) (inode_update d2 (cell_inode fs a)) d2"
    "file_ok (fs_sb fs) (view s2) d2 (base_idx + n)" "d2 = d1\<lparr>di_addresses := di_addresses d2\<rparr>"
    "file_grown (fs_sb fs) (view s1) d1 (Suc (base_idx + k)) (view s2) d2 (base_idx + n)"
    "\<forall>p < (base_idx + Suc k) * BLOCK_SIZE. dinode_byte (view s2) d2 p = dinode_byte (view s1) d1 p"
    "fs_frame (fs_sb fs) (in_block_id (cell_inode fs a)) (unat (in_block_offset (cell_inode fs a))) (view s1) (view s2)"
    unfolding c1 by auto
  have "\<forall>p < (base_idx + k) * BLOCK_SIZE. dinode_byte (view s2) d2 p = dinode_byte (view (fs_store fs)) d p"
    using s1(7) s2(7) by simp
  moreover have "d2 = d\<lparr>di_addresses := di_addresses d2\<rparr>" using s1(4) s2(5) by (cases d, cases d1, cases d2) simp
  moreover note fs_frame_trans [OF s1(8) s2(8)] file_grown_trans [OF s1(6) s2(6)]
  ultimately show ?case using st s2(1-4) unfolding k(2) by auto
qed

end

section \<open>Resizing\<close>

definition blocks_for :: "nat \<Rightarrow> nat" where
  "blocks_for sz = (sz + (BLOCK_SIZE - 1)) div BLOCK_SIZE"

lemma blocks_for_bound: "sz \<le> blocks_for sz * BLOCK_SIZE"
  by (simp add: blocks_for_def BLOCK_SIZE_def)

lemma blocks_for_direct: "sz \<le> N_DIRECT * BLOCK_SIZE \<Longrightarrow> blocks_for sz \<le> N_DIRECT"
  by (simp add: blocks_for_def BLOCK_SIZE_def N_DIRECT_def)

text \<open>The arithmetic of the two branches of \<open>resize_inode\<close>.\<close>

lemma blocks_for_add: "blocks_for (q * BLOCK_SIZE + r) = q + blocks_for r"
  by (simp add: blocks_for_def add.assoc BLOCK_SIZE_def)

lemma blocks_for_part: "0 < r \<Longrightarrow> r \<le> BLOCK_SIZE \<Longrightarrow> blocks_for r = 1"
  by (simp add: blocks_for_def BLOCK_SIZE_def)

lemma size_split:
  obtains q r where "sz = q * BLOCK_SIZE + r" and "r < BLOCK_SIZE" and "sz mod BLOCK_SIZE = r"
  by (rule that [of "sz div BLOCK_SIZE" "sz mod BLOCK_SIZE"]) (simp_all add: BLOCK_SIZE_def)

lemma blocks_for_same:
  assumes "old mod BLOCK_SIZE \<noteq> 0" and "old \<le> new" and "new - old \<le> BLOCK_SIZE - old mod BLOCK_SIZE"
  shows "blocks_for new = blocks_for old"
proof -
  obtain q r where old: "old = q * BLOCK_SIZE + r" "r < BLOCK_SIZE" "old mod BLOCK_SIZE = r" by (rule size_split)
  then have "0 < r" "r + (new - old) \<le> BLOCK_SIZE" "new = q * BLOCK_SIZE + (r + (new - old))" using assms by auto
  then show ?thesis using old by (metis blocks_for_add blocks_for_part add_gr_0 less_imp_le)
qed

lemma blocks_for_more:
  assumes "old < new"
    and "inc = (if old mod BLOCK_SIZE \<noteq> 0 then new - old - (BLOCK_SIZE - old mod BLOCK_SIZE) else new - old)"
    and "old mod BLOCK_SIZE = 0 \<or> BLOCK_SIZE - old mod BLOCK_SIZE < new - old"
  shows "blocks_for old + blocks_for inc = blocks_for new"
proof -
  obtain q r where old: "old = q * BLOCK_SIZE + r" "r < BLOCK_SIZE" "old mod BLOCK_SIZE = r" by (rule size_split)
  show ?thesis
  proof (cases "r = 0")
    case True
    then have "new = q * BLOCK_SIZE + inc" using old assms by simp
    moreover have "blocks_for old = q" using old True blocks_for_add [of q 0] by (simp add: blocks_for_def BLOCK_SIZE_def)
    ultimately show ?thesis by (simp add: blocks_for_add)
  next
    case False
    then have "new = Suc q * BLOCK_SIZE + inc" using old assms by auto
    moreover have "blocks_for old = Suc q" using old False by (simp add: blocks_for_add blocks_for_part)
    ultimately show ?thesis by (simp only: blocks_for_add)
  qed
qed

lemma file_ok_frame:
  assumes "file_ok sb D d m" and "fs_frame sb iblk off D D'"
  shows "file_ok sb D' d m" and "\<And>p. p < m * BLOCK_SIZE \<Longrightarrow> dinode_byte D' d p = dinode_byte D d p"
proof -
  have same: "D' (di_addresses d ! idx) = D (di_addresses d ! idx)" if "idx < m" for idx
  proof -
    from assms(1) that obtain n where "n \<in> data_used D sb" "di_addresses d ! idx = sb_data_start sb + of_nat n"
      by (auto simp: file_ok_def)
    with assms(2) show ?thesis by (simp add: fs_frame_def)
  qed
  have m: "m \<le> N_DIRECT" using assms(1) by (simp add: file_ok_def)
  show bytes: "dinode_byte D' d p = dinode_byte D d p" if "p < m * BLOCK_SIZE" for p
    using dinode_byte_direct [OF that m] same by simp
  have "\<forall>idx < m. \<exists>n \<in> data_used D' sb. di_addresses d ! idx = sb_data_start sb + of_nat n"
    using assms unfolding file_ok_def fs_frame_def by (meson subsetD)
  with assms(1) bytes show "file_ok sb D' d m" by (simp add: file_ok_def)
qed

lemma dinode_byte_size [simp]: "dinode_byte D (d\<lparr>di_size := sz\<rparr>) p = dinode_byte D d p"
  by (simp add: dinode_byte_def dinode_bid_def)

lemma file_ok_size: "file_ok sb D d m \<Longrightarrow> unat (di_size d) \<le> unat sz \<Longrightarrow> file_ok sb D (d\<lparr>di_size := sz\<rparr>) m"
  by (auto simp: file_ok_def dinode_wf_def)

lemma inode_size_at: "inode_at sb D i d \<Longrightarrow> inode_size i = unat (di_size d)"
  by (auto simp: inode_at_def inode_size_def inode_dinode_def dinode_new_def)

context block_store
begin

lemma set_size_gives:
  assumes "at C R {} (fs_store fs)" and "1 < C" and sb: "sb_ok R (fs_sb fs)" and "a < length (fs_cells fs)"
    and "inode_at (fs_sb fs) (view (fs_store fs)) (cell_inode fs a) d" and ok: "file_ok (fs_sb fs) (view (fs_store fs)) d m"
    and le: "unat (di_size d) \<le> sz" "sz < usize_range"
  shows "\<exists>s'. set_inode_size ops a sz fs =
      Inr ((), (set_cell a (inode_update (d\<lparr>di_size := of_nat sz\<rparr>) (cell_inode fs a)) fs)\<lparr>fs_store := s'\<rparr>) \<and>
    at C R {} s' \<and> inode_at (fs_sb fs) (view s') (inode_update (d\<lparr>di_size := of_nat sz\<rparr>) (cell_inode fs a)) (d\<lparr>di_size := of_nat sz\<rparr>) \<and>
    file_ok (fs_sb fs) (view s') (d\<lparr>di_size := of_nat sz\<rparr>) m \<and>
    data_used (view s') (fs_sb fs) = data_used (view (fs_store fs)) (fs_sb fs) \<and>
    (\<forall>p < m * BLOCK_SIZE. dinode_byte (view s') d p = dinode_byte (view (fs_store fs)) d p) \<and>
    fs_frame (fs_sb fs) (in_block_id (cell_inode fs a)) (unat (in_block_offset (cell_inode fs a)))
      (view (fs_store fs)) (view s')"
proof -
  have wf: "dinode_wf (d\<lparr>di_size := of_nat sz\<rparr>)" using ok by (simp add: file_ok_def dinode_wf_def)
  from update_dinode_gives [OF assms(1-5), of "\<lambda>d s. Inr ((), d\<lparr>di_size := of_nat sz\<rparr>, s)" "()" "d\<lparr>di_size := of_nat sz\<rparr>", OF refl wf]
  obtain s' where
    s': "set_inode_size ops a sz fs =
        Inr ((), (set_cell a (inode_update (d\<lparr>di_size := of_nat sz\<rparr>) (cell_inode fs a)) fs)\<lparr>fs_store := s'\<rparr>)"
      "at C R {} s'" "inode_at (fs_sb fs) (view s') (inode_update (d\<lparr>di_size := of_nat sz\<rparr>) (cell_inode fs a)) (d\<lparr>di_size := of_nat sz\<rparr>)"
      "fs_frame (fs_sb fs) (in_block_id (cell_inode fs a)) (unat (in_block_offset (cell_inode fs a)))
        (view (fs_store fs)) (view s')" "\<forall>b. b \<noteq> in_block_id (cell_inode fs a) \<longrightarrow> view s' b = view (fs_store fs) b"
    unfolding set_inode_size_def by blast
  have "unat (in_block_id (cell_inode fs a)) < unat (sb_data_bmap_start (fs_sb fs))" using assms(5) by (simp add: inode_at_def)
  then have "data_used (view s') (fs_sb fs) = data_used (view (fs_store fs)) (fs_sb fs)"
    by (intro data_used_cong) (use s'(5) in force)
  moreover
  have "unat (di_size d) \<le> unat (of_nat sz :: u64)" using le by (simp add: unat_of_nat_u64)
  with file_ok_frame [OF ok s'(4)] have "file_ok (fs_sb fs) (view s') (d\<lparr>di_size := of_nat sz\<rparr>) m"
    by (intro file_ok_size)
  ultimately show ?thesis using s' file_ok_frame(2) [OF ok s'(4)] by blast
qed

end

text \<open>What \<open>resize_inode\<close> promises on a file that stays in its direct blocks.\<close>

definition resized :: "super_block \<Rightarrow> inode \<Rightarrow> dinode \<Rightarrow> (u64 \<Rightarrow> bytes) \<Rightarrow> nat \<Rightarrow> dinode \<Rightarrow> (u64 \<Rightarrow> bytes) \<Rightarrow> bool" where
  "resized sb i d D new_size d' D' \<longleftrightarrow>
     inode_at sb D' (inode_update d' i) d' \<and> file_ok sb D' d' (blocks_for new_size) \<and>
     file_grown sb D d (blocks_for (unat (di_size d))) D' d' (blocks_for new_size) \<and>
     unat (di_size d') = new_size \<and> di_type d' = di_type d \<and> di_links_num d' = di_links_num d \<and>
     dinode_content D' d' = dinode_content D d @ replicate (new_size - unat (di_size d)) 0 \<and>
     fs_frame sb (in_block_id i) (unat (in_block_offset i)) D D'"

lemma resized_content:
  assumes "unat (di_size d) \<le> new" and "\<forall>p < blocks_for (unat (di_size d)) * BLOCK_SIZE. dinode_byte D' d' p = dinode_byte D d p"
    and "file_ok sb D1 d1 (blocks_for new)" and "di_size d1 = di_size d"
    and "\<forall>p < blocks_for new * BLOCK_SIZE. dinode_byte D' d' p = dinode_byte D1 d1 p" and "unat (di_size d') = new"
  shows "dinode_content D' d' = dinode_content D d @ replicate (new - unat (di_size d)) 0"
proof -
  have up: "[0..<new] = [0..<unat (di_size d)] @ [unat (di_size d)..<new]"
    using assms(1) by (metis le_add_diff_inverse upt_add_eq_append zero_le)
  have "map (dinode_byte D' d') [0..<unat (di_size d)] = map (dinode_byte D d) [0..<unat (di_size d)]"
    using assms(2) blocks_for_bound [of "unat (di_size d)"] by auto
  moreover have "dinode_byte D' d' p = 0" if "unat (di_size d) \<le> p" "p < new" for p
  proof -
    have "p < blocks_for new * BLOCK_SIZE" using that(2) blocks_for_bound [of new] by linarith
    with that(1) assms(3-5) show ?thesis by (simp add: file_ok_def)
  qed
  then have "map (dinode_byte D' d') [unat (di_size d)..<new] = replicate (new - unat (di_size d)) 0"
    by (intro nth_equalityI) simp_all
  ultimately show ?thesis by (simp add: dinode_content_def assms(6) up)
qed

context block_store
begin

text \<open>The first part of growing: the blocks are there and the size is still the old one.\<close>

lemma resize_blocks:
  assumes at: "at C R {} (fs_store fs)" and C: "1 < C" and sb: "sb_ok R (fs_sb fs)" and full: "data_in R (fs_sb fs)" and a: "a < length (fs_cells fs)"
    and i: "inode_at (fs_sb fs) (view (fs_store fs)) (cell_inode fs a) d"
    and ok: "file_ok (fs_sb fs) (view (fs_store fs)) d (blocks_for (unat (di_size d)))"
    and le: "unat (di_size d) < new_size" "new_size \<le> N_DIRECT * BLOCK_SIZE"
    and free: "card (data_used (view (fs_store fs)) (fs_sb fs)) + (blocks_for new_size - blocks_for (unat (di_size d)))
      \<le> unat (sb_data_blocks (fs_sb fs))"
  shows "\<exists>d1 s1. resize_inode ops a new_size fs = bindr (set_inode_size ops a new_size
        ((set_cell a (inode_update d1 (cell_inode fs a)) fs)\<lparr>fs_store := s1\<rparr>)) (\<lambda>(_, fs). Inr (Inr (), fs)) \<and>
    at C R {} s1 \<and> inode_at (fs_sb fs) (view s1) (inode_update d1 (cell_inode fs a)) d1 \<and>
    file_ok (fs_sb fs) (view s1) d1 (blocks_for new_size) \<and> d1 = d\<lparr>di_addresses := di_addresses d1\<rparr> \<and>
    (\<forall>p < blocks_for (unat (di_size d)) * BLOCK_SIZE. dinode_byte (view s1) d1 p = dinode_byte (view (fs_store fs)) d p) \<and>
    fs_frame (fs_sb fs) (in_block_id (cell_inode fs a)) (unat (in_block_offset (cell_inode fs a))) (view (fs_store fs)) (view s1) \<and>
    file_grown (fs_sb fs) (view (fs_store fs)) d (blocks_for (unat (di_size d))) (view s1) d1 (blocks_for new_size)"
proof -
  let ?i = "cell_inode fs a" let ?D = "view (fs_store fs)" let ?sb = "fs_sb fs"
  define old where "old = unat (di_size d)"
  define off where "off = old mod BLOCK_SIZE"
  define inc where "inc = (if off \<noteq> 0 then new_size - old - (BLOCK_SIZE - off) else new_size - old)"
  define short where "short \<longleftrightarrow> off \<noteq> 0 \<and> new_size - old \<le> BLOCK_SIZE - off"
  have lt: "old < new_size" using le(1) by (simp add: old_def)
  have cap: "\<not> CAPACITY_PER_INODE < new_size" using le(2)
    by (simp add: CAPACITY_PER_INODE_def MAX_BLOCKS_PER_INODE_def N_DIRECT_def BLOCK_SIZE_def)
  have base: "add_usize old (BLOCK_SIZE - 1) div BLOCK_SIZE = blocks_for old"
    and need: "add_usize inc (BLOCK_SIZE - 1) div BLOCK_SIZE = blocks_for inc"
    using le(2) lt by (simp_all add: blocks_for_def inc_def N_DIRECT_def BLOCK_SIZE_def)
  have rs: "resize_inode ops a new_size fs =
    (if short then bindr (set_inode_size ops a new_size fs) (\<lambda>(_, fs). Inr (Inr (), fs))
     else bindr (grow_loop ops a new_size (blocks_for old) [0..<blocks_for inc] fs) (\<lambda>(r, fs).
       case r of Inl e \<Rightarrow> Inr (Inl e, fs)
       | Inr _ \<Rightarrow> bindr (set_inode_size ops a new_size fs) (\<lambda>(_, fs). Inr (Inr (), fs))))"
    unfolding resize_inode_def Let_def inode_size_at [OF i] old_def [symmetric] off_def [symmetric] short_def [symmetric]
      inc_def [symmetric] base need using cap lt by simp
  show ?thesis
  proof (cases short)
    case True
    then have "blocks_for new_size = blocks_for old" using lt by (intro blocks_for_same) (simp_all add: short_def off_def)
    moreover have "inode_update d ?i = ?i" using i by (intro inode_update_same) (simp add: inode_at_def)
    ultimately show ?thesis using True rs at i ok set_cell_same [OF a]
      by (intro exI [of _ d] exI [of _ "fs_store fs"]) (simp add: fs_frame_refl file_grown_refl old_def)
  next
    case False
    then have bl: "blocks_for old + blocks_for inc = blocks_for new_size"
      using lt by (intro blocks_for_more) (auto simp: inc_def off_def short_def)
    have room: "card (data_used ?D ?sb) + (blocks_for inc - 0) \<le> unat (sb_data_blocks ?sb)" using free bl unfolding old_def by linarith
    obtain d1 s1 where "grow_loop ops a new_size (blocks_for old) [0..<blocks_for inc] fs =
        Inr (Inr (), (set_cell a (inode_update d1 ?i) fs)\<lparr>fs_store := s1\<rparr>)"
      "at C R {} s1" "inode_at ?sb (view s1) (inode_update d1 ?i) d1"
      "file_ok ?sb (view s1) d1 (blocks_for old + blocks_for inc)" "d1 = d\<lparr>di_addresses := di_addresses d1\<rparr>"
      "file_grown ?sb ?D d (blocks_for old + 0) (view s1) d1 (blocks_for old + blocks_for inc)"
      "\<forall>p < (blocks_for old + 0) * BLOCK_SIZE. dinode_byte (view s1) d1 p = dinode_byte ?D d p"
      "fs_frame ?sb (in_block_id ?i) (unat (in_block_offset ?i)) ?D (view s1)"
      using grow_loop_gives [OF at C sb full a i, of "blocks_for old" 0 "blocks_for inc" new_size]
        room ok bl blocks_for_direct [OF le(2)] by (auto simp: old_def)
    with False bl rs show ?thesis unfolding old_def [symmetric] by (intro exI [of _ d1] exI [of _ s1]) simp
  qed
qed

lemma resize_gives:
  assumes at: "at C R {} (fs_store fs)" and C: "1 < C" and sb: "sb_ok R (fs_sb fs)" and full: "data_in R (fs_sb fs)" and a: "a < length (fs_cells fs)"
    and i: "inode_at (fs_sb fs) (view (fs_store fs)) (cell_inode fs a) d"
    and ok: "file_ok (fs_sb fs) (view (fs_store fs)) d (blocks_for (unat (di_size d)))"
    and le: "unat (di_size d) \<le> new_size" "new_size \<le> N_DIRECT * BLOCK_SIZE"
    and free: "card (data_used (view (fs_store fs)) (fs_sb fs)) + (blocks_for new_size - blocks_for (unat (di_size d)))
      \<le> unat (sb_data_blocks (fs_sb fs))"
  shows "\<exists>d' s'. resize_inode ops a new_size fs =
      Inr (Inr (), (set_cell a (inode_update d' (cell_inode fs a)) fs)\<lparr>fs_store := s'\<rparr>) \<and> at C R {} s' \<and>
    resized (fs_sb fs) (cell_inode fs a) d (view (fs_store fs)) new_size d' (view s')"
proof (cases "unat (di_size d) = new_size")
  case True
  have cap: "\<not> CAPACITY_PER_INODE < new_size" using le(2)
    by (simp add: CAPACITY_PER_INODE_def MAX_BLOCKS_PER_INODE_def N_DIRECT_def BLOCK_SIZE_def)
  have same: "inode_update d (cell_inode fs a) = cell_inode fs a"
    using i by (intro inode_update_same) (simp add: inode_at_def)
  show ?thesis using True cap at i ok same set_cell_same [OF a] inode_size_at [OF i]
    by (intro exI [of _ d] exI [of _ "fs_store fs"]) (simp add: resize_inode_def resized_def fs_frame_refl file_grown_refl)
next
  case False
  let ?i = "cell_inode fs a" let ?D = "view (fs_store fs)" let ?sb = "fs_sb fs" let ?old = "blocks_for (unat (di_size d))"
  have lt: "unat (di_size d) < new_size" using False le(1) by simp
  have small: "new_size < usize_range" using le(2) by (simp add: N_DIRECT_def BLOCK_SIZE_def)
  from resize_blocks [OF at C sb full a i ok lt le(2) free] obtain d1 s1 where
    g: "resize_inode ops a new_size fs = bindr (set_inode_size ops a new_size
        ((set_cell a (inode_update d1 ?i) fs)\<lparr>fs_store := s1\<rparr>)) (\<lambda>(_, fs). Inr (Inr (), fs))"
    and s1: "at C R {} s1" "inode_at ?sb (view s1) (inode_update d1 ?i) d1" "file_ok ?sb (view s1) d1 (blocks_for new_size)"
      "d1 = d\<lparr>di_addresses := di_addresses d1\<rparr>"
      "\<forall>p < ?old * BLOCK_SIZE. dinode_byte (view s1) d1 p = dinode_byte ?D d p"
      "fs_frame ?sb (in_block_id ?i) (unat (in_block_offset ?i)) ?D (view s1)"
      "file_grown ?sb ?D d ?old (view s1) d1 (blocks_for new_size)" by blast
  let ?fs1 = "(set_cell a (inode_update d1 ?i) fs)\<lparr>fs_store := s1\<rparr>"
  have c1: "cell_inode ?fs1 a = inode_update d1 ?i" using a by (simp add: set_cell_def)
  have sz1: "di_size d1 = di_size d" "di_type d1 = di_type d" "di_links_num d1 = di_links_num d"
    by (subst s1(4), simp)+
  let ?d2 = "d1\<lparr>di_size := of_nat new_size\<rparr>"
  from set_size_gives [of C R ?fs1 a d1 "blocks_for new_size" new_size] C sb a s1(1-3) c1 sz1(1) le(1) small obtain s2 where
    s2: "set_inode_size ops a new_size ?fs1 = Inr ((), (set_cell a (inode_update ?d2 ?i) fs)\<lparr>fs_store := s2\<rparr>)"
      "at C R {} s2" "inode_at ?sb (view s2) (inode_update ?d2 ?i) ?d2" "file_ok ?sb (view s2) ?d2 (blocks_for new_size)"
      "data_used (view s2) ?sb = data_used (view s1) ?sb"
      "\<forall>p < blocks_for new_size * BLOCK_SIZE. dinode_byte (view s2) d1 p = dinode_byte (view s1) d1 p"
      "fs_frame ?sb (in_block_id ?i) (unat (in_block_offset ?i)) (view s1) (view s2)"
    by auto
  have sz: "unat (di_size ?d2) = new_size" using small by (simp add: unat_of_nat_u64)
  have "?old \<le> blocks_for new_size" using lt by (simp add: blocks_for_def div_le_mono)
  then have "?old * BLOCK_SIZE \<le> blocks_for new_size * BLOCK_SIZE" by (rule mult_le_mono1)
  with s1(5) s2(6) have "\<forall>p < blocks_for (unat (di_size d)) * BLOCK_SIZE. dinode_byte (view s2) ?d2 p = dinode_byte ?D d p"
    unfolding dinode_byte_size by (metis less_le_trans)
  from resized_content [OF le(1) this s1(3) sz1(1) _ sz] s2(6)
  have "dinode_content (view s2) ?d2 = dinode_content ?D d @ replicate (new_size - unat (di_size d)) 0" by simp
  moreover have "file_grown ?sb ?D d (?old) (view s2) ?d2 (blocks_for new_size)"
    using s1(7) s2(5) by (simp add: file_grown_def file_blocks_def data_addrs_def first_used_def)
  ultimately have "resized ?sb ?i d ?D new_size ?d2 (view s2)"
    using s2(3,4) sz sz1 fs_frame_trans [OF s1(6) s2(7)] by (simp add: resized_def)
  with g s2(1,2) show ?thesis by auto
qed

end

section \<open>Property of resizing\<close>

text \<open>
  C10: Growing a file appends zeros. For a file that stays within its 28 direct blocks and
  while enough data blocks are free, \<open>resize_inode\<close> succeeds; the content of the file is
  the old content followed by zeros up to the new size, the inode on the disk and its copy
  in memory agree again, and every other file keeps its blocks and its content.
\<close>

theorem resize_appends_zeros:
  assumes "store_at (\<lambda>_. True) bf_block bf_in_range C R {} (fs_store fs)" and "1 < C" and "sb_ok R (fs_sb fs)" and "data_in R (fs_sb fs)"
    and "a < length (fs_cells fs)" and "inode_at (fs_sb fs) (st_view bf_block (fs_store fs)) (cell_inode fs a) d"
    and "file_ok (fs_sb fs) (st_view bf_block (fs_store fs)) d (blocks_for (unat (di_size d)))"
    and "unat (di_size d) \<le> new_size" and "new_size \<le> N_DIRECT * BLOCK_SIZE"
    and "card (data_used (st_view bf_block (fs_store fs)) (fs_sb fs)) +
      (blocks_for new_size - blocks_for (unat (di_size d))) \<le> unat (sb_data_blocks (fs_sb fs))"
  shows "\<exists>d' fs'. resize_inode block_file_ops a new_size fs = Inr (Inr (), fs') \<and>
    inode_at (fs_sb fs) (st_view bf_block (fs_store fs')) (cell_inode fs' a) d' \<and>
    file_ok (fs_sb fs) (st_view bf_block (fs_store fs')) d' (blocks_for new_size) \<and>
    dinode_content (st_view bf_block (fs_store fs')) d' =
      dinode_content (st_view bf_block (fs_store fs)) d @ replicate (new_size - unat (di_size d)) 0 \<and>
    (\<forall>e m. file_ok (fs_sb fs) (st_view bf_block (fs_store fs)) e m \<and> unat (di_size e) \<le> m * BLOCK_SIZE \<longrightarrow>
      dinode_content (st_view bf_block (fs_store fs')) e = dinode_content (st_view bf_block (fs_store fs)) e)"
proof -
  from bfs.resize_gives [OF assms] obtain d' s' where
    r: "resize_inode block_file_ops a new_size fs =
        Inr (Inr (), (set_cell a (inode_update d' (cell_inode fs a)) fs)\<lparr>fs_store := s'\<rparr>)"
      "resized (fs_sb fs) (cell_inode fs a) d (bfs.view (fs_store fs)) new_size d' (bfs.view s')" by blast
  have "dinode_content (bfs.view s') e = dinode_content (bfs.view (fs_store fs)) e"
    if "file_ok (fs_sb fs) (bfs.view (fs_store fs)) e m" "unat (di_size e) \<le> m * BLOCK_SIZE" for e m
    using file_ok_frame(2) [OF that(1)] r(2) that(2) unfolding resized_def dinode_content_def by (auto intro!: map_cong)
  moreover have "cell_inode ((set_cell a (inode_update d' (cell_inode fs a)) fs)\<lparr>fs_store := s'\<rparr>) a = inode_update d' (cell_inode fs a)"
    using assms(5) by (simp add: set_cell_def)
  ultimately show ?thesis using r
    by (intro exI [of _ d'] exI [of _ "(set_cell a (inode_update d' (cell_inode fs a)) fs)\<lparr>fs_store := s'\<rparr>"])
      (auto simp: resized_def)
qed

theorem resize_appends_zeros_witness:
  "let f = \<lparr>bf_data = replicate (8 * BLOCK_SIZE) 0, bf_pos = 0\<rparr>;
       d = dinode_new Invalid 0 0 0 (replicate N_DIRECT 0);
       fs = \<lparr>fs_sb = super_block_new 8 2 3 1 4 5 3, fs_store = block_cache_buffer_new 2 f, fs_icache = [],
             fs_icapacity = 64, fs_ilocked = False, fs_cells = [\<lparr>ic_inode = inode_new 3 0 0 d, ic_locked = True\<rparr>]\<rparr>
   in \<exists>d' fs'. resize_inode block_file_ops 0 5000 fs = Inr (Inr (), fs') \<and>
        dinode_content (st_view bf_block (fs_store fs')) d' = replicate 5000 0"
proof -
  let ?f = "\<lparr>bf_data = replicate (8 * BLOCK_SIZE) 0, bf_pos = 0\<rparr>"
  let ?d = "dinode_new Invalid 0 0 0 (replicate N_DIRECT 0)"
  let ?fs = "\<lparr>fs_sb = super_block_new 8 2 3 1 4 5 3, fs_store = block_cache_buffer_new 2 ?f, fs_icache = [],
    fs_icapacity = 64, fs_ilocked = False, fs_cells = [\<lparr>ic_inode = inode_new 3 0 0 ?d, ic_locked = True\<rparr>]\<rparr>"
  have at: "store_at (\<lambda>_. True) bf_block bf_in_range 2 (bf_in_range ?f) {} (fs_store ?fs)"
    and v: "st_view bf_block (fs_store ?fs) = bf_block ?f"
    using bfs.new_at [of 2 ?f] by simp_all
  have "bf_in_range ?f b" if "unat b < 8" for b using that by (simp add: bf_in_range_def BLOCK_SIZE_def)
  then have sb: "sb_ok (bf_in_range ?f) (fs_sb ?fs)" and full: "data_in (bf_in_range ?f) (fs_sb ?fs)"
    by (simp_all add: sb_ok_def data_in_def super_block_new_def BITMAP_PER_BLOCK_def BLOCK_SIZE_def INODES_PER_BLOCK_def
        DINODE_SIZE_def N_DIRECT_def)
  have z: "bf_block ?f b = replicate BLOCK_SIZE 0" if "b = 3 \<or> b = 4" for b
    using that by (auto simp: bf_block_def bf_in_range_def BLOCK_SIZE_def get_slice_def)
  have "get_slice 0 DINODE_SIZE (replicate BLOCK_SIZE (0 :: u8)) = replicate DINODE_SIZE 0"
    by (simp add: get_slice_def BLOCK_SIZE_def DINODE_SIZE_def N_DIRECT_def)
  then have dec: "decode_dinode (get_slice 0 DINODE_SIZE (bf_block ?f 3)) = Inr ?d"
    using z [of 3] decode_dinode_zero by simp
  moreover have "DINODE_SIZE \<le> BLOCK_SIZE" by (simp add: DINODE_SIZE_def N_DIRECT_def BLOCK_SIZE_def)
  ultimately have i: "inode_at (fs_sb ?fs) (st_view bf_block (fs_store ?fs)) (cell_inode ?fs 0) ?d"
    unfolding v by (simp add: inode_at_def super_block_new_def inode_new_def inode_dinode_def dinode_new_def)
  have "data_used (st_view bf_block (fs_store ?fs)) (fs_sb ?fs) = {}"
    unfolding v by (auto simp: data_used_def bmap_used_def super_block_new_def bitmap_used_zero z)
  then have free: "card (data_used (st_view bf_block (fs_store ?fs)) (fs_sb ?fs)) +
      (blocks_for 5000 - blocks_for (unat (di_size ?d))) \<le> unat (sb_data_blocks (fs_sb ?fs))"
    by (simp add: blocks_for_def BLOCK_SIZE_def super_block_new_def)
  have ok: "file_ok (fs_sb ?fs) (st_view bf_block (fs_store ?fs)) ?d (blocks_for (unat (di_size ?d)))"
    by (simp add: file_ok_def dinode_new_def dinode_wf_def blocks_for_def BLOCK_SIZE_def)
  from resize_appends_zeros [OF at _ sb full _ i ok _ _ free] show ?thesis
    by (auto simp: Let_def dinode_new_def dinode_content_def N_DIRECT_def BLOCK_SIZE_def)
qed

end
