(* ===== verification/Fs_Rep.thy ===== *)
theory Fs_Rep
  imports Fs_File
begin

text \<open>
  The disk as a set of files: which inodes are in use and the disk inode of each. In a
  consistent file system the files own disjoint data blocks, and the data bitmap marks
  exactly the blocks that are owned. A step that changes one inode and its blocks keeps
  that and leaves the content of every other file as it was.
\<close>

section \<open>Inodes and their slots\<close>

definition inode_slot :: "super_block \<Rightarrow> (u64 \<Rightarrow> bytes) \<Rightarrow> nat \<Rightarrow> bytes" where
  "inode_slot sb D n = (case find_inode sb (of_nat n) of (b, off) \<Rightarrow> get_slice (unat off) DINODE_SIZE (D b))"

definition inode_used :: "(u64 \<Rightarrow> bytes) \<Rightarrow> super_block \<Rightarrow> nat set" where
  "inode_used D sb = bmap_used D (sb_inode_bmap_start sb) (unat (sb_inode_start sb) - unat (sb_inode_bmap_start sb))"

definition inode_count :: "super_block \<Rightarrow> nat" where
  "inode_count sb = unat (sb_inode_blocks sb) * INODES_PER_BLOCK"

lemma inode_sizes: "INODES_PER_BLOCK = 16" "DINODE_SIZE = 256" "BLOCK_SIZE = 4096"
  by (simp_all add: INODES_PER_BLOCK_def DINODE_SIZE_def N_DIRECT_def BLOCK_SIZE_def)

lemma inode_count_max:
  assumes "sb_ok R sb"
  shows "unat (max_inode_num sb) = inode_count sb" and "inode_count sb < usize_range"
  using sb_okD(7) [OF assms] by (simp_all add: max_inode_num_def inode_count_def unat_word_ariths inode_sizes)

lemma find_inode_loc:
  assumes "sb_ok R sb" and "n < inode_count sb"
  obtains b off where "find_inode sb (of_nat n) = (b, off)" and "unat b = unat (sb_inode_start sb) + n div 16"
    and "unat off = n mod 16 * 256" and "unat b < unat (sb_data_bmap_start sb)"
proof -
  let ?b = "of_nat n div of_nat INODES_PER_BLOCK + sb_inode_start sb"
  let ?off = "of_nat n mod of_nat INODES_PER_BLOCK * of_nat DINODE_SIZE :: u64"
  have n: "unat (of_nat n :: u64) = n" using assms(2) inode_count_max(2) [OF assms(1)] by (simp add: unat_of_nat_u64)
  have d: "n div 16 < unat (sb_inode_blocks sb)"
    using assms(2) by (simp add: inode_count_def inode_sizes less_mult_imp_div_less)
  have lt: "unat (sb_inode_start sb) + n div 16 < unat (sb_data_bmap_start sb)" using d sb_okD(4) [OF assms(1)] by simp
  have "unat (sb_data_bmap_start sb) < usize_range" by (rule unat_u64_less)
  moreover have q: "unat (of_nat n div of_nat INODES_PER_BLOCK :: u64) = n div 16"
    and r: "unat (of_nat n mod of_nat INODES_PER_BLOCK :: u64) = n mod 16" by (simp_all add: unat_div unat_mod n inode_sizes)
  ultimately have b: "unat ?b = unat (sb_inode_start sb) + n div 16"
    using lt by (simp only: unat_add_u64 q add.commute)
  have "n mod 16 < 16" by simp
  then have "n mod 16 * 256 < usize_range" by linarith
  then have "unat ?off = n mod 16 * 256" using r by (simp add: unat_mult_u64 inode_sizes)
  with that [of ?b ?off] b lt show ?thesis by (simp add: find_inode_def)
qed

lemma inode_slot_frame:
  assumes "sb_ok R sb" and "n < inode_count sb" and "m < inode_count sb" and "m \<noteq> n"
    and "find_inode sb (of_nat n) = (b, off)" and "fs_frame sb b (unat off) D D'"
  shows "inode_slot sb D' m = inode_slot sb D m"
proof -
  obtain c o' where c: "find_inode sb (of_nat m) = (c, o')" "unat c = unat (sb_inode_start sb) + m div 16"
    "unat o' = m mod 16 * 256" "unat c < unat (sb_data_bmap_start sb)" using assms(1,3) by (rule find_inode_loc)
  have b: "unat b = unat (sb_inode_start sb) + n div 16" "unat off = n mod 16 * 256"
    using find_inode_loc [OF assms(1,2)] assms(5) by force+
  have "get_slice (unat o') 256 (D' c) = get_slice (unat o') 256 (D c)"
  proof (cases "c = b")
    case False
    then show ?thesis using assms(6) c(4) by (simp add: fs_frame_def)
  next
    case True
    then have "m div 16 = n div 16" using b c by simp
    then have "m mod 16 \<noteq> n mod 16" using assms(4) by (metis div_mult_mod_eq)
    then consider "unat o' + 256 \<le> unat off" | "unat off + 256 \<le> unat o'" unfolding b c(3) by linarith
    then show ?thesis
    proof cases
      case 1
      then have cut: "get_slice (unat o') 256 xs = get_slice (unat o') 256 (take (unat off) xs)" for xs :: bytes
        by (simp add: get_slice_def drop_take min_def)
      have "take (unat off) (D' c) = take (unat off) (D c)" using assms(6) True by (simp add: fs_frame_def)
      then show ?thesis using cut [of "D' c"] cut [of "D c"] by simp
    next
      case 2
      then have cut: "get_slice (unat o') 256 xs = get_slice (unat o' - (unat off + 256)) 256 (drop (unat off + 256) xs)" for xs :: bytes
        by (simp add: get_slice_def)
      have "drop (unat off + 256) (D' c) = drop (unat off + 256) (D c)"
        using assms(6) True unfolding fs_frame_def inode_sizes by simp
      then show ?thesis using cut [of "D' c"] cut [of "D c"] by simp
    qed
  qed
  then show ?thesis by (simp add: inode_slot_def c(1) inode_sizes)
qed

text \<open>The data blocks a file owns.\<close>

definition own :: "dinode \<Rightarrow> u64 set" where
  "own d = file_blocks d (blocks_for (unat (di_size d)))"

lemma file_ok_blocks:
  assumes ok: "file_ok sb D d (blocks_for (unat (di_size d)))" and R: "\<forall>b \<in> own d. R b" and le: "unat (di_size d) \<le> N_DIRECT * BLOCK_SIZE"
  shows "dinode_blocks_ok R D d (unat (di_size d))" and "\<And>idx. idx * BLOCK_SIZE < unat (di_size d) \<Longrightarrow> R (di_addresses d ! idx)"
proof -
  have m: "idx < blocks_for (unat (di_size d)) \<and> idx < N_DIRECT" if "idx * BLOCK_SIZE < unat (di_size d)" for idx
  proof -
    have "idx < blocks_for (unat (di_size d))"
      using that blocks_for_bound [of "unat (di_size d)"] by (metis less_le_trans mult_less_cancel2)
    with ok show ?thesis by (simp add: file_ok_def)
  qed
  show "R (di_addresses d ! idx)" if "idx * BLOCK_SIZE < unat (di_size d)" for idx
    using m [OF that] R by (auto simp: own_def file_blocks_def)
  have "inj_on (\<lambda>idx. di_addresses d ! idx) {idx. idx * BLOCK_SIZE < unat (di_size d)}"
    using ok m by (auto simp: file_ok_def intro: inj_on_subset)
  then have "inj_on (dinode_bid D d) {idx. idx * BLOCK_SIZE < unat (di_size d)}"
    by (rule inj_on_cong [THEN iffD1, rotated]) (simp add: dinode_bid_def m)
  then show "dinode_blocks_ok R D d (unat (di_size d))"
    using R m le by (auto simp: dinode_blocks_ok_def dinode_bid_def own_def file_blocks_def)
qed

lemma inode_at_slot:
  assumes "sb_ok R sb" and "n < inode_count sb" and "find_inode sb (of_nat n) = (in_block_id i, in_block_offset i)"
  shows "inode_at sb D i d \<longleftrightarrow> decode_dinode (inode_slot sb D n) = Inr d \<and> inode_dinode i = d"
proof -
  have loc: "unat (in_block_id i) = unat (sb_inode_start sb) + n div 16" "unat (in_block_offset i) = n mod 16 * 256"
    "unat (in_block_id i) < unat (sb_data_bmap_start sb)" using find_inode_loc [OF assms(1,2)] assms(3) by force+
  have "unat (in_block_offset i) + DINODE_SIZE \<le> BLOCK_SIZE"
    unfolding loc(2) inode_sizes by (use mod_less_divisor [of 16 n] in linarith)
  with loc assms(3) show ?thesis by (simp add: inode_at_def inode_slot_def)
qed

lemma file_ok_cong:
  assumes "file_ok sb D d m" and "data_used D' sb = data_used D sb"
    and "\<And>p. unat (di_size d) \<le> p \<Longrightarrow> p < m * BLOCK_SIZE \<Longrightarrow> dinode_byte D' d p = dinode_byte D d p"
  shows "file_ok sb D' d m"
  using assms by (auto simp: file_ok_def)

lemma file_ok_block:
  assumes "file_ok sb D d m" and "sb_ok R sb" and "idx < m"
  shows "unat (sb_data_start sb) \<le> unat (di_addresses d ! idx)" and "dinode_bid D' d idx = di_addresses d ! idx"
proof -
  obtain n where n: "n \<in> data_used D sb" "di_addresses d ! idx = sb_data_start sb + of_nat n"
    using assms(1,3) unfolding file_ok_def by blast
  from data_block_addr(1) [OF assms(2) data_used_bound [OF n(1)]] n(2)
  show "unat (sb_data_start sb) \<le> unat (di_addresses d ! idx)" by simp
  show "dinode_bid D' d idx = di_addresses d ! idx" using assms(1,3) by (simp add: dinode_bid_def file_ok_def)
qed

section \<open>A consistent file system\<close>

definition file_at :: "super_block \<Rightarrow> (u64 \<Rightarrow> bytes) \<Rightarrow> nat \<Rightarrow> dinode \<Rightarrow> bool" where
  "file_at sb D n d \<longleftrightarrow>
     decode_dinode (inode_slot sb D n) = Inr d \<and> file_ok sb D d (blocks_for (unat (di_size d))) \<and>
     unat (di_size d) \<le> N_DIRECT * BLOCK_SIZE"

text \<open>The super block as it is on the disk.\<close>

definition sb_on_disk :: "(u64 \<Rightarrow> bytes) \<Rightarrow> super_block" where
  "sb_on_disk D = decode_super_block (get_slice 0 SUPER_BLOCK_SIZE (D SUPER_BLOCK_LOC))"

definition fs_rep :: "super_block \<Rightarrow> (u64 \<Rightarrow> bytes) \<Rightarrow> (nat \<rightharpoonup> dinode) \<Rightarrow> bool" where
  "fs_rep sb D F \<longleftrightarrow>
     sb_on_disk D = sb \<and> first_used D sb \<and> inode_used D sb = dom F \<and> dom F \<subseteq> {..<inode_count sb} \<and>
     (\<forall>n d. F n = Some d \<longrightarrow> file_at sb D n d) \<and>
     (\<forall>k < inode_count sb. \<exists>d. decode_dinode (inode_slot sb D k) = Inr d) \<and>
     (\<forall>n m d e. F n = Some d \<longrightarrow> F m = Some e \<longrightarrow> n \<noteq> m \<longrightarrow> own d \<inter> own e = {}) \<and>
     data_addrs D sb = \<Union> (own ` ran F)"

text \<open>Everything but the files of \<open>X\<close> reads as before.\<close>

definition same_files :: "(nat \<rightharpoonup> dinode) \<Rightarrow> nat set \<Rightarrow> (u64 \<Rightarrow> bytes) \<Rightarrow> (u64 \<Rightarrow> bytes) \<Rightarrow> bool" where
  "same_files F X D D' \<longleftrightarrow> (\<forall>n d. n \<notin> X \<longrightarrow> F n = Some d \<longrightarrow> dinode_content D' d = dinode_content D d)"

lemma own_used: "file_at sb D n d \<Longrightarrow> own d \<subseteq> data_addrs D sb"
  using file_ok_blocks_used [of sb D d] by (simp add: file_at_def own_def)

lemma file_cong:
  assumes "file_ok sb D d (blocks_for (unat (di_size d)))" and "own d \<subseteq> data_addrs D' sb" and same: "\<And>b. b \<in> own d \<Longrightarrow> D' b = D b"
  shows "file_ok sb D' d (blocks_for (unat (di_size d)))" and "dinode_content D' d = dinode_content D d"
proof -
  let ?m = "blocks_for (unat (di_size d))"
  have m: "?m \<le> N_DIRECT" using assms(1) by (simp add: file_ok_def)
  have byte: "dinode_byte D' d p = dinode_byte D d p" if "p < ?m * BLOCK_SIZE" for p
  proof -
    have "di_addresses d ! (p div BLOCK_SIZE) \<in> own d" using dinode_byte_direct(1) [OF that m] by (auto simp: own_def file_blocks_def)
    then show ?thesis using same by (simp add: dinode_byte_direct(2) [OF that m])
  qed
  have "\<exists>n \<in> data_used D' sb. di_addresses d ! idx = sb_data_start sb + of_nat n" if "idx < ?m" for idx
  proof -
    have "di_addresses d ! idx \<in> data_addrs D' sb" using that assms(2) by (auto simp: own_def file_blocks_def)
    then show ?thesis by (auto simp: data_addrs_def)
  qed
  then show "file_ok sb D' d ?m" using assms(1) byte by (auto simp: file_ok_def)
  show "dinode_content D' d = dinode_content D d"
    using byte blocks_for_bound [of "unat (di_size d)"] by (auto simp: dinode_content_def)
qed

text \<open>
  One inode \<open>n\<close> becomes \<open>d'\<close>: it keeps the blocks it owned, takes free ones besides, and
  what the other files own stays as it is.
\<close>

lemma rep_step:
  assumes rep: "fs_rep sb D F" and n: "n < inode_count sb"
    and slots: "\<And>k. k < inode_count sb \<Longrightarrow> k \<noteq> n \<Longrightarrow> inode_slot sb D' k = inode_slot sb D k"
    and used: "inode_used D' sb = insert n (inode_used D sb)" and new: "file_at sb D' n d'"
    and old: "old = (case F n of None \<Rightarrow> {} | Some d \<Rightarrow> own d)"
    and addrs: "old \<subseteq> own d'" "data_addrs D' sb = data_addrs D sb \<union> own d'" "own d' \<inter> data_addrs D sb \<subseteq> old"
    and keep: "\<And>b. b \<in> data_addrs D sb \<Longrightarrow> b \<notin> old \<Longrightarrow> D' b = D b" and super: "D' SUPER_BLOCK_LOC = D SUPER_BLOCK_LOC"
    and seg: "first_used D sb \<longrightarrow> first_used D' sb"
  shows "fs_rep sb D' (F(n \<mapsto> d'))" and "same_files F {n} D D'"
proof -
  have F: "file_at sb D k e" "own e \<subseteq> data_addrs D sb" if "F k = Some e" for k e
    using rep that own_used [of sb D k e] by (simp_all add: fs_rep_def)
  have lt: "k < inode_count sb" if "F k = Some e" for k e using rep that by (auto simp: fs_rep_def)
  have dis: "own e \<inter> old = {}" if "F k = Some e" "k \<noteq> n" for k e
    using rep that unfolding old fs_rep_def by (cases "F n") auto
  have oth: "file_ok sb D' e (blocks_for (unat (di_size e)))" "dinode_content D' e = dinode_content D e"
    if "F k = Some e" "k \<noteq> n" for k e
  proof -
    have "own e \<subseteq> data_addrs D' sb" using F(2) [OF that(1)] addrs(2) by blast
    moreover have "D' b = D b" if "b \<in> own e" for b using keep [of b] F(2) [OF \<open>F k = Some e\<close>] dis [OF \<open>F k = Some e\<close> \<open>k \<noteq> n\<close>] that by blast
    ultimately show "file_ok sb D' e (blocks_for (unat (di_size e)))" "dinode_content D' e = dinode_content D e"
      using file_cong [of sb D e D'] F(1) [OF that(1)] by (simp_all add: file_at_def)
  qed
  then show "same_files F {n} D D'" by (simp add: same_files_def)
  have files: "file_at sb D' k e" if "(F(n \<mapsto> d')) k = Some e" for k e
    using that new oth(1) [of k e] F(1) [of k e] slots [OF lt [of k e]] by (auto simp: file_at_def split: if_splits)
  have apart: "own d' \<inter> own e = {}" if "F k = Some e" "k \<noteq> n" for k e
    using dis [OF that] F(2) [OF that(1)] addrs(3) by blast
  then have disj: "own x \<inter> own e = {}" if "(F(n \<mapsto> d')) k = Some x" "(F(n \<mapsto> d')) m = Some e" "k \<noteq> m" for k m x e
    using that rep apart [of m e] apart [of k x] unfolding fs_rep_def by (auto split: if_splits)
  have "data_addrs D' sb = \<Union> (own ` ran (F(n \<mapsto> d')))"
  proof -
    let ?F = "F(n \<mapsto> d')"
    have d': "d' \<in> ran ?F" by (auto simp: ran_def)
    have "own e \<subseteq> \<Union> (own ` ran ?F)" if "e \<in> ran F" for e
    proof -
      from that obtain k where k: "F k = Some e" by (auto simp: ran_def)
      show ?thesis
      proof (cases "k = n")
        case True
        then have "own e \<subseteq> own d'" using k addrs(1) by (simp add: old)
        with d' show ?thesis by blast
      next
        case False
        then have "e \<in> ran ?F" using k by (auto simp: ran_def)
        then show ?thesis by blast
      qed
    qed
    then have "\<Union> (own ` ran F) \<union> own d' \<subseteq> \<Union> (own ` ran ?F)" using d' by (simp add: UN_subset_iff UN_upper)
    moreover have "ran ?F \<subseteq> insert d' (ran F)" by (auto simp: ran_def split: if_splits)
    then have "\<Union> (own ` ran ?F) \<subseteq> \<Union> (own ` ran F) \<union> own d'" by fast
    moreover have "data_addrs D' sb = \<Union> (own ` ran F) \<union> own d'" using rep addrs(2) by (simp add: fs_rep_def)
    ultimately show ?thesis by (intro equalityI) simp_all
  qed
  moreover have "\<exists>d. decode_dinode (inode_slot sb D' k) = Inr d" if "k < inode_count sb" for k
    using that new slots [OF that] rep by (cases "k = n") (auto simp: file_at_def fs_rep_def)
  ultimately show "fs_rep sb D' (F(n \<mapsto> d'))"
    using rep n used files disj super seg unfolding fs_rep_def by (auto simp: sb_on_disk_def)
qed

lemma same_files_trans:
  assumes "same_files F X D D1" and "same_files G Y D1 D2" and "\<forall>k \<in> dom F - Z. k \<notin> X \<and> k \<notin> Y \<and> G k = F k"
  shows "same_files F Z D D2"
  unfolding same_files_def
proof (intro allI impI)
  fix k d assume "k \<notin> Z" "F k = Some d"
  then have "k \<notin> X \<and> k \<notin> Y \<and> G k = Some d" using assms(3) by force
  with \<open>F k = Some d\<close> assms(1,2) show "dinode_content D2 d = dinode_content D d" unfolding same_files_def by metis
qed

lemma same_files_refl: "same_files F X D D"
  by (simp add: same_files_def)

section \<open>Steps on one inode\<close>

lemma blocks_for_0 [simp]: "blocks_for 0 = 0"
  by (simp add: blocks_for_def BLOCK_SIZE_def)

lemma inode_used_cong:
  assumes "\<And>b. unat b < unat (sb_inode_start sb) \<Longrightarrow> D' b = D b"
  shows "inode_used D' sb = inode_used D sb"
  unfolding inode_used_def
proof (rule bmap_used_cong)
  fix j assume "j < unat (sb_inode_start sb) - unat (sb_inode_bmap_start sb)"
  then have "unat (sb_inode_bmap_start sb + of_nat j) < unat (sb_inode_start sb)"
    using unat_u64_less [of "sb_inode_start sb"] by (subst unat_offset) linarith+
  then show "D' (sb_inode_bmap_start sb + of_nat j) = D (sb_inode_bmap_start sb + of_nat j)" by (rule assms)
qed

lemma inode_slot_cong:
  assumes "sb_ok R sb" and "k < inode_count sb" and "\<And>b. unat b < unat (sb_data_bmap_start sb) \<Longrightarrow> D' b = D b"
  shows "inode_slot sb D' k = inode_slot sb D k"
  using find_inode_loc [OF assms(1,2)] assms(3) by (force simp: inode_slot_def)

lemma data_addrs_cong:
  assumes "\<And>b. unat (sb_data_bmap_start sb) \<le> unat b \<Longrightarrow> unat b < unat (sb_data_start sb) \<Longrightarrow> D' b = D b"
  shows "data_addrs D' sb = data_addrs D sb" and "first_used D' sb = first_used D sb"
  by (simp_all add: data_addrs_def first_used_def data_used_cong [OF assms])

lemma data_addrs_ge:
  assumes "sb_ok R sb" and "b \<in> data_addrs D sb"
  shows "unat (sb_data_start sb) \<le> unat b" and "data_in R sb \<Longrightarrow> R b"
  using assms data_block_addr [OF assms(1) data_used_bound] by (auto simp: data_addrs_def)

lemma super_low: "sb_ok R sb \<Longrightarrow> unat SUPER_BLOCK_LOC < unat (sb_inode_start sb)"
  using sb_okD(5,6) [of R sb] by (simp add: SUPER_BLOCK_LOC_def)

text \<open>A new inode without blocks.\<close>

lemma rep_new:
  assumes "fs_rep sb D F" and sb: "sb_ok R sb" and n: "n < inode_count sb" "F n = None"
    and slots: "\<forall>k. k < inode_count sb \<longrightarrow> k \<noteq> n \<longrightarrow> inode_slot sb D' k = inode_slot sb D k"
    and used: "inode_used D' sb = insert n (inode_used D sb)" and "decode_dinode (inode_slot sb D' n) = Inr d'"
    and d': "dinode_wf d'" "di_size d' = 0"
    and same: "\<forall>b. unat (sb_data_bmap_start sb) \<le> unat b \<longrightarrow> D' b = D b" and super: "D' SUPER_BLOCK_LOC = D SUPER_BLOCK_LOC"
  shows "fs_rep sb D' (F(n \<mapsto> d'))" and "same_files F {n} D D'"
proof -
  have 1: "file_at sb D' n d'" and 2: "own d' = {}" using assms(7) d' by (simp_all add: file_at_def file_ok_def own_def file_blocks_def)
  have 3: "data_addrs D' sb = data_addrs D sb" "first_used D' sb = first_used D sb" by (rule data_addrs_cong; use same in blast)+
  have 4: "D' b = D b" if "b \<in> data_addrs D sb" for b
    using data_addrs_ge(1) [OF sb that] sb_okD(2) [OF sb] same by simp
  show "fs_rep sb D' (F(n \<mapsto> d'))" "same_files F {n} D D'"
    by (rule rep_step [OF assms(1) n(1) _ used 1, of "{}"]; use slots n(2) 2 3 4 super in simp)+
qed

text \<open>A file that has grown.\<close>

lemma rep_resized:
  assumes rep: "fs_rep sb D F" and sb: "sb_ok R sb" and Fn: "F n = Some d" and loc: "find_inode sb (of_nat n) = (in_block_id i, in_block_offset i)"
    and rs: "resized sb i d D sz d' D'" and sz: "sz \<le> N_DIRECT * BLOCK_SIZE"
  shows "fs_rep sb D' (F(n \<mapsto> d'))" and "same_files F {n} D D'"
proof -
  have n: "n < inode_count sb" "n \<in> inode_used D sb" using rep Fn by (auto simp: fs_rep_def)
  have fr: "fs_frame sb (in_block_id i) (unat (in_block_offset i)) D D'" and d': "unat (di_size d') = sz"
    and gr: "file_grown sb D d (blocks_for (unat (di_size d))) D' d' (blocks_for sz)"
    and i': "inode_at sb D' (inode_update d' i) d'" "file_ok sb D' d' (blocks_for sz)"
    using rs by (simp_all add: resized_def)
  have slots: "inode_slot sb D' k = inode_slot sb D k" if "k < inode_count sb" "k \<noteq> n" for k
    by (rule inode_slot_frame [OF sb n(1) that loc fr])
  have "unat (sb_inode_start sb) \<le> unat (in_block_id i)" "unat (sb_inode_start sb) \<le> unat (sb_data_bmap_start sb)"
    using i'(1) sb_okD(4) [OF sb] by (simp_all add: inode_at_def)
  then have "unat b < unat (sb_data_bmap_start sb) \<and> b \<noteq> in_block_id i" if "unat b < unat (sb_inode_start sb)" for b using that by auto
  then have low: "D' b = D b" if "unat b < unat (sb_inode_start sb)" for b using that fr by (simp add: fs_frame_def)
  have "inode_used D' sb = inode_used D sb" by (intro inode_used_cong low)
  then have used: "inode_used D' sb = insert n (inode_used D sb)" using n(2) by auto
  have new: "file_at sb D' n d'"
    using inode_at_slot [OF sb n(1), of "inode_update d' i" D' d'] loc i' d' sz by (simp add: file_at_def)
  have addrs: "own d \<subseteq> own d'" "data_addrs D' sb = data_addrs D sb \<union> own d'" "own d' \<inter> data_addrs D sb \<subseteq> own d"
    "first_used D sb \<longrightarrow> first_used D' sb"
    using gr by (simp_all add: file_grown_def own_def d')
  have keep: "D' b = D b" if "b \<in> data_addrs D sb" for b using that fr by (auto simp: data_addrs_def fs_frame_def)
  show "fs_rep sb D' (F(n \<mapsto> d'))" "same_files F {n} D D'"
    by (rule rep_step [OF rep n(1) slots used new, of "own d"]; use Fn addrs keep low super_low [OF sb] in simp)+
qed

text \<open>A file whose content was written.\<close>

lemma file_ok_own:
  assumes "file_ok sb D d (blocks_for (unat (di_size d)))" and "idx * BLOCK_SIZE < unat (di_size d)"
  shows "dinode_bid D' d idx \<in> own d"
proof -
  have "idx < blocks_for (unat (di_size d))"
    using assms(2) blocks_for_bound [of "unat (di_size d)"] by (metis less_le_trans mult_less_cancel2)
  then show ?thesis using assms(1) by (auto simp: own_def file_blocks_def dinode_bid_def file_ok_def)
qed

lemma rep_written:
  assumes rep: "fs_rep sb D F" and sb: "sb_ok R sb" and Fn: "F n = Some d"
    and same: "\<forall>b. b \<notin> own d \<longrightarrow> D' b = D b" and ok: "file_ok sb D' d (blocks_for (unat (di_size d)))"
  shows "fs_rep sb D' F" and "same_files F {n} D D'"
proof -
  have n: "n < inode_count sb" "n \<in> inode_used D sb" and at: "file_at sb D n d" using rep Fn by (auto simp: fs_rep_def)
  have low: "D' b = D b" if "unat b < unat (sb_data_start sb)" for b
    using that own_used [OF at] data_addrs_ge(1) [OF sb] by (intro same [rule_format]) fastforce
  have slots: "inode_slot sb D' k = inode_slot sb D k" if "k < inode_count sb" for k
    by (rule inode_slot_cong [OF sb that]) (use low sb_okD(2) [OF sb] in simp)
  have "inode_used D' sb = inode_used D sb" by (rule inode_used_cong) (use low sb_okD(2,4) [OF sb] in simp)
  then have used: "inode_used D' sb = insert n (inode_used D sb)" using n(2) by auto
  have "data_addrs D' sb = data_addrs D sb" "first_used D' sb = first_used D sb" by (rule data_addrs_cong; use low in simp)+
  then have addrs: "data_addrs D' sb = data_addrs D sb \<union> own d" "first_used D sb \<longrightarrow> first_used D' sb" using own_used [OF at] by auto
  have new: "file_at sb D' n d" using at ok slots [OF n(1)] by (simp add: file_at_def)
  have "fs_rep sb D' (F(n \<mapsto> d))" "same_files F {n} D D'"
    by (rule rep_step [OF rep n(1) slots used new, of "own d"]; use Fn addrs same low super_low [OF sb] sb_okD(2,4) [OF sb] in simp)+
  then show "fs_rep sb D' F" "same_files F {n} D D'" using Fn by (simp_all add: map_upd_triv)
qed

lemma written_file_ok:
  assumes ok: "file_ok sb D d (blocks_for (unat (di_size d)))" and sb: "sb_ok R sb" and le: "unat (di_size d) \<le> N_DIRECT * BLOCK_SIZE"
    and wr: "dinode_written d start end f D D'" and "end \<le> unat (di_size d)"
  shows "file_ok sb D' d (blocks_for (unat (di_size d)))"
proof (rule file_ok_cong [OF ok])
  have bid: "dinode_bid D d ` {idx. start div BLOCK_SIZE \<le> idx \<and> idx * BLOCK_SIZE < end} \<subseteq> own d"
    using file_ok_own [OF ok] assms(5) by auto
  have other: "D' b = D b" if "b \<notin> own d" for b using wr bid that unfolding dinode_written_def by blast
  show "data_used D' sb = data_used D sb"
    by (rule data_used_cong)
      (use file_ok_blocks_used [OF ok] data_addrs_ge(1) [OF sb] in \<open>intro other, fastforce simp: own_def\<close>)
  show "dinode_byte D' d p = dinode_byte D d p"
    if p: "unat (di_size d) \<le> p" "p < blocks_for (unat (di_size d)) * BLOCK_SIZE" for p
  proof (cases "p div BLOCK_SIZE * BLOCK_SIZE < end")
    case True
    then show ?thesis using wr p(1) assms(5) by (simp add: dinode_written_def)
  next
    case False
    have m: "blocks_for (unat (di_size d)) \<le> N_DIRECT" using ok by (simp add: file_ok_def)
    note q = dinode_byte_direct [OF p(2) m]
    have "di_addresses d ! (p div BLOCK_SIZE) \<notin> dinode_bid D d ` {idx. start div BLOCK_SIZE \<le> idx \<and> idx * BLOCK_SIZE < end}"
    proof
      assume "di_addresses d ! (p div BLOCK_SIZE) \<in> dinode_bid D d ` {idx. start div BLOCK_SIZE \<le> idx \<and> idx * BLOCK_SIZE < end}"
      then obtain j where j: "j * BLOCK_SIZE < end" "di_addresses d ! (p div BLOCK_SIZE) = dinode_bid D d j" by auto
      have jl: "j < blocks_for (unat (di_size d))"
        using j(1) assms(5) blocks_for_bound [of "unat (di_size d)"] by (metis le_trans less_le_trans mult_less_cancel2)
      then have "di_addresses d ! (p div BLOCK_SIZE) = di_addresses d ! j" using j(2) m by (simp add: dinode_bid_def)
      then have "p div BLOCK_SIZE = j" using ok q(1) jl by (auto simp: file_ok_def dest: inj_onD)
      with j(1) False show False by simp
    qed
    then have "D' (di_addresses d ! (p div BLOCK_SIZE)) = D (di_addresses d ! (p div BLOCK_SIZE))" using wr by (simp add: dinode_written_def)
    then show ?thesis using q(2) by simp
  qed
qed

text \<open>An inode whose slot was rewritten, with the same blocks.\<close>

lemma rep_slot:
  assumes rep: "fs_rep sb D F" and sb: "sb_ok R sb" and Fn: "F n = Some d"
    and loc: "find_inode sb (of_nat n) = (b, off)" and fr: "fs_frame sb b (unat off) D D'"
    and only: "\<forall>c. c \<noteq> b \<longrightarrow> D' c = D c" and dec: "decode_dinode (inode_slot sb D' n) = Inr d'"
    and d': "di_size d' = di_size d" "di_addresses d' = di_addresses d"
  shows "fs_rep sb D' (F(n \<mapsto> d'))" and "same_files F {n} D D'" and "dinode_content D' d' = dinode_content D d"
proof -
  have n: "n < inode_count sb" "n \<in> inode_used D sb" and at: "file_at sb D n d" using rep Fn by (auto simp: fs_rep_def)
  have b: "unat (sb_inode_start sb) \<le> unat b" "unat b < unat (sb_data_bmap_start sb)" using find_inode_loc [OF sb n(1)] loc by force+
  have slots: "inode_slot sb D' k = inode_slot sb D k" if "k < inode_count sb" "k \<noteq> n" for k
    by (rule inode_slot_frame [OF sb n(1) that loc fr])
  have low: "D' c = D c" if "unat c < unat (sb_inode_start sb)" for c using that b(1) only by force
  have "inode_used D' sb = inode_used D sb" by (intro inode_used_cong low)
  then have used: "inode_used D' sb = insert n (inode_used D sb)" using n(2) by auto
  have o: "own d' = own d" using d' by (simp add: own_def file_blocks_def)
  have high: "D' c = D c" if "unat (sb_data_bmap_start sb) \<le> unat c" for c using that b(2) by (intro only [rule_format]) auto
  have addr: "data_addrs D' sb = data_addrs D sb" "first_used D' sb = first_used D sb" by (rule data_addrs_cong; rule high; assumption)+
  have keep: "D' c = D c" if "c \<in> data_addrs D sb" for c
    using data_addrs_ge(1) [OF sb that] sb_okD(2) [OF sb] by (intro high) simp
  have c: "file_ok sb D' d (blocks_for (unat (di_size d)))" "dinode_content D' d = dinode_content D d"
    using file_cong [of sb D d D'] at own_used [OF at] addr keep by (auto simp: file_at_def)
  have byte: "dinode_byte D' d' p = dinode_byte D' d p" if "p < N_DIRECT * BLOCK_SIZE" for p
    using dinode_byte_direct(2) [OF that] d' by simp
  have le: "unat (di_size d) \<le> N_DIRECT * BLOCK_SIZE" and m: "blocks_for (unat (di_size d)) * BLOCK_SIZE \<le> N_DIRECT * BLOCK_SIZE"
    using at mult_le_mono1 [of "blocks_for (unat (di_size d))" N_DIRECT BLOCK_SIZE] by (simp_all add: file_at_def file_ok_def)
  have "file_ok sb D' d' (blocks_for (unat (di_size d)))"
    using c(1) d' byte [OF less_le_trans [OF _ m]] by (simp add: file_ok_def dinode_wf_def)
  then have new: "file_at sb D' n d'" using dec le d' by (simp add: file_at_def)
  show "dinode_content D' d' = dinode_content D d" using c(2) d' byte le by (simp add: dinode_content_def)
  show "fs_rep sb D' (F(n \<mapsto> d'))" "same_files F {n} D D'"
    by (rule rep_step [OF rep n(1) slots used new, of "own d"]; use Fn o addr own_used [OF at] keep low super_low [OF sb] in auto)+
qed

section \<open>The same file system on another disk\<close>

lemma fs_rep_cong:
  assumes rep: "fs_rep sb D F" and sb: "sb_ok R sb" and low: "\<forall>b. unat b < unat (sb_data_start sb) \<longrightarrow> D' b = D b"
    and data: "\<forall>b \<in> data_addrs D sb. D' b = D b"
  shows "fs_rep sb D' F" and "same_files F {} D D'"
proof -
  have addr: "data_addrs D' sb = data_addrs D sb" "first_used D' sb = first_used D sb" by (rule data_addrs_cong; use low in simp)+
  have ord: "unat (sb_inode_start sb) \<le> unat (sb_data_bmap_start sb)" "unat (sb_data_bmap_start sb) < unat (sb_data_start sb)"
    using sb_okD(2,4) [OF sb] by simp_all
  have slots: "inode_slot sb D' k = inode_slot sb D k" if "k < inode_count sb" for k
    by (rule inode_slot_cong [OF sb that]) (use low ord in simp)
  have used: "inode_used D' sb = inode_used D sb" by (rule inode_used_cong) (use low ord in simp)
  have "D' SUPER_BLOCK_LOC = D SUPER_BLOCK_LOC" using low super_low [OF sb] ord by simp
  then have on: "sb_on_disk D' = sb_on_disk D" by (simp add: sb_on_disk_def)
  have F: "file_at sb D' n d \<and> dinode_content D' d = dinode_content D d" if "F n = Some d" for n d
  proof -
    have at: "file_at sb D n d" "n < inode_count sb" using rep that by (auto simp: fs_rep_def)
    have "own d \<subseteq> data_addrs D sb" by (rule own_used [OF at(1)])
    then show ?thesis using file_cong [of sb D d D'] at addr(1) data slots [OF at(2)] by (auto simp: file_at_def)
  qed
  then show "same_files F {} D D'" by (simp add: same_files_def)
  have "\<forall>k < inode_count sb. \<exists>d. decode_dinode (inode_slot sb D' k) = Inr d" using rep slots by (simp add: fs_rep_def)
  then show "fs_rep sb D' F" using rep F addr used on unfolding fs_rep_def by simp
qed

end
