(* ===== verification/Fs_Dir.thy ===== *)
theory Fs_Dir
  imports Fs_Rep
begin

text \<open>
  Directories (\<open>look_up\<close>, \<open>list_children\<close>, \<open>create_inode\<close> and \<open>allocate_inode\<close> of
  \<open>fs/src/lib.rs\<close>). The specification of a directory is the list of its names with their
  inode numbers; the entries are the bytes of the directory's file.
\<close>

section \<open>A directory as a list of names\<close>

definition dir_slot :: "bytes \<Rightarrow> nat \<Rightarrow> bytes" where
  "dir_slot bs i = get_slice (DIR_ENTRY_SIZE * i) DIR_ENTRY_SIZE bs"

definition dir_rep :: "bytes \<Rightarrow> (bytes \<times> u64) list \<Rightarrow> bool" where
  "dir_rep bs es \<longleftrightarrow>
     length bs = DIR_ENTRY_SIZE * length es \<and>
     (\<forall>i < length es. dir_entry_name (decode_dir_entry (dir_slot bs i)) = Inr (fst (es ! i)) \<and>
        de_inode_num (decode_dir_entry (dir_slot bs i)) = snd (es ! i))"

lemma length_dir_slot: "dir_rep bs es \<Longrightarrow> i < length es \<Longrightarrow> length (dir_slot bs i) = DIR_ENTRY_SIZE"
proof -
  assume "dir_rep bs es" "i < length es"
  then have "DIR_ENTRY_SIZE * Suc i \<le> length bs" unfolding dir_rep_def by (metis Suc_leI mult_le_mono2)
  then show ?thesis by (simp add: dir_slot_def)
qed

lemma dir_slot_append: "DIR_ENTRY_SIZE * Suc i \<le> length bs \<Longrightarrow> dir_slot (bs @ cs) i = dir_slot bs i"
  by (simp add: dir_slot_def get_slice_def)

text \<open>A new entry behind the others.\<close>

lemma dir_rep_append:
  assumes "dir_rep bs es" and "dir_entry_new name inum = Inr de" and "utf8_valid name" and "0 \<notin> set name"
  shows "dir_rep (bs @ encode_dir_entry de) (es @ [(name, inum)])"
proof -
  note de = dir_entry_new_wf [OF assms(2)] dir_entry_name_of_new [OF assms(2-4)]
  have len: "length bs = DIR_ENTRY_SIZE * length es" using assms(1) by (simp add: dir_rep_def)
  have "dir_slot (bs @ encode_dir_entry de) i = (if i < length es then dir_slot bs i else encode_dir_entry de)"
    if "i < Suc (length es)" for i
  proof (cases "i < length es")
    case True
    then have "DIR_ENTRY_SIZE * Suc i \<le> length bs" unfolding len by (metis Suc_leI mult_le_mono2)
    with True show ?thesis by (simp add: dir_slot_append)
  next
    case False
    with that len de show ?thesis by (simp add: dir_slot_def get_slice_def less_Suc_eq)
  qed
  then show ?thesis using assms(1) de len by (auto simp: dir_rep_def nth_append less_Suc_eq)
qed

lemma map_of_first:
  assumes "fst (es ! k) = name" and "k < length es" and "\<forall>j < k. fst (es ! j) \<noteq> name"
  shows "map_of es name = Some (snd (es ! k))"
  using assms
proof (induction es arbitrary: k)
  case (Cons e es)
  then show ?case
  proof (cases k)
    case (Suc j)
    then have "fst e \<noteq> name" using Cons.prems(3) by force
    with Cons.IH [of j] Cons.prems Suc show ?thesis by (cases e) fastforce
  qed (cases e; simp)
qed simp

section \<open>Reading a directory\<close>

text \<open>The directory in cell \<open>a\<close>: its inode, its blocks and its entries.\<close>

definition dir_at :: "super_block \<Rightarrow> (u64 \<Rightarrow> bytes) \<Rightarrow> inode \<Rightarrow> dinode \<Rightarrow> (bytes \<times> u64) list \<Rightarrow> bool" where
  "dir_at sb D i d es \<longleftrightarrow>
     inode_at sb D i d \<and> file_ok sb D d (blocks_for (unat (di_size d))) \<and> di_type d = Directory \<and>
     unat (di_size d) \<le> N_DIRECT * BLOCK_SIZE \<and> dir_rep (dinode_content D d) es"

lemma dir_at_size: "dir_at sb D i d es \<Longrightarrow> inode_size i = DIR_ENTRY_SIZE * length es"
  by (auto simp: dir_at_def dir_rep_def inode_size_at)

lemma dir_at_loop:
  assumes "dir_at sb D i d es"
  shows "in_type i = Directory" and "inode_size i div DIR_ENTRY_SIZE = length es"
    and "length (encode_dir_entry dir_entry_empty) = DIR_ENTRY_SIZE"
proof -
  show "in_type i = Directory" using assms by (auto simp: dir_at_def inode_at_def inode_dinode_def dinode_new_def)
  show "inode_size i div DIR_ENTRY_SIZE = length es" using dir_at_size [OF assms] by (simp add: DIR_ENTRY_SIZE_def)
  show "length (encode_dir_entry dir_entry_empty) = DIR_ENTRY_SIZE" by (simp add: dir_entry_wf_def dir_entry_empty_def)
qed

context block_store
begin

lemma read_entry:
  assumes "at C R {} (fs_store fs)" and "1 < C" and R: "\<forall>b \<in> own d. R b"
    and dir: "dir_at (fs_sb fs) (view (fs_store fs)) (cell_inode fs a) d es"
    and "k < length es" and "length dirent = DIR_ENTRY_SIZE"
  shows "\<exists>s'. read_inode ops a (mul_usize DIR_ENTRY_SIZE k) dirent fs =
      Inr ((DIR_ENTRY_SIZE, dir_slot (dinode_content (view (fs_store fs)) d) k), fs\<lparr>fs_store := s'\<rparr>) \<and>
    at C R {} s' \<and> view s' = view (fs_store fs)"
proof -
  let ?D = "view (fs_store fs)"
  have rep: "dir_rep (dinode_content ?D d) es" and i: "inode_at (fs_sb fs) ?D (cell_inode fs a) d"
    and le: "unat (di_size d) \<le> N_DIRECT * BLOCK_SIZE" and ok: "file_ok (fs_sb fs) ?D d (blocks_for (unat (di_size d)))"
    using dir by (simp_all add: dir_at_def)
  have sz: "unat (di_size d) = DIR_ENTRY_SIZE * length es" using rep by (simp add: dir_rep_def)
  have k: "DIR_ENTRY_SIZE * k + DIR_ENTRY_SIZE \<le> unat (di_size d)"
    unfolding sz using assms(5) by (metis Suc_leI mult_Suc_right mult_le_mono2 add.commute)
  have off: "mul_usize DIR_ENTRY_SIZE k = DIR_ENTRY_SIZE * k"
    using k le by (simp add: mul_usize_def N_DIRECT_def BLOCK_SIZE_def)
  have "gives C R {} (dinode_read_data ops d (DIR_ENTRY_SIZE * k) dirent (fs_store fs))
    (DIR_ENTRY_SIZE, put_slice 0 (get_slice (DIR_ENTRY_SIZE * k) DIR_ENTRY_SIZE (dinode_content ?D d)) dirent) ?D"
  proof (rule read_data_gives [OF assms(1,2)])
    show "\<forall>idx. idx * BLOCK_SIZE < DIR_ENTRY_SIZE * k + DIR_ENTRY_SIZE \<longrightarrow> R (di_addresses d ! idx)"
      using file_ok_blocks(2) [OF ok R le] k by (meson less_le_trans)
  qed (use k le assms(6) in \<open>simp_all add: DIR_ENTRY_SIZE_def DIR_NAME_SIZE_def\<close>)
  then show ?thesis
    using length_dir_slot [OF rep assms(5)] assms(6) i
    by (auto simp: store_gives_def read_inode_def on_store_def off inode_at_def dir_slot_def)
qed

lemma look_up_loop_gives:
  assumes "1 < C" and "\<forall>b \<in> own d. R b" and "k \<le> length es" and "at C R {} (fs_store fs)" and "fs_sb fs = sb"
    and "dir_at sb (view (fs_store fs)) (cell_inode fs a) d es"
    and "length dirent = DIR_ENTRY_SIZE" and "\<forall>j < k. fst (es ! j) \<noteq> name"
  shows "\<exists>s'. look_up_loop ops a name [k..<length es] dirent fs =
      (case map_of es name of
         None \<Rightarrow> Inr (None, fs\<lparr>fs_store := s'\<rparr>)
       | Some inum \<Rightarrow> bindr (get_inode ops inum (fs\<lparr>fs_store := s'\<rparr>)) (\<lambda>(r, fs).
           case r of Inl _ \<Rightarrow> Inl Panic | Inr cell \<Rightarrow> Inr (Some cell, fs))) \<and>
    at C R {} s' \<and> view s' = view (fs_store fs)"
  using assms(3-)
proof (induction "length es - k" arbitrary: k fs dirent)
  case 0
  then have "map_of es name = None" by (fastforce simp: map_of_eq_None_iff in_set_conv_nth)
  then show ?case using 0 by (intro exI [of _ "fs_store fs"]) simp
next
  case (Suc m)
  then have k: "k < length es" and m: "m = length es - Suc k" by simp_all
  then have up: "[k..<length es] = k # [Suc k..<length es]" by (simp add: upt_conv_Cons)
  let ?bs = "dinode_content (view (fs_store fs)) d"
  have rep: "dir_rep ?bs es" using Suc.prems(4) by (simp add: dir_at_def)
  then have nm: "dir_entry_name (decode_dir_entry (dir_slot ?bs k)) = Inr (fst (es ! k))"
    "de_inode_num (decode_dir_entry (dir_slot ?bs k)) = snd (es ! k)" using k by (simp_all add: dir_rep_def)
  from read_entry [of C R fs d a es k dirent] assms(1,2) Suc.prems(2-5) k obtain s1 where
    rd: "read_inode ops a (mul_usize DIR_ENTRY_SIZE k) dirent fs = Inr ((DIR_ENTRY_SIZE, dir_slot ?bs k), fs\<lparr>fs_store := s1\<rparr>)"
      and s1: "at C R {} s1" "view s1 = view (fs_store fs)" by auto
  show ?case
  proof (cases "fst (es ! k) = name")
    case True
    have "map_of es name = Some (snd (es ! k))" using True k Suc.prems(6) by (rule map_of_first)
    then show ?thesis unfolding up using rd nm s1 True by (intro exI [of _ s1]) simp
  next
    case False
    from Suc.hyps(1) [of "Suc k" "fs\<lparr>fs_store := s1\<rparr>" "dir_slot ?bs k"] m Suc.prems k s1 False
      length_dir_slot [OF rep k] obtain s' where
      "look_up_loop ops a name [Suc k..<length es] (dir_slot ?bs k) (fs\<lparr>fs_store := s1\<rparr>) =
        (case map_of es name of
           None \<Rightarrow> Inr (None, fs\<lparr>fs_store := s'\<rparr>)
         | Some inum \<Rightarrow> bindr (get_inode ops inum (fs\<lparr>fs_store := s'\<rparr>)) (\<lambda>(r, fs).
             case r of Inl _ \<Rightarrow> Inl Panic | Inr cell \<Rightarrow> Inr (Some cell, fs)))" "at C R {} s'" "view s' = view (fs_store fs)"
      by (auto simp: less_Suc_eq cong: option.case_cong)
    then show ?thesis unfolding up using rd nm False by (intro exI [of _ s']) simp
  qed
qed

lemma children_loop_gives:
  assumes "1 < C" and "\<forall>b \<in> own d. R b" and "k \<le> length es" and "at C R {} (fs_store fs)" and "fs_sb fs = sb"
    and "dir_at sb (view (fs_store fs)) (cell_inode fs a) d es" and "length dirent = DIR_ENTRY_SIZE"
  shows "\<exists>s'. children_loop ops a [k..<length es] dirent ret fs = Inr (ret @ map fst (drop k es), fs\<lparr>fs_store := s'\<rparr>) \<and>
    at C R {} s' \<and> view s' = view (fs_store fs)"
  using assms(3-)
proof (induction "length es - k" arbitrary: k fs dirent ret)
  case 0
  then show ?case by (intro exI [of _ "fs_store fs"]) simp
next
  case (Suc m)
  then have k: "k < length es" and m: "m = length es - Suc k" by simp_all
  then have up: "[k..<length es] = k # [Suc k..<length es]" "drop k es = es ! k # drop (Suc k) es"
    by (simp_all add: upt_conv_Cons Cons_nth_drop_Suc)
  let ?bs = "dinode_content (view (fs_store fs)) d"
  have rep: "dir_rep ?bs es" using Suc.prems(4) by (simp add: dir_at_def)
  then have nm: "dir_entry_name (decode_dir_entry (dir_slot ?bs k)) = Inr (fst (es ! k))" using k by (simp add: dir_rep_def)
  from read_entry [of C R fs d a es k dirent] assms(1,2) Suc.prems(2-5) k obtain s1 where
    rd: "read_inode ops a (mul_usize DIR_ENTRY_SIZE k) dirent fs = Inr ((DIR_ENTRY_SIZE, dir_slot ?bs k), fs\<lparr>fs_store := s1\<rparr>)"
      and s1: "at C R {} s1" "view s1 = view (fs_store fs)" by auto
  from Suc.hyps(1) [of "Suc k" "fs\<lparr>fs_store := s1\<rparr>" "dir_slot ?bs k" "ret @ [fst (es ! k)]"] m Suc.prems k s1
    length_dir_slot [OF rep k] obtain s' where
    "children_loop ops a [Suc k..<length es] (dir_slot ?bs k) (ret @ [fst (es ! k)]) (fs\<lparr>fs_store := s1\<rparr>) =
      Inr (ret @ [fst (es ! k)] @ map fst (drop (Suc k) es), fs\<lparr>fs_store := s'\<rparr>)" "at C R {} s'" "view s' = view (fs_store fs)"
    by auto
  then show ?case unfolding up using rd nm by (intro exI [of _ s']) simp
qed

lemma look_up_gives:
  assumes "at C R {} (fs_store fs)" and "1 < C" and "\<forall>b \<in> own d. R b"
    and dir: "dir_at (fs_sb fs) (view (fs_store fs)) (cell_inode fs a) d es"
  shows "\<exists>s'. look_up ops a name fs =
      (case map_of es name of
         None \<Rightarrow> Inr (None, fs\<lparr>fs_store := s'\<rparr>)
       | Some inum \<Rightarrow> bindr (get_inode ops inum (fs\<lparr>fs_store := s'\<rparr>)) (\<lambda>(r, fs).
           case r of Inl _ \<Rightarrow> Inl Panic | Inr cell \<Rightarrow> Inr (Some cell, fs))) \<and>
    at C R {} s' \<and> view s' = view (fs_store fs)"
  using look_up_loop_gives [of C d R 0 es fs "fs_sb fs" a "encode_dir_entry dir_entry_empty" name] assms dir_at_loop [OF dir]
  by (simp add: look_up_def)

lemma list_children_gives:
  assumes "at C R {} (fs_store fs)" and "1 < C" and "\<forall>b \<in> own d. R b"
    and dir: "dir_at (fs_sb fs) (view (fs_store fs)) (cell_inode fs a) d es"
  shows "\<exists>s'. list_children ops a fs = Inr (map fst es, fs\<lparr>fs_store := s'\<rparr>)"
  using children_loop_gives [of C d R 0 es fs "fs_sb fs" a "encode_dir_entry dir_entry_empty" "[]"] assms dir_at_loop [OF dir]
  by (auto simp: list_children_def)

end

section \<open>Allocating an inode\<close>

text \<open>What the inode cache keeps when an entry is added.\<close>

definition kept :: "'d file_system \<Rightarrow> (u64 \<times> nat) list" where
  "kept fs = (if length (fs_icache fs) = fs_icapacity fs then butlast (fs_icache fs) else fs_icache fs)"

definition add_cell :: "u64 \<Rightarrow> inode \<Rightarrow> bool \<Rightarrow> 'd store \<Rightarrow> 'd file_system \<Rightarrow> 'd file_system" where
  "add_cell inum i l s fs = fs\<lparr>fs_store := s, fs_icache := (inum, length (fs_cells fs)) # kept fs,
     fs_cells := fs_cells fs @ [\<lparr>ic_inode = i, ic_locked = l\<rparr>]\<rparr>"

lemma add_cell_simps [simp]:
  "fs_sb (add_cell k i l s fs) = fs_sb fs" "fs_store (add_cell k i l s fs) = s"
  "length (fs_cells (add_cell k i l s fs)) = Suc (length (fs_cells fs))"
  "cell_inode (add_cell k i l s fs) (length (fs_cells fs)) = i"
  "a < length (fs_cells fs) \<Longrightarrow> cell_inode (add_cell k i l s fs) a = cell_inode fs a"
  "add_cell k i l s (fs\<lparr>fs_store := t\<rparr>) = add_cell k i l s fs"
  "(add_cell k i l s fs)\<lparr>fs_store := t\<rparr> = add_cell k i l t fs"
  by (simp_all add: add_cell_def kept_def nth_append)

lemma add_cell_ops [simp]:
  "lock_inode (length (fs_cells fs)) (add_cell k i False s fs) = Inr (add_cell k i True s fs)"
  "unlock_inode (length (fs_cells fs)) (add_cell k i l s fs) = add_cell k i False s fs"
  "set_cell (length (fs_cells fs)) j (add_cell k i l s fs) = add_cell k j l s fs"
  "a < length (fs_cells fs) \<Longrightarrow> set_cell a j (add_cell k i l s fs) = add_cell k i l s (set_cell a j fs)"
  by (simp_all add: add_cell_def kept_def lock_inode_def unlock_inode_def set_cell_def nth_append list_update_append)

definition fresh_dinode :: "inode_type \<Rightarrow> dinode" where
  "fresh_dinode ty = dinode_new ty 0 0 0 (replicate N_DIRECT 0)"

lemma initialize_fresh: "dinode_initialize ty d = fresh_dinode ty" "dinode_wf (fresh_dinode ty)"
  by (simp_all add: dinode_initialize_def fresh_dinode_def dinode_new_def dinode_wf_def)

lemma inode_dinode_new [simp]: "inode_dinode (inode_new b off n d) = d"
  by (simp add: inode_dinode_def inode_new_def dinode_new_def)

lemma cache_evict_kept: "0 < fs_icapacity fs \<Longrightarrow> inode_cache_evict fs = Inr (fs\<lparr>fs_icache := kept fs\<rparr>)"
  by (simp add: inode_cache_evict_def kept_def)

lemma set_kept: "set (kept fs) \<subseteq> set (fs_icache fs)"
  by (auto simp: kept_def dest: in_set_butlastD)

context block_store
begin

lemma cache_get_miss:
  assumes "at C R {} (fs_store fs)" and "1 < C" and sb: "sb_ok R (fs_sb fs)" and n: "n < inode_count (fs_sb fs)"
    and loc: "find_inode (fs_sb fs) (of_nat n) = (b, off)" and cap: "0 < fs_icapacity fs"
    and new: "of_nat n \<notin> fst ` set (fs_icache fs)" and dec: "decode_dinode (inode_slot (fs_sb fs) (view (fs_store fs)) n) = Inr d"
  shows "\<exists>s'. inode_cache_get ops (of_nat n) fs =
      Inr (Inr (length (fs_cells fs)), add_cell (of_nat n) (inode_new b off (of_nat n) d) False s' fs) \<and>
    at C R {} s' \<and> view s' = view (fs_store fs)"
proof -
  have un: "unat (of_nat n :: u64) = n" using n inode_count_max(2) [OF sb] by (simp add: unat_of_nat_u64)
  have le: "\<not> max_inode_num (fs_sb fs) < of_nat n" using n un inode_count_max(1) [OF sb] by (simp add: word_less_nat_alt)
  have b: "unat b < unat (sb_data_bmap_start (fs_sb fs))" "unat off = n mod 16 * 256"
    using find_inode_loc [OF sb n] loc by force+
  have off: "unat off + DINODE_SIZE \<le> BLOCK_SIZE" "unat off < BLOCK_SIZE"
    unfolding b(2) inode_sizes by (use mod_less_divisor [of 16 n] in linarith)+
  have R: "R b" using b(1) sb_okD(2,3) [OF sb] by simp
  have "gives C R {} (cache_read ops dinode_layout b off Inr (fs_store fs)) d (view (fs_store fs))"
    using cache_read_gives [OF assms(1) _ R, of off dinode_layout d Inr d] assms(2) off dec
    by (simp add: dinode_layout_def inode_slot_def loc)
  from gives_Inr [OF this] obtain s' where
    s': "cache_read ops dinode_layout b off Inr (fs_store fs) = Inr (d, s')" "at C R {} s'" "view s' = view (fs_store fs)" by blast
  have "List.extract (\<lambda>(id, _). id = of_nat n) (kept fs) = None"
    using new set_kept [of fs] by (force simp: extract_None_iff)
  then show ?thesis using le cap s'
    by (intro exI [of _ s']) (simp add: inode_cache_get_def cache_evict_kept inode_cache_find_def loc on_store_def add_cell_def)
qed

lemma allocate_inum_gives:
  assumes "at C R {} (fs_store fs)" and "1 < C" and sb: "sb_ok R (fs_sb fs)"
    and free: "m < inode_count (fs_sb fs)" "m \<notin> inode_used (view (fs_store fs)) (fs_sb fs)"
    and room: "inode_count (fs_sb fs) \<le> (unat (sb_inode_start (fs_sb fs)) - unat (sb_inode_bmap_start (fs_sb fs))) * BITMAP_PER_BLOCK"
  shows "\<exists>n s'. allocate_bmap ops (sb_inode_bmap_start (fs_sb fs)) (sb_inode_start (fs_sb fs)) fs =
      Inr (Some (of_nat n), fs\<lparr>fs_store := s'\<rparr>) \<and> at C R {} s' \<and>
    n < inode_count (fs_sb fs) \<and> n \<notin> inode_used (view (fs_store fs)) (fs_sb fs) \<and>
    {..<n} \<subseteq> inode_used (view (fs_store fs)) (fs_sb fs) \<and>
    inode_used (view s') (fs_sb fs) = insert n (inode_used (view (fs_store fs)) (fs_sb fs)) \<and>
    (\<forall>b. unat b < unat (sb_inode_bmap_start (fs_sb fs)) \<or> unat (sb_inode_start (fs_sb fs)) \<le> unat b \<longrightarrow>
      view s' b = view (fs_store fs) b)"
proof -
  let ?sb = "fs_sb fs" let ?D = "view (fs_store fs)"
  have le: "unat (sb_inode_bmap_start ?sb) \<le> unat (sb_inode_start ?sb)" using sb_okD(5) [OF sb] by simp
  have "\<forall>b. unat (sb_inode_bmap_start ?sb) \<le> unat b \<and> unat b < unat (sb_inode_start ?sb) \<longrightarrow> R b"
    using sb_okD(2,4) [OF sb] by (auto intro!: sb_okD(3) [OF sb])
  from allocate_bmap_gives [OF assms(1,2) le this] obtain r s' where
    r: "allocate_bmap ops (sb_inode_bmap_start ?sb) (sb_inode_start ?sb) fs = Inr (map_option of_nat r, fs\<lparr>fs_store := s'\<rparr>)"
      "at C R {} s'" "bmap_step ?D (sb_inode_bmap_start ?sb) (unat (sb_inode_start ?sb) - unat (sb_inode_bmap_start ?sb)) r (view s')"
    by blast
  have fr: "view s' b = ?D b" if "unat b < unat (sb_inode_bmap_start ?sb) \<or> unat (sb_inode_start ?sb) \<le> unat b" for b
    using bmap_step_frame [OF r(3) le] that by blast
  show ?thesis
  proof (cases r)
    case None
    with r(3) have "inode_used ?D ?sb = {..<(unat (sb_inode_start ?sb) - unat (sb_inode_bmap_start ?sb)) * BITMAP_PER_BLOCK}"
      by (simp add: bmap_step_def inode_used_def)
    with free room show ?thesis by auto
  next
    case (Some n)
    with r(3) have n: "n \<notin> inode_used ?D ?sb" "{..<n} \<subseteq> inode_used ?D ?sb" "inode_used (view s') ?sb = insert n (inode_used ?D ?sb)"
      by (simp_all add: bmap_step_def inode_used_def)
    then have "n \<le> m" using free(2) by (meson lessThan_iff not_le subsetD)
    then show ?thesis using r(1,2) Some n fr free(1) by (intro exI [of _ n] exI [of _ s']) simp
  qed
qed

lemma allocate_inode_gives:
  assumes "at C R {} (fs_store fs)" and C: "1 < C" and sb: "sb_ok R (fs_sb fs)"
    and free: "m < inode_count (fs_sb fs)" "m \<notin> inode_used (view (fs_store fs)) (fs_sb fs)"
    and room: "inode_count (fs_sb fs) \<le> (unat (sb_inode_start (fs_sb fs)) - unat (sb_inode_bmap_start (fs_sb fs))) * BITMAP_PER_BLOCK"
    and ic: "\<not> fs_ilocked fs" "0 < fs_icapacity fs" "\<forall>(k, c) \<in> set (fs_icache fs). unat k \<in> inode_used (view (fs_store fs)) (fs_sb fs)"
    and dec: "\<forall>k < inode_count (fs_sb fs). \<exists>d. decode_dinode (inode_slot (fs_sb fs) (view (fs_store fs)) k) = Inr d"
  shows "\<exists>n i s'. allocate_inode ops ty fs = Inr (Some (length (fs_cells fs)), add_cell (of_nat n) i False s' fs) \<and> at C R {} s' \<and>
    n < inode_count (fs_sb fs) \<and> n \<notin> inode_used (view (fs_store fs)) (fs_sb fs) \<and>
    {..<n} \<subseteq> inode_used (view (fs_store fs)) (fs_sb fs) \<and> in_inode_num i = of_nat n \<and>
    find_inode (fs_sb fs) (of_nat n) = (in_block_id i, in_block_offset i) \<and>
    inode_used (view s') (fs_sb fs) = insert n (inode_used (view (fs_store fs)) (fs_sb fs)) \<and>
    inode_at (fs_sb fs) (view s') i (fresh_dinode ty) \<and>
    (\<forall>k < inode_count (fs_sb fs). k \<noteq> n \<longrightarrow> inode_slot (fs_sb fs) (view s') k = inode_slot (fs_sb fs) (view (fs_store fs)) k) \<and>
    (\<forall>b. unat b < unat (sb_inode_bmap_start (fs_sb fs)) \<or> unat (sb_data_bmap_start (fs_sb fs)) \<le> unat b \<longrightarrow>
      view s' b = view (fs_store fs) b)"
proof -
  let ?sb = "fs_sb fs" let ?D = "view (fs_store fs)"
  from allocate_inum_gives [OF assms(1,2) sb free room] obtain n s1 where
    al: "allocate_bmap ops (sb_inode_bmap_start ?sb) (sb_inode_start ?sb) fs = Inr (Some (of_nat n), fs\<lparr>fs_store := s1\<rparr>)"
    and s1: "at C R {} s1" "n < inode_count ?sb" "n \<notin> inode_used ?D ?sb" "inode_used (view s1) ?sb = insert n (inode_used ?D ?sb)"
      "\<forall>b. unat b < unat (sb_inode_bmap_start ?sb) \<or> unat (sb_inode_start ?sb) \<le> unat b \<longrightarrow> view s1 b = ?D b"
      "{..<n} \<subseteq> inode_used ?D ?sb" by blast
  obtain b off where loc: "find_inode ?sb (of_nat n) = (b, off)" "unat b = unat (sb_inode_start ?sb) + n div 16"
    "unat off = n mod 16 * 256" "unat b < unat (sb_data_bmap_start ?sb)" using sb s1(2) by (rule find_inode_loc)
  have un: "unat (of_nat n :: u64) = n" using s1(2) inode_count_max(2) [OF sb] by (simp add: unat_of_nat_u64)
  have lt: "\<not> max_inode_num ?sb \<le> of_nat n" using s1(2) un inode_count_max(1) [OF sb] by (simp add: word_le_nat_alt)
  have slot1: "inode_slot ?sb (view s1) k = inode_slot ?sb ?D k" if "k < inode_count ?sb" for k
    using find_inode_loc [OF sb that] s1(5) by (force simp: inode_slot_def)
  obtain d where d: "decode_dinode (inode_slot ?sb (view s1) n) = Inr d" using dec s1(2) slot1 by force
  have new: "of_nat n \<notin> fst ` set (fs_icache fs)" using ic(3) s1(3) un by fastforce
  let ?fs1 = "fs\<lparr>fs_store := s1, fs_ilocked := True\<rparr>"
  from cache_get_miss [of C R ?fs1 n b off d] s1(1,2) C sb loc(1) ic(2) new d obtain s2 where
    get: "inode_cache_get ops (of_nat n) ?fs1 = Inr (Inr (length (fs_cells fs)), add_cell (of_nat n) (inode_new b off (of_nat n) d) False s2 ?fs1)"
    and s2: "at C R {} s2" "view s2 = view s1" by auto
  let ?i = "inode_new b off (of_nat n) d" let ?c = "length (fs_cells fs)"
  have in_loc: "in_block_id ?i = b" "in_block_offset ?i = off" "in_inode_num ?i = of_nat n" by (simp_all add: inode_new_def)
  have "unat off + DINODE_SIZE \<le> BLOCK_SIZE" unfolding loc(3) inode_sizes by (use mod_less_divisor [of 16 n] in linarith)
  then have at2: "inode_at ?sb (view s2) ?i d" using loc d by (simp add: inode_at_def in_loc inode_slot_def s2(2))
  from update_dinode_gives [of C R "add_cell (of_nat n) ?i True s2 ?fs1" ?c d "\<lambda>d s. Inr ((), dinode_initialize ty d, s)" "()"
      "fresh_dinode ty"] s2(1) C sb at2 initialize_fresh add_cell_simps(4) [of "of_nat n" ?i True s2 ?fs1]
    add_cell_ops(3) [of ?fs1 _ "of_nat n" ?i True s2] obtain s3 where
    up: "update_dinode ops ?c (\<lambda>d s. Inr ((), dinode_initialize ty d, s)) (add_cell (of_nat n) ?i True s2 ?fs1) =
        Inr ((), add_cell (of_nat n) (inode_update (fresh_dinode ty) ?i) True s3 ?fs1)"
    and s3: "at C R {} s3" "inode_at ?sb (view s3) (inode_update (fresh_dinode ty) ?i) (fresh_dinode ty)"
      "fs_frame ?sb b (unat off) (view s2) (view s3)" "\<forall>x. x \<noteq> b \<longrightarrow> view s3 x = view s2 x"
    by (auto simp: in_loc)
  have fin: "unlock_inode_cache (add_cell (of_nat n) (inode_update (fresh_dinode ty) ?i) False s3 ?fs1) =
      add_cell (of_nat n) (inode_update (fresh_dinode ty) ?i) False s3 fs"
    using ic(1) by (cases fs) (simp add: unlock_inode_cache_def add_cell_def kept_def)
  have run: "allocate_inode ops ty fs = Inr (Some ?c, add_cell (of_nat n) (inode_update (fresh_dinode ty) ?i) False s3 fs)"
    using al lt ic(1) get up fin add_cell_ops(1,2) [of ?fs1] by (simp add: allocate_inode_def lock_inode_cache_def)
  have "inode_used (view s3) ?sb = inode_used (view s1) ?sb"
    by (rule inode_used_cong) (use loc(2) s3(4) s2(2) in force)
  moreover have "inode_slot ?sb (view s3) k = inode_slot ?sb ?D k" if "k < inode_count ?sb" "k \<noteq> n" for k
    using inode_slot_frame [OF sb s1(2) that loc(1) s3(3)] slot1 [OF that(1)] s2(2) by simp
  moreover have "view s3 x = ?D x" if "unat x < unat (sb_inode_bmap_start ?sb) \<or> unat (sb_data_bmap_start ?sb) \<le> unat x" for x
  proof -
    have "x \<noteq> b" and "unat x < unat (sb_inode_bmap_start ?sb) \<or> unat (sb_inode_start ?sb) \<le> unat x"
      using that loc(2,4) sb_okD(5) [OF sb] by auto
    then show ?thesis using s3(4) s2(2) s1(5) by auto
  qed
  ultimately show ?thesis using run s1(2-4,6) s3(1,2) loc(1) in_loc
    by (intro exI [of _ n] exI [of _ "inode_update (fresh_dinode ty) ?i"] exI [of _ s3]) simp
qed

end

section \<open>Adding an entry\<close>

lemma dir_at_own: "dir_at sb D i d es \<Longrightarrow> own d \<subseteq> data_addrs D sb"
  using file_ok_blocks_used [of sb D d] by (simp add: dir_at_def own_def)

text \<open>A directory stays as it is when its slot, the data bitmap and the data blocks do.\<close>

lemma dir_at_cong:
  assumes dir: "dir_at sb D i d es" and sb: "sb_ok R sb" and n: "n < inode_count sb" "find_inode sb (of_nat n) = (in_block_id i, in_block_offset i)"
    and slot: "inode_slot sb D' n = inode_slot sb D n" and eq: "\<And>b. unat (sb_data_bmap_start sb) \<le> unat b \<Longrightarrow> D' b = D b"
  shows "dir_at sb D' i d es"
proof -
  let ?m = "blocks_for (unat (di_size d))"
  have ok: "file_ok sb D d ?m" using dir by (simp add: dir_at_def)
  then have m: "?m \<le> N_DIRECT" by (simp add: file_ok_def)
  have byte: "dinode_byte D' d p = dinode_byte D d p" if "p < ?m * BLOCK_SIZE" for p
  proof -
    have "unat (sb_data_bmap_start sb) \<le> unat (di_addresses d ! (p div BLOCK_SIZE))"
      using file_ok_block(1) [OF ok sb dinode_byte_direct(1) [OF that m]] sb_okD(2) [OF sb] by simp
    then show ?thesis using eq by (simp add: dinode_byte_direct(2) [OF that m])
  qed
  have "data_used D' sb = data_used D sb" by (rule data_used_cong) (rule eq)
  then have "file_ok sb D' d ?m" using byte by (intro file_ok_cong [OF ok]) simp_all
  moreover have "dinode_content D' d = dinode_content D d"
    using byte blocks_for_bound [of "unat (di_size d)"] by (auto simp: dinode_content_def)
  moreover have "inode_at sb D' i d" using dir slot inode_at_slot [OF sb n] by (simp add: dir_at_def)
  ultimately show ?thesis using dir by (simp add: dir_at_def)
qed

context block_store
begin

text \<open>The entry is written into the last bytes of a directory that has just grown.\<close>

lemma write_entry:
  assumes "at C R {} s" and "1 < C" and sb: "sb_ok R sb" and full: "data_in R sb"
    and i: "inode_at sb (view s) i d" and ok: "file_ok sb (view s) d (blocks_for (unat (di_size d)))" and ty: "di_type d = Directory"
    and le: "unat (di_size d) \<le> N_DIRECT * BLOCK_SIZE" and bs: "dinode_content (view s) d = bs @ replicate DIR_ENTRY_SIZE 0"
    and rep: "dir_rep bs es" and de: "dir_entry_new name inum = Inr de" "utf8_valid name" "0 \<notin> set name"
  shows "\<exists>s'. dinode_write_data ops d (length bs) (encode_dir_entry de) s = Inr (DIR_ENTRY_SIZE, s') \<and> at C R {} s' \<and>
    dir_at sb (view s') i d (es @ [(name, inum)]) \<and> (\<forall>b. b \<notin> own d \<longrightarrow> view s' b = view s b)"
proof -
  let ?m = "blocks_for (unat (di_size d))"
  have sz: "unat (di_size d) = length bs + DIR_ENTRY_SIZE" using bs length_dinode_content [of "view s" d] by simp
  have len: "length (encode_dir_entry de) = DIR_ENTRY_SIZE" using dir_entry_new_wf [OF de(1)] by simp
  have "\<forall>b \<in> own d. R b" using file_ok_blocks_used [OF ok] data_addrs_ge(2) [OF sb _ full] by (auto simp: own_def)
  note blk = file_ok_blocks [OF ok this le]
  have cap: "unat (di_size d) \<le> CAPACITY_PER_INODE"
    using le by (simp add: CAPACITY_PER_INODE_def MAX_BLOCKS_PER_INODE_def N_DIRECT_def BLOCK_SIZE_def)
  have "\<exists>D'. gives C R {} (dinode_write_data ops d (length bs) (encode_dir_entry de) s) DIR_ENTRY_SIZE D' \<and>
      dinode_written d (length bs) (length bs + DIR_ENTRY_SIZE) (\<lambda>p. encode_dir_entry de ! (p - length bs)) (view s) D'"
    by (rule write_data_written [OF assms(1,2) _ _ _ cap blk(1)]) (simp_all add: sz len, simp add: DIR_ENTRY_SIZE_def DIR_NAME_SIZE_def)
  then obtain s' where s': "dinode_write_data ops d (length bs) (encode_dir_entry de) s = Inr (DIR_ENTRY_SIZE, s')" "at C R {} s'"
    and wr: "dinode_written d (length bs) (unat (di_size d)) (\<lambda>p. encode_dir_entry de ! (p - length bs)) (view s) (view s')"
    unfolding sz by (auto simp: store_gives_def)
  have "map (\<lambda>p. encode_dir_entry de ! (p - length bs)) [length bs..<unat (di_size d)] = encode_dir_entry de"
    by (rule nth_equalityI) (simp_all add: sz len)
  then have "dinode_content (view s') d = bs @ encode_dir_entry de"
    using dinode_written_content [OF blk(1) wr] by (simp add: bs sz put_slice_def len)
  then have rep': "dir_rep (dinode_content (view s') d) (es @ [(name, inum)])" using dir_rep_append [OF rep de] by simp
  have "dinode_bid (view s) d ` {idx. length bs div BLOCK_SIZE \<le> idx \<and> idx * BLOCK_SIZE < unat (di_size d)} \<subseteq> own d"
    using file_ok_own [OF ok] by auto
  then have other: "view s' b = view s b" if "b \<notin> own d" for b using wr that unfolding dinode_written_def by blast
  have low: "view s' b = view s b" if "unat b < unat (sb_data_start sb)" for b
    using that file_ok_blocks_used [OF ok] data_addrs_ge(1) [OF sb] by (intro other) (fastforce simp: own_def)
  have "file_ok sb (view s') d ?m" by (rule written_file_ok [OF ok sb le wr]) simp
  moreover have "view s' (in_block_id i) = view s (in_block_id i)" using i low sb_okD(2) [OF sb] by (simp add: inode_at_def)
  then have "inode_at sb (view s') i d" using i by (simp add: inode_at_def)
  ultimately show ?thesis using s' rep' other ty le by (auto simp: dir_at_def)
qed

end

section \<open>Creating a file or directory\<close>

text \<open>
  A mounted file system between two calls: the inode bitmap is large enough and in step with
  the inode cache, and every slot of the inode area holds an inode.
\<close>

definition fs_ready :: "(u64 \<Rightarrow> bool) \<Rightarrow> (u64 \<Rightarrow> bytes) \<Rightarrow> 'd file_system \<Rightarrow> bool" where
  "fs_ready R D fs \<longleftrightarrow>
     sb_ok R (fs_sb fs) \<and> \<not> fs_ilocked fs \<and> 2 \<le> fs_icapacity fs \<and> length (fs_icache fs) \<le> fs_icapacity fs \<and>
     inode_count (fs_sb fs) \<le> (unat (sb_inode_start (fs_sb fs)) - unat (sb_inode_bmap_start (fs_sb fs))) * BITMAP_PER_BLOCK \<and>
     (\<forall>(k, c) \<in> set (fs_icache fs). unat k \<in> inode_used D (fs_sb fs)) \<and>
     (\<forall>k < inode_count (fs_sb fs). \<exists>d. decode_dinode (inode_slot (fs_sb fs) D k) = Inr d)"

text \<open>The inode of cell \<open>a\<close> is the allocated inode \<open>n\<close>, at its place on the disk.\<close>

definition holds_inode :: "(u64 \<Rightarrow> bytes) \<Rightarrow> 'd file_system \<Rightarrow> nat \<Rightarrow> nat \<Rightarrow> bool" where
  "holds_inode D fs a n \<longleftrightarrow>
     a < length (fs_cells fs) \<and> n < inode_count (fs_sb fs) \<and> n \<in> inode_used D (fs_sb fs) \<and>
     in_inode_num (cell_inode fs a) = of_nat n \<and>
     find_inode (fs_sb fs) (of_nat n) = (in_block_id (cell_inode fs a), in_block_offset (cell_inode fs a))"

text \<open>
  The four steps of creating a file: its inode is taken, the directory grows and the entry is
  written, and the inode's slot gets its link count.
\<close>

lemma created_rep:
  assumes F: "fs_rep sb D F" "F p = Some d" and sb: "sb_ok R sb" and n: "n < inode_count sb" "F n = None"
    and loc: "find_inode sb (of_nat p) = (in_block_id ip, in_block_offset ip)" "find_inode sb (of_nat n) = (b, off)"
    and D1: "\<forall>k. k < inode_count sb \<longrightarrow> k \<noteq> n \<longrightarrow> inode_slot sb D1 k = inode_slot sb D k"
      "inode_used D1 sb = insert n (inode_used D sb)" "decode_dinode (inode_slot sb D1 n) = Inr (fresh_dinode ty)"
      "\<forall>b. unat b < unat (sb_inode_bmap_start sb) \<or> unat (sb_data_bmap_start sb) \<le> unat b \<longrightarrow> D1 b = D b"
    and D2: "resized sb ip d D1 sz d' D2" "sz \<le> N_DIRECT * BLOCK_SIZE"
    and D3: "file_ok sb D3 d' (blocks_for (unat (di_size d')))" "\<forall>b. b \<notin> own d' \<longrightarrow> D3 b = D2 b"
    and D4: "fs_frame sb b (unat off) D3 D4" "\<forall>c. c \<noteq> b \<longrightarrow> D4 c = D3 c" "decode_dinode (inode_slot sb D4 n) = Inr e"
      "di_size e = di_size (fresh_dinode ty)" "di_addresses e = di_addresses (fresh_dinode ty)"
  shows "fs_rep sb D4 (F(p \<mapsto> d', n \<mapsto> e))" and "same_files F {p} D D4"
proof -
  have pn: "p \<noteq> n" using F(2) n(2) by auto
  have z: "di_size (fresh_dinode ty) = 0" by (simp add: fresh_dinode_def dinode_new_def)
  have "D1 SUPER_BLOCK_LOC = D SUPER_BLOCK_LOC" using sb_okD(6) [OF sb] D1(4) by (simp add: SUPER_BLOCK_LOC_def)
  moreover have "\<forall>b. unat (sb_data_bmap_start sb) \<le> unat b \<longrightarrow> D1 b = D b" using D1(4) by blast
  ultimately have r1: "fs_rep sb D1 (F(n \<mapsto> fresh_dinode ty))" "same_files F {n} D D1"
    using rep_new [OF F(1) sb n D1(1-3) initialize_fresh(2) z] by simp_all
  have "(F(n \<mapsto> fresh_dinode ty)) p = Some d" using F(2) pn by simp
  note r2 = rep_resized [OF r1(1) sb this loc(1) D2]
  have "(F(n \<mapsto> fresh_dinode ty, p \<mapsto> d')) p = Some d'" by simp
  note r3 = rep_written [OF r2(1) sb this D3(2,1)]
  have "(F(n \<mapsto> fresh_dinode ty, p \<mapsto> d')) n = Some (fresh_dinode ty)" using pn by simp
  note r4 = rep_slot [OF r3(1) sb this loc(2) D4]
  show "fs_rep sb D4 (F(p \<mapsto> d', n \<mapsto> e))" using r4(1) by (simp add: fun_upd_def cong: if_cong)
  have dom: "\<forall>k \<in> dom F - {p}. k \<notin> {n} \<and> k \<notin> {p}" using n(2) by auto
  have "same_files F {p} D D2" by (rule same_files_trans [OF r1(2) r2(2)]) (use dom in auto)
  from same_files_trans [OF this r3(2)] have "same_files F {p} D D3" using dom by auto
  from same_files_trans [OF this r4(2)] show "same_files F {p} D D4" using dom by auto
qed

text \<open>Names \<open>create_inode\<close> takes.\<close>

definition name_ok :: "bytes \<Rightarrow> bool" where
  "name_ok name \<longleftrightarrow> utf8_valid name \<and> 0 \<notin> set name \<and> length name \<le> DIR_NAME_SIZE \<and> (name = [] \<or> hd name \<noteq> 47)"

context block_store
begin

lemma grow_directory:
  assumes "at C R {} s" and C: "1 < C" and sb: "sb_ok R (fs_sb fs)" and full: "data_in R (fs_sb fs)" and a: "a < length (fs_cells fs)"
    and dir: "dir_at (fs_sb fs) (view s) (cell_inode fs a) d es"
    and fits: "DIR_ENTRY_SIZE * Suc (length es) \<le> N_DIRECT * BLOCK_SIZE"
    and free: "card (data_used (view s) (fs_sb fs)) +
      (blocks_for (DIR_ENTRY_SIZE * Suc (length es)) - blocks_for (DIR_ENTRY_SIZE * length es)) \<le> unat (sb_data_blocks (fs_sb fs))"
  shows "\<exists>d' s'. resize_inode ops a (DIR_ENTRY_SIZE * Suc (length es)) (add_cell k i l s fs) =
      Inr (Inr (), add_cell k i l s' (set_cell a (inode_update d' (cell_inode fs a)) fs)) \<and> at C R {} s' \<and>
    resized (fs_sb fs) (cell_inode fs a) d (view s) (DIR_ENTRY_SIZE * Suc (length es)) d' (view s')"
proof -
  have sz: "unat (di_size d) = DIR_ENTRY_SIZE * length es" using dir by (simp add: dir_at_def dir_rep_def)
  from resize_gives [of C R "add_cell k i l s fs" a d "DIR_ENTRY_SIZE * Suc (length es)"] assms sz
  show ?thesis by (auto simp: dir_at_def)
qed

lemma append_entry:
  assumes "at C R {} s" and C: "1 < C" and sb: "sb_ok R (fs_sb fs)" and full: "data_in R (fs_sb fs)" and a: "a < length (fs_cells fs)"
    and dir: "dir_at (fs_sb fs) D (cell_inode fs a) d es"
    and fits: "DIR_ENTRY_SIZE * Suc (length es) \<le> N_DIRECT * BLOCK_SIZE"
    and rs: "resized (fs_sb fs) (cell_inode fs a) d D (DIR_ENTRY_SIZE * Suc (length es)) d' (view s)"
    and de: "dir_entry_new name inum = Inr de" "utf8_valid name" "0 \<notin> set name"
  shows "\<exists>s'. write_inode ops a (DIR_ENTRY_SIZE * length es) (encode_dir_entry de)
      (add_cell k i l s (set_cell a (inode_update d' (cell_inode fs a)) fs)) =
      Inr (DIR_ENTRY_SIZE, add_cell k i l s' (set_cell a (inode_update d' (cell_inode fs a)) fs)) \<and> at C R {} s' \<and>
    dir_at (fs_sb fs) (view s') (inode_update d' (cell_inode fs a)) d' (es @ [(name, inum)]) \<and>
    (\<forall>b. b \<notin> own d' \<longrightarrow> view s' b = view s b)"
proof -
  let ?bs = "dinode_content D d"
  have rep: "dir_rep ?bs es" and ty: "di_type d = Directory" using dir by (simp_all add: dir_at_def)
  then have len: "unat (di_size d) = DIR_ENTRY_SIZE * length es" "length ?bs = DIR_ENTRY_SIZE * length es" by (simp_all add: dir_rep_def)
  have r: "inode_at (fs_sb fs) (view s) (inode_update d' (cell_inode fs a)) d'"
    "file_ok (fs_sb fs) (view s) d' (blocks_for (unat (di_size d')))" "unat (di_size d') = DIR_ENTRY_SIZE * Suc (length es)"
    "di_type d' = Directory" "dinode_content (view s) d' = ?bs @ replicate DIR_ENTRY_SIZE 0"
    using rs ty len(1) by (simp_all add: resized_def)
  have "cell_inode (set_cell a (inode_update d' (cell_inode fs a)) fs) a = inode_update d' (cell_inode fs a)" using a by simp
  moreover from write_entry [OF assms(1) C sb full r(1,2,4) _ r(5) rep de] r(3) fits len(2) obtain s' where
    "dinode_write_data ops d' (DIR_ENTRY_SIZE * length es) (encode_dir_entry de) s = Inr (DIR_ENTRY_SIZE, s')" "at C R {} s'"
    "dir_at (fs_sb fs) (view s') (inode_update d' (cell_inode fs a)) d' (es @ [(name, inum)])"
    "\<forall>b. b \<notin> own d' \<longrightarrow> view s' b = view s b" by auto
  ultimately show ?thesis using a by (intro exI [of _ s']) (simp add: write_inode_def on_store_def)
qed

text \<open>The slot of the new inode is not touched by the growth of the directory.\<close>

lemma new_slot_kept:
  assumes sb: "sb_ok R (fs_sb fs)" and n: "p < inode_count (fs_sb fs)" "n < inode_count (fs_sb fs)" "p \<noteq> n"
    and pl: "find_inode (fs_sb fs) (of_nat p) = (in_block_id (cell_inode fs a), in_block_offset (cell_inode fs a))"
    and i: "find_inode (fs_sb fs) (of_nat n) = (in_block_id i, in_block_offset i)" "inode_at (fs_sb fs) D1 i e"
    and rs: "resized (fs_sb fs) (cell_inode fs a) d D1 k d' D2" and dir: "dir_at (fs_sb fs) D3 j d' es"
    and D3: "\<forall>b. b \<notin> own d' \<longrightarrow> D3 b = D2 b"
  shows "inode_at (fs_sb fs) D3 i e"
proof -
  have "fs_frame (fs_sb fs) (in_block_id (cell_inode fs a)) (unat (in_block_offset (cell_inode fs a))) D1 D2" using rs by (simp add: resized_def)
  then have "inode_slot (fs_sb fs) D2 n = inode_slot (fs_sb fs) D1 n"
    using inode_slot_frame [OF sb n(1,2) _ pl] n(3) by simp
  moreover have "in_block_id i \<notin> own d'"
    using i(2) sb_okD(2) [OF sb] dir_at_own [OF dir] data_addrs_ge(1) [OF sb] by (fastforce simp: inode_at_def)
  ultimately have "inode_slot (fs_sb fs) D3 n = inode_slot (fs_sb fs) D1 n" using D3 i(1) by (simp add: inode_slot_def)
  then show ?thesis using i(2) inode_at_slot [OF sb n(2) i(1)] by simp
qed

text \<open>Counting the link to the new inode.\<close>

lemma link_new_inode:
  assumes "at C R {} s" and C: "1 < C" and sb: "sb_ok R (fs_sb fs)" and n: "p < inode_count (fs_sb fs)" "n < inode_count (fs_sb fs)" "p \<noteq> n"
    and pl: "find_inode (fs_sb fs) (of_nat p) = (in_block_id j, in_block_offset j)"
    and i: "find_inode (fs_sb fs) (of_nat n) = (in_block_id i, in_block_offset i)" "inode_at (fs_sb fs) (view s) i (fresh_dinode ty)"
    and dir: "dir_at (fs_sb fs) (view s) j d' es" and e: "e = (fresh_dinode ty)\<lparr>di_links_num := 1\<rparr>"
  shows "\<exists>s'. update_dinode ops (length (fs_cells fs)) (\<lambda>d s. Inr ((), d\<lparr>di_links_num := di_links_num d + 1\<rparr>, s)) (add_cell (of_nat n) i True s fs) =
      Inr ((), add_cell (of_nat n) (inode_update e i) True s' fs) \<and> at C R {} s' \<and>
    inode_at (fs_sb fs) (view s') (inode_update e i) e \<and> fs_frame (fs_sb fs) (in_block_id i) (unat (in_block_offset i)) (view s) (view s') \<and>
    (\<forall>b. b \<noteq> in_block_id i \<longrightarrow> view s' b = view s b) \<and> dir_at (fs_sb fs) (view s') j d' es"
proof -
  let ?sb = "fs_sb fs" let ?f = "\<lambda>d s. Inr ((), d\<lparr>di_links_num := di_links_num d + 1\<rparr>, s)"
  from update_dinode_gives [of C R "add_cell (of_nat n) i True s fs" "length (fs_cells fs)" "fresh_dinode ty" ?f "()" e] assms(1) C sb i(2)
    add_cell_simps(4) [of "of_nat n" i True s fs] add_cell_ops(3) [of fs _ "of_nat n" i True s] obtain s' where
    up: "update_dinode ops (length (fs_cells fs)) ?f (add_cell (of_nat n) i True s fs) = Inr ((), add_cell (of_nat n) (inode_update e i) True s' fs)"
    and s': "at C R {} s'" "inode_at ?sb (view s') (inode_update e i) e" "fs_frame ?sb (in_block_id i) (unat (in_block_offset i)) (view s) (view s')"
      "\<forall>b. b \<noteq> in_block_id i \<longrightarrow> view s' b = view s b"
    by (auto simp: e fresh_dinode_def dinode_new_def dinode_wf_def)
  have "dir_at ?sb (view s') j d' es"
  proof (rule dir_at_cong [OF dir sb n(1) pl])
    show "inode_slot ?sb (view s') p = inode_slot ?sb (view s) p" by (rule inode_slot_frame [OF sb n(2,1,3) i(1) s'(3)])
    show "view s' b = view s b" if "unat (sb_data_bmap_start ?sb) \<le> unat b" for b
      using that i(2) s'(4) by (metis inode_at_def not_le)
  qed
  with up s' show ?thesis by blast
qed

lemma create_inode_gives:
  assumes "at C R {} (fs_store fs)" and C: "1 < C" and ready: "fs_ready R (view (fs_store fs)) fs" and full: "data_in R (fs_sb fs)"
    and p: "holds_inode (view (fs_store fs)) fs a p"
    and dir: "dir_at (fs_sb fs) (view (fs_store fs)) (cell_inode fs a) d es"
    and name: "name_ok name" "name \<notin> fst ` set es"
    and fits: "DIR_ENTRY_SIZE * Suc (length es) \<le> N_DIRECT * BLOCK_SIZE"
    and free: "card (data_used (view (fs_store fs)) (fs_sb fs)) +
      (blocks_for (DIR_ENTRY_SIZE * Suc (length es)) - blocks_for (DIR_ENTRY_SIZE * length es)) \<le> unat (sb_data_blocks (fs_sb fs))"
    and ino: "m < inode_count (fs_sb fs)" "m \<notin> inode_used (view (fs_store fs)) (fs_sb fs)"
  shows "\<exists>n i d' s'. create_inode ops a name ty fs =
      Inr (Inr (length (fs_cells fs)), add_cell (of_nat n) i False s' (set_cell a (inode_update d' (cell_inode fs a)) fs)) \<and>
    at C R {} s' \<and> n < inode_count (fs_sb fs) \<and> in_inode_num i = of_nat n \<and> inode_dinode i = (fresh_dinode ty)\<lparr>di_links_num := 1\<rparr> \<and>
    find_inode (fs_sb fs) (of_nat n) = (in_block_id i, in_block_offset i) \<and>
    (\<forall>F. fs_rep (fs_sb fs) (view (fs_store fs)) F \<and> F p = Some d \<longrightarrow> F n = None \<and>
      fs_rep (fs_sb fs) (view s') (F(p \<mapsto> d', n \<mapsto> (fresh_dinode ty)\<lparr>di_links_num := 1\<rparr>)) \<and>
      same_files F {p} (view (fs_store fs)) (view s')) \<and>
    dir_at (fs_sb fs) (view s') (inode_update d' (cell_inode fs a)) d' (es @ [(name, of_nat n)])"
proof -
  let ?sb = "fs_sb fs" let ?D = "view (fs_store fs)" let ?a = "cell_inode fs a" let ?c = "length (fs_cells fs)"
  have sb: "sb_ok R ?sb" and a: "a < ?c" using ready p by (simp_all add: fs_ready_def holds_inode_def)
  have pl: "p < inode_count ?sb" "find_inode ?sb (of_nat p) = (in_block_id ?a, in_block_offset ?a)" "p \<in> inode_used ?D ?sb"
    using p by (simp_all add: holds_inode_def)
  have none: "map_of es name = None" using name(2) by (simp add: map_of_eq_None_iff)
  have own: "\<forall>b \<in> own d. R b" using dir_at_own [OF dir] data_addrs_ge(2) [OF sb _ full] by blast
  from look_up_gives [OF assms(1) C own dir, of name] none obtain s0 where
    lk: "look_up ops a name fs = Inr (None, fs\<lparr>fs_store := s0\<rparr>)" "at C R {} s0" "view s0 = ?D" by auto
  from allocate_inode_gives [of C R "fs\<lparr>fs_store := s0\<rparr>" m ty] lk(2,3) C ready ino obtain n i s1 where
    al: "allocate_inode ops ty (fs\<lparr>fs_store := s0\<rparr>) = Inr (Some ?c, add_cell (of_nat n) i False s1 fs)"
    and s1: "at C R {} s1" "n < inode_count ?sb" "n \<notin> inode_used ?D ?sb" "in_inode_num i = of_nat n"
      "find_inode ?sb (of_nat n) = (in_block_id i, in_block_offset i)" "inode_at ?sb (view s1) i (fresh_dinode ty)"
      "\<forall>k < inode_count ?sb. k \<noteq> n \<longrightarrow> inode_slot ?sb (view s1) k = inode_slot ?sb ?D k"
      "\<forall>b. unat b < unat (sb_inode_bmap_start ?sb) \<or> unat (sb_data_bmap_start ?sb) \<le> unat b \<longrightarrow> view s1 b = ?D b"
      "inode_used (view s1) ?sb = insert n (inode_used ?D ?sb)"
    by (auto simp: fs_ready_def)
  have pn: "p \<noteq> n" using pl(3) s1(3) by blast
  have dir1: "dir_at ?sb (view s1) ?a d es"
    by (rule dir_at_cong [OF dir sb pl(1,2)]) (use s1(7,8) pl(1) pn in auto)
  let ?off = "DIR_ENTRY_SIZE * length es"
  have "data_used (view s1) ?sb = data_used ?D ?sb" by (rule data_used_cong) (use s1(8) in simp)
  with grow_directory [OF s1(1) C sb full a dir1 fits, of "of_nat n" i False] free obtain d' s2 where
    rs: "resize_inode ops a (DIR_ENTRY_SIZE * Suc (length es)) (add_cell (of_nat n) i False s1 fs) =
        Inr (Inr (), add_cell (of_nat n) i False s2 (set_cell a (inode_update d' ?a) fs))"
    and s2: "at C R {} s2" "resized ?sb ?a d (view s1) (DIR_ENTRY_SIZE * Suc (length es)) d' (view s2)" by auto
  let ?fs = "set_cell a (inode_update d' ?a) fs"
  obtain de where de: "dir_entry_new name (of_nat n) = Inr de" using name(1) by (simp add: dir_entry_new_def name_ok_def)
  from append_entry [OF s2(1) C sb full a dir1 fits s2(2) de, of "of_nat n" i True] name(1) obtain s3 where
    wr: "write_inode ops a ?off (encode_dir_entry de) (add_cell (of_nat n) i True s2 ?fs) = Inr (DIR_ENTRY_SIZE, add_cell (of_nat n) i True s3 ?fs)"
    and s3: "at C R {} s3" "dir_at ?sb (view s3) (inode_update d' ?a) d' (es @ [(name, of_nat n)])"
      "\<forall>b. b \<notin> own d' \<longrightarrow> view s3 b = view s2 b" by (auto simp: name_ok_def)
  have i3: "inode_at ?sb (view s3) i (fresh_dinode ty)"
    by (rule new_slot_kept [OF sb pl(1) s1(2) pn pl(2) s1(5,6) s2(2) s3(2,3)])
  let ?d = "(fresh_dinode ty)\<lparr>di_links_num := 1\<rparr>"
  from link_new_inode [where fs = ?fs and p = p and j = "inode_update d' ?a" and n = n and i = i and ty = ty and d' = d' and es = "es @ [(name, of_nat n)]" and e = ?d, OF s3(1) C] sb pl(1,2) s1(2,5) pn i3 s3(2) obtain s4 where
    up: "update_dinode ops ?c (\<lambda>d s. Inr ((), d\<lparr>di_links_num := di_links_num d + 1\<rparr>, s)) (add_cell (of_nat n) i True s3 ?fs) =
        Inr ((), add_cell (of_nat n) (inode_update ?d i) True s4 ?fs)"
    and s4: "at C R {} s4" "inode_at ?sb (view s4) (inode_update ?d i) ?d" "fs_frame ?sb (in_block_id i) (unat (in_block_offset i)) (view s3) (view s4)"
      "\<forall>b. b \<noteq> in_block_id i \<longrightarrow> view s4 b = view s3 b" "dir_at ?sb (view s4) (inode_update d' ?a) d' (es @ [(name, of_nat n)])"
    by auto
  have off: "inode_size ?a = ?off" "add_usize ?off DIR_ENTRY_SIZE = DIR_ENTRY_SIZE * Suc (length es)"
    "inode_size (inode_update d' ?a) = DIR_ENTRY_SIZE * Suc (length es)"
    using dir_at_size [OF dir] fits s2(2) by (simp_all add: inode_size_def resized_def N_DIRECT_def BLOCK_SIZE_def)
  have "cell_inode ?fs a = inode_update d' ?a" using a by simp
  moreover note add_cell_ops(1,2) [of ?fs, simplified] add_cell_simps(4) [of _ _ _ _ ?fs, simplified]
  moreover have "\<not> (name \<noteq> [] \<and> hd name = 47)" using name(1) by (auto simp: name_ok_def)
  ultimately have "create_inode ops a name ty fs = Inr (Inr ?c, add_cell (of_nat n) (inode_update ?d i) False s4 ?fs)"
    using dir_at_loop(1) [OF dir] lk(1) al a rs off de wr up s1(4)
    by (simp add: create_inode_def Let_def del: mult_Suc_right)
  moreover have "F n = None \<and> fs_rep ?sb (view s4) (F(p \<mapsto> d', n \<mapsto> ?d)) \<and> same_files F {p} ?D (view s4)"
    if F: "fs_rep ?sb ?D F" "F p = Some d" for F
  proof -
    have n: "F n = None" using F(1) s1(3) by (auto simp: fs_rep_def)
    have e: "decode_dinode (inode_slot ?sb (view s1) n) = Inr (fresh_dinode ty)" "decode_dinode (inode_slot ?sb (view s4) n) = Inr ?d"
      using inode_at_slot [OF sb s1(2)] s1(5,6) s4(2) by simp_all
    have "file_ok ?sb (view s3) d' (blocks_for (unat (di_size d')))" using s3(2) by (simp add: dir_at_def)
    then show ?thesis
      using created_rep [OF F sb s1(2) n pl(2) s1(5) _ s1(9) e(1) s1(8) s2(2) fits _ s3(3) s4(3,4) e(2)] s1(7) n
      by (simp add: fresh_dinode_def dinode_new_def)
  qed
  ultimately show ?thesis using s4(1,5) s1(2,4,5)
    by (intro exI [of _ n] exI [of _ "inode_update ?d i"] exI [of _ d'] exI [of _ s4]) simp
qed

end

text \<open>The inode that was added last is found in the cache again.\<close>

lemma get_inode_added:
  assumes "\<not> fs_ilocked fs" and "2 \<le> fs_icapacity fs" and "length (fs_icache fs) \<le> fs_icapacity fs"
    and "k \<le> max_inode_num (fs_sb fs)"
  shows "\<exists>fs'. get_inode ops k (add_cell k i l s fs) = Inr (Inr (length (fs_cells fs)), fs')"
proof -
  let ?fs = "(add_cell k i l s fs)\<lparr>fs_ilocked := True\<rparr>"
  have "\<exists>rest. kept ?fs = (k, length (fs_cells fs)) # rest"
  proof (cases "length (fs_icache ?fs) = fs_icapacity ?fs")
    case True
    then have "kept fs \<noteq> []" using assms(2) by (auto simp: add_cell_def)
    then show ?thesis by (auto simp: kept_def add_cell_def)
  qed (simp add: kept_def add_cell_def)
  then obtain rest where "inode_cache_evict ?fs = Inr (?fs\<lparr>fs_icache := (k, length (fs_cells fs)) # rest\<rparr>)"
    using cache_evict_kept [of ?fs] assms(2) by (auto simp: add_cell_def)
  then have "\<exists>fs'. inode_cache_get ops k ?fs = Inr (Inr (length (fs_cells fs)), fs')"
    using assms(4) by (simp add: inode_cache_get_def inode_cache_find_def extract_Cons_code not_less [symmetric] del: not_less)
  then show ?thesis using assms(1) by (auto simp: get_inode_def lock_inode_cache_def add_cell_def)
qed

section \<open>Property of directories\<close>

text \<open>
  C5: Creating a file or a directory makes it findable. In a directory with room and with an
  inode and the data blocks free that it needs, \<open>create_inode\<close> under a new name succeeds; it
  returns a new handle to an empty inode of the type asked for; \<open>list_children\<close> then gives the
  old names followed by the new one, \<open>look_up\<close> of the name returns that very handle, and
  creating the name once more is refused as existing. In a consistent file system no file
  but the directory changes its content.
\<close>

theorem create_then_look_up:
  assumes "store_at (\<lambda>_. True) bf_block bf_in_range C R {} (fs_store fs)" and "1 < C"
    and "fs_ready R (st_view bf_block (fs_store fs)) fs" and "data_in R (fs_sb fs)" and "holds_inode (st_view bf_block (fs_store fs)) fs a p"
    and "dir_at (fs_sb fs) (st_view bf_block (fs_store fs)) (cell_inode fs a) d es"
    and "name_ok name" and "name \<notin> fst ` set es" and "DIR_ENTRY_SIZE * Suc (length es) \<le> N_DIRECT * BLOCK_SIZE"
    and "card (data_used (st_view bf_block (fs_store fs)) (fs_sb fs)) +
      (blocks_for (DIR_ENTRY_SIZE * Suc (length es)) - blocks_for (DIR_ENTRY_SIZE * length es)) \<le> unat (sb_data_blocks (fs_sb fs))"
    and "m < inode_count (fs_sb fs)" and "m \<notin> inode_used (st_view bf_block (fs_store fs)) (fs_sb fs)"
  shows "\<exists>c fs'. create_inode block_file_ops a name ty fs = Inr (Inr c, fs') \<and>
    length (fs_cells fs) \<le> c \<and> in_type (cell_inode fs' c) = ty \<and> inode_size (cell_inode fs' c) = 0 \<and>
    (\<exists>fs''. list_children block_file_ops a fs' = Inr (map fst es @ [name], fs'')) \<and>
    (\<exists>fs''. look_up block_file_ops a name fs' = Inr (Some c, fs'')) \<and>
    (\<exists>fs''. create_inode block_file_ops a name ty' fs' = Inr (Inl (AlreadyExist name ty'), fs'')) \<and>
    (\<forall>F. fs_rep (fs_sb fs) (st_view bf_block (fs_store fs)) F \<and> F p = Some d \<longrightarrow>
      same_files F {p} (st_view bf_block (fs_store fs)) (st_view bf_block (fs_store fs')))"
proof -
  from bfs.create_inode_gives [OF assms] obtain n i d' s' where
    cr: "create_inode block_file_ops a name ty fs =
        Inr (Inr (length (fs_cells fs)), add_cell (of_nat n) i False s' (set_cell a (inode_update d' (cell_inode fs a)) fs))"
    and s': "bfs.at C R {} s'" "n < inode_count (fs_sb fs)" "inode_dinode i = (fresh_dinode ty)\<lparr>di_links_num := 1\<rparr>"
      "dir_at (fs_sb fs) (bfs.view s') (inode_update d' (cell_inode fs a)) d' (es @ [(name, of_nat n)])"
      "\<forall>F. fs_rep (fs_sb fs) (bfs.view (fs_store fs)) F \<and> F p = Some d \<longrightarrow> same_files F {p} (bfs.view (fs_store fs)) (bfs.view s')"
    by blast
  let ?g = "set_cell a (inode_update d' (cell_inode fs a)) fs" let ?fs' = "add_cell (of_nat n) i False s' ?g"
  have a: "a < length (fs_cells fs)" and sb: "sb_ok R (fs_sb fs)" using assms(3,5) by (simp_all add: fs_ready_def holds_inode_def)
  have cells: "cell_inode ?fs' a = inode_update d' (cell_inode fs a)" "cell_inode ?fs' (length (fs_cells fs)) = i"
    using a add_cell_simps(4) [of "of_nat n" i False s' ?g] by simp_all
  have dir': "dir_at (fs_sb ?fs') (bfs.view (fs_store ?fs')) (cell_inode ?fs' a) d' (es @ [(name, of_nat n)])"
    using s'(4) cells(1) by simp
  have at': "bfs.at C R {} (fs_store ?fs')" using s'(1) by simp
  have own: "\<forall>b \<in> own d'. R b" using dir_at_own [OF s'(4)] data_addrs_ge(2) [OF sb _ assms(4)] by blast
  have "map_of es name = None" using assms(8) by (simp add: map_of_eq_None_iff)
  then have mo: "map_of (es @ [(name, of_nat n)]) name = Some (of_nat n)" by (simp add: map_add_def)
  have "unat (of_nat n :: u64) = n" using s'(2) inode_count_max(2) [OF sb] by (simp add: unat_of_nat_u64)
  then have "of_nat n \<le> max_inode_num (fs_sb ?g)" using s'(2) inode_count_max(1) [OF sb] by (simp add: word_le_nat_alt)
  then have hit: "\<exists>fs''. get_inode block_file_ops (of_nat n) (add_cell (of_nat n) i False t ?g) = Inr (Inr (length (fs_cells fs)), fs'')" for t
    using get_inode_added [of ?g "of_nat n" block_file_ops i False t] assms(3) by (auto simp: fs_ready_def set_cell_def)
  from bfs.look_up_gives [OF at' assms(2) own dir', of name] mo obtain t where
    "look_up block_file_ops a name ?fs' = bindr (get_inode block_file_ops (of_nat n) (add_cell (of_nat n) i False t ?g))
      (\<lambda>(r, fs). case r of Inl _ \<Rightarrow> Inl Panic | Inr cell \<Rightarrow> Inr (Some cell, fs))" by auto
  with hit [of t] have look: "\<exists>fs''. look_up block_file_ops a name ?fs' = Inr (Some (length (fs_cells fs)), fs'')" by auto
  moreover have "\<not> (name \<noteq> [] \<and> hd name = 47)" using assms(7) by (auto simp: name_ok_def)
  then have "\<exists>fs''. create_inode block_file_ops a name ty' ?fs' = Inr (Inl (AlreadyExist name ty'), fs'')"
    using look dir_at_loop(1) [OF dir'] by (auto simp: create_inode_def)
  moreover have "\<exists>fs''. list_children block_file_ops a ?fs' = Inr (map fst es @ [name], fs'')"
    using bfs.list_children_gives [OF at' assms(2) own dir'] by auto
  moreover have "in_type i = ty" "in_size i = 0"
    using arg_cong [OF s'(3), of di_type] arg_cong [OF s'(3), of di_size] by (simp_all add: inode_dinode_def fresh_dinode_def dinode_new_def)
  ultimately show ?thesis using cr cells(2) s'(5)
    by (intro exI [of _ "length (fs_cells fs)"] exI [of _ ?fs']) (simp add: inode_size_def)
qed

text \<open>A small formatted disk with an empty root directory.\<close>

definition demo_disk :: block_file where
  "demo_disk = \<lparr>bf_data = replicate 8192 0 @ (1 # replicate 4095 0) @ (2 # replicate 4095 0) @ replicate 16384 0, bf_pos = 0\<rparr>"

definition demo_fs :: "block_file file_system" where
  "demo_fs = \<lparr>fs_sb = super_block_new 8 2 3 1 4 5 3, fs_store = block_cache_buffer_new 2 demo_disk, fs_icache = [],
     fs_icapacity = 64, fs_ilocked = False,
     fs_cells = [\<lparr>ic_inode = inode_new 3 0 0 (dinode_new Directory 0 0 0 (replicate N_DIRECT 0)), ic_locked = True\<rparr>]\<rparr>"

lemma demo_blocks:
  "bf_block demo_disk 2 = 1 # replicate 4095 0" "bf_block demo_disk 3 = 2 # replicate 4095 0" "bf_block demo_disk 4 = replicate 4096 0"
  by (simp_all add: bf_block_def bf_in_range_def demo_disk_def get_slice_def BLOCK_SIZE_def)

lemma decode_dinode_type: "decode_dinode (2 # replicate 255 0) = Inr (dinode_new Directory 0 0 0 (replicate N_DIRECT 0))"
proof -
  have z: "replicate DINODE_SIZE 0 = (0 :: u8) # replicate 255 0" by (simp add: inode_sizes numeral_eq_Suc)
  have u: "u64_at off (2 # xs) = u64_at off (0 # xs)" if "0 < off" for off xs
    using that by (cases off) (simp_all add: u64_at_def get_slice_def)
  then have "u64s_at 32 N_DIRECT (2 # xs) = u64s_at 32 N_DIRECT (0 # xs)" for xs by (simp add: u64s_at_def)
  with u decode_dinode_zero show ?thesis
    unfolding z by (simp add: decode_dinode_def decode_inode_type_def dinode_new_def)
qed

lemma demo_sb: "sb_ok (bf_in_range demo_disk) (fs_sb demo_fs)" "inode_count (fs_sb demo_fs) = 16" "data_in (bf_in_range demo_disk) (fs_sb demo_fs)"
proof -
  have "bf_in_range demo_disk b" if "unat b < 8" for b using that by (simp add: bf_in_range_def demo_disk_def BLOCK_SIZE_def)
  then show "sb_ok (bf_in_range demo_disk) (fs_sb demo_fs)" "data_in (bf_in_range demo_disk) (fs_sb demo_fs)"
    by (simp_all add: sb_ok_def data_in_def demo_fs_def super_block_new_def BITMAP_PER_BLOCK_def inode_sizes)
  show "inode_count (fs_sb demo_fs) = 16" by (simp add: inode_count_def demo_fs_def super_block_new_def inode_sizes)
qed

lemma demo_slot:
  assumes "k < 16"
  shows "inode_slot (fs_sb demo_fs) (bf_block demo_disk) k = (if k = 0 then 2 # replicate 255 0 else replicate 256 0)"
proof -
  have "k < inode_count (fs_sb demo_fs)" using assms demo_sb(2) by simp
  then obtain b off where loc: "find_inode (fs_sb demo_fs) (of_nat k) = (b, off)" "unat b = unat (sb_inode_start (fs_sb demo_fs)) + k div 16"
    "unat off = k mod 16 * 256" using find_inode_loc [OF demo_sb(1)] by metis
  have "unat b = 3" using loc(2) assms by (simp add: demo_fs_def super_block_new_def)
  then have b: "b = 3" by (simp add: u64_eq_iff_unat)
  show ?thesis
  proof (cases "k = 0")
    case False
    then obtain j where j: "k * 256 = Suc j" by (cases "k * 256") simp_all
    have "get_slice (k * 256) 256 (2 # replicate 4095 0) = (replicate 256 0 :: bytes)"
      using assms j by (simp add: get_slice_def)
    then show ?thesis using False loc assms by (simp add: inode_slot_def b demo_blocks inode_sizes)
  next
    case True
    have "get_slice 0 256 (2 # replicate 4095 0) = (2 # replicate 255 0 :: bytes)" by (simp add: get_slice_def take_Cons')
    then show ?thesis using True loc assms by (simp add: inode_slot_def b demo_blocks inode_sizes)
  qed
qed

lemma bmap_used_one: "bmap_used D start 1 = {n \<in> bitmap_used (D start). n < BITMAP_PER_BLOCK}"
  by (auto simp: bmap_used_def)

lemma demo_used:
  "inode_used (bf_block demo_disk) (fs_sb demo_fs) = {0}" "data_used (bf_block demo_disk) (fs_sb demo_fs) = {}"
proof -
  have z: "replicate 4096 0 = (0 # replicate 4095 0 :: bytes)" using replicate_Suc [of 4095 "0 :: u8"] by simp
  have "bitmap_used ((replicate 4096 0)[0 := replicate 4096 0 ! 0 OR push_bit 0 1]) = insert (0 * 8 + 0) (bitmap_used (replicate 4096 0))"
    by (rule bitmap_used_set) simp_all
  then have u: "bitmap_used (1 # replicate 4095 0) = {0}" unfolding bitmap_used_zero by (simp add: z)
  have b: "(0 :: nat) < BITMAP_PER_BLOCK" by (simp add: BITMAP_PER_BLOCK_def BLOCK_SIZE_def)
  have "inode_used (bf_block demo_disk) (fs_sb demo_fs) = bmap_used (bf_block demo_disk) 2 1"
    by (simp add: inode_used_def demo_fs_def super_block_new_def)
  then show "inode_used (bf_block demo_disk) (fs_sb demo_fs) = {0}" unfolding bmap_used_one demo_blocks u using b by auto
  have "bmap_used (bf_block demo_disk) 4 1 = {}" unfolding bmap_used_one demo_blocks bitmap_used_zero by simp
  then show "data_used (bf_block demo_disk) (fs_sb demo_fs) = {}" by (simp add: data_used_def demo_fs_def super_block_new_def)
qed

theorem create_then_look_up_witness:
  "\<exists>c fs'. create_inode block_file_ops 0 [98, 105, 110] Directory demo_fs = Inr (Inr c, fs') \<and>
    (\<exists>fs''. list_children block_file_ops 0 fs' = Inr ([[98, 105, 110]], fs'')) \<and>
    (\<exists>fs''. look_up block_file_ops 0 [98, 105, 110] fs' = Inr (Some c, fs'')) \<and>
    (\<exists>fs''. create_inode block_file_ops 0 [98, 105, 110] File fs' = Inr (Inl (AlreadyExist [98, 105, 110] File), fs''))"
proof -
  let ?d = "dinode_new Directory 0 0 0 (replicate N_DIRECT 0)"
  have at: "store_at (\<lambda>_. True) bf_block bf_in_range 2 (bf_in_range demo_disk) {} (fs_store demo_fs)"
    and v: "st_view bf_block (fs_store demo_fs) = bf_block demo_disk"
    using bfs.new_at [of 2 demo_disk] by (simp_all add: demo_fs_def)
  have "\<exists>d. decode_dinode (inode_slot (fs_sb demo_fs) (bf_block demo_disk) k) = Inr d" if "k < 16" for k
    using demo_slot [OF that] decode_dinode_type decode_dinode_zero by (auto simp: inode_sizes)
  then have ready: "fs_ready (bf_in_range demo_disk) (bf_block demo_disk) demo_fs"
    using demo_sb by (simp add: fs_ready_def) (simp add: demo_fs_def super_block_new_def BITMAP_PER_BLOCK_def BLOCK_SIZE_def)
  have loc: "find_inode (fs_sb demo_fs) (of_nat 0) = (in_block_id (cell_inode demo_fs 0), in_block_offset (cell_inode demo_fs 0))"
    by (simp add: find_inode_def demo_fs_def super_block_new_def inode_new_def)
  have h: "holds_inode (bf_block demo_disk) demo_fs 0 0"
    using loc demo_sb(2) demo_used(1) by (simp add: holds_inode_def) (simp add: demo_fs_def inode_new_def)
  have "inode_at (fs_sb demo_fs) (bf_block demo_disk) (cell_inode demo_fs 0) ?d"
    using inode_at_slot [OF demo_sb(1) _ loc] demo_sb(2) demo_slot [of 0] decode_dinode_type by (simp add: demo_fs_def)
  then have dir: "dir_at (fs_sb demo_fs) (bf_block demo_disk) (cell_inode demo_fs 0) ?d []"
    by (simp add: dir_at_def dir_rep_def file_ok_def dinode_wf_def dinode_new_def dinode_content_def blocks_for_def BLOCK_SIZE_def)
  have nm: "name_ok [98, 105, 110]" by (simp add: name_ok_def DIR_NAME_SIZE_def word_le_nat_alt)
  have sz: "DIR_ENTRY_SIZE * Suc (length []) \<le> N_DIRECT * BLOCK_SIZE" "unat (sb_data_blocks (fs_sb demo_fs)) = 3"
    "blocks_for (DIR_ENTRY_SIZE * Suc (length [])) = 1" "blocks_for (DIR_ENTRY_SIZE * length []) = 0"
    by (simp_all add: DIR_ENTRY_SIZE_def DIR_NAME_SIZE_def N_DIRECT_def BLOCK_SIZE_def demo_fs_def super_block_new_def blocks_for_def)
  from create_then_look_up [of 2 "bf_in_range demo_disk" demo_fs 0 0 ?d "[]" "[98, 105, 110]" 1 Directory File]
  show ?thesis using at ready h dir nm sz demo_used demo_sb(2,3) unfolding v by simp blast
qed

end
