(* ===== verification/Fs_Format.thy ===== *)
theory Fs_Format
  imports Fs_Dir
begin

text \<open>
  Formatting and mounting (\<open>open\<close>, \<open>init_fs\<close>, \<open>create\<close> and \<open>root\<close> of \<open>fs/src/lib.rs\<close>): a new
  file system is consistent and holds an empty root directory.
\<close>

section \<open>Clean caches\<close>

text \<open>
  Formatting works with two caches on one device. The first one lives on while the second
  one writes; that is harmless because it is clean.
\<close>

definition clean :: "'d store \<Rightarrow> bool" where
  "clean s \<longleftrightarrow> (\<forall>sl \<in> set (st_buffer s). \<not> bc_modified (sl_block sl))"

lemma clean_get:
  assumes "block_cache_buffer_get ops b s = Inr s'" and "clean s"
  shows "clean s'"
proof (cases "slot_lookup b (st_buffer s)")
  case None
  from None assms(1) obtain s1 where
    s1: "(if length (st_buffer s) = st_capacity s then block_cache_buffer_recycle ops s else Inr s) = Inr s1"
    and s': "bindr (block_cache_new ops b (st_dev s1)) (\<lambda>(block, dev). Inr (s1\<lparr>st_dev := dev, st_buffer := st_buffer s1 @
      [\<lparr>sl_id = b, sl_block = block, sl_strong = 2, sl_locked = False\<rparr>]\<rparr>)) = Inr s'"
    by (auto simp: block_cache_buffer_get_def bindr_eq_Inr)
  have "set (st_buffer s1) \<subseteq> set (st_buffer s)"
    using s1 by (auto simp: block_cache_buffer_recycle_def bindr_eq_Inr extract_Some_iff split: if_splits option.splits)
  then have "clean s1" using assms(2) by (auto simp: clean_def)
  then show ?thesis using s' by (auto simp: clean_def bindr_eq_Inr block_cache_new_def)
next
  case (Some sl)
  then show ?thesis using assms by (auto simp: block_cache_buffer_get_def clean_def slot_map_def)
qed

lemma clean_read:
  assumes "cache_read ops T b off cb s = Inr (v, s')" and "clean s"
  shows "clean s'"
proof -
  from assms(1) obtain s1 block s2 where s1: "block_cache_buffer_get ops b (s\<lparr>st_locked := True\<rparr>) = Inr s1"
    and s2: "lock_block b s1 = Inr (block, s2)" and s': "s' = unlock_cache (release_block b block s2)"
    by (auto simp: cache_read_def locked_read_def lock_cache_def bindr_eq_Inr split: if_splits)
  have "clean s1" by (rule clean_get [OF s1]) (use assms(2) in \<open>simp add: clean_def\<close>)
  then show ?thesis using s2 s'
    by (auto simp: lock_block_def release_block_def unlock_cache_def clean_def slot_map_def split: option.splits if_splits
        dest!: slot_lookup_Some)
qed

lemma clean_drop: "clean s \<Longrightarrow> drop_slots ops (st_buffer s) d = Inr d"
proof -
  have "\<forall>sl \<in> set buf. \<not> bc_modified (sl_block sl) \<Longrightarrow> drop_slots ops buf d = Inr d" for buf
    by (induction buf) (simp_all add: block_cache_sync_def)
  then show "clean s \<Longrightarrow> drop_slots ops (st_buffer s) d = Inr d" by (simp add: clean_def)
qed

lemma clean_flush:
  assumes "block_cache_buffer_flush ops s = Inr s'"
  shows "clean s'"
proof -
  have "flush_slots ops buf d = Inr (buf', d') \<Longrightarrow> \<forall>sl \<in> set buf'. \<not> bc_modified (sl_block sl)" for buf buf' d d'
    by (induction buf arbitrary: d buf' d') (auto simp: bindr_eq_Inr block_cache_sync_def split: if_splits)
  then show ?thesis using assms by (auto simp: block_cache_buffer_flush_def bindr_eq_Inr clean_def)
qed

lemma flush_locked:
  "block_cache_buffer_flush ops (s\<lparr>st_locked := l\<rparr>) = bindr (block_cache_buffer_flush ops s) (\<lambda>s'. Inr (s'\<lparr>st_locked := l\<rparr>))"
  by (simp add: block_cache_buffer_flush_def bindr_def split: sum.split)

context block_store
begin

lemma clean_view: "at C R {} s \<Longrightarrow> clean s \<Longrightarrow> blk (st_dev s) = view s"
  by (auto simp: st_view_def store_at_def store_ok_def slot_ok_def clean_def fun_eq_iff split: option.split dest!: slot_lookup_Some)

text \<open>Mounting.\<close>

lemma open_gives:
  assumes "dinv d" and "inr d SUPER_BLOCK_LOC" and "super_block_is_valid (sb_on_disk (blk d))"
  shows "\<exists>s. fs_open ops d validate = Inr (Inr \<lparr>fs_sb = sb_on_disk (blk d), fs_store = s, fs_icache = [],
      fs_icapacity = INODE_BUFFER_SIZE, fs_ilocked = False, fs_cells = []\<rparr>) \<and>
    at BLOCK_BUFFER_SIZE (inr d) {} s \<and> view s = blk d"
proof -
  let ?s = "block_cache_buffer_new BLOCK_BUFFER_SIZE d"
  have C: "1 < BLOCK_BUFFER_SIZE" by (simp add: BLOCK_BUFFER_SIZE_def)
  have new: "at BLOCK_BUFFER_SIZE (inr d) {} ?s" "view ?s = blk d" using new_at [of d BLOCK_BUFFER_SIZE] assms(1) C by simp_all
  have "gives BLOCK_BUFFER_SIZE (inr d) {} (cache_read ops super_block_layout SUPER_BLOCK_LOC 0 Inr ?s) (sb_on_disk (blk d)) (view ?s)"
    using cache_read_gives [OF new(1) _ assms(2), of 0 super_block_layout "sb_on_disk (blk d)" Inr] C new(2)
    by (simp add: super_block_layout_def sb_on_disk_def SUPER_BLOCK_SIZE_def BLOCK_SIZE_def)
  from gives_Inr [OF this] obtain s where
    "cache_read ops super_block_layout SUPER_BLOCK_LOC 0 Inr ?s = Inr (sb_on_disk (blk d), s)" "at BLOCK_BUFFER_SIZE (inr d) {} s"
    "view s = blk d" using new(2) by auto
  then show ?thesis using assms(3) by (simp add: fs_open_def)
qed

section \<open>Formatting\<close>

lemma clear_blocks_gives:
  assumes "at C R {} s" and "1 < C" and "\<forall>b \<in> set bs. R b"
  shows "\<exists>s'. clear_blocks ops bs s = Inr s' \<and> at C R {} s' \<and>
    view s' = (\<lambda>b. if b \<in> set bs then replicate BLOCK_SIZE 0 else view s b)"
  using assms
proof (induction bs arbitrary: s)
  case Nil
  then show ?case by simp
next
  case (Cons b bs)
  have len: "length (view s b) = BLOCK_SIZE" using view_length [OF Cons.prems(1)] Cons.prems(3) by simp
  have "gives C R {} (cache_write ops data_block b 0 (\<lambda>block. Inr ((), replicate (length block) 0)) s) ()
      ((view s)(b := replicate BLOCK_SIZE 0))"
    by (rule write_block_gives [OF Cons.prems(1)]) (use Cons.prems len in simp_all)
  from gives_Inr [OF this] obtain s1 where
    s1: "cache_write ops data_block b 0 (\<lambda>block. Inr ((), replicate (length block) 0)) s = Inr ((), s1)" "at C R {} s1"
      "view s1 = (view s)(b := replicate BLOCK_SIZE 0)" by blast
  from Cons.IH [OF s1(2) Cons.prems(2)] Cons.prems(3) obtain s' where
    "clear_blocks ops bs s1 = Inr s'" "at C R {} s'" "view s' = (\<lambda>b. if b \<in> set bs then replicate BLOCK_SIZE 0 else view s1 b)"
    by auto
  then show ?case using s1 by (intro exI [of _ s']) (auto simp: fun_eq_iff)
qed

end

text \<open>The disk between the super block and the data blocks is zero, the super block is written.\<close>

definition formatted :: "super_block \<Rightarrow> (u64 \<Rightarrow> bytes) \<Rightarrow> bool" where
  "formatted sb D \<longleftrightarrow>
     sb_on_disk D = sb \<and>
     (\<forall>b. unat (sb_inode_bmap_start sb) \<le> unat b \<and> unat b < unat (sb_data_start sb) \<longrightarrow> D b = replicate BLOCK_SIZE 0)"

lemma bmap_used_zeros:
  fixes start fin :: u64
  assumes "\<And>b. unat start \<le> unat b \<Longrightarrow> unat b < unat fin \<Longrightarrow> D b = replicate BLOCK_SIZE 0" and "unat start \<le> unat fin"
  shows "bmap_used D start (unat fin - unat start) = {}"
proof -
  have "bmap_used D start (unat fin - unat start) = bmap_used (\<lambda>_. replicate BLOCK_SIZE 0) start (unat fin - unat start)"
  proof (rule bmap_used_cong)
    fix j assume j: "j < unat fin - unat start"
    then have "unat (start + of_nat j) = unat start + j" using unat_u64_less [of fin] by (intro unat_offset) linarith
    then show "D (start + of_nat j) = replicate BLOCK_SIZE 0" using j by (intro assms(1)) simp_all
  qed
  then show ?thesis by (simp add: bmap_used_def bitmap_used_zero)
qed

lemma formatted_rep:
  assumes "formatted sb D" and sb: "sb_ok R sb"
  shows "fs_rep sb D Map.empty"
proof -
  have z: "D b = replicate BLOCK_SIZE 0" if "unat (sb_inode_bmap_start sb) \<le> unat b" "unat b < unat (sb_data_start sb)" for b
    using assms(1) that by (simp add: formatted_def)
  have ord: "unat (sb_inode_bmap_start sb) < unat (sb_inode_start sb)" "unat (sb_inode_start sb) \<le> unat (sb_data_bmap_start sb)"
    "unat (sb_data_bmap_start sb) < unat (sb_data_start sb)" using sb_okD(2,4,5) [OF sb] by simp_all
  have "inode_used D sb = {}" unfolding inode_used_def by (rule bmap_used_zeros) (use z ord in auto)
  moreover have "bmap_used D (sb_data_bmap_start sb) (unat (sb_data_start sb) - unat (sb_data_bmap_start sb)) = {}"
    by (rule bmap_used_zeros) (use z ord in auto)
  then have "data_addrs D sb = {}" "first_used D sb" by (auto simp: data_addrs_def data_used_def first_used_def intro: exI [of _ 0])
  moreover have "\<exists>d. decode_dinode (inode_slot sb D k) = Inr d" if k: "k < inode_count sb" for k
  proof -
    obtain b off where loc: "find_inode sb (of_nat k) = (b, off)" "unat b = unat (sb_inode_start sb) + k div 16"
      "unat off = k mod 16 * 256" "unat b < unat (sb_data_bmap_start sb)" using sb k by (rule find_inode_loc)
    have "D b = replicate BLOCK_SIZE 0" using z [of b] loc(2,4) ord by simp
    moreover have "unat off + DINODE_SIZE \<le> BLOCK_SIZE"
      unfolding loc(3) inode_sizes by (use mod_less_divisor [of 16 k] in linarith)
    ultimately have "inode_slot sb D k = replicate DINODE_SIZE 0" by (simp add: inode_slot_def loc(1) get_slice_def min_def)
    then show ?thesis using decode_dinode_zero by auto
  qed
  ultimately show ?thesis using assms(1) by (simp add: fs_rep_def formatted_def)
qed

lemma set_u64_range: "set (u64_range a b) = {c. unat a \<le> unat c \<and> unat c < unat b}"
proof -
  have "c \<in> set (u64_range a b)" if "unat a \<le> unat c" "unat c < unat b" for c
    unfolding u64_range_def using that by (auto intro!: image_eqI [of c of_nat "unat c"])
  moreover have "unat (of_nat n :: u64) = n" if "n < unat b" for n
    using that unat_u64_less [of b] by (intro unat_of_nat_u64) linarith
  ultimately show ?thesis by (auto simp: u64_range_def)
qed

context block_store
begin

text \<open>What the first cache does: the bitmaps and the inodes are cleared, the super block is written and everything is flushed.\<close>

lemma format_gives:
  assumes "dinv d" and sb: "sb_ok (inr d) sb"
  shows "\<exists>s1 s2 s3 s4. clear_blocks ops (u64_range (sb_inode_bmap_start sb) (sb_data_start sb))
        (block_cache_buffer_new BLOCK_BUFFER_SIZE d) = Inr s1 \<and>
    cache_write ops super_block_layout SUPER_BLOCK_LOC 0 (\<lambda>_. Inr ((), sb)) s1 = Inr ((), s2) \<and> \<not> st_locked s2 \<and>
    block_cache_buffer_flush ops (s2\<lparr>st_locked := True\<rparr>) = Inr s3 \<and>
    cache_read ops super_block_layout SUPER_BLOCK_LOC 0 (\<lambda>sb_in_disk. check (sb_in_disk = sb) (Inr ())) (unlock_cache s3) = Inr ((), s4) \<and>
    clean s4 \<and> dinv (st_dev s4) \<and> inr (st_dev s4) = inr d \<and> formatted sb (blk (st_dev s4))"
proof -
  let ?R = "inr d" let ?C = BLOCK_BUFFER_SIZE
  have C: "1 < ?C" by (simp add: BLOCK_BUFFER_SIZE_def)
  have lt: "unat SUPER_BLOCK_LOC < unat (sb_inode_bmap_start sb)" using sb_okD(6) [OF sb] by (simp add: SUPER_BLOCK_LOC_def)
  have R1: "?R SUPER_BLOCK_LOC" using lt sb_okD(2,4,5) [OF sb] by (intro sb_okD(3) [OF sb]) simp
  have new: "at ?C ?R {} (block_cache_buffer_new ?C d)" using new_at [of d ?C] assms(1) C by simp
  have "\<forall>b \<in> set (u64_range (sb_inode_bmap_start sb) (sb_data_start sb)). ?R b" using sb_okD(3) [OF sb] by (simp add: set_u64_range)
  from clear_blocks_gives [OF new C this] obtain s1 where
    s1: "clear_blocks ops (u64_range (sb_inode_bmap_start sb) (sb_data_start sb)) (block_cache_buffer_new ?C d) = Inr s1" "at ?C ?R {} s1"
      "view s1 = (\<lambda>b. if unat (sb_inode_bmap_start sb) \<le> unat b \<and> unat b < unat (sb_data_start sb)
        then replicate BLOCK_SIZE 0 else view (block_cache_buffer_new ?C d) b)" by (auto simp: set_u64_range)
  have fits: "SUPER_BLOCK_SIZE \<le> BLOCK_SIZE" by (simp add: SUPER_BLOCK_SIZE_def BLOCK_SIZE_def)
  let ?D = "(view s1)(SUPER_BLOCK_LOC := put_slice 0 (encode_super_block sb) (view s1 SUPER_BLOCK_LOC))"
  have "gives ?C ?R {} (cache_write ops super_block_layout SUPER_BLOCK_LOC 0 (\<lambda>_. Inr ((), sb)) s1) () ?D"
    using cache_write_gives [OF s1(2) _ R1, of 0 super_block_layout _ "\<lambda>_. Inr ((), sb)" "()" sb] C fits
    by (simp add: super_block_layout_def BLOCK_SIZE_def)
  from gives_Inr [OF this] obtain s2 where
    s2: "cache_write ops super_block_layout SUPER_BLOCK_LOC 0 (\<lambda>_. Inr ((), sb)) s1 = Inr ((), s2)" "at ?C ?R {} s2" "view s2 = ?D" by blast
  have len: "length (view s1 SUPER_BLOCK_LOC) = BLOCK_SIZE" by (rule view_length [OF s1(2) R1])
  then have on: "sb_on_disk ?D = sb" using fits by (simp add: sb_on_disk_def)
  have form: "formatted sb ?D" unfolding formatted_def
  proof (intro conjI allI impI, rule on)
    fix b :: u64 assume b: "unat (sb_inode_bmap_start sb) \<le> unat b \<and> unat b < unat (sb_data_start sb)"
    then have "b \<noteq> SUPER_BLOCK_LOC" using lt by auto
    with b show "?D b = replicate BLOCK_SIZE 0" by (simp add: s1(3))
  qed
  from flush_gives [OF s2(2)] obtain s3 where
    s3: "block_cache_buffer_flush ops s2 = Inr s3" "at ?C ?R {} s3" "view s3 = view s2" by blast
  have ul: "unlock_cache (s3\<lparr>st_locked := True\<rparr>) = s3" using s3(2) by (simp add: unlock_cache_def store_at_def)
  have "gives ?C ?R {} (cache_read ops super_block_layout SUPER_BLOCK_LOC 0 (\<lambda>sb_in_disk. check (sb_in_disk = sb) (Inr ())) s3) () (view s3)"
    using cache_read_gives [OF s3(2) _ R1, of 0 super_block_layout sb "\<lambda>sb_in_disk. check (sb_in_disk = sb) (Inr ())" "()"] C fits on
    by (simp add: super_block_layout_def BLOCK_SIZE_def sb_on_disk_def s3(3) s2(3))
  from gives_Inr [OF this] obtain s4 where
    s4: "cache_read ops super_block_layout SUPER_BLOCK_LOC 0 (\<lambda>sb_in_disk. check (sb_in_disk = sb) (Inr ())) s3 = Inr ((), s4)"
      "at ?C ?R {} s4" "view s4 = view s3" by blast
  have cl: "clean s4" by (rule clean_read [OF s4(1) clean_flush [OF s3(1)]])
  have "dinv (st_dev s4)" "inr (st_dev s4) = ?R" "\<not> st_locked s2" using s4(2) s2(2) by (simp_all add: store_at_def store_ok_def)
  with s1(1) s2(1) s3(1) s4(1) ul cl clean_view [OF s4(2) cl] form show ?thesis
    by (intro exI [of _ s1] exI [of _ s2] exI [of _ "s3\<lparr>st_locked := True\<rparr>"] exI [of _ s4])
      (simp add: flush_locked s4(3) s3(3) s2(3))
qed

lemma init_fs_gives:
  assumes "dinv d" and sb: "sb_ok (inr d) sb" and valid: "super_block_is_valid sb" and pos: "0 < inode_count sb"
    and room: "inode_count sb \<le> (unat (sb_inode_start sb) - unat (sb_inode_bmap_start sb)) * BITMAP_PER_BLOCK"
  shows "\<exists>root d'. init_fs ops d sb = Inr (Inr root, d') \<and> in_inode_num root = 0 \<and> dinv d' \<and> inr d' = inr d \<and>
    fs_rep sb (blk d') [0 \<mapsto> fresh_dinode Directory]"
proof -
  let ?R = "inr d" let ?C = BLOCK_BUFFER_SIZE
  have C: "1 < ?C" by (simp add: BLOCK_BUFFER_SIZE_def)
  from format_gives [OF assms(1) sb] obtain s1 s2 s3 s4 where
    f: "clear_blocks ops (u64_range (sb_inode_bmap_start sb) (sb_data_start sb)) (block_cache_buffer_new ?C d) = Inr s1"
      "cache_write ops super_block_layout SUPER_BLOCK_LOC 0 (\<lambda>_. Inr ((), sb)) s1 = Inr ((), s2)" "\<not> st_locked s2"
      "block_cache_buffer_flush ops (s2\<lparr>st_locked := True\<rparr>) = Inr s3"
      "cache_read ops super_block_layout SUPER_BLOCK_LOC 0 (\<lambda>sb_in_disk. check (sb_in_disk = sb) (Inr ())) (unlock_cache s3) = Inr ((), s4)"
    and s4: "clean s4" "dinv (st_dev s4)" "inr (st_dev s4) = ?R" "formatted sb (blk (st_dev s4))" by blast
  have R1: "?R SUPER_BLOCK_LOC" using super_low [OF sb] sb_okD(2,4) [OF sb] by (intro sb_okD(3) [OF sb]) simp
  have on: "sb_on_disk (blk (st_dev s4)) = sb" using s4(4) by (simp add: formatted_def)
  from open_gives [OF s4(2), of True] R1 valid on s4(3) obtain s where
    op: "fs_open ops (st_dev s4) True = Inr (Inr \<lparr>fs_sb = sb, fs_store = s, fs_icache = [], fs_icapacity = INODE_BUFFER_SIZE,
      fs_ilocked = False, fs_cells = []\<rparr>)" and s: "at ?C ?R {} s" "view s = blk (st_dev s4)" by auto
  let ?fs = "\<lparr>fs_sb = sb, fs_store = s, fs_icache = [], fs_icapacity = INODE_BUFFER_SIZE, fs_ilocked = False, fs_cells = []\<rparr>"
  have rep: "fs_rep sb (view s) Map.empty" using formatted_rep [OF s4(4) sb] s(2) by simp
  then have u: "inode_used (view s) sb = {}" and dec: "\<forall>k < inode_count sb. \<exists>d. decode_dinode (inode_slot sb (view s) k) = Inr d"
    by (simp_all add: fs_rep_def)
  from allocate_inode_gives [of ?C ?R ?fs 0 Directory] s(1) C sb pos room u dec obtain n i s' where
    al: "allocate_inode ops Directory ?fs = Inr (Some 0, add_cell (of_nat n) i False s' ?fs)" and
    a: "at ?C ?R {} s'" "{..<n} = {}" "in_inode_num i = of_nat n" "find_inode sb (of_nat n) = (in_block_id i, in_block_offset i)"
      "inode_used (view s') sb = {n}" "inode_at sb (view s') i (fresh_dinode Directory)"
      "\<forall>k < inode_count sb. k \<noteq> n \<longrightarrow> inode_slot sb (view s') k = inode_slot sb (view s) k"
      "\<forall>b. unat b < unat (sb_inode_bmap_start sb) \<or> unat (sb_data_bmap_start sb) \<le> unat b \<longrightarrow> view s' b = view s b"
    by (auto simp: INODE_BUFFER_SIZE_def)
  have n: "n = 0" using a(2) by (simp add: lessThan_empty_iff)
  have "view s' SUPER_BLOCK_LOC = view s SUPER_BLOCK_LOC" using a(8) sb_okD(6) [OF sb] by (simp add: SUPER_BLOCK_LOC_def)
  moreover have "decode_dinode (inode_slot sb (view s') 0) = Inr (fresh_dinode Directory)"
    using inode_at_slot [OF sb pos, of i] n a(4,6) by simp
  moreover have "di_size (fresh_dinode Directory) = 0" by (simp add: fresh_dinode_def dinode_new_def)
  ultimately have rep': "fs_rep sb (view s') [0 \<mapsto> fresh_dinode Directory]"
    using rep_new(1) [OF rep sb pos, of "view s'" "fresh_dinode Directory"] n a(5,7,8) u initialize_fresh(2) by simp
  from drop_gives [OF a(1)] obtain d' where
    d': "drop_slots ops (st_buffer s') (st_dev s') = Inr d'" "dinv d'" "inr d' = ?R" "blk d' = view s'" by blast
  have "init_fs ops d sb = Inr (Inr i, d')"
    using f op al d'(1) clean_drop [OF s4(1), of ops d'] add_cell_simps(4) [of "of_nat n" i False s' ?fs]
    by (simp add: init_fs_def lock_cache_def fs_drop_def)
  then show ?thesis using n a(3) d'(2-4) rep' by (intro exI [of _ i] exI [of _ d']) simp
qed

end

end
