(* ===== verification/Fs_Mount.thy ===== *)
theory Fs_Mount
  imports Fs_Format
begin

text \<open>
  A mounted file system: the caches are in step with a consistent disk, and a handle stands
  for one file of it. Creating, growing, writing, opening and reading files through handles.
\<close>

section \<open>Mounted file systems and handles\<close>

text \<open>The data blocks in use are in range of the device.\<close>

definition used_in :: "(u64 \<Rightarrow> bool) \<Rightarrow> (u64 \<Rightarrow> bytes) \<Rightarrow> super_block \<Rightarrow> bool" where
  "used_in R D sb \<longleftrightarrow> (\<forall>b \<in> data_addrs D sb. R b)"

lemma used_in_full: "sb_ok R sb \<Longrightarrow> data_in R sb \<Longrightarrow> used_in R D sb"
  using data_addrs_ge(2) [of R sb] by (auto simp: used_in_def)

definition mounted :: "(u64 \<Rightarrow> bool) \<Rightarrow> (u64 \<Rightarrow> bytes) \<Rightarrow> 'd file_system \<Rightarrow> (nat \<rightharpoonup> dinode) \<Rightarrow> bool" where
  "mounted R D fs F \<longleftrightarrow> fs_ready R D fs \<and> fs_rep (fs_sb fs) D F \<and> used_in R D (fs_sb fs)"

text \<open>Cell \<open>a\<close> is inode \<open>n\<close>.\<close>

definition handle :: "'d file_system \<Rightarrow> (nat \<rightharpoonup> dinode) \<Rightarrow> nat \<Rightarrow> nat \<Rightarrow> bool" where
  "handle fs F a n \<longleftrightarrow>
     a < length (fs_cells fs) \<and> F n = Some (inode_dinode (cell_inode fs a)) \<and> in_inode_num (cell_inode fs a) = of_nat n \<and>
     find_inode (fs_sb fs) (of_nat n) = (in_block_id (cell_inode fs a), in_block_offset (cell_inode fs a))"

definition locks :: "'d file_system \<Rightarrow> bool list" where
  "locks fs = map ic_locked (fs_cells fs)"

text \<open>The file \<open>n\<close> is a directory with the entries \<open>es\<close>.\<close>

definition dir_file :: "(u64 \<Rightarrow> bytes) \<Rightarrow> (nat \<rightharpoonup> dinode) \<Rightarrow> nat \<Rightarrow> (bytes \<times> u64) list \<Rightarrow> bool" where
  "dir_file D F n es \<longleftrightarrow> (\<exists>d. F n = Some d \<and> di_type d = Directory \<and> dir_rep (dinode_content D d) es)"

definition data_file :: "(u64 \<Rightarrow> bytes) \<Rightarrow> (nat \<rightharpoonup> dinode) \<Rightarrow> nat \<Rightarrow> bytes \<Rightarrow> bool" where
  "data_file D F n bs \<longleftrightarrow> (\<exists>d. F n = Some d \<and> di_type d = File \<and> dinode_content D d = bs)"

lemma mounted_sb: "mounted R D fs F \<Longrightarrow> sb_ok R (fs_sb fs)"
  by (simp add: mounted_def fs_ready_def)

lemma mounted_count: "mounted R D fs F \<Longrightarrow> F n = Some d \<Longrightarrow> n < inode_count (fs_sb fs)"
  by (auto simp: mounted_def fs_rep_def)

lemma handle_at:
  assumes "mounted R D fs F" and "handle fs F a n"
  shows "inode_at (fs_sb fs) D (cell_inode fs a) (inode_dinode (cell_inode fs a))"
    and "holds_inode D fs a n" and "file_at (fs_sb fs) D n (inode_dinode (cell_inode fs a))"
proof -
  have n: "n < inode_count (fs_sb fs)" using assms mounted_count by (auto simp: handle_def)
  show at: "file_at (fs_sb fs) D n (inode_dinode (cell_inode fs a))" using assms by (simp add: mounted_def fs_rep_def handle_def)
  then show "inode_at (fs_sb fs) D (cell_inode fs a) (inode_dinode (cell_inode fs a))"
    using assms inode_at_slot [OF mounted_sb [OF assms(1)] n] by (simp add: handle_def file_at_def)
  show "holds_inode D fs a n" using assms n by (auto simp: holds_inode_def handle_def mounted_def fs_rep_def)
qed

lemma handle_own:
  assumes "mounted R D fs F" and "handle fs F a n"
  shows "\<forall>b \<in> own (inode_dinode (cell_inode fs a)). R b"
  using own_used [OF handle_at(3) [OF assms]] assms(1) by (auto simp: mounted_def used_in_def)

lemma handle_dir:
  assumes "mounted R D fs F" and "handle fs F a n" and "dir_file D F n es"
  shows "dir_at (fs_sb fs) D (cell_inode fs a) (inode_dinode (cell_inode fs a)) es"
  using handle_at [OF assms(1,2)] assms(2,3) by (auto simp: dir_at_def handle_def dir_file_def file_at_def)

lemma dir_file_keep:
  assumes "same_files F X D D'" and "k \<notin> X" and "G k = F k"
  shows "dir_file D F k es \<Longrightarrow> dir_file D' G k es" and "data_file D F k bs \<Longrightarrow> data_file D' G k bs"
  using assms by (auto simp: dir_file_def data_file_def same_files_def)

text \<open>Every file has at most 28 blocks, so that few files never fill a disk.\<close>

lemma rep_card:
  assumes rep: "fs_rep sb D F" and sb: "sb_ok R sb"
  shows "card (data_used D sb) \<le> N_DIRECT * card (dom F)" and "finite (dom F)"
proof -
  show fin: "finite (dom F)" using rep by (auto simp: fs_rep_def intro: finite_subset [of _ "{..<inode_count sb}"])
  have ran: "ran F = (\<lambda>n. the (F n)) ` dom F" by (force simp: ran_def dom_def)
  then have finr: "finite (ran F)" "card (ran F) \<le> card (dom F)" using fin by (simp_all add: card_image_le)
  have own: "finite (own d) \<and> card (own d) \<le> N_DIRECT" if d: "d \<in> ran F" for d
  proof -
    have "file_ok sb D d (blocks_for (unat (di_size d)))" using rep d by (auto simp: ran_def fs_rep_def file_at_def)
    then have "blocks_for (unat (di_size d)) \<le> N_DIRECT" by (simp add: file_ok_def)
    moreover have "card (own d) \<le> card {..<blocks_for (unat (di_size d))}" unfolding own_def file_blocks_def by (intro card_image_le) simp
    ultimately show ?thesis by (simp add: own_def file_blocks_def)
  qed
  have "inj_on (\<lambda>n. sb_data_start sb + of_nat n :: u64) (data_used D sb)"
  proof (rule inj_onI)
    fix x y assume "x \<in> data_used D sb" "y \<in> data_used D sb" "sb_data_start sb + of_nat x = sb_data_start sb + (of_nat y :: u64)"
    then show "x = y" using data_block_addr(1) [OF sb data_used_bound] by (metis add_left_cancel)
  qed
  then have "card (data_used D sb) = card (data_addrs D sb)" by (simp add: data_addrs_def card_image)
  also have "\<dots> \<le> (\<Sum>d \<in> ran F. card (own d))" using rep finr(1) by (simp add: fs_rep_def card_UN_le)
  also have "\<dots> \<le> card (ran F) * N_DIRECT" using sum_bounded_above [of "ran F" "\<lambda>d. card (own d)" N_DIRECT] own by simp
  also have "\<dots> \<le> N_DIRECT * card (dom F)" using finr(2) by (simp add: mult.commute)
  finally show "card (data_used D sb) \<le> N_DIRECT * card (dom F)" .
qed

text \<open>Changing the file behind one handle leaves the other handles alone.\<close>

lemma handle_other:
  assumes "handle fs F b m" and "b \<noteq> a" and "m \<noteq> n"
  shows "handle ((set_cell a i fs)\<lparr>fs_store := s\<rparr>) (F(n \<mapsto> d)) b m"
  using assms by (simp add: handle_def set_cell_def)

lemma mounted_store:
  assumes "mounted R D fs F" and "fs_rep (fs_sb fs) D' F'" and "dom F \<subseteq> dom F'" and "used_in R D' (fs_sb fs)"
  shows "mounted R D' ((set_cell a i fs)\<lparr>fs_store := s\<rparr>) F'" and "mounted R D' (fs\<lparr>fs_store := s\<rparr>) F'"
proof -
  have "inode_used D (fs_sb fs) = dom F" using assms(1) by (simp add: mounted_def fs_rep_def)
  then have "\<forall>(k, c) \<in> set (fs_icache fs). unat k \<in> dom F" using assms(1) unfolding mounted_def fs_ready_def by metis
  moreover have "inode_used D' (fs_sb fs) = dom F'" using assms(2) by (simp add: fs_rep_def)
  ultimately have "\<forall>(k, c) \<in> set (fs_icache fs). unat k \<in> inode_used D' (fs_sb fs)" using assms(3) by blast
  then show "mounted R D' ((set_cell a i fs)\<lparr>fs_store := s\<rparr>) F'" "mounted R D' (fs\<lparr>fs_store := s\<rparr>) F'"
    using assms(1,2,4) by (simp_all add: mounted_def fs_ready_def fs_rep_def set_cell_def)
qed

lemma locks_set_cell [simp]: "a < length (fs_cells fs) \<Longrightarrow> locks (set_cell a i fs) = locks fs"
  by (rule nth_equalityI) (simp_all add: locks_def set_cell_def nth_list_update)

lemma locks_store [simp]: "locks (fs\<lparr>fs_store := s\<rparr>) = locks fs"
  by (simp add: locks_def)

section \<open>Growing, writing and reading through a handle\<close>

context block_store
begin

lemma resize_mounted:
  assumes "at C R {} (fs_store fs)" and "1 < C" and mnt: "mounted R (view (fs_store fs)) fs F" and full: "data_in R (fs_sb fs)" and h: "handle fs F a n"
    and le: "inode_size (cell_inode fs a) \<le> sz" "sz \<le> N_DIRECT * BLOCK_SIZE"
    and free: "N_DIRECT * Suc (card (dom F)) \<le> unat (sb_data_blocks (fs_sb fs))"
  shows "\<exists>d i s'. resize_inode ops a sz fs = Inr (Inr (), (set_cell a i fs)\<lparr>fs_store := s'\<rparr>) \<and> at C R {} s' \<and>
    mounted R (view s') ((set_cell a i fs)\<lparr>fs_store := s'\<rparr>) (F(n \<mapsto> d)) \<and>
    handle ((set_cell a i fs)\<lparr>fs_store := s'\<rparr>) (F(n \<mapsto> d)) a n \<and> same_files F {n} (view (fs_store fs)) (view s') \<and>
    di_type d = di_type (inode_dinode (cell_inode fs a)) \<and> unat (di_size d) = sz"
proof -
  let ?i = "cell_inode fs a" let ?d = "inode_dinode ?i" let ?D = "view (fs_store fs)"
  have sb: "sb_ok R (fs_sb fs)" by (rule mounted_sb [OF mnt])
  have rep: "fs_rep (fs_sb fs) ?D F" using mnt by (simp add: mounted_def)
  have a: "a < length (fs_cells fs)" "F n = Some ?d" "find_inode (fs_sb fs) (of_nat n) = (in_block_id ?i, in_block_offset ?i)"
    using h by (simp_all add: handle_def)
  note at = handle_at [OF mnt h]
  have sz: "unat (di_size ?d) \<le> sz" using le(1) inode_size_at [OF at(1)] by simp
  have "blocks_for sz \<le> N_DIRECT" by (rule blocks_for_direct [OF le(2)])
  then have "card (data_used ?D (fs_sb fs)) + (blocks_for sz - blocks_for (unat (di_size ?d))) \<le> unat (sb_data_blocks (fs_sb fs))"
    using rep_card(1) [OF rep sb] free by simp
  with resize_gives [OF assms(1,2) sb full a(1) at(1) _ sz le(2)] at(3) obtain d' s' where
    r: "resize_inode ops a sz fs = Inr (Inr (), (set_cell a (inode_update d' ?i) fs)\<lparr>fs_store := s'\<rparr>)" "at C R {} s'"
      "resized (fs_sb fs) ?i ?d ?D sz d' (view s')" by (auto simp: file_at_def)
  note rr = rep_resized [OF rep sb a(2,3) r(3) le(2)]
  have "mounted R (view s') ((set_cell a (inode_update d' ?i) fs)\<lparr>fs_store := s'\<rparr>) (F(n \<mapsto> d'))"
    by (rule mounted_store(1) [OF mnt rr(1)]) (use used_in_full [OF sb full] in auto)
  moreover have "handle ((set_cell a (inode_update d' ?i) fs)\<lparr>fs_store := s'\<rparr>) (F(n \<mapsto> d')) a n"
    using h by (simp add: handle_def set_cell_def)
  ultimately show ?thesis using r rr(2)
    by (intro exI [of _ d'] exI [of _ "inode_update d' ?i"] exI [of _ s']) (simp add: resized_def)
qed

lemma write_mounted:
  assumes "at C R {} (fs_store fs)" and "1 < C" and mnt: "mounted R (view (fs_store fs)) fs F" and full: "data_in R (fs_sb fs)" and h: "handle fs F a n"
    and off: "offset \<le> inode_size (cell_inode fs a)" and len: "length buf < usize_range"
    and k: "k = min (length buf) (inode_size (cell_inode fs a) - offset)"
  shows "\<exists>s'. write_inode ops a offset buf fs = Inr (k, fs\<lparr>fs_store := s'\<rparr>) \<and> at C R {} s' \<and>
    mounted R (view s') (fs\<lparr>fs_store := s'\<rparr>) F \<and> same_files F {n} (view (fs_store fs)) (view s') \<and>
    dinode_content (view s') (inode_dinode (cell_inode fs a)) =
      put_slice offset (take k buf) (dinode_content (view (fs_store fs)) (inode_dinode (cell_inode fs a)))"
proof -
  let ?d = "inode_dinode (cell_inode fs a)" let ?D = "view (fs_store fs)"
  have sb: "sb_ok R (fs_sb fs)" by (rule mounted_sb [OF mnt])
  have rep: "fs_rep (fs_sb fs) ?D F" using mnt by (simp add: mounted_def)
  note at = handle_at [OF mnt h]
  have ok: "file_ok (fs_sb fs) ?D ?d (blocks_for (unat (di_size ?d)))" and le: "unat (di_size ?d) \<le> N_DIRECT * BLOCK_SIZE"
    using at(3) by (simp_all add: file_at_def)
  have sz: "inode_size (cell_inode fs a) = unat (di_size ?d)" by (rule inode_size_at [OF at(1)])
  have cap: "unat (di_size ?d) \<le> CAPACITY_PER_INODE"
    using le by (simp add: CAPACITY_PER_INODE_def MAX_BLOCKS_PER_INODE_def N_DIRECT_def BLOCK_SIZE_def)
  note blk = file_ok_blocks(1) [OF ok handle_own [OF mnt h] le]
  from write_data_gives [OF assms(1,2) off [unfolded sz] len k [unfolded sz] cap blk] obtain D' where
    g: "gives C R {} (dinode_write_data ops ?d offset buf (fs_store fs)) k D'" and
    D': "dinode_content D' ?d = put_slice offset (take k buf) (dinode_content ?D ?d)"
      "\<forall>b. b \<notin> dinode_bid ?D ?d ` {idx. idx * BLOCK_SIZE < unat (di_size ?d)} \<longrightarrow> D' b = ?D b" by blast
  from gives_Inr [OF g] obtain s' where
    s': "dinode_write_data ops ?d offset buf (fs_store fs) = Inr (k, s')" "at C R {} s'" "view s' = D'" by blast
  from write_data_written [OF assms(1,2) off [unfolded sz] len k [unfolded sz] cap blk] s'(1,3)
  have wr: "dinode_written ?d offset (offset + k) (\<lambda>p. buf ! (p - offset)) ?D D'" by (auto simp: store_gives_def)
  have "dinode_bid ?D ?d ` {idx. idx * BLOCK_SIZE < unat (di_size ?d)} \<subseteq> own ?d" using file_ok_own [OF ok] by auto
  then have same: "\<forall>b. b \<notin> own ?d \<longrightarrow> view s' b = ?D b" using D'(2) s'(3) by blast
  have "file_ok (fs_sb fs) (view s') ?d (blocks_for (unat (di_size ?d)))"
    using written_file_ok [OF ok sb le wr] off k sz s'(3) by simp
  note rw = rep_written [OF rep sb _ same this, of n]
  have Fn: "F n = Some ?d" using h by (simp add: handle_def)
  have "mounted R (view s') (fs\<lparr>fs_store := s'\<rparr>) F" by (rule mounted_store(2) [OF mnt rw(1) [OF Fn]]) (use used_in_full [OF sb full] in auto)
  then show ?thesis using s' D'(1) rw(2) [OF Fn] by (intro exI [of _ s']) (simp add: write_inode_def on_store_def)
qed

lemma read_mounted:
  assumes "at C R {} (fs_store fs)" and "1 < C" and mnt: "mounted R (view (fs_store fs)) fs F" and h: "handle fs F a n"
    and "data_file (view (fs_store fs)) F n bs" and "offset \<le> length bs" and "length buf < usize_range"
    and k: "k = min (length buf) (length bs - offset)"
  shows "\<exists>s'. read_inode ops a offset buf fs = Inr ((k, put_slice 0 (get_slice offset k bs) buf), fs\<lparr>fs_store := s'\<rparr>) \<and>
    at C R {} s' \<and> view s' = view (fs_store fs)"
proof -
  let ?d = "inode_dinode (cell_inode fs a)" let ?D = "view (fs_store fs)"
  note at = handle_at [OF mnt h]
  have ok: "file_ok (fs_sb fs) ?D ?d (blocks_for (unat (di_size ?d)))" and le: "unat (di_size ?d) \<le> N_DIRECT * BLOCK_SIZE"
    using at(3) by (simp_all add: file_at_def)
  have bs: "dinode_content ?D ?d = bs" using assms(5) h by (simp add: data_file_def handle_def)
  then have sz: "length bs = unat (di_size ?d)" by auto
  have last: "offset + k \<le> unat (di_size ?d)" using k assms(6) sz by simp
  have "gives C R {} (dinode_read_data ops ?d offset buf (fs_store fs)) (k, put_slice 0 (get_slice offset k bs) buf) ?D"
    using read_data_gives [OF assms(1,2), of offset ?d buf k] file_ok_blocks(2) [OF ok handle_own [OF mnt h] le] le sz bs assms(6,7) k last
    by simp
  then show ?thesis by (auto simp: store_gives_def read_inode_def on_store_def)
qed

end

section \<open>Creating and opening files\<close>

definition new_dinode :: "inode_type \<Rightarrow> dinode" where
  "new_dinode ty = (fresh_dinode ty)\<lparr>di_links_num := 1\<rparr>"

lemma new_dinode_simps [simp]: "di_type (new_dinode ty) = ty" "di_size (new_dinode ty) = 0" "dinode_content D (new_dinode ty) = []"
  by (simp_all add: new_dinode_def fresh_dinode_def dinode_new_def dinode_content_def)

lemma length_kept: "0 < fs_icapacity fs \<Longrightarrow> length (fs_icache fs) \<le> fs_icapacity fs \<Longrightarrow> length (kept fs) < fs_icapacity fs"
  by (auto simp: kept_def)

text \<open>A cell and a cache entry more.\<close>

lemma mounted_add_cell:
  assumes mnt: "mounted R D fs F" and rep: "fs_rep (fs_sb fs) D' F'" and "dom F \<subseteq> dom F'" and n: "n \<in> dom F'"
    and R: "used_in R D' (fs_sb fs)"
  shows "mounted R D' (add_cell (of_nat n) i l s fs) F'"
proof -
  have old: "\<forall>(k, c) \<in> set (fs_icache fs). unat k \<in> inode_used D' (fs_sb fs)"
    using mounted_store(2) [OF mnt rep assms(3) R, of s] by (simp add: mounted_def fs_ready_def)
  have "n < inode_count (fs_sb fs)" using n rep by (auto simp: fs_rep_def)
  then have "unat (of_nat n :: u64) = n" using inode_count_max(2) [OF mounted_sb [OF mnt]] by (simp add: unat_of_nat_u64)
  moreover have "inode_used D' (fs_sb fs) = dom F'" using rep by (simp add: fs_rep_def)
  ultimately have "unat (of_nat n :: u64) \<in> inode_used D' (fs_sb fs)" using n by simp
  then have "\<forall>(k, c) \<in> set ((of_nat n, length (fs_cells fs)) # kept fs). unat k \<in> inode_used D' (fs_sb fs)"
    using old set_kept [of fs] by auto
  moreover have "Suc (length (kept fs)) \<le> fs_icapacity fs" using length_kept [of fs] mnt by (simp add: mounted_def fs_ready_def Suc_leI)
  ultimately show ?thesis using mnt rep R by (simp add: mounted_def fs_ready_def fs_rep_def add_cell_def)
qed

lemma handle_add_cell: "handle fs F a n \<Longrightarrow> handle (add_cell k i l s fs) F a n"
  by (simp add: handle_def add_cell_def nth_append)

lemma locks_add_cell [simp]: "locks (add_cell k i l s fs) = locks fs @ [l]"
  by (simp add: locks_def add_cell_def)

context block_store
begin

lemma create_mounted:
  assumes "at C R {} (fs_store fs)" and "1 < C" and mnt: "mounted R (view (fs_store fs)) fs F" and full: "data_in R (fs_sb fs)" and h: "handle fs F a p"
    and dir: "dir_file (view (fs_store fs)) F p es" and name: "name_ok name" "name \<notin> fst ` set es"
    and fits: "DIR_ENTRY_SIZE * Suc (length es) \<le> N_DIRECT * BLOCK_SIZE"
    and free: "N_DIRECT * Suc (card (dom F)) \<le> unat (sb_data_blocks (fs_sb fs))" and ino: "card (dom F) < inode_count (fs_sb fs)"
  shows "\<exists>n d fs'. create_inode ops a name ty fs = Inr (Inr (length (fs_cells fs)), fs') \<and> at C R {} (fs_store fs') \<and> F n = None \<and>
    n < inode_count (fs_sb fs) \<and> fs_sb fs' = fs_sb fs \<and> length (fs_cells fs') = Suc (length (fs_cells fs)) \<and> locks fs' = locks fs @ [False] \<and>
    mounted R (view (fs_store fs')) fs' (F(p \<mapsto> d, n \<mapsto> new_dinode ty)) \<and>
    handle fs' (F(p \<mapsto> d, n \<mapsto> new_dinode ty)) a p \<and> handle fs' (F(p \<mapsto> d, n \<mapsto> new_dinode ty)) (length (fs_cells fs)) n \<and>
    (\<forall>b m. handle fs F b m \<and> b \<noteq> a \<and> m \<noteq> p \<longrightarrow> handle fs' (F(p \<mapsto> d, n \<mapsto> new_dinode ty)) b m) \<and>
    dir_file (view (fs_store fs')) (F(p \<mapsto> d, n \<mapsto> new_dinode ty)) p (es @ [(name, of_nat n)]) \<and>
    same_files F {p} (view (fs_store fs)) (view (fs_store fs'))"
proof -
  let ?D = "view (fs_store fs)" let ?a = "cell_inode fs a" let ?c = "length (fs_cells fs)"
  have sb: "sb_ok R (fs_sb fs)" by (rule mounted_sb [OF mnt])
  have rep: "fs_rep (fs_sb fs) ?D F" and ready: "fs_ready R ?D fs" using mnt by (simp_all add: mounted_def)
  note at = handle_at [OF mnt h] and da = handle_dir [OF mnt h dir] and card = rep_card [OF rep sb]
  have a: "a < ?c" "F p = Some (inode_dinode ?a)" using h by (simp_all add: handle_def)
  have "blocks_for (DIR_ENTRY_SIZE * Suc (length es)) \<le> N_DIRECT" by (rule blocks_for_direct [OF fits])
  then have room: "card (data_used ?D (fs_sb fs)) + (blocks_for (DIR_ENTRY_SIZE * Suc (length es)) - blocks_for (DIR_ENTRY_SIZE * length es))
      \<le> unat (sb_data_blocks (fs_sb fs))" using card(1) free by simp
  have "\<not> {..<inode_count (fs_sb fs)} \<subseteq> dom F" using ino card_mono [OF card(2), of "{..<inode_count (fs_sb fs)}"] by auto
  then obtain m where "m < inode_count (fs_sb fs)" "m \<notin> dom F" by auto
  then have m: "m < inode_count (fs_sb fs)" "m \<notin> inode_used ?D (fs_sb fs)" using rep by (auto simp: fs_rep_def)
  from create_inode_gives [OF assms(1,2) ready full at(2) da name fits room m, of ty] obtain n i d s' where
    cr: "create_inode ops a name ty fs = Inr (Inr ?c, add_cell (of_nat n) i False s' (set_cell a (inode_update d ?a) fs))"
    and s': "at C R {} s'" "n < inode_count (fs_sb fs)" "in_inode_num i = of_nat n" "inode_dinode i = new_dinode ty"
      "find_inode (fs_sb fs) (of_nat n) = (in_block_id i, in_block_offset i)"
      "dir_at (fs_sb fs) (view s') (inode_update d ?a) d (es @ [(name, of_nat n)])"
    and F: "F n = None" "fs_rep (fs_sb fs) (view s') (F(p \<mapsto> d, n \<mapsto> new_dinode ty))" "same_files F {p} ?D (view s')"
    using rep a(2) unfolding new_dinode_def by blast
  let ?F = "F(p \<mapsto> d, n \<mapsto> new_dinode ty)" let ?g = "set_cell a (inode_update d ?a) fs"
  let ?fs' = "add_cell (of_nat n) i False s' ?g"
  have pn: "p \<noteq> n" using a(2) F(1) by auto
  have "mounted R ?D ?g F" using mnt by (simp add: mounted_def fs_ready_def set_cell_def)
  then have mnt': "mounted R (view s') ?fs' ?F" by (rule mounted_add_cell) (use F(2) used_in_full [OF sb full] in auto)
  have ha: "handle ?fs' ?F a p" using h pn by (intro handle_add_cell) (simp add: handle_def set_cell_def)
  have hc: "handle ?fs' ?F ?c n" using s'(3-5) by (simp add: handle_def add_cell_def set_cell_def nth_append)
  have ho: "handle ?fs' ?F b k" if "handle fs F b k" "b \<noteq> a" "k \<noteq> p" for b k
  proof -
    have "k \<noteq> n" using that(1) F(1) by (auto simp: handle_def)
    then show ?thesis using that by (intro handle_add_cell) (simp add: handle_def set_cell_def)
  qed
  have "dir_file (view s') ?F p (es @ [(name, of_nat n)])" using s'(6) pn by (auto simp: dir_file_def dir_at_def)
  moreover have "locks ?g = locks fs" using a(1) by simp
  ultimately show ?thesis using cr s'(1,2) F(1,3) mnt' ha hc ho
    by (intro exI [of _ n] exI [of _ d] exI [of _ ?fs']) simp
qed

text \<open>The first time an inode is asked for.\<close>

lemma get_inode_mounted:
  assumes "at C R {} (fs_store fs)" and "1 < C" and mnt: "mounted R (view (fs_store fs)) fs F" and Fn: "F n = Some d"
    and new: "of_nat n \<notin> fst ` set (fs_icache fs)"
  shows "\<exists>i s'. get_inode ops (of_nat n) fs = Inr (Inr (length (fs_cells fs)), add_cell (of_nat n) i False s' fs) \<and>
    at C R {} s' \<and> view s' = view (fs_store fs) \<and> mounted R (view s') (add_cell (of_nat n) i False s' fs) F \<and>
    handle (add_cell (of_nat n) i False s' fs) F (length (fs_cells fs)) n"
proof -
  let ?fs = "fs\<lparr>fs_ilocked := True\<rparr>"
  have sb: "sb_ok R (fs_sb fs)" by (rule mounted_sb [OF mnt])
  have n: "n < inode_count (fs_sb fs)" by (rule mounted_count [OF mnt Fn])
  have rep: "fs_rep (fs_sb fs) (view (fs_store fs)) F" using mnt by (simp add: mounted_def)
  then have dec: "decode_dinode (inode_slot (fs_sb fs) (view (fs_store fs)) n) = Inr d" using Fn by (simp add: fs_rep_def file_at_def)
  obtain b off where loc: "find_inode (fs_sb fs) (of_nat n) = (b, off)" by (rule find_inode_loc [OF sb n])
  have unl: "\<not> fs_ilocked fs" "0 < fs_icapacity fs" using mnt by (auto simp: mounted_def fs_ready_def)
  from cache_get_miss [of C R ?fs n b off d] assms(1,2) sb n loc unl new dec obtain s' where
    g: "inode_cache_get ops (of_nat n) ?fs = Inr (Inr (length (fs_cells fs)), add_cell (of_nat n) (inode_new b off (of_nat n) d) False s' ?fs)"
      "at C R {} s'" "view s' = view (fs_store fs)" by auto
  let ?i = "inode_new b off (of_nat n) d"
  have "unlock_inode_cache (add_cell (of_nat n) ?i False s' ?fs) = add_cell (of_nat n) ?i False s' fs"
    using unl by (cases fs) (simp add: unlock_inode_cache_def add_cell_def kept_def)
  then have "get_inode ops (of_nat n) fs = Inr (Inr (length (fs_cells fs)), add_cell (of_nat n) ?i False s' fs)"
    using g(1) unl(1) by (simp add: get_inode_def lock_inode_cache_def)
  moreover have "mounted R (view s') (add_cell (of_nat n) ?i False s' fs) F"
    by (rule mounted_add_cell [OF mnt]) (use mnt rep Fn g(3) in \<open>auto simp: mounted_def\<close>)
  moreover have "handle (add_cell (of_nat n) ?i False s' fs) F (length (fs_cells fs)) n"
    using Fn loc by (simp add: handle_def add_cell_def nth_append) (simp add: inode_new_def)
  ultimately show ?thesis using g(2,3) by blast
qed

end

section \<open>Locks\<close>

definition set_lock :: "nat \<Rightarrow> bool \<Rightarrow> 'd file_system \<Rightarrow> 'd file_system" where
  "set_lock a l fs = fs\<lparr>fs_cells := (fs_cells fs)[a := (fs_cells fs ! a)\<lparr>ic_locked := l\<rparr>]\<rparr>"

lemma set_lock_simps [simp]:
  "fs_store (set_lock a l fs) = fs_store fs" "fs_sb (set_lock a l fs) = fs_sb fs" "fs_icache (set_lock a l fs) = fs_icache fs"
  "length (fs_cells (set_lock a l fs)) = length (fs_cells fs)" "mounted R D (set_lock a l fs) F = mounted R D fs F"
  "locks (set_lock a l fs) = (locks fs)[a := l]" "cell_inode (set_lock a l fs) b = cell_inode fs b"
  "(set_lock a l fs)\<lparr>fs_store := s\<rparr> = set_lock a l (fs\<lparr>fs_store := s\<rparr>)"
  by (cases "a < length (fs_cells fs)";
      simp add: set_lock_def mounted_def fs_ready_def locks_def map_update nth_list_update list_update_beyond)+

lemma handle_set_lock [simp]: "handle (set_lock a l fs) F b n = handle fs F b n"
  by (simp add: handle_def)

lemma lock_eq: "a < length (fs_cells fs) \<Longrightarrow> \<not> locks fs ! a \<Longrightarrow> lock_inode a fs = Inr (set_lock a True fs)"
  by (simp add: lock_inode_def set_lock_def locks_def)

lemma unlock_eq: "unlock_inode a fs = set_lock a False fs"
  by (simp add: unlock_inode_def set_lock_def)

lemma locks_length [simp]: "length (locks fs) = length (fs_cells fs)"
  by (simp add: locks_def)

section \<open>Mounting\<close>

lemma sb_ok_mono: "sb_ok R sb \<Longrightarrow> (\<And>b. R b \<Longrightarrow> R' b) \<Longrightarrow> sb_ok R' sb"
  by (auto simp: sb_ok_def)

definition inode_room :: "super_block \<Rightarrow> bool" where
  "inode_room sb \<longleftrightarrow> inode_count sb \<le> (unat (sb_inode_start sb) - unat (sb_inode_bmap_start sb)) * BITMAP_PER_BLOCK"

context block_store
begin

lemma open_mounted:
  assumes "dinv d" and sb: "sb_ok (inr d) sb" and "super_block_is_valid sb" and "inode_room sb" and rep: "fs_rep sb (blk d) F" and R: "used_in (inr d) (blk d) sb"
  shows "\<exists>fs. fs_open ops d validate = Inr (Inr fs) \<and> at BLOCK_BUFFER_SIZE (inr d) {} (fs_store fs) \<and> view (fs_store fs) = blk d \<and>
    fs_sb fs = sb \<and> fs_icache fs = [] \<and> fs_icapacity fs = INODE_BUFFER_SIZE \<and> fs_cells fs = [] \<and> mounted (inr d) (blk d) fs F"
proof -
  have on: "sb_on_disk (blk d) = sb" using rep by (simp add: fs_rep_def)
  have "inr d SUPER_BLOCK_LOC" using super_low [OF sb] sb_okD(2,4) [OF sb] by (intro sb_okD(3) [OF sb]) simp
  from open_gives [OF assms(1) this, of validate] assms(3) on obtain s where
    "fs_open ops d validate = Inr (Inr \<lparr>fs_sb = sb, fs_store = s, fs_icache = [], fs_icapacity = INODE_BUFFER_SIZE,
      fs_ilocked = False, fs_cells = []\<rparr>)" "at BLOCK_BUFFER_SIZE (inr d) {} s" "view s = blk d" by auto
  then show ?thesis using assms(2,4) rep R
    by (auto simp: mounted_def fs_ready_def fs_rep_def inode_room_def INODE_BUFFER_SIZE_def)
qed

text \<open>\<open>create\<close> formats the device and mounts it.\<close>

lemma create_fs_gives:
  assumes "dinv d" and lay: "create_layout total_blocks inode_blocks = Inr sb" and "2 \<le> unat total_blocks" and "unat total_blocks < 2 ^ 60"
    and ib: "0 < unat inode_blocks" "unat inode_blocks \<le> 2048" and R: "\<And>b. unat b < unat total_blocks \<Longrightarrow> inr d b"
  shows "\<exists>fs. fs_create ops d total_blocks inode_blocks = Inr fs \<and> at BLOCK_BUFFER_SIZE (inr d) {} (fs_store fs) \<and> fs_sb fs = sb \<and>
    fs_icache fs = [] \<and> fs_icapacity fs = INODE_BUFFER_SIZE \<and> fs_cells fs = [] \<and> data_in (inr d) sb \<and>
    mounted (inr d) (view (fs_store fs)) fs [0 \<mapsto> fresh_dinode Directory]"
proof -
  have l: "sb_ok (\<lambda>b. unat b < unat total_blocks) sb" "super_block_is_valid sb" "sb_inode_bmap_start sb = 2"
    "sb_inode_blocks sb = inode_blocks" "unat (sb_inode_start sb) = unat inode_blocks div 4096 + 3"
    "data_in (\<lambda>b. unat b < unat total_blocks) sb"
    using create_layout_ok [OF lay assms(3,4)] ib by simp_all
  have sb: "sb_ok (inr d) sb" by (rule sb_ok_mono [OF l(1) R])
  have full: "data_in (inr d) sb" using l(6) R by (auto simp: data_in_def)
  have cnt: "inode_count sb = unat inode_blocks * 16" using l(4) by (simp add: inode_count_def inode_sizes)
  then have room: "inode_room sb" "0 < inode_count sb" using l(3,5) ib by (simp_all add: inode_room_def BITMAP_PER_BLOCK_def inode_sizes)
  from init_fs_gives [OF assms(1) sb l(2) room(2)] room(1) obtain root d' where
    i: "init_fs ops d sb = Inr (Inr root, d')" "in_inode_num root = 0" "dinv d'" "inr d' = inr d"
      "fs_rep sb (blk d') [0 \<mapsto> fresh_dinode Directory]" by (auto simp: inode_room_def)
  from open_mounted [OF i(3) _ l(2) room(1) i(5), of True] sb used_in_full [OF sb full] i(4) obtain fs where
    "fs_open ops d' True = Inr (Inr fs)" "at BLOCK_BUFFER_SIZE (inr d) {} (fs_store fs)" "view (fs_store fs) = blk d'" "fs_sb fs = sb"
    "fs_icache fs = []" "fs_icapacity fs = INODE_BUFFER_SIZE" "fs_cells fs = []" "mounted (inr d) (blk d') fs [0 \<mapsto> fresh_dinode Directory]" by auto
  then show ?thesis using lay i(1,2) full by (auto simp: fs_create_def)
qed

text \<open>The root directory of a file system that was just mounted.\<close>

lemma root_mounted:
  assumes "at C R {} (fs_store fs)" and "1 < C" and mnt: "mounted R (view (fs_store fs)) fs F" and "F 0 = Some d" and "fs_icache fs = []"
  shows "\<exists>fs'. fs_root ops fs = Inr (length (fs_cells fs), fs') \<and> at C R {} (fs_store fs') \<and> view (fs_store fs') = view (fs_store fs) \<and>
    fs_sb fs' = fs_sb fs \<and> fst ` set (fs_icache fs') = {0} \<and> mounted R (view (fs_store fs')) fs' F \<and> handle fs' F (length (fs_cells fs)) 0 \<and>
    length (fs_cells fs') = Suc (length (fs_cells fs)) \<and> locks fs' = locks fs @ [False]"
proof -
  from get_inode_mounted [OF assms(1,2) mnt assms(4)] assms(5) obtain i s' where
    "get_inode ops 0 fs = Inr (Inr (length (fs_cells fs)), add_cell 0 i False s' fs)" "at C R {} s'" "view s' = view (fs_store fs)"
    "mounted R (view s') (add_cell 0 i False s' fs) F" "handle (add_cell 0 i False s' fs) F (length (fs_cells fs)) 0" by auto
  then show ?thesis using set_kept [of fs] assms(5)
    by (intro exI [of _ "add_cell 0 i False s' fs"]) (auto simp: fs_root_def add_cell_def locks_def)
qed

text \<open>Looking up a name whose inode is not cached yet.\<close>

lemma look_up_mounted:
  assumes "at C R {} (fs_store fs)" and "1 < C" and mnt: "mounted R (view (fs_store fs)) fs F" and h: "handle fs F a p"
    and dir: "dir_file (view (fs_store fs)) F p es" and name: "map_of es name = Some (of_nat n)" and Fn: "F n = Some d"
    and new: "of_nat n \<notin> fst ` set (fs_icache fs)"
  shows "\<exists>fs'. look_up ops a name fs = Inr (Some (length (fs_cells fs)), fs') \<and> at C R {} (fs_store fs') \<and>
    view (fs_store fs') = view (fs_store fs) \<and> fs_sb fs' = fs_sb fs \<and> fst ` set (fs_icache fs') \<subseteq> insert (of_nat n) (fst ` set (fs_icache fs)) \<and>
    mounted R (view (fs_store fs')) fs' F \<and> handle fs' F (length (fs_cells fs)) n \<and>
    length (fs_cells fs') = Suc (length (fs_cells fs)) \<and> locks fs' = locks fs @ [False]"
proof -
  from look_up_gives [OF assms(1,2) handle_own [OF mnt h] handle_dir [OF mnt h dir], of name] name obtain s where
    lk: "look_up ops a name fs = bindr (get_inode ops (of_nat n) (fs\<lparr>fs_store := s\<rparr>)) (\<lambda>(r, fs).
      case r of Inl _ \<Rightarrow> Inl Panic | Inr cell \<Rightarrow> Inr (Some cell, fs))" and s: "at C R {} s" "view s = view (fs_store fs)" by auto
  have "mounted R (view s) (fs\<lparr>fs_store := s\<rparr>) F" by (rule mounted_store(2) [OF mnt]) (use mnt s(2) in \<open>auto simp: mounted_def\<close>)
  with get_inode_mounted [of C R "fs\<lparr>fs_store := s\<rparr>" F n d] s assms(2) Fn new obtain i s' where
    "get_inode ops (of_nat n) (fs\<lparr>fs_store := s\<rparr>) = Inr (Inr (length (fs_cells fs)), add_cell (of_nat n) i False s' fs)"
    "at C R {} s'" "view s' = view s" "mounted R (view s') (add_cell (of_nat n) i False s' fs) F"
    "handle (add_cell (of_nat n) i False s' fs) F (length (fs_cells fs)) n" by auto
  then show ?thesis using lk s(2) set_kept [of fs]
    by (intro exI [of _ "add_cell (of_nat n) i False s' fs"]) (auto simp: add_cell_def locks_def)
qed

end

end
