(* ===== verification/Mkfs.thy ===== *)
theory Mkfs
  imports Path Block_File
begin

text \<open>
  The image builder (\<open>fs/src/bin/mkfs.rs\<close>): it formats a file of the host and copies host
  files into the directory \<open>bin\<close> of the new file system. What it is given of the host is
  the name and the content of each file.
\<close>

definition FS_SIZE :: nat where
  "FS_SIZE = 16 * 1024 * 1024"

text \<open>
  The loop of \<open>copy2\<close>: \<open>read\<close> fills the front of the buffer with what is left of the source
  and the whole buffer is written; the inode's size cuts what is beyond it.
\<close>

function copy_loop ::
  "'d block_device \<Rightarrow> nat \<Rightarrow> nat \<Rightarrow> bytes \<Rightarrow> bytes \<Rightarrow> 'd file_system \<Rightarrow> (unit \<times> 'd file_system) result" where
  "copy_loop ops a read_count source buffer fs =
     (let got = take BLOCK_SIZE source; buffer = got @ drop (length got) buffer in
      if length got = 0 then Inr ((), fs)
      else bindr (write_inode ops a read_count buffer fs) (\<lambda>(_, fs).
        copy_loop ops a (add_usize read_count (length got)) (drop (length got) source) buffer fs))"
  by pat_completeness auto
termination by (relation "measure (\<lambda>(_, _, _, source, _, _). length source)") auto

declare copy_loop.simps [simp del]

definition copy2 ::
  "'d block_device \<Rightarrow> bytes \<Rightarrow> bytes \<Rightarrow> nat \<Rightarrow> 'd file_system \<Rightarrow> (unit \<times> 'd file_system) result" where
  "copy2 ops short_name source dst fs =
     check (in_type (cell_inode fs dst) = Directory)
      (bindr (create_inode ops dst short_name File fs) (\<lambda>(r, fs).
         case r of
           Inl _ \<Rightarrow> Inl Panic
         | Inr a \<Rightarrow>
             bindr (lock_inode a fs) (\<lambda>fs.
             bindr (resize_inode ops a (length source) fs) (\<lambda>(r, fs).
               case r of
                 Inl _ \<Rightarrow> Inl Panic
               | Inr _ \<Rightarrow>
                   bindr (copy_loop ops a 0 source (replicate BLOCK_SIZE 0) fs) (\<lambda>(_, fs).
                     Inr ((), unlock_inode a fs))))))"

fun copy_files ::
  "'d block_device \<Rightarrow> (bytes \<times> bytes) list \<Rightarrow> nat \<Rightarrow> 'd file_system \<Rightarrow> (unit \<times> 'd file_system) result" where
  "copy_files ops [] bin_dir fs = Inr ((), fs)"
| "copy_files ops ((short_name, source) # files) bin_dir fs =
     bindr (copy2 ops short_name source bin_dir fs) (\<lambda>(_, fs). copy_files ops files bin_dir fs)"

text \<open>\<open>set_len\<close> truncates or extends the image with zeros.\<close>

definition set_len :: "nat \<Rightarrow> block_file \<Rightarrow> block_file" where
  "set_len n f = f\<lparr>bf_data := take n (bf_data f) @ replicate (n - length (bf_data f)) 0\<rparr>"

text \<open>The name \<open>bin\<close>.\<close>

definition bin_name :: bytes where
  "bin_name = [98, 105, 110]"

definition mkfs_main :: "(bytes \<times> bytes) list \<Rightarrow> block_file \<Rightarrow> block_file result" where
  "mkfs_main files img =
     bindr (fs_create block_file_ops (set_len FS_SIZE img) 4096 1) (\<lambda>fs.
     bindr (fs_root block_file_ops fs) (\<lambda>(root, fs).
     bindr (lock_inode root fs) (\<lambda>fs.
     bindr (create_inode block_file_ops root bin_name Directory fs) (\<lambda>(r, fs).
       case r of
         Inl _ \<Rightarrow> Inl Panic
       | Inr bin_dir \<Rightarrow>
           bindr (lock_inode bin_dir fs) (\<lambda>fs.
           bindr (copy_files block_file_ops files bin_dir fs) (\<lambda>(_, fs).
             fs_drop block_file_ops (unlock_inode root (unlock_inode bin_dir fs))))))))"

end
