(* ===== verification/Mkfs_Correct.thy ===== *)
theory Mkfs_Correct
  imports Fs_Mount Mkfs
begin

text \<open>
  The image builder is correct: what \<open>mkfs\<close> writes is a consistent file system, and every
  file it copied is found again under its path and has its content.
\<close>

section \<open>Copying one file\<close>

lemma inode_size_dinode: "inode_size i = unat (di_size (inode_dinode i))"
  by (simp add: inode_size_def inode_dinode_def dinode_new_def)

context block_store
begin

lemma copy_loop_gives:
  assumes "1 < C" and full: "data_in R (fs_sb fs)" and "at C R {} (fs_store fs)" and "mounted R (view (fs_store fs)) fs F" and "handle fs F a n"
    and "length buffer = BLOCK_SIZE" and "rc \<le> length S" and "inode_size (cell_inode fs a) = length S"
    and "take rc (dinode_content (view (fs_store fs)) (inode_dinode (cell_inode fs a))) = take rc S"
    and "length S \<le> N_DIRECT * BLOCK_SIZE"
  shows "\<exists>s'. copy_loop ops a rc (drop rc S) buffer fs = Inr ((), fs\<lparr>fs_store := s'\<rparr>) \<and> at C R {} s' \<and>
    mounted R (view s') (fs\<lparr>fs_store := s'\<rparr>) F \<and> same_files F {n} (view (fs_store fs)) (view s') \<and>
    dinode_content (view s') (inode_dinode (cell_inode fs a)) = S"
  using assms(2-)
proof (induction "length S - rc" arbitrary: rc buffer fs rule: less_induct)
  case less
  let ?d = "inode_dinode (cell_inode fs a)" let ?D = "view (fs_store fs)"
  have sz: "unat (di_size ?d) = length S" using inode_size_at [OF handle_at(1) [OF less.prems(3,4)]] less.prems(7) by simp
  show ?case
  proof (cases "drop rc S = []")
    case True
    then have "rc = length S" using less.prems(6) by simp
    then have "dinode_content ?D ?d = S" using less.prems(8) sz by simp
    then show ?thesis using less.prems(2,3) True
      by (intro exI [of _ "fs_store fs"]) (simp add: copy_loop.simps [of ops a rc] Let_def same_files_refl)
  next
    case False
    define k where "k = min BLOCK_SIZE (length S - rc)"
    define got where "got = take BLOCK_SIZE (drop rc S)"
    let ?buf = "got @ drop k buffer"
    have got: "length got = k" "take (rc + k) S = take rc S @ got" by (simp_all add: got_def k_def take_add min_def)
    have k: "0 < k" "rc + k \<le> length S" using False less.prems(6) by (simp_all add: k_def BLOCK_SIZE_def)
    have buf: "length ?buf = BLOCK_SIZE" "take k ?buf = got" using less.prems(5) got(1) by (simp_all add: k_def)
    have small: "BLOCK_SIZE < usize_range" "rc + k < usize_range" using less.prems(9) k(2) by (simp_all add: BLOCK_SIZE_def N_DIRECT_def)
    have wr: "rc \<le> inode_size (cell_inode fs a)" "length ?buf < usize_range" "k = min (length ?buf) (inode_size (cell_inode fs a) - rc)"
      unfolding buf(1) less.prems(7) using less.prems(6) small(1) by (simp_all add: k_def)
    from write_mounted [OF less.prems(2) assms(1) less.prems(3,1,4) wr] obtain s1 where
      s1: "write_inode ops a rc ?buf fs = Inr (k, fs\<lparr>fs_store := s1\<rparr>)" "at C R {} s1" "mounted R (view s1) (fs\<lparr>fs_store := s1\<rparr>) F"
        "same_files F {n} ?D (view s1)" "dinode_content (view s1) ?d = put_slice rc got (dinode_content ?D ?d)"
      unfolding buf(2) by blast
    have tk: "take (rc + k) (dinode_content (view s1) ?d) = take (rc + k) S"
      using s1(5) less.prems(6,8) sz got by (simp add: put_slice_def)
    have "length S - (rc + k) < length S - rc" using k by linarith
    moreover have "handle (fs\<lparr>fs_store := s1\<rparr>) F a n" using less.prems(4) by (simp add: handle_def)
    ultimately obtain s' where
      s': "copy_loop ops a (rc + k) (drop (rc + k) S) ?buf (fs\<lparr>fs_store := s1\<rparr>) = Inr ((), fs\<lparr>fs_store := s'\<rparr>)" "at C R {} s'"
        "mounted R (view s') (fs\<lparr>fs_store := s'\<rparr>) F" "same_files F {n} (view s1) (view s')" "dinode_content (view s') ?d = S"
      using less.hyps [of "rc + k" "fs\<lparr>fs_store := s1\<rparr>" ?buf] s1(2,3) buf(1) less.prems(1,7,9) tk k by auto
    have "same_files F {n} ?D (view s')" by (rule same_files_trans [OF s1(4) s'(4)]) auto
    moreover have "copy_loop ops a rc (drop rc S) buffer fs = copy_loop ops a (rc + k) (drop (rc + k) S) ?buf (fs\<lparr>fs_store := s1\<rparr>)"
      using s1(1) k(1) small(2) got(1) by (auto simp: copy_loop.simps [of ops a rc] Let_def got_def [symmetric] add.commute)
    ultimately show ?thesis using s' by auto
  qed
qed

text \<open>\<open>copy2\<close> adds one file to the directory in cell \<open>a\<close>.\<close>

lemma copy2_gives:
  assumes "at C R {} (fs_store fs)" and C: "1 < C" and mnt: "mounted R (view (fs_store fs)) fs F" and full: "data_in R (fs_sb fs)"
    and h: "handle fs F a p" and dir: "dir_file (view (fs_store fs)) F p es" and name: "name_ok name" "name \<notin> fst ` set es"
    and fits: "DIR_ENTRY_SIZE * Suc (length es) \<le> N_DIRECT * BLOCK_SIZE" "length S \<le> N_DIRECT * BLOCK_SIZE"
    and free: "N_DIRECT * Suc (Suc (card (dom F))) \<le> unat (sb_data_blocks (fs_sb fs))" and ino: "card (dom F) < inode_count (fs_sb fs)"
  shows "\<exists>n d e fs'. copy2 ops name S a fs = Inr ((), fs') \<and> at C R {} (fs_store fs') \<and> F n = None \<and> n < inode_count (fs_sb fs) \<and>
    fs_sb fs' = fs_sb fs \<and> mounted R (view (fs_store fs')) fs' (F(p \<mapsto> d, n \<mapsto> e)) \<and> handle fs' (F(p \<mapsto> d, n \<mapsto> e)) a p \<and>
    dir_file (view (fs_store fs')) (F(p \<mapsto> d, n \<mapsto> e)) p (es @ [(name, of_nat n)]) \<and>
    data_file (view (fs_store fs')) (F(p \<mapsto> d, n \<mapsto> e)) n S \<and> same_files F {p} (view (fs_store fs)) (view (fs_store fs'))"
proof -
  let ?c = "length (fs_cells fs)" let ?D = "view (fs_store fs)"
  have free1: "N_DIRECT * Suc (card (dom F)) \<le> unat (sb_data_blocks (fs_sb fs))" using free by simp
  from create_mounted [OF assms(1) C mnt full h dir name fits(1) free1 ino, of File] obtain n d f1 where
    cr: "create_inode ops a name File fs = Inr (Inr ?c, f1)" and f1: "at C R {} (fs_store f1)" "F n = None" "n < inode_count (fs_sb fs)"
      "fs_sb f1 = fs_sb fs" "length (fs_cells f1) = Suc ?c" "locks f1 = locks fs @ [False]"
      "mounted R (view (fs_store f1)) f1 (F(p \<mapsto> d, n \<mapsto> new_dinode File))"
      "handle f1 (F(p \<mapsto> d, n \<mapsto> new_dinode File)) a p" "handle f1 (F(p \<mapsto> d, n \<mapsto> new_dinode File)) ?c n"
      "dir_file (view (fs_store f1)) (F(p \<mapsto> d, n \<mapsto> new_dinode File)) p (es @ [(name, of_nat n)])"
      "same_files F {p} ?D (view (fs_store f1))" by blast
  let ?F1 = "F(p \<mapsto> d, n \<mapsto> new_dinode File)"
  have a: "a < ?c" "p \<noteq> n" "p \<in> dom F" using h f1(2) by (auto simp: handle_def)
  have "card (dom ?F1) \<le> Suc (card (dom F))" using a(3) by (simp add: insert_absorb card_insert_le_m1 card_insert_if)
  have lk: "lock_inode ?c f1 = Inr (set_lock ?c True f1)" using f1(5,6) by (intro lock_eq) (simp_all add: nth_append)
  have in0: "inode_dinode (cell_inode f1 ?c) = new_dinode File" using f1(9) by (simp add: handle_def)
  then have sz0: "inode_size (cell_inode f1 ?c) = 0" by (simp add: inode_size_dinode)
  let ?f1 = "set_lock ?c True f1"
  have "N_DIRECT * Suc (card (dom ?F1)) \<le> unat (sb_data_blocks (fs_sb fs))"
    using free \<open>card (dom ?F1) \<le> Suc (card (dom F))\<close> by (meson Suc_le_mono le_trans mult_le_mono2)
  with resize_mounted [of C R ?f1 ?F1 ?c n "length S"] f1(1,4,7,9) C full fits(2) sz0 obtain e i s2 where
    rs: "resize_inode ops ?c (length S) ?f1 = Inr (Inr (), (set_cell ?c i ?f1)\<lparr>fs_store := s2\<rparr>)" and
    s2: "at C R {} s2" "mounted R (view s2) ((set_cell ?c i ?f1)\<lparr>fs_store := s2\<rparr>) (?F1(n \<mapsto> e))"
      "handle ((set_cell ?c i ?f1)\<lparr>fs_store := s2\<rparr>) (?F1(n \<mapsto> e)) ?c n" "same_files ?F1 {n} (view (fs_store f1)) (view s2)"
      "di_type e = di_type (inode_dinode (cell_inode f1 ?c))" "unat (di_size e) = length S" by auto
  let ?f2 = "(set_cell ?c i ?f1)\<lparr>fs_store := s2\<rparr>" let ?F = "F(p \<mapsto> d, n \<mapsto> e)"
  have F: "?F1(n \<mapsto> e) = ?F" by simp
  have e: "inode_dinode (cell_inode ?f2 ?c) = e" using s2(3) by (simp add: handle_def)
  have sz: "inode_size (cell_inode ?f2 ?c) = length S" using inode_size_at [OF handle_at(1) [OF s2(2)]] s2(3,6) e by simp
  from copy_loop_gives [OF C, of R ?f2 ?F ?c n "replicate BLOCK_SIZE 0" 0 S] s2(1-3) full f1(4) sz fits(2) e obtain s3 where
    cl: "copy_loop ops ?c 0 S (replicate BLOCK_SIZE 0) ?f2 = Inr ((), ?f2\<lparr>fs_store := s3\<rparr>)" and
    s3: "at C R {} s3" "mounted R (view s3) (?f2\<lparr>fs_store := s3\<rparr>) ?F" "same_files ?F {n} (view s2) (view s3)" "dinode_content (view s3) e = S"
    by auto
  let ?fs' = "unlock_inode ?c (?f2\<lparr>fs_store := s3\<rparr>)"
  have run: "copy2 ops name S a fs = Inr ((), ?fs')"
    using handle_dir [OF mnt h dir] dir_at_loop(1) cr lk rs cl by (simp add: copy2_def)
  have "handle ?f2 ?F a p" unfolding F [symmetric] by (rule handle_other) (use f1(8) a in simp_all)
  then have ha: "handle ?fs' ?F a p" by (simp add: unlock_eq) (simp add: handle_def)
  have "same_files F {p} ?D (view s2)" by (rule same_files_trans [OF f1(11) s2(4)]) (use f1(2) in auto)
  then have sf: "same_files F {p} ?D (view s3)" by (rule same_files_trans [OF _ s3(3)]) (use f1(2) in auto)
  have "dir_file (view s2) ?F p (es @ [(name, of_nat n)])" by (rule dir_file_keep(1) [OF s2(4) _ _ f1(10)]) (use a(2) in auto)
  then have df: "dir_file (view s3) ?F p (es @ [(name, of_nat n)])" by (rule dir_file_keep(1) [OF s3(3), rotated -1]) (use a(2) in auto)
  have "data_file (view s3) ?F n S" using s2(5) s3(4) in0 by (simp add: data_file_def)
  with run s3(1,2) f1(2-4) ha df sf show ?thesis
    by (intro exI [of _ n] exI [of _ d] exI [of _ e] exI [of _ ?fs']) (simp add: unlock_eq)
qed

end

section \<open>Copying all files\<close>

text \<open>The entries of the directory and the files that were copied, in the same order.\<close>

definition holds_files :: "(u64 \<Rightarrow> bytes) \<Rightarrow> (nat \<rightharpoonup> dinode) \<Rightarrow> (bytes \<times> u64) list \<Rightarrow> (bytes \<times> bytes) list \<Rightarrow> bool" where
  "holds_files D F es files \<longleftrightarrow> list_all2 (\<lambda>e f. fst e = fst f \<and> data_file D F (unat (snd e)) (snd f)) es files"

lemma holds_files_names: "holds_files D F es files \<Longrightarrow> map fst es = map fst files"
  unfolding holds_files_def by (induction es files rule: list_all2_induct) auto

lemma file_not_dir: "data_file D F k bs \<Longrightarrow> dir_file D F p es \<Longrightarrow> k \<in> dom F - {p}"
  by (auto simp: data_file_def dir_file_def)

lemma holds_files_keep:
  assumes "holds_files D F es files" and "same_files F {p} D D'" and "dir_file D F p xs" and "\<forall>k \<in> dom F - {p}. G k = F k"
  shows "holds_files D' G es files"
  using assms(1) unfolding holds_files_def
  by (rule list_all2_mono) (use file_not_dir [OF _ assms(3)] dir_file_keep(2) [OF assms(2)] assms(4) in auto)

lemma holds_files_lookup:
  assumes "holds_files D F es files" and "distinct (map fst files)" and "(name, content) \<in> set files"
  shows "\<exists>inum. map_of es name = Some inum \<and> data_file D F (unat inum) content"
proof -
  from assms(3) obtain i where i: "i < length files" "files ! i = (name, content)" by (auto simp: in_set_conv_nth)
  have l: "length es = length files" and e: "fst (es ! i) = name" "data_file D F (unat (snd (es ! i))) content"
    using assms(1) i by (auto simp: holds_files_def list_all2_conv_all_nth)
  have "distinct (map fst es)" using holds_files_names [OF assms(1)] assms(2) by simp
  then have "map_of es name = Some (snd (es ! i))"
    using i(1) l e(1) map_of_is_SomeI [of es name "snd (es ! i)"] by (metis nth_mem prod.collapse)
  with e(2) show ?thesis by blast
qed

text \<open>Names and contents \<open>mkfs\<close> can store.\<close>

definition files_ok :: "(bytes \<times> bytes) list \<Rightarrow> bool" where
  "files_ok files \<longleftrightarrow> distinct (map fst files) \<and> (\<forall>f \<in> set files. name_ok (fst f) \<and> length (snd f) \<le> N_DIRECT * BLOCK_SIZE)"

context block_store
begin

lemma copy_files_gives:
  assumes C: "1 < C" and "data_in R (fs_sb fs)" and "at C R {} (fs_store fs)" and "mounted R (view (fs_store fs)) fs F" and "handle fs F a p"
    and "dir_file (view (fs_store fs)) F p es" and "holds_files (view (fs_store fs)) F es done" and "files_ok (done @ files)"
    and "DIR_ENTRY_SIZE * (length es + length files) \<le> N_DIRECT * BLOCK_SIZE"
    and "N_DIRECT * Suc (card (dom F) + length files) \<le> unat (sb_data_blocks (fs_sb fs))"
    and "card (dom F) + length files \<le> inode_count (fs_sb fs)"
  shows "\<exists>F' es' fs'. copy_files ops files a fs = Inr ((), fs') \<and> at C R {} (fs_store fs') \<and> fs_sb fs' = fs_sb fs \<and>
    mounted R (view (fs_store fs')) fs' F' \<and> dir_file (view (fs_store fs')) F' p es' \<and>
    holds_files (view (fs_store fs')) F' es' (done @ files) \<and> same_files F {p} (view (fs_store fs)) (view (fs_store fs')) \<and>
    (\<forall>k \<in> dom F - {p}. F' k = F k)"
  using assms(2-)
proof (induction files arbitrary: fs F es "done")
  case Nil
  then show ?case by (intro exI [of _ F] exI [of _ es] exI [of _ fs]) (simp add: same_files_refl)
next
  case (Cons f files)
  obtain name S where f: "f = (name, S)" by (cases f)
  have "fs_rep (fs_sb fs) (view (fs_store fs)) F" using Cons.prems(3) by (simp add: mounted_def)
  then have fin: "finite (dom F)" by (rule rep_card(2) [OF _ mounted_sb [OF Cons.prems(3)]])
  have ok: "name_ok name" "length S \<le> N_DIRECT * BLOCK_SIZE" "name \<notin> fst ` set es"
    using Cons.prems(7) holds_files_names [OF Cons.prems(6)] by (auto simp: files_ok_def f simp flip: set_map)
  have fits: "DIR_ENTRY_SIZE * Suc (length es) \<le> N_DIRECT * BLOCK_SIZE" "N_DIRECT * Suc (Suc (card (dom F))) \<le> unat (sb_data_blocks (fs_sb fs))"
    "card (dom F) < inode_count (fs_sb fs)" using Cons.prems(8-10) by (simp_all add: algebra_simps)
  from copy2_gives [OF Cons.prems(2) C Cons.prems(3,1,4,5) ok(1,3) fits(1) ok(2) fits(2,3)] obtain n d e f1 where
    c2: "copy2 ops name S a fs = Inr ((), f1)" and f1: "at C R {} (fs_store f1)" "F n = None" "n < inode_count (fs_sb fs)" "fs_sb f1 = fs_sb fs"
      "mounted R (view (fs_store f1)) f1 (F(p \<mapsto> d, n \<mapsto> e))" "handle f1 (F(p \<mapsto> d, n \<mapsto> e)) a p"
      "dir_file (view (fs_store f1)) (F(p \<mapsto> d, n \<mapsto> e)) p (es @ [(name, of_nat n)])" "data_file (view (fs_store f1)) (F(p \<mapsto> d, n \<mapsto> e)) n S"
      "same_files F {p} (view (fs_store fs)) (view (fs_store f1))" by blast
  let ?F = "F(p \<mapsto> d, n \<mapsto> e)" let ?es = "es @ [(name, of_nat n)]"
  have p: "p \<in> dom F" using Cons.prems(4) by (auto simp: handle_def)
  have card: "card (dom ?F) = Suc (card (dom F))" using p fin f1(2) by (auto simp: card_insert_if insert_absorb)
  have G: "\<forall>k \<in> dom F - {p}. ?F k = F k" using f1(2) by auto
  have "unat (of_nat n :: u64) = n"
    using f1(3) inode_count_max(2) [OF mounted_sb [OF Cons.prems(3)]] by (simp add: unat_of_nat_u64)
  then have hf: "holds_files (view (fs_store f1)) ?F ?es (done @ [f])"
    using holds_files_keep [where G = ?F, OF Cons.prems(6) f1(9) Cons.prems(5) G] f1(8) by (simp add: holds_files_def list_all2_appendI f)
  have sizes: "files_ok ((done @ [f]) @ files)" "DIR_ENTRY_SIZE * (length ?es + length files) \<le> N_DIRECT * BLOCK_SIZE"
    "N_DIRECT * Suc (card (dom ?F) + length files) \<le> unat (sb_data_blocks (fs_sb f1))" "card (dom ?F) + length files \<le> inode_count (fs_sb f1)"
    using Cons.prems(7-10) unfolding card f1(4) by simp_all
  from Cons.IH [of f1 ?F ?es "done @ [f]", OF _ f1(1,5-7) hf sizes] Cons.prems(1) obtain F' es' fs' where
    r: "copy_files ops files a f1 = Inr ((), fs')" "at C R {} (fs_store fs')" "fs_sb fs' = fs_sb fs" "mounted R (view (fs_store fs')) fs' F'"
      "dir_file (view (fs_store fs')) F' p es'" "holds_files (view (fs_store fs')) F' es' ((done @ [f]) @ files)"
      "same_files ?F {p} (view (fs_store f1)) (view (fs_store fs'))" "\<forall>k \<in> dom ?F - {p}. F' k = ?F k"
    unfolding f1(4) by blast
  have "same_files F {p} (view (fs_store fs)) (view (fs_store fs'))" by (rule same_files_trans [OF f1(9) r(7)]) (use G in auto)
  moreover have "\<forall>k \<in> dom F - {p}. F' k = F k" using r(8) G by auto
  moreover have "copy_files ops (f # files) a fs = Inr ((), fs')" using c2 r(1) by (simp add: f)
  ultimately show ?case using r(2-6) by (intro exI [of _ F'] exI [of _ es'] exI [of _ fs']) simp
qed

end

section \<open>The image\<close>

text \<open>A disk with the files in the directory \<open>bin\<close> of the root directory.\<close>

definition image :: "(u64 \<Rightarrow> bool) \<Rightarrow> (u64 \<Rightarrow> bytes) \<Rightarrow> (bytes \<times> bytes) list \<Rightarrow> bool" where
  "image R D files \<longleftrightarrow>
     (\<exists>sb F n es. sb_ok R sb \<and> super_block_is_valid sb \<and> inode_room sb \<and> inode_count sb = 16 \<and> unat (sb_data_start sb) \<le> 5 \<and>
        fs_rep sb D F \<and> used_in R D sb \<and> n \<noteq> 0 \<and>
        dir_file D F 0 [(bin_name, of_nat n)] \<and> dir_file D F n es \<and> holds_files D F es files)"

lemma fresh_root: "dir_file D [0 \<mapsto> fresh_dinode Directory] 0 []"
  by (simp add: dir_file_def dir_rep_def dinode_content_def fresh_dinode_def dinode_new_def)

lemma set_len_range: "unat b < 4096 \<Longrightarrow> bf_in_range (set_len FS_SIZE img) b"
  by (simp add: bf_in_range_def set_len_def FS_SIZE_def BLOCK_SIZE_def min_def)

lemma mkfs_layout:
  obtains sb where "create_layout 4096 1 = Inr sb" and "inode_count sb = 16" and "4000 \<le> unat (sb_data_blocks sb)" and "unat (sb_data_start sb) \<le> 5"
    and "super_block_is_valid sb" and "inode_room sb"
proof -
  obtain sb where sb: "create_layout 4096 1 = Inr sb"
    by (simp add: create_layout_def Let_def BLOCK_SIZE_def INODES_PER_BLOCK_def DINODE_SIZE_def N_DIRECT_def
        SUPER_BLOCK_LOC_def word_less_nat_alt)
  note l = create_layout_ok [OF sb, simplified]
  from l have c: "inode_count sb = 16" by (simp add: inode_count_def inode_sizes)
  moreover from l c have "inode_room sb" by (simp add: inode_room_def BITMAP_PER_BLOCK_def BLOCK_SIZE_def)
  moreover from l have "4000 \<le> unat (sb_data_blocks sb)" "unat (sb_data_start sb) \<le> 5" by linarith+
  ultimately show ?thesis using that [OF sb] l by blast
qed

lemma mkfs_gives_image:
  assumes ok: "files_ok files" and len: "length files \<le> 14"
  shows "\<exists>img'. mkfs_main files img = Inr img' \<and> length (bf_data img') = FS_SIZE \<and> image (bf_in_range img') (bf_block img') files"
proof -
  let ?ops = block_file_ops let ?img = "set_len FS_SIZE img" let ?R = "bf_in_range ?img" let ?C = BLOCK_BUFFER_SIZE
  have len_img: "length (bf_data ?img) = FS_SIZE" by (simp add: set_len_def)
  have C: "1 < ?C" by (simp add: BLOCK_BUFFER_SIZE_def)
  obtain sb where sb: "create_layout 4096 1 = Inr sb" "inode_count sb = 16" "4000 \<le> unat (sb_data_blocks sb)"
    "super_block_is_valid sb" "inode_room sb" "unat (sb_data_start sb) \<le> 5" by (rule mkfs_layout)
  have "unat b < unat (4096 :: u64) \<Longrightarrow> ?R b" for b using set_len_range [of b img] by simp
  with bfl.create_fs_gives [OF len_img sb(1)] obtain f0 where
    f0: "fs_create ?ops ?img 4096 1 = Inr f0" "bfl.at FS_SIZE ?C ?R {} (fs_store f0)" "fs_sb f0 = sb" "fs_icache f0 = []" "fs_cells f0 = []"
      "mounted ?R (bfl.view (fs_store f0)) f0 [0 \<mapsto> fresh_dinode Directory]" "data_in ?R sb" by auto
  from bfl.root_mounted [OF f0(2) C f0(6)] f0(4,5) obtain f1 where
    f1: "fs_root ?ops f0 = Inr (0, f1)" "bfl.at FS_SIZE ?C ?R {} (fs_store f1)" "fs_sb f1 = sb"
      "mounted ?R (bfl.view (fs_store f1)) f1 [0 \<mapsto> fresh_dinode Directory]" "handle f1 [0 \<mapsto> fresh_dinode Directory] 0 0"
      "length (fs_cells f1) = 1" "locks f1 = [False]" using f0(3) by (auto simp: locks_def)
  let ?f1 = "set_lock 0 True f1"
  have "lock_inode 0 f1 = Inr ?f1" using f1(6,7) by (intro lock_eq) simp_all
  moreover have nm: "name_ok bin_name" by (simp add: name_ok_def bin_name_def DIR_NAME_SIZE_def utf8_valid.simps)
  from bfl.create_mounted [where L = FS_SIZE, of ?C ?R ?f1 "[0 \<mapsto> fresh_dinode Directory]" 0 0 "[]" bin_name Directory] f1(2-6) C f0(7) nm sb(2,3) fresh_root obtain n d f2 where
    f2: "create_inode ?ops 0 bin_name Directory ?f1 = Inr (Inr 1, f2)" "bfl.at FS_SIZE ?C ?R {} (fs_store f2)" "n \<noteq> 0" "n < 16" "fs_sb f2 = sb"
      "length (fs_cells f2) = 2" "locks f2 = [True, False]"
      "mounted ?R (bfl.view (fs_store f2)) f2 [0 \<mapsto> d, n \<mapsto> new_dinode Directory]"
      "handle f2 [0 \<mapsto> d, n \<mapsto> new_dinode Directory] 1 n"
      "dir_file (bfl.view (fs_store f2)) [0 \<mapsto> d, n \<mapsto> new_dinode Directory] 0 [(bin_name, of_nat n)]"
    using f1(7) by (auto simp: DIR_ENTRY_SIZE_def DIR_NAME_SIZE_def N_DIRECT_def BLOCK_SIZE_def split: if_splits)
  let ?F = "[0 \<mapsto> d, n \<mapsto> new_dinode Directory]" let ?f2 = "set_lock 1 True f2"
  have "lock_inode 1 f2 = Inr ?f2" using f2(6,7) by (intro lock_eq) simp_all
  moreover have bin: "dir_file (bfl.view (fs_store ?f2)) ?F n []" by (simp add: dir_file_def dir_rep_def)
  have "card (dom ?F) = 2" using f2(3) by (simp add: card_insert_if)
  with bfl.copy_files_gives [where L = FS_SIZE, OF C, of ?R ?f2 ?F 1 n "[]" "[]" files] f2(2,5,8,9) f0(7) bin ok len sb(2,3) obtain F' es' f3 where
    f3: "copy_files ?ops files 1 ?f2 = Inr ((), f3)" "bfl.at FS_SIZE ?C ?R {} (fs_store f3)" "fs_sb f3 = sb"
      "mounted ?R (bfl.view (fs_store f3)) f3 F'" "dir_file (bfl.view (fs_store f3)) F' n es'"
      "holds_files (bfl.view (fs_store f3)) F' es' files" "same_files ?F {n} (bfl.view (fs_store f2)) (bfl.view (fs_store f3))"
      "\<forall>k \<in> dom ?F - {n}. F' k = ?F k"
    by (auto simp: holds_files_def DIR_ENTRY_SIZE_def DIR_NAME_SIZE_def N_DIRECT_def BLOCK_SIZE_def)
  have root: "dir_file (bfl.view (fs_store f3)) F' 0 [(bin_name, of_nat n)]"
    by (rule dir_file_keep(1) [OF f3(7) _ _ f2(10)]) (use f2(3) f3(8) in auto)
  from bfl.drop_gives [OF f3(2)] obtain img' where
    img': "fs_drop ?ops (unlock_inode 0 (unlock_inode 1 f3)) = Inr img'" "bf_in_range img' = ?R" "bf_block img' = bfl.view (fs_store f3)" "length (bf_data img') = FS_SIZE"
    by (auto simp: fs_drop_def unlock_inode_def)
  have "mkfs_main files img = Inr img'"
    using f0(1) f1(1) calculation f2(1) f3(1) img'(1) by (simp add: mkfs_main_def)
  moreover have "image (bf_in_range img') (bf_block img') files"
    unfolding image_def img'(2,3) using mounted_sb [OF f3(4)] f3(3-6) sb(2,4-6) f2(3) root
    by (intro exI [of _ sb] exI [of _ F'] exI [of _ n] exI [of _ es']) (simp add: mounted_def)
  ultimately show ?thesis using img'(4) by blast
qed

section \<open>Finding the files again\<close>

lemma data_file_handle:
  assumes "handle fs F a k" and "data_file D F k content"
  shows "in_type (cell_inode fs a) = File" and "inode_size (cell_inode fs a) = length content"
proof -
  have d: "di_type (inode_dinode (cell_inode fs a)) = File" "dinode_content D (inode_dinode (cell_inode fs a)) = content"
    using assms by (auto simp: handle_def data_file_def)
  then show "in_type (cell_inode fs a) = File" by (simp add: inode_dinode_def dinode_new_def)
  show "inode_size (cell_inode fs a) = length content" using arg_cong [OF d(2), of length] by (simp add: inode_size_dinode)
qed

text \<open>The path of a program, as the kernel writes it.\<close>

definition bin_path :: "bytes \<Rightarrow> bytes" where
  "bin_path name = slash # bin_name @ slash # name"

definition path_name :: "bytes \<Rightarrow> bool" where
  "path_name name \<longleftrightarrow> ascii name \<and> slash \<notin> set name \<and> name \<noteq> []"

lemma skip_bin_path:
  assumes "path_name name"
  shows "skip (bin_path name) = Inr (Some (bin_name, name))" and "skip name = Inr (Some (name, []))"
proof -
  have a: "ascii name" "slash \<notin> set name" "name \<noteq> []" using assms by (simp_all add: path_name_def)
  obtain c cs where c: "name = c # cs" "c \<noteq> slash" using a(2,3) by (cases name) auto
  have tw: "takeWhile (\<lambda>c. c \<noteq> slash) name = name" "dropWhile (\<lambda>c. c \<noteq> slash) name = []" "dropWhile (\<lambda>c. c = slash) name = name"
    using a(2) c by (auto simp: takeWhile_eq_all_conv dropWhile_eq_Nil_conv)
  have "ascii (bin_path name)" using a(1) by (simp add: bin_path_def ascii_def bin_name_def)
  then show "skip (bin_path name) = Inr (Some (bin_name, name))"
    using tw by (simp add: skip_ascii path_head_def path_tail_def bin_path_def bin_name_def)
  have "path_head name = name" "path_tail name = []" unfolding path_head_def path_tail_def tw by simp_all
  then show "skip name = Inr (Some (name, []))" using a(3) unfolding skip_ascii [OF a(1)] tw by simp
qed

context block_store
begin

lemma resolve_step:
  assumes "at C R {} (fs_store fs)" and "1 < C" and mnt: "mounted R (view (fs_store fs)) fs F" and h: "handle fs F a p"
    and dir: "dir_file (view (fs_store fs)) F p es" and "\<not> locks fs ! a" and "path \<noteq> []" and "skip path = Inr (Some (name, rest))"
    and "map_of es name = Some (of_nat n)" and "F n = Some d" and "of_nat n \<notin> fst ` set (fs_icache fs)"
  shows "\<exists>fs'. get_inode_from_path ops path a fs =
      bindr (get_inode_from_path ops rest (length (fs_cells fs)) fs') (\<lambda>(r, fs). Inr (r, unlock_inode a fs)) \<and>
    at C R {} (fs_store fs') \<and> view (fs_store fs') = view (fs_store fs) \<and>
    fst ` set (fs_icache fs') \<subseteq> insert (of_nat n) (fst ` set (fs_icache fs)) \<and> mounted R (view (fs_store fs')) fs' F \<and>
    handle fs' F (length (fs_cells fs)) n \<and> length (fs_cells fs') = Suc (length (fs_cells fs)) \<and> locks fs' = (locks fs)[a := True] @ [False]"
proof -
  let ?fs = "set_lock a True fs"
  have a: "a < length (fs_cells fs)" using h by (simp add: handle_def)
  have lk: "lock_inode a fs = Inr ?fs" using a assms(6) by (rule lock_eq)
  have ty: "in_type (cell_inode fs a) = Directory" using dir_at_loop(1) [OF handle_dir [OF mnt h dir]] .
  from look_up_mounted [of C R ?fs F a p es name n d] assms(1-5,9-11) obtain fs' where
    "look_up ops a name ?fs = Inr (Some (length (fs_cells fs)), fs')" "at C R {} (fs_store fs')" "view (fs_store fs') = view (fs_store fs)"
    "fst ` set (fs_icache fs') \<subseteq> insert (of_nat n) (fst ` set (fs_icache fs))" "mounted R (view (fs_store fs')) fs' F"
    "handle fs' F (length (fs_cells fs)) n" "length (fs_cells fs') = Suc (length (fs_cells fs))" "locks fs' = (locks fs)[a := True] @ [False]"
    by auto
  then show ?thesis using assms(7,8) lk ty by (auto simp: get_inode_from_path.simps [of ops path])
qed

lemma open_bin_path:
  assumes "at C R {} (fs_store fs)" and C: "1 < C" and mnt: "mounted R (view (fs_store fs)) fs F" and h: "handle fs F 0 0"
    and cells: "length (fs_cells fs) = 1" "locks fs = [False]" "fst ` set (fs_icache fs) = {0}"
    and root: "dir_file (view (fs_store fs)) F 0 [(bin_name, of_nat n)]" and bin: "dir_file (view (fs_store fs)) F n es" "n \<noteq> 0"
    and name: "path_name name" "map_of es name = Some inum" "data_file (view (fs_store fs)) F (unat inum) content"
  shows "\<exists>a k fs'. get_inode_from_path ops (bin_path name) 0 fs = Inr (Some a, fs') \<and> at C R {} (fs_store fs') \<and>
    mounted R (view (fs_store fs')) fs' F \<and> handle fs' F a k \<and> data_file (view (fs_store fs')) F k content \<and> \<not> locks fs' ! a"
proof -
  let ?D = "view (fs_store fs)"
  obtain d e where d: "F n = Some d" "F (unat inum) = Some e" using bin(1) name(3) by (auto simp: dir_file_def data_file_def)
  have un: "unat (of_nat k :: u64) = k" if "F k = Some x" for k x
    using mounted_count [OF mnt that] inode_count_max(2) [OF mounted_sb [OF mnt]] by (simp add: unat_of_nat_u64)
  have "unat (of_nat n :: u64) \<noteq> unat (0 :: u64)" using un [OF d(1)] bin(2) by simp
  then have n0: "of_nat n \<notin> fst ` set (fs_icache fs)" unfolding cells(3) by auto
  from resolve_step [OF assms(1) C mnt h root, of "bin_path name" bin_name name n d] cells n0 d(1) skip_bin_path(1) [OF name(1)] obtain f1 where
    f1: "get_inode_from_path ops (bin_path name) 0 fs = bindr (get_inode_from_path ops name 1 f1) (\<lambda>(r, fs). Inr (r, unlock_inode 0 fs))"
      "at C R {} (fs_store f1)" "view (fs_store f1) = ?D" "fst ` set (fs_icache f1) \<subseteq> {of_nat n, 0}" "mounted R ?D f1 F"
      "handle f1 F 1 n" "length (fs_cells f1) = 2" "locks f1 = [True, False]" by (auto simp: bin_path_def)
  have "unat inum \<noteq> 0" "unat inum \<noteq> n" using file_not_dir [OF name(3) root] file_not_dir [OF name(3) bin(1)] by auto
  then have "inum \<noteq> 0" "inum \<noteq> of_nat n" using un [OF d(1)] by auto
  then have i0: "of_nat (unat inum) \<notin> fst ` set (fs_icache f1)" using f1(4) by auto
  have "name \<noteq> []" using name(1) by (simp add: path_name_def)
  with resolve_step [of C R f1 F 1 n es name name "[]" "unat inum" e] f1 C bin(1) name(2) d(2) i0 skip_bin_path(2) [OF name(1)] obtain f2 where
    f2: "get_inode_from_path ops name 1 f1 = bindr (get_inode_from_path ops [] 2 f2) (\<lambda>(r, fs). Inr (r, unlock_inode 1 fs))"
      "at C R {} (fs_store f2)" "view (fs_store f2) = ?D" "mounted R ?D f2 F" "handle f2 F 2 (unat inum)" "locks f2 = [True, True, False]" by auto
  let ?fs = "set_lock 0 False (set_lock 1 False f2)"
  have "get_inode_from_path ops [] 2 f2 = Inr (Some 2, f2)" by (simp add: get_inode_from_path.simps [of ops "[]"])
  then have "get_inode_from_path ops (bin_path name) 0 fs = Inr (Some 2, ?fs)" using f1(1) f2(1) by (simp add: unlock_eq)
  then show ?thesis using f2(2-6) name(3) by (intro exI [of _ 2] exI [of _ "unat inum"] exI [of _ ?fs]) simp
qed

text \<open>Mounting an image and finding a file.\<close>

lemma image_opens:
  assumes "dinv d" and "image (inr d) (blk d) files" and "distinct (map fst files)"
  shows "\<exists>f0 fs F. fs_open ops d True = Inr (Inr f0) \<and> fs_root ops f0 = Inr (0, fs) \<and>
    (\<forall>(name, content) \<in> set files. path_name name \<longrightarrow>
      (\<exists>a k fs'. get_inode_from_path ops (bin_path name) 0 fs = Inr (Some a, fs') \<and> at BLOCK_BUFFER_SIZE (inr d) {} (fs_store fs') \<and>
        mounted (inr d) (view (fs_store fs')) fs' F \<and> handle fs' F a k \<and> data_file (view (fs_store fs')) F k content \<and> \<not> locks fs' ! a))"
proof -
  let ?R = "inr d" let ?D = "blk d"
  have C: "1 < BLOCK_BUFFER_SIZE" by (simp add: BLOCK_BUFFER_SIZE_def)
  from assms(2) obtain sb F n es where i: "sb_ok ?R sb" "super_block_is_valid sb" "inode_room sb" "fs_rep sb ?D F" "n \<noteq> 0" "used_in ?R ?D sb"
    "dir_file ?D F 0 [(bin_name, of_nat n)]" "dir_file ?D F n es" "holds_files ?D F es files" by (auto simp: image_def)
  from open_mounted [OF assms(1) i(1-4,6), of True] obtain f0 where
    f0: "fs_open ops d True = Inr (Inr f0)" "at BLOCK_BUFFER_SIZE ?R {} (fs_store f0)" "view (fs_store f0) = ?D"
      "fs_icache f0 = []" "fs_cells f0 = []" "mounted ?R ?D f0 F" by blast
  obtain e where "F 0 = Some e" using i(7) by (auto simp: dir_file_def)
  with root_mounted [OF f0(2) C, of F e] f0(3-6) obtain fs where
    fs: "fs_root ops f0 = Inr (0, fs)" "at BLOCK_BUFFER_SIZE ?R {} (fs_store fs)" "view (fs_store fs) = ?D"
      "fst ` set (fs_icache fs) = {0}" "mounted ?R ?D fs F" "handle fs F 0 0" "length (fs_cells fs) = 1" "locks fs = [False]"
    by (auto simp: locks_def)
  have "\<exists>a k fs'. get_inode_from_path ops (bin_path name) 0 fs = Inr (Some a, fs') \<and> at BLOCK_BUFFER_SIZE ?R {} (fs_store fs') \<and>
      mounted ?R (view (fs_store fs')) fs' F \<and> handle fs' F a k \<and> data_file (view (fs_store fs')) F k content \<and> \<not> locks fs' ! a"
    if f: "(name, content) \<in> set files" "path_name name" for name content
  proof -
    obtain inum where "map_of es name = Some inum" "data_file ?D F (unat inum) content"
      using holds_files_lookup [OF i(9) assms(3) f(1)] by blast
    with open_bin_path [OF fs(2) C _ fs(6-8,4)] fs(3,5) i(5,7,8) f(2) show ?thesis by simp
  qed
  with f0(1) fs(1) show ?thesis by blast
qed

end

section \<open>Property of the image builder\<close>

text \<open>
  C4: What \<open>mkfs\<close> packs is found again. For up to 14 files with different names and at
  most 28 blocks each, \<open>mkfs\<close> succeeds on any image file; mounting what it wrote succeeds, and
  from the root directory the path \<open>/bin/name\<close> of every file whose name is plain ASCII leads to
  an inode of type file with the size and the content of the original.
\<close>

theorem mkfs_then_open:
  assumes "files_ok files" and "length files \<le> 14"
  shows "\<exists>img' fs0 fs. mkfs_main files img = Inr img' \<and> fs_open block_file_ops img' True = Inr (Inr fs0) \<and>
    fs_root block_file_ops fs0 = Inr (0, fs) \<and>
    (\<forall>(name, content) \<in> set files. path_name name \<longrightarrow>
      (\<exists>a fs' fs''. get_inode_from_path block_file_ops (bin_path name) 0 fs = Inr (Some a, fs') \<and>
        in_type (cell_inode fs' a) = File \<and> inode_size (cell_inode fs' a) = length content \<and>
        read_inode block_file_ops a 0 (replicate (length content) 0) fs' = Inr ((length content, content), fs'')))"
proof -
  have C: "1 < BLOCK_BUFFER_SIZE" by (simp add: BLOCK_BUFFER_SIZE_def)
  from mkfs_gives_image [OF assms] obtain img' where img': "mkfs_main files img = Inr img'" "image (bf_in_range img') (bf_block img') files" by blast
  from bfs.image_opens [OF TrueI img'(2)] assms(1) obtain f0 fs F where
    o: "fs_open block_file_ops img' True = Inr (Inr f0)" "fs_root block_file_ops f0 = Inr (0, fs)" and
    f: "\<forall>(name, content) \<in> set files. path_name name \<longrightarrow>
      (\<exists>a k fs'. get_inode_from_path block_file_ops (bin_path name) 0 fs = Inr (Some a, fs') \<and>
        bfs.at BLOCK_BUFFER_SIZE (bf_in_range img') {} (fs_store fs') \<and> mounted (bf_in_range img') (bfs.view (fs_store fs')) fs' F \<and>
        handle fs' F a k \<and> data_file (bfs.view (fs_store fs')) F k content \<and> \<not> locks fs' ! a)" by (auto simp: files_ok_def)
  have "\<exists>a fs' fs''. get_inode_from_path block_file_ops (bin_path name) 0 fs = Inr (Some a, fs') \<and>
      in_type (cell_inode fs' a) = File \<and> inode_size (cell_inode fs' a) = length content \<and>
      read_inode block_file_ops a 0 (replicate (length content) 0) fs' = Inr ((length content, content), fs'')"
    if nc: "(name, content) \<in> set files" "path_name name" for name content
  proof -
    from f nc obtain a k fs' where r: "get_inode_from_path block_file_ops (bin_path name) 0 fs = Inr (Some a, fs')"
      "bfs.at BLOCK_BUFFER_SIZE (bf_in_range img') {} (fs_store fs')" "mounted (bf_in_range img') (bfs.view (fs_store fs')) fs' F"
      "handle fs' F a k" "data_file (bfs.view (fs_store fs')) F k content" by blast
    have len: "length content < usize_range" using assms(1) nc(1) by (auto simp: files_ok_def N_DIRECT_def BLOCK_SIZE_def)
    from bfs.read_mounted [OF r(2) C r(3-5), of 0 "replicate (length content) 0" "length content"] len obtain s' where
      "read_inode block_file_ops a 0 (replicate (length content) 0) fs' = Inr ((length content, content), fs'\<lparr>fs_store := s'\<rparr>)"
      by (auto simp: put_slice_def get_slice_def)
    then show ?thesis using r(1) data_file_handle [OF r(4,5)] by blast
  qed
  with img'(1) o show ?thesis by (intro exI [of _ img'] exI [of _ f0] exI [of _ fs]) blast
qed

text \<open>Two programs, \<open>hello\<close> and \<open>sh\<close>.\<close>

theorem mkfs_then_open_witness:
  "\<exists>img' fs0 fs a fs' fs''. mkfs_main [([104, 101, 108, 108, 111], [1, 2, 3]), ([115, 104], replicate 5000 7)] \<lparr>bf_data = [], bf_pos = 0\<rparr> = Inr img' \<and>
    fs_open block_file_ops img' True = Inr (Inr fs0) \<and> fs_root block_file_ops fs0 = Inr (0, fs) \<and>
    get_inode_from_path block_file_ops (bin_path [115, 104]) 0 fs = Inr (Some a, fs') \<and>
    read_inode block_file_ops a 0 (replicate 5000 0) fs' = Inr ((5000, replicate 5000 7), fs'')"
proof -
  have "files_ok [([104, 101, 108, 108, 111], [1, 2, 3]), ([115, 104], replicate 5000 7)]"
    by (simp add: files_ok_def name_ok_def DIR_NAME_SIZE_def N_DIRECT_def BLOCK_SIZE_def utf8_valid.simps)
  moreover have "path_name [115, 104]" by (simp add: path_name_def ascii_def word_le_nat_alt)
  ultimately show ?thesis
    using mkfs_then_open [of "[([104, 101, 108, 108, 111], [1, 2, 3]), ([115, 104], replicate 5000 7)]" "\<lparr>bf_data = [], bf_pos = 0\<rparr>"]
    by fastforce
qed

end
