(* ===== verification/Virtio_Correct.thy ===== *)
theory Virtio_Correct
  imports Virtio
begin

text \<open>
  The virtio driver over a device that follows the virtio specification is a block device
  in the sense of the block cache: the contract \<open>block_store\<close> holds for every block but the
  last, which the driver refuses. What is asked of the device is the locale
  \<open>virtio_device\<close>; a device that reads its descriptors as the specification says has it.
\<close>

section \<open>Regions of memory\<close>

definition apart :: "u64 \<Rightarrow> nat \<Rightarrow> u64 \<Rightarrow> nat \<Rightarrow> bool" where
  "apart a m b n \<longleftrightarrow> unat a + m \<le> unat b \<or> unat b + n \<le> unat a"

lemma in_region:
  assumes "unat (a :: u64) + m \<le> usize_range"
  shows "unat (w - a) < m \<longleftrightarrow> unat a \<le> unat w \<and> unat w < unat a + m"
  using assms unat_u64_less [of w] unat_u64_less [of a] by (auto simp: unat_sub_if_size word_size)

lemma put_mem_at:
  assumes "unat a + length bs \<le> usize_range"
  shows "put_mem a bs gm w = (if unat a \<le> unat w \<and> unat w < unat a + length bs then bs ! (unat w - unat a) else gm w)"
  using in_region [OF assms, of w] by (auto simp: put_mem_def unat_sub word_le_nat_alt)

lemma length_get_mem [simp]: "length (get_mem a n gm) = n"
  by (simp add: get_mem_def)

lemma unat_add_offset: "unat (a :: u64) + n \<le> usize_range \<Longrightarrow> i < n \<Longrightarrow> unat (a + of_nat i) = unat a + i"
  by (subst unat_add_u64) (simp_all add: unat_of_nat_u64)

lemma get_put_mem_same:
  assumes "unat a + length bs \<le> usize_range" and "n = length bs"
  shows "get_mem a n (put_mem a bs gm) = bs"
  using assms by (intro nth_equalityI) (simp_all add: get_mem_def put_mem_at unat_add_offset)

lemma get_put_mem_apart:
  assumes "unat a + length bs \<le> usize_range" and "unat b + n \<le> usize_range" and "apart a (length bs) b n"
  shows "get_mem b n (put_mem a bs gm) = get_mem b n gm"
  using assms by (intro nth_equalityI) (auto simp: get_mem_def put_mem_at unat_add_offset apart_def)

section \<open>Devices\<close>

text \<open>
  What the virtio specification calls a block request (sections 2.6 and 5.2.6), said of the
  bytes and bits that the device sees. The newest entry of the available ring is the head of
  a chain of three descriptors, linked by flag 1. Flag 2 marks what the device may write: never
  the header, the data exactly when the disk is read, and always the status byte.
\<close>

definition request_chain :: "virtqueue \<Rightarrow> req_type \<Rightarrow> u64 \<Rightarrow> u64 \<Rightarrow> u64 \<Rightarrow> bool" where
  "request_chain q op header buf status \<longleftrightarrow>
     (let first = unat (vq_avail_ring q ! (unat (vq_avail_idx q - 1) mod QUEUE_SIZE));
          d0 = vq_desc q ! first; d1 = vq_desc q ! unat (vd_next d0); d2 = vq_desc q ! unat (vd_next d1)
      in length (vq_avail_ring q) = QUEUE_SIZE \<and> length (vq_desc q) = QUEUE_SIZE \<and>
         first < QUEUE_SIZE \<and> unat (vd_next d0) < QUEUE_SIZE \<and> unat (vd_next d1) < QUEUE_SIZE \<and>
         distinct [first, unat (vd_next d0), unat (vd_next d1)] \<and>
         vd_addr d0 = header \<and> vd_len d0 = 16 \<and> bit (vd_flags d0) 0 \<and> \<not> bit (vd_flags d0) 1 \<and>
         vd_addr d1 = buf \<and> vd_len d1 = 4096 \<and> bit (vd_flags d1) 0 \<and> (bit (vd_flags d1) 1 \<longleftrightarrow> op = Read) \<and>
         vd_addr d2 = status \<and> vd_len d2 = 1 \<and> \<not> bit (vd_flags d2) 0 \<and> bit (vd_flags d2) 1)"

text \<open>The header: the type in four bytes, 0 to read and 1 to write, and the sector in the last eight.\<close>

definition request_header :: "req_type \<Rightarrow> u64 \<Rightarrow> bytes \<Rightarrow> bool" where
  "request_header op sector bs \<longleftrightarrow>
     length bs = 16 \<and> take 4 bs = [case op of Read \<Rightarrow> 0 | Write \<Rightarrow> 1, 0, 0, 0] \<and> un_le64 (drop 8 bs) = sector"

text \<open>Where a request is in memory: the header, the data and the status byte do not overlap.\<close>

definition placed :: "u64 \<Rightarrow> u64 \<Rightarrow> u64 \<Rightarrow> bool" where
  "placed header buf status \<longleftrightarrow>
     unat header + 16 \<le> usize_range \<and> unat buf + BLOCK_SIZE \<le> usize_range \<and> unat status + 1 \<le> usize_range \<and>
     apart header 16 buf BLOCK_SIZE \<and> apart header 16 status 1 \<and> apart buf BLOCK_SIZE status 1"

text \<open>
  The part of the specification the driver relies on: told of queue 0, the device serves the
  request at the head of the chain, moves the data between memory and the disk, writes the
  status 0, and moves the used index by one. The disk is \<open>disk\<close>, of \<open>nsec\<close> sectors of 512 bytes.
\<close>

locale virtio_device =
  fixes dev :: "'h device"
    and nsec :: nat
    and disk :: "'h \<Rightarrow> bytes"
  assumes serves_read: "request_chain q Read header buf status \<Longrightarrow> placed header buf status \<Longrightarrow>
      request_header Read sector (get_mem header 16 gm) \<Longrightarrow> length (disk h) = nsec * 512 \<Longrightarrow> unat sector + 8 \<le> nsec \<Longrightarrow>
      \<exists>q' h'. dev 0 q gm h = Some (q', put_mem status [0] (put_mem buf (get_slice (unat sector * 512) BLOCK_SIZE (disk h)) gm), h') \<and>
        vq_desc q' = vq_desc q \<and> vq_avail_idx q' = vq_avail_idx q \<and> vq_avail_ring q' = vq_avail_ring q \<and>
        vq_used_idx q' = vq_used_idx q + 1 \<and> disk h' = disk h"
    and serves_write: "request_chain q Write header buf status \<Longrightarrow> placed header buf status \<Longrightarrow>
      request_header Write sector (get_mem header 16 gm) \<Longrightarrow> length (disk h) = nsec * 512 \<Longrightarrow> unat sector + 8 \<le> nsec \<Longrightarrow>
      \<exists>q' h'. dev 0 q gm h = Some (q', put_mem status [0] gm, h') \<and>
        vq_desc q' = vq_desc q \<and> vq_avail_idx q' = vq_avail_idx q \<and> vq_avail_ring q' = vq_avail_ring q \<and>
        vq_used_idx q' = vq_used_idx q + 1 \<and> disk h' = put_slice (unat sector * 512) (get_mem buf BLOCK_SIZE gm) (disk h)"

text \<open>The driver between requests.\<close>

definition driver_ok :: "nat \<Rightarrow> virtio_block \<Rightarrow> bool" where
  "driver_ok nsec vb \<longleftrightarrow> \<not> vb_locked vb \<and> unat (vb_sectors_num vb) = nsec \<and> vq_used_idx (vb_queue vb) = vb_used_idx vb \<and>
     length (vq_avail_ring (vb_queue vb)) = QUEUE_SIZE \<and> length (vq_desc (vb_queue vb)) = QUEUE_SIZE"

text \<open>The blocks the driver accepts.\<close>

definition virtio_in_range :: "nat \<Rightarrow> virtio_block \<times> gmem \<times> 'h \<Rightarrow> u64 \<Rightarrow> bool" where
  "virtio_in_range nsec = (\<lambda>_ b. Suc (unat b) * 8 < nsec)"

definition virtio_blk :: "nat \<Rightarrow> ('h \<Rightarrow> bytes) \<Rightarrow> virtio_block \<times> gmem \<times> 'h \<Rightarrow> u64 \<Rightarrow> bytes" where
  "virtio_blk nsec disk = (\<lambda>(vb, gm, h) b.
     if virtio_in_range nsec (vb, gm, h) b then get_slice (unat b * BLOCK_SIZE) BLOCK_SIZE (disk h) else [])"

definition virtio_inv :: "nat \<Rightarrow> ('h \<Rightarrow> bytes) \<Rightarrow> virtio_block \<times> gmem \<times> 'h \<Rightarrow> bool" where
  "virtio_inv nsec disk = (\<lambda>(vb, gm, h). driver_ok nsec vb \<and> length (disk h) = nsec * 512)"

lemma length_encode_req [simp]: "length (encode_req op sector) = 16"
  by (simp add: encode_req_def le32_def)

lemma sector_arith:
  assumes "Suc (unat b) * 8 < nsec" and "unat (n :: u64) = nsec"
  shows "unat ((b :: u64) * (of_nat BLOCK_SIZE div 512)) = unat b * 8"
    and "\<not> n \<le> b * (of_nat BLOCK_SIZE div 512) + of_nat BLOCK_SIZE div 512"
proof -
  have c: "(of_nat BLOCK_SIZE div 512 :: u64) = 8" by (simp add: BLOCK_SIZE_def)
  have n: "nsec < usize_range" using assms(2) unat_u64_less [of n] by simp
  have 1: "unat (b * 8) = unat b * 8" using assms(1) n by (subst unat_mult_u64) simp_all
  then have "unat (b * 8 + 8) = unat b * 8 + 8" using assms(1) n by (subst unat_add_u64) simp_all
  with 1 assms show "unat (b * (of_nat BLOCK_SIZE div 512)) = unat b * 8"
    "\<not> n \<le> b * (of_nat BLOCK_SIZE div 512) + of_nat BLOCK_SIZE div 512" unfolding c by (simp_all add: word_le_nat_alt)
qed

text \<open>The queue and the memory a request leaves for the device.\<close>

definition sent_queue :: "u64 \<Rightarrow> u64 \<Rightarrow> u64 \<Rightarrow> req_type \<Rightarrow> virtqueue \<Rightarrow> virtqueue" where
  "sent_queue header buf status op q =
     q\<lparr>vq_desc := req_descs header buf status op (vq_desc q),
       vq_avail_ring := (vq_avail_ring q)[unat (vq_avail_idx q) mod QUEUE_SIZE := 0],
       vq_avail_idx := vq_avail_idx q + 1\<rparr>"

lemma sent_queue_used: "vq_used_idx (sent_queue header buf status op q) = vq_used_idx q"
  by (simp add: sent_queue_def)

definition sent_mem :: "u64 \<Rightarrow> u64 \<Rightarrow> req_type \<Rightarrow> u64 \<Rightarrow> gmem \<Rightarrow> gmem" where
  "sent_mem header status op sector gm = put_mem status [0xff] (put_mem header (encode_req op sector) gm)"

lemma length_req_descs [simp]: "length (req_descs header buf status op ds) = length ds"
  by (simp add: req_descs_def)

lemma request_chain_sent:
  assumes "driver_ok nsec vb"
  shows "request_chain (sent_queue header buf status op (vb_queue vb)) op header buf status"
proof -
  have "(vq_avail_ring (vb_queue vb))[unat (vq_avail_idx (vb_queue vb)) mod QUEUE_SIZE := 0] !
      (unat (vq_avail_idx (vb_queue vb) + 1 - 1) mod QUEUE_SIZE) = 0"
    using assms by (simp add: driver_ok_def QUEUE_SIZE_def)
  with assms show ?thesis
    by (cases op) (simp_all add: request_chain_def sent_queue_def driver_ok_def req_descs_def QUEUE_SIZE_def BLOCK_SIZE_def
        VIRTQ_DESC_NEXT_def VIRTQ_DESC_WRITE_def Let_def)
qed

lemma le32_codes: "le32 0 = [0, 0, 0, 0]" "le32 1 = [1, 0, 0, 0]"
  by (simp_all add: le32_def le64_def upt_rec [of 0 8] upt_rec [of _ 8])

lemma request_header_sent: "request_header op sector (encode_req op sector)"
  by (cases op) (simp_all add: request_header_def encode_req_def req_code_def le32_codes)

lemma sent_header:
  assumes "placed header buf status"
  shows "get_mem header 16 (sent_mem header status op sector gm) = encode_req op sector"
    and "get_mem buf BLOCK_SIZE (sent_mem header status op sector gm) = get_mem buf BLOCK_SIZE gm"
proof -
  have p: "unat header + 16 \<le> usize_range" "unat buf + BLOCK_SIZE \<le> usize_range" "unat status + 1 \<le> usize_range"
    "apart header 16 buf BLOCK_SIZE" "apart status 1 header 16" "apart status 1 buf BLOCK_SIZE"
    using assms by (auto simp: placed_def apart_def)
  show "get_mem header 16 (sent_mem header status op sector gm) = encode_req op sector"
    unfolding sent_mem_def using p by (simp add: get_put_mem_apart get_put_mem_same)
  show "get_mem buf BLOCK_SIZE (sent_mem header status op sector gm) = get_mem buf BLOCK_SIZE gm"
    unfolding sent_mem_def using p by (simp add: get_put_mem_apart)
qed

lemma sent_request: "placed header buf status \<Longrightarrow> request_header op sector (get_mem header 16 (sent_mem header status op sector gm))"
  by (simp add: sent_header(1) request_header_sent)

lemma send_run:
  assumes "driver_ok nsec vb" and "Suc (unat b) * 8 < nsec"
    and "dev 0 (sent_queue header buf status op (vb_queue vb)) (sent_mem header status op (b * (of_nat BLOCK_SIZE div 512)) gm) h =
      Some (q', put_mem status [0] gm', h')" and "vq_used_idx q' = vq_used_idx (vb_queue vb) + 1"
  shows "virtio_send dev header status b buf op (vb, gm, h) =
    Inr (Inr (), vb\<lparr>vb_queue := q', vb_used_idx := vb_used_idx vb + 1\<rparr>, put_mem status [0] gm', h')"
  using assms sector_arith [OF assms(2), of "vb_sectors_num vb"]
  by (simp add: virtio_send_def Let_def sent_queue_def sent_mem_def driver_ok_def put_mem_def)

section \<open>The driver is a block device\<close>

locale virtio_disk = virtio_device +
  fixes header :: u64 and status :: u64 and buf :: u64
  assumes placed: "placed header buf status"
begin

lemma read_block_ok:
  assumes "virtio_inv nsec disk d" and "virtio_in_range nsec d b" and "length bytes = BLOCK_SIZE"
  shows "\<exists>d'. bd_read (virtio_ops dev header status buf) d b bytes = Inr (Inr (), virtio_blk nsec disk d b, d') \<and>
    virtio_inv nsec disk d' \<and> virtio_blk nsec disk d' = virtio_blk nsec disk d \<and> virtio_in_range nsec d' = virtio_in_range nsec d"
proof -
  obtain vb gm h where d: "d = (vb, gm, h)" by (cases d)
  let ?gm = "put_mem buf bytes gm" let ?s = "b * (of_nat BLOCK_SIZE div 512)"
  have ok: "driver_ok nsec vb" "length (disk h) = nsec * 512" and r: "Suc (unat b) * 8 < nsec"
    using assms(1,2) by (simp_all add: d virtio_inv_def virtio_in_range_def)
  have sec: "unat ?s = unat b * 8" using sector_arith(1) [OF r, of "vb_sectors_num vb"] ok(1) by (simp add: driver_ok_def)
  have "unat ?s + 8 \<le> nsec" using r sec by simp
  from serves_read [OF request_chain_sent [OF ok(1)] placed sent_request [OF placed, of Read ?s ?gm] ok(2) this]
  obtain q' h' where
    q': "dev 0 (sent_queue header buf status Read (vb_queue vb)) (sent_mem header status Read ?s ?gm) h =
        Some (q', put_mem status [0] (put_mem buf (get_slice (unat ?s * 512) BLOCK_SIZE (disk h)) (sent_mem header status Read ?s ?gm)), h')"
      "vq_desc q' = vq_desc (sent_queue header buf status Read (vb_queue vb))"
      "vq_avail_ring q' = vq_avail_ring (sent_queue header buf status Read (vb_queue vb))"
      "vq_used_idx q' = vq_used_idx (vb_queue vb) + 1" "disk h' = disk h" unfolding sent_queue_used by blast
  note run = send_run [where dev = dev, OF ok(1) r q'(1) q'(4)]
  let ?d' = "(vb\<lparr>vb_queue := q', vb_used_idx := vb_used_idx vb + 1\<rparr>,
    put_mem status [0] (put_mem buf (get_slice (unat ?s * 512) BLOCK_SIZE (disk h)) (sent_mem header status Read ?s ?gm)), h')"
  let ?data = "get_slice (unat ?s * 512) BLOCK_SIZE (disk h)"
  have data: "?data = virtio_blk nsec disk d b"
    using r unfolding sec by (simp add: d virtio_blk_def virtio_in_range_def BLOCK_SIZE_def mult.commute)
  have len: "length ?data = BLOCK_SIZE" unfolding sec using r ok(2) by (simp add: BLOCK_SIZE_def)
  have p: "unat buf + length ?data \<le> usize_range" "unat status + length [0 :: u8] \<le> usize_range" "apart status (length [0 :: u8]) buf BLOCK_SIZE"
    using placed len by (auto simp: placed_def apart_def)
  have "get_mem buf BLOCK_SIZE (fst (snd ?d')) = virtio_blk nsec disk d b"
    unfolding fst_conv snd_conv get_put_mem_apart [OF p(2) p(1) [unfolded len] p(3)] get_put_mem_same [OF p(1) len [symmetric]] by (rule data)
  then have "bd_read (virtio_ops dev header status buf) d b bytes = Inr (Inr (), virtio_blk nsec disk d b, ?d')"
    by (simp add: d virtio_ops_def virtio_read_block_def assms(3) run map_err_def)
  moreover have "virtio_inv nsec disk ?d'" using ok q' by (simp add: virtio_inv_def driver_ok_def sent_queue_def)
  moreover have "virtio_blk nsec disk ?d' = virtio_blk nsec disk d" unfolding virtio_blk_def virtio_in_range_def d prod.case q'(5) ..
  ultimately show ?thesis by (intro exI [of _ ?d']) (simp add: virtio_in_range_def)
qed

lemma write_block_ok:
  assumes "virtio_inv nsec disk d" and "virtio_in_range nsec d b" and "length bytes = BLOCK_SIZE"
  shows "\<exists>d'. bd_write (virtio_ops dev header status buf) d b bytes = Inr (Inr (), d') \<and>
    virtio_inv nsec disk d' \<and> virtio_blk nsec disk d' = (virtio_blk nsec disk d)(b := bytes) \<and>
    virtio_in_range nsec d' = virtio_in_range nsec d"
proof -
  obtain vb gm h where d: "d = (vb, gm, h)" by (cases d)
  let ?gm = "put_mem buf bytes gm" let ?s = "b * (of_nat BLOCK_SIZE div 512)"
  have ok: "driver_ok nsec vb" "length (disk h) = nsec * 512" and r: "Suc (unat b) * 8 < nsec"
    using assms(1,2) by (simp_all add: d virtio_inv_def virtio_in_range_def)
  have sec: "unat ?s = unat b * 8" using sector_arith(1) [OF r, of "vb_sectors_num vb"] ok(1) by (simp add: driver_ok_def)
  have "unat ?s + 8 \<le> nsec" using r sec by simp
  from serves_write [OF request_chain_sent [OF ok(1)] placed sent_request [OF placed, of Write ?s ?gm] ok(2) this]
  obtain q' h' where
    q': "dev 0 (sent_queue header buf status Write (vb_queue vb)) (sent_mem header status Write ?s ?gm) h =
        Some (q', put_mem status [0] (sent_mem header status Write ?s ?gm), h')"
      "vq_desc q' = vq_desc (sent_queue header buf status Write (vb_queue vb))"
      "vq_avail_ring q' = vq_avail_ring (sent_queue header buf status Write (vb_queue vb))"
      "vq_used_idx q' = vq_used_idx (vb_queue vb) + 1"
      "disk h' = put_slice (unat ?s * 512) (get_mem buf BLOCK_SIZE (sent_mem header status Write ?s ?gm)) (disk h)"
    unfolding sent_queue_used by blast
  note run = send_run [where dev = dev, OF ok(1) r q'(1) q'(4)]
  let ?d' = "(vb\<lparr>vb_queue := q', vb_used_idx := vb_used_idx vb + 1\<rparr>, put_mem status [0] (sent_mem header status Write ?s ?gm), h')"
  have dsk: "disk h' = put_slice (unat b * 4096) bytes (disk h)"
    using q'(5) placed assms(3) by (simp add: sent_header(2) [OF placed] sec get_put_mem_same placed_def mult.commute)
  have len: "unat b * 4096 + length bytes \<le> length (disk h)" using r ok(2) assms(3) by (simp add: BLOCK_SIZE_def)
  have "bd_write (virtio_ops dev header status buf) d b bytes = Inr (Inr (), ?d')"
    by (simp add: d virtio_ops_def virtio_write_block_def assms(3) run map_err_def)
  moreover have "virtio_inv nsec disk ?d'"
    using ok q'(2-4) dsk len by (simp add: virtio_inv_def driver_ok_def sent_queue_def)
  moreover have "virtio_blk nsec disk ?d' c = ((virtio_blk nsec disk d)(b := bytes)) c" for c
  proof (cases "c = b")
    case True
    then show ?thesis using dsk len assms(2,3) by (simp add: virtio_blk_def virtio_in_range_def d BLOCK_SIZE_def)
  next
    case False
    then have "unat c \<noteq> unat b" by (simp add: u64_eq_iff_unat)
    then have "unat c * 4096 + 4096 \<le> unat b * 4096 \<or> unat b * 4096 + 4096 \<le> unat c * 4096" by linarith
    with False dsk len assms(3) ok(2) show ?thesis
      by (auto simp: virtio_blk_def virtio_in_range_def d BLOCK_SIZE_def intro!: get_put_slice_disjoint)
  qed
  ultimately show ?thesis by (intro exI [of _ ?d']) (auto simp: virtio_in_range_def)
qed

end

sublocale virtio_disk \<subseteq> vs: block_store "virtio_ops dev header status buf" "virtio_inv nsec disk" "virtio_blk nsec disk"
    "virtio_in_range nsec"
proof
  show "length (virtio_blk nsec disk d b) = BLOCK_SIZE" if "virtio_inv nsec disk d" "virtio_in_range nsec d b" for d b
    using that by (cases d) (simp add: virtio_blk_def virtio_inv_def virtio_in_range_def BLOCK_SIZE_def)
qed (fact read_block_ok write_block_ok)+

context virtio_disk
begin

lemma driver_session:
  assumes "virtio_inv nsec disk d" and "1 < C" and "\<forall>r \<in> set rs. virtio_in_range nsec d (req_block r) \<and> req_ok r"
  shows "\<exists>d'. cache_session (virtio_ops dev header status buf) C rs d = Inr (fst (disk_reqs rs (virtio_blk nsec disk d)), d') \<and>
    virtio_inv nsec disk d' \<and> virtio_blk nsec disk d' = snd (disk_reqs rs (virtio_blk nsec disk d))"
  using vs.session_ok [OF assms] by blast

end

section \<open>A device that follows the specification\<close>

text \<open>
  It has one queue, takes the chain at the newest entry of the available ring, reads the
  header, moves the data of the second descriptor and writes the status byte of the third: 0,
  or 1 when the request is beyond the disk. It writes only where a descriptor allows it, and
  never finishes a request that would make it do otherwise. The disk is its bytes.
\<close>

definition spec_device :: "bytes device" where
  "spec_device n q gm h =
     (let first = unat (vq_avail_ring q ! (unat (vq_avail_idx q - 1) mod QUEUE_SIZE));
          d0 = vq_desc q ! first; d1 = vq_desc q ! unat (vd_next d0); d2 = vq_desc q ! unat (vd_next d1);
          hdr = get_mem (vd_addr d0) (unat (vd_len d0)) gm;
          off = unat (un_le64 (drop 8 hdr)) * 512; len = unat (vd_len d1);
          q' = q\<lparr>vq_used_ring := (vq_used_ring q)[unat (vq_used_idx q) mod QUEUE_SIZE := (of_nat first, vd_len d1)],
                 vq_used_idx := vq_used_idx q + 1\<rparr>
      in if n \<noteq> 0 \<or> \<not> bit (vd_flags d0) 0 \<or> \<not> bit (vd_flags d1) 0 \<or> \<not> bit (vd_flags d2) 1 \<or> length hdr < 16 then None
         else if length h < off + len then Some (q', put_mem (vd_addr d2) [1] gm, h)
         else if take 4 hdr = [0, 0, 0, 0] then
           (if bit (vd_flags d1) 1 then Some (q', put_mem (vd_addr d2) [0] (put_mem (vd_addr d1) (get_slice off len h) gm), h) else None)
         else if take 4 hdr = [1, 0, 0, 0] then Some (q', put_mem (vd_addr d2) [0] gm, put_slice off (get_mem (vd_addr d1) len gm) h)
         else Some (q', put_mem (vd_addr d2) [2] gm, h))"

lemma spec_device_serves:
  assumes "request_chain q op header buf status" and "request_header op sector (get_mem header 16 gm)"
    and "length h = nsec * 512" and "unat sector + 8 \<le> nsec"
  shows "\<exists>q' h'. spec_device 0 q gm h =
      Some (q', put_mem status [0] (case op of Read \<Rightarrow> put_mem buf (get_slice (unat sector * 512) BLOCK_SIZE h) gm | Write \<Rightarrow> gm), h') \<and>
      vq_desc q' = vq_desc q \<and> vq_avail_idx q' = vq_avail_idx q \<and> vq_avail_ring q' = vq_avail_ring q \<and>
      vq_used_idx q' = vq_used_idx q + 1 \<and>
      h' = (case op of Read \<Rightarrow> h | Write \<Rightarrow> put_slice (unat sector * 512) (get_mem buf BLOCK_SIZE gm) h)"
proof -
  define first where "first = unat (vq_avail_ring q ! (unat (vq_avail_idx q - 1) mod QUEUE_SIZE))"
  define d0 where "d0 = vq_desc q ! first"
  define d1 where "d1 = vq_desc q ! unat (vd_next d0)"
  define d2 where "d2 = vq_desc q ! unat (vd_next d1)"
  note defs = first_def [symmetric] d0_def [symmetric] d1_def [symmetric] d2_def [symmetric]
  have c: "vd_addr d0 = header" "vd_len d0 = 16" "bit (vd_flags d0) 0" "vd_addr d1 = buf" "vd_len d1 = 4096" "bit (vd_flags d1) 0"
    "bit (vd_flags d1) 1 \<longleftrightarrow> op = Read" "vd_addr d2 = status" "bit (vd_flags d2) 1"
    using assms(1) unfolding request_chain_def Let_def defs by simp_all
  have r: "take 4 (get_mem header 16 gm) = [case op of Read \<Rightarrow> 0 | Write \<Rightarrow> 1, 0, 0, 0]" "un_le64 (drop 8 (get_mem header 16 gm)) = sector"
    using assms(2) by (simp_all add: request_header_def)
  have fits: "\<not> length h < unat sector * 512 + 4096" using assms(3,4) by simp
  show ?thesis
    unfolding spec_device_def Let_def defs using fits c r by (cases op) (simp_all add: BLOCK_SIZE_def)
qed

interpretation sdev: virtio_disk spec_device nsec "\<lambda>h. h" "0x80400000" "0x80400010" "0x80401000" for nsec
proof
  show "placed 0x80400000 0x80401000 0x80400010" by (simp add: placed_def apart_def BLOCK_SIZE_def)
qed (use spec_device_serves [of _ Read] spec_device_serves [of _ Write] in simp_all)

section \<open>Initialisation\<close>

lemma and_and_not: "(a AND k) AND NOT k = (0 :: u32)"
  by (rule bit_eqI) (auto simp: bit_simps)

lemma negotiate_zero: "negotiate offered = 0"
proof -
  have k: "known_features = push_bit 5 1 OR push_bit 7 1 OR push_bit 11 1 OR push_bit 12 1 OR push_bit 27 1 OR
      push_bit 29 1 OR push_bit 28 1" by (simp add: known_features_def)
  show ?thesis unfolding negotiate_def Let_def k by (rule and_and_not)
qed

lemma virtio_init_inv:
  assumes "virtio_init read_reg capacity desc avail used = Inr (Inr vb, ws)"
  shows "driver_ok (unat capacity) vb" and "vb_capacity vb = capacity * 512"
    and "ws = [(Status, 0), (Status, STATUS_ACKNOWLEDGE), (Status, STATUS_DRIVER), (DriverFeatures, 0),
      (Status, STATUS_FEATURES_OK), (QueueSel, 0), (QueueNum, of_nat QUEUE_SIZE), (QueueDescLow, low32 desc),
      (QueueDescHigh, high32 desc), (QueueDriverLow, low32 avail), (QueueDriverHigh, high32 avail),
      (QueueDeviceLow, low32 used), (QueueDeviceHigh, high32 used), (QueueReady, 1), (Status, STATUS_DRIVER_OK)]"
  using assms by (auto simp: virtio_init_def Let_def check_def driver_ok_def virtqueue_new_def negotiate_zero split: if_splits)

text \<open>The device that \<open>init\<close> registers is the only one interrupts reach, and none is once it is dropped.\<close>

lemma handle_no_devices: "handle_virtio_interrupt (replicate n None) = Inr (replicate n None)"
  by (induction n) simp_all

lemma devices_start: "VIRTIO_BLK_DEVICES = None # replicate 15 None"
  using replicate_Suc [of 15 None] unfolding VIRTIO_BLK_DEVICES_def MAX_BLK_DEVICES_def by simp

lemma registered_interrupt:
  "handle_virtio_interrupt (virtio_register vb VIRTIO_BLK_DEVICES) =
     bindr (virtio_handle_interrupt vb) (\<lambda>vb. Inr (virtio_register vb VIRTIO_BLK_DEVICES))"
  "handle_virtio_interrupt (virtio_drop (virtio_register vb VIRTIO_BLK_DEVICES)) = Inr VIRTIO_BLK_DEVICES"
  unfolding devices_start virtio_register_def virtio_drop_def
  by (cases "virtio_handle_interrupt vb"; simp add: handle_no_devices)+

section \<open>Properties of the driver\<close>

text \<open>
  C7: Over any device that serves requests as the virtio specification says, the driver
  gives the file system a disk without its last block: from initialisation on, whatever
  sequence of block reads and writes the block cache serves on the blocks before the last,
  every read returns the bytes last written or those of the disk, and dropping the cache
  leaves on the disk exactly what was written. What the specification says is stated of the
  bits of the descriptors and the bytes of the header, so the requests the driver builds
  must have that form.
\<close>

theorem virtio_session_equals_disk:
  assumes "virtio_disk dev nsec disk header status buf"
    and "virtio_init read_reg capacity desc avail used = Inr (Inr vb, ws)" and "unat capacity = nsec"
    and "length (disk h) = nsec * 512"
    and "1 < C" and "\<forall>r \<in> set rs. Suc (unat (req_block r)) * 8 < nsec \<and> req_ok r"
  shows "\<exists>d'. cache_session (virtio_ops dev header status buf) C rs (vb, gm, h) =
      Inr (fst (disk_reqs rs (virtio_blk nsec disk (vb, gm, h))), d') \<and>
    virtio_blk nsec disk d' = snd (disk_reqs rs (virtio_blk nsec disk (vb, gm, h)))"
proof -
  have inv: "virtio_inv nsec disk (vb, gm, h)" using virtio_init_inv(1) [OF assms(2)] assms(3,4) by (simp add: virtio_inv_def)
  have rs: "\<forall>r \<in> set rs. virtio_in_range nsec (vb, gm, h) (req_block r) \<and> req_ok r"
    using assms(6) by (simp add: virtio_in_range_def)
  from virtio_disk.driver_session [OF assms(1) inv assms(5) rs] show ?thesis by blast
qed

definition demo_regs :: "virtio_reg \<Rightarrow> reg_writes \<Rightarrow> u32" where
  "demo_regs r ws = (case r of Magic \<Rightarrow> VIRTIO_MAGIC | Version \<Rightarrow> 2 | _ \<Rightarrow> 0)"

lemma demo_init: "\<exists>vb ws. virtio_init demo_regs 24 0x80500000 0x80500100 0x80500200 = Inr (Inr vb, ws)"
  by (simp add: virtio_init_def demo_regs_def DEVICE_TYPE_BLOCK_def Let_def)

theorem virtio_session_equals_disk_witness:
  "\<exists>vb ws d'. virtio_init demo_regs 24 0x80500000 0x80500100 0x80500200 = Inr (Inr vb, ws) \<and>
    cache_session (virtio_ops spec_device 0x80400000 0x80400010 0x80401000) 2
      [Write_Block 1 (replicate BLOCK_SIZE 5), Read_Block 0, Read_Block 1] (vb, \<lambda>_. 0, replicate (24 * 512) 7) =
    Inr ([virtio_blk 24 (\<lambda>h. h) (vb, \<lambda>_. 0, replicate (24 * 512) 7) 0, replicate BLOCK_SIZE 5], d') \<and>
    virtio_blk 24 (\<lambda>h. h) d' 1 = replicate BLOCK_SIZE 5"
proof -
  obtain vb ws where i: "virtio_init demo_regs 24 0x80500000 0x80500100 0x80500200 = Inr (Inr vb, ws)"
    using demo_init by blast
  from virtio_session_equals_disk [OF sdev.virtio_disk_axioms [of 24] i, of "replicate (24 * 512) 7" 2
      "[Write_Block 1 (replicate BLOCK_SIZE 5), Read_Block 0, Read_Block 1]" "\<lambda>_. 0"]
  have "\<exists>d'. cache_session (virtio_ops spec_device 0x80400000 0x80400010 0x80401000) 2
      [Write_Block 1 (replicate BLOCK_SIZE 5), Read_Block 0, Read_Block 1] (vb, \<lambda>_. 0, replicate (24 * 512) 7) =
    Inr ([virtio_blk 24 (\<lambda>h. h) (vb, \<lambda>_. 0, replicate (24 * 512) 7) 0, replicate BLOCK_SIZE 5], d') \<and>
    virtio_blk 24 (\<lambda>h. h) d' 1 = replicate BLOCK_SIZE 5" by auto
  with i show ?thesis by blast
qed

text \<open>
  C35: The driver refuses the last block of a disk, and the block cache does not notice: a
  request for the block that ends at the capacity is answered \<open>OutOfCapacity\<close> without
  touching the device, and \<open>BlockCache::new\<close>, which drops the error, presents a block of
  zeros whatever the disk holds.
\<close>

theorem virtio_last_block_reads_zero:
  assumes "driver_ok nsec vb" and "Suc (unat b) * 8 = nsec" and "nsec < 2 ^ 63" and "unat buf + BLOCK_SIZE \<le> usize_range"
  shows "virtio_send dev header status b buf op (vb, gm, h) = Inr (Inl (OutOfCapacity (of_nat nsec)), vb, gm, h) \<and>
    (\<exists>d. block_cache_new (virtio_ops dev header status buf) b (vb, gm, h) =
      Inr (\<lparr>bc_cache = replicate BLOCK_SIZE 0, bc_block_id = b, bc_modified = False\<rparr>, d))"
proof -
  have c: "(of_nat BLOCK_SIZE div 512 :: u64) = 8" by (simp add: BLOCK_SIZE_def)
  have "unat (b * 8) = unat b * 8" using assms(2,3) by (subst unat_mult_u64) simp_all
  then have "unat (b * 8 + 8) = nsec" using assms(2,3) by (subst unat_add_u64) simp_all
  then have e: "b * 8 + 8 = of_nat nsec" using assms(3) by (simp add: u64_eq_iff_unat unat_of_nat_u64)
  have n: "vb_sectors_num vb = of_nat nsec" using assms(1,3) by (simp add: driver_ok_def u64_eq_iff_unat unat_of_nat_u64)
  have send: "virtio_send dev header status b buf op (vb, gm, h) = Inr (Inl (OutOfCapacity (of_nat nsec)), vb, gm, h)" for op gm
    using assms(1) unfolding virtio_send_def c Let_def prod.case e n by (simp add: driver_ok_def)
  then show ?thesis
    using assms(4) by (simp add: block_cache_new_def virtio_ops_def virtio_read_block_def get_put_mem_same)
qed

theorem virtio_last_block_reads_zero_witness:
  "\<exists>vb ws d. virtio_init demo_regs 24 0x80500000 0x80500100 0x80500200 = Inr (Inr vb, ws) \<and>
    block_cache_new (virtio_ops spec_device 0x80400000 0x80400010 0x80401000) 2 (vb, \<lambda>_. 0, replicate (24 * 512) 7) =
      Inr (\<lparr>bc_cache = replicate BLOCK_SIZE 0, bc_block_id = 2, bc_modified = False\<rparr>, d)"
proof -
  obtain vb ws where i: "virtio_init demo_regs 24 0x80500000 0x80500100 0x80500200 = Inr (Inr vb, ws)"
    using demo_init by blast
  have "driver_ok 24 vb" using virtio_init_inv(1) [OF i] by simp
  from virtio_last_block_reads_zero [OF this, of 2 "0x80401000" spec_device "0x80400000" "0x80400010" Read "\<lambda>_. 0" "replicate (24 * 512) 7"] i
  show ?thesis by (auto simp: BLOCK_SIZE_def)
qed

text \<open>
  C29: Initialisation leaves the driver ready, and what it negotiates is always nothing:
  whatever the device offers, the driver accepts no feature, and each write of the status
  register replaces the bits before it instead of adding to them.
\<close>

theorem virtio_init_ready:
  assumes "virtio_init read_reg capacity desc avail used = Inr (Inr vb, ws)"
  shows "driver_ok (unat capacity) vb \<and> [v. (r, v) \<leftarrow> ws, r = DriverFeatures] = [0] \<and>
    [v. (r, v) \<leftarrow> ws, r = Status] = [0, STATUS_ACKNOWLEDGE, STATUS_DRIVER, STATUS_FEATURES_OK, STATUS_DRIVER_OK]"
  using virtio_init_inv [OF assms] by simp

theorem virtio_init_ready_witness:
  "\<exists>vb ws. virtio_init demo_regs 24 0x80500000 0x80500100 0x80500200 = Inr (Inr vb, ws) \<and>
    driver_ok 24 vb \<and> [v. (r, v) \<leftarrow> ws, r = DriverFeatures] = [0]"
proof -
  obtain vb ws where i: "virtio_init demo_regs 24 0x80500000 0x80500100 0x80500200 = Inr (Inr vb, ws)"
    using demo_init by blast
  from virtio_init_ready [OF i] i show ?thesis by auto
qed

text \<open>The requests the interrupt handler finds finished: the entries between the two indices.\<close>

definition finished :: "virtio_block \<Rightarrow> nat list" where
  "finished vb = map (\<lambda>i. unat (fst (vq_used_ring (vb_queue vb) ! (unat (vb_used_idx vb + of_nat i) mod QUEUE_SIZE))))
     [0..<unat (vq_used_idx (vb_queue vb) - vb_used_idx vb)]"

lemma drain_used_run:
  assumes "unat (idx - vb_used_idx vb) = n"
    and "\<forall>i < n. unat (fst (vq_used_ring (vb_queue vb) ! (unat (vb_used_idx vb + of_nat i) mod QUEUE_SIZE))) < length (vb_status vb)"
  shows "drain_used idx vb = Inr (vb\<lparr>vb_used_idx := idx, vb_status :=
    fold (\<lambda>i st. st[unat (fst (vq_used_ring (vb_queue vb) ! (unat (vb_used_idx vb + of_nat i) mod QUEUE_SIZE))) := Done]) [0..<n] (vb_status vb)\<rparr>)"
  using assms
proof (induction n arbitrary: vb)
  case 0
  then have "vb_used_idx vb = idx" by (simp add: unat_eq_0)
  then show ?case by (subst drain_used.simps) simp
next
  case (Suc n)
  let ?k = "unat (fst (vq_used_ring (vb_queue vb) ! (unat (vb_used_idx vb) mod QUEUE_SIZE)))"
  let ?vb = "vb\<lparr>vb_status := (vb_status vb)[?k := Done], vb_used_idx := vb_used_idx vb + 1\<rparr>"
  have ne: "vb_used_idx vb \<noteq> idx" using Suc.prems(1) by auto
  then have "unat (idx - vb_used_idx vb - 1) = n"
    using Suc.prems(1) by (metis diff_Suc_1 eq_iff_diff_eq_0 unat_minus_one)
  then have n: "unat (idx - vb_used_idx ?vb) = n" by (simp add: diff_diff_eq)
  have shift: "vb_used_idx vb + of_nat (Suc i) = vb_used_idx vb + 1 + (of_nat i :: u16)" for i by simp
  have k: "?k < length (vb_status vb)" using Suc.prems(2) [rule_format, of 0] by simp
  have "\<forall>i < n. unat (fst (vq_used_ring (vb_queue ?vb) ! (unat (vb_used_idx ?vb + of_nat i) mod QUEUE_SIZE))) < length (vb_status ?vb)"
    using Suc.prems(2) [rule_format, of "Suc _", unfolded shift] by simp
  from Suc.IH [OF n this] have "drain_used idx ?vb = Inr (?vb\<lparr>vb_used_idx := idx, vb_status :=
      fold (\<lambda>i st. st[unat (fst (vq_used_ring (vb_queue ?vb) ! (unat (vb_used_idx ?vb + of_nat i) mod QUEUE_SIZE))) := Done])
        [0..<n] (vb_status ?vb)\<rparr>)" .
  moreover have "drain_used idx vb = drain_used idx ?vb" using ne k by (subst drain_used.simps) (simp add: Let_def)
  moreover have "[0..<Suc n] = 0 # map Suc [0..<n]" by (simp add: map_Suc_upt upt_conv_Cons)
  ultimately show ?case by (simp add: fold_map comp_def shift del: upt_Suc of_nat_Suc)
qed

lemma fold_update:
  "length (fold (\<lambda>k xs. xs[k := v]) ks xs) = length xs"
  "k < length xs \<Longrightarrow> fold (\<lambda>k xs. xs[k := v]) ks xs ! k = (if k \<in> set ks then v else xs ! k)"
  by (induction ks arbitrary: xs) auto

text \<open>
  C21: The interrupt handler catches up with the device: it returns, marks exactly the
  finished requests as done, and moves the driver's index to the device's. While a request
  holds the lock of the device it never returns.
\<close>

theorem virtio_interrupt_drains:
  assumes "\<forall>k \<in> set (finished vb). k < length (vb_status vb)"
  shows "if vb_locked vb then virtio_handle_interrupt vb = Inl Hang
    else \<exists>vb'. virtio_handle_interrupt vb = Inr vb' \<and> vb_used_idx vb' = vq_used_idx (vb_queue vb) \<and>
      length (vb_status vb') = length (vb_status vb) \<and>
      (\<forall>k < length (vb_status vb). vb_status vb' ! k = (if k \<in> set (finished vb) then Done else vb_status vb ! k))"
proof (cases "vb_locked vb")
  case False
  let ?n = "unat (vq_used_idx (vb_queue vb) - vb_used_idx vb)"
  let ?f = "\<lambda>i. unat (fst (vq_used_ring (vb_queue vb) ! (unat (vb_used_idx vb + of_nat i) mod QUEUE_SIZE)))"
  have "fold (\<lambda>i st. st[?f i := Done]) [0..<?n] (vb_status vb) = fold (\<lambda>k st. st[k := Done]) (finished vb) (vb_status vb)"
    by (simp add: finished_def fold_map comp_def)
  with drain_used_run [OF refl, of "vq_used_idx (vb_queue vb)" vb] assms False
  have "virtio_handle_interrupt vb = Inr (vb\<lparr>vb_used_idx := vq_used_idx (vb_queue vb),
      vb_status := fold (\<lambda>k st. st[k := Done]) (finished vb) (vb_status vb)\<rparr>)"
    by (simp add: virtio_handle_interrupt_def finished_def)
  with False show ?thesis by (simp add: fold_update)
qed (simp add: virtio_handle_interrupt_def)

theorem virtio_interrupt_drains_witness:
  "let q = virtqueue_new\<lparr>vq_used_idx := 1, vq_used_ring := replicate QUEUE_SIZE (3, 0)\<rparr>;
       vb = \<lparr>vb_queue = q, vb_used_idx = 0xFFFF, vb_sectors_num = 24, vb_status = replicate QUEUE_SIZE Pending,
             vb_capacity = 12288, vb_locked = False\<rparr>
   in \<exists>vb'. virtio_handle_interrupt vb = Inr vb' \<and> vb_used_idx vb' = 1 \<and> vb_status vb' ! 3 = Done \<and> vb_status vb' ! 0 = Pending"
proof -
  let ?q = "virtqueue_new\<lparr>vq_used_idx := 1, vq_used_ring := replicate QUEUE_SIZE (3, 0)\<rparr>"
  let ?vb = "\<lparr>vb_queue = ?q, vb_used_idx = 0xFFFF, vb_sectors_num = 24, vb_status = replicate QUEUE_SIZE Pending,
             vb_capacity = 12288, vb_locked = False\<rparr>"
  have "finished ?vb = [3, 3]" by (simp add: finished_def QUEUE_SIZE_def upt_rec)
  with virtio_interrupt_drains [of ?vb] show ?thesis by (auto simp: Let_def QUEUE_SIZE_def)
qed

end
