(* ===== verification/Kernel_Fs.thy ===== *)
theory Kernel_Fs
  imports Kernel Mkfs_Correct Virtio_Correct
begin

text \<open>
  From the image builder to the running kernel: the image that \<open>mkfs\<close> wrote, put on the disk
  of a virtio device, is mounted by \<open>init_fs\<close> of \<open>kernel/src/lib.rs\<close>, which finds
  \<open>/bin/hello\<close> there and prints its bytes. The driver refuses the last block of the disk, so
  the argument also shows that no file of an image needs it.
\<close>

section \<open>An image on another device\<close>

text \<open>
  Sixteen files of at most 28 blocks: an image uses only the first blocks of its disk, and
  is an image on every device that serves those blocks and has the same bytes in them.
\<close>

lemma image_addrs:
  assumes rep: "fs_rep sb D F" and sb: "sb_ok R sb" and "inode_count sb = 16" and "unat (sb_data_start sb) \<le> 5" and b: "b \<in> data_addrs D sb"
  shows "unat b < 453"
proof -
  obtain k where k: "data_used D sb = {..<k}" using rep by (auto simp: fs_rep_def first_used_def)
  have "dom F \<subseteq> {..<16}" using rep assms(3) by (auto simp: fs_rep_def)
  then have "card (dom F) \<le> 16" using card_mono [of "{..<16 :: nat}" "dom F"] by simp
  then have "k \<le> 448" using rep_card(1) [OF rep sb] k by (simp add: N_DIRECT_def)
  moreover obtain n where "n < k" "b = sb_data_start sb + of_nat n" using b k by (auto simp: data_addrs_def)
  moreover have "unat (sb_data_start sb + of_nat n) = unat (sb_data_start sb) + n"
    using calculation assms(4) by (subst unat_add_u64) (simp_all add: unat_of_nat_u64)
  ultimately show ?thesis using assms(4) by simp
qed

lemma image_cong:
  assumes "image R D files" and same: "\<forall>b. unat b < 453 \<longrightarrow> R' b \<and> D' b = D b"
  shows "image R' D' files"
proof -
  from assms(1) obtain sb F n es where i: "sb_ok R sb" "super_block_is_valid sb" "inode_room sb" "inode_count sb = 16"
    "unat (sb_data_start sb) \<le> 5" "fs_rep sb D F" "n \<noteq> 0" "dir_file D F 0 [(bin_name, of_nat n)]" "dir_file D F n es" "holds_files D F es files"
    by (auto simp: image_def)
  note used = image_addrs [OF i(6,1,4,5)]
  have low: "\<forall>b. unat b < unat (sb_data_start sb) \<longrightarrow> D' b = D b" and data: "\<forall>b \<in> data_addrs D sb. D' b = D b"
    using same i(5) used by simp_all
  note rep = fs_rep_cong [OF i(6,1) low data]
  have sb: "sb_ok R' sb" using i(1,5) same by (simp add: sb_ok_def)
  moreover have "used_in R' D' sb" using image_addrs [OF rep(1) sb i(4,5)] same by (simp add: used_in_def)
  moreover have "holds_files D' F es files"
    using i(10) dir_file_keep(2) [OF rep(2), of _ F] unfolding holds_files_def by (auto elim!: list_all2_mono)
  ultimately show ?thesis using i(2-5,7) rep(1) dir_file_keep(1) [where G = F, OF rep(2) _ refl i(8)] dir_file_keep(1) [where G = F, OF rep(2) _ refl i(9)]
    unfolding image_def by (intro exI [of _ sb] exI [of _ F] exI [of _ n] exI [of _ es]) simp
qed

section \<open>Printing a file\<close>

text \<open>What is printed of a file: chunks of 4096 bytes, up to and with the first short one.\<close>

function dump_chunks :: "bytes \<Rightarrow> string" where
  "dump_chunks bs = hexdump (take 4096 bs) @ [CHR 10] @ (if length bs < 4096 then [] else dump_chunks (drop 4096 bs))"
  by pat_completeness auto
termination by (relation "measure length") auto

declare dump_chunks.simps [simp del]

definition hello_name :: bytes where
  "hello_name = [104, 101, 108, 108, 111]"

lemma hello_bin_path: "hello_path = bin_path hello_name" "path_name hello_name"
  by (simp_all add: hello_path_def bin_path_def hello_name_def bin_name_def path_name_def ascii_def word_le_nat_alt)

context block_store
begin

lemma print_loop_gives:
  assumes "at C R {} (fs_store fs)" and "1 < C" and "mounted R (view (fs_store fs)) fs F" and "handle fs F a n"
    and "data_file (view (fs_store fs)) F n bs" and "offset \<le> length bs" and "length buf = 4096" and "length bs < usize_range"
  shows "\<exists>s'. print_loop ops a offset buf out fs = Some (Inr (out @ dump_chunks (drop offset bs), fs\<lparr>fs_store := s'\<rparr>))"
  using assms
proof (induction "length bs - offset" arbitrary: offset buf out fs rule: less_induct)
  case less
  define k where "k = min 4096 (length bs - offset)"
  let ?buf = "put_slice 0 (get_slice offset k bs) buf"
  from read_mounted [OF less.prems(1-6), of buf k] less.prems(7) obtain s' where
    s': "read_inode ops a offset buf fs = Inr ((k, ?buf), fs\<lparr>fs_store := s'\<rparr>)" "at C R {} s'" "view s' = view (fs_store fs)"
    by (auto simp: k_def)
  let ?fs = "fs\<lparr>fs_store := s'\<rparr>"
  have k: "offset + k \<le> length bs" "k \<le> 4096" using less.prems(6) by (auto simp: k_def)
  have buf: "length ?buf = 4096" "take k ?buf = take 4096 (drop offset bs)"
    using k less.prems(7) by (auto simp: put_slice_def get_slice_def k_def min_def)
  show ?case
  proof (cases "k = 4096")
    case False
    then have "length bs - offset < 4096" by (auto simp: k_def min_def split: if_splits)
    with False show ?thesis using s'(1) buf
      by (intro exI [of _ s']) (simp add: print_loop.simps [of ops a offset] dump_chunks.simps [of "drop offset bs"] Let_def)
  next
    case True
    have add: "add_usize offset 4096 = offset + 4096" using k True less.prems(8) by (simp add: add_usize_def)
    have "length bs - (offset + 4096) < length bs - offset" using k True by simp
    from less.hyps [OF this, of ?fs ?buf "out @ hexdump (take 4096 (drop offset bs)) @ [CHR 10]"] s'(2,3) less.prems(2-5,8) buf(1) k True
    show ?thesis using s'(1) buf True
      by (auto simp: print_loop.simps [of ops a offset] dump_chunks.simps [of "drop offset bs"] add Let_def mounted_def handle_def fs_ready_def add.commute)
  qed
qed

text \<open>Mounting an image, finding \<open>/bin/hello\<close> and printing it.\<close>

lemma image_prints:
  assumes "dinv d" and "image (inr d) (blk d) files" and "files_ok files" and f: "(hello_name, content) \<in> set files"
  shows "\<exists>f0 f1 f2 f3 a. fs_open ops d True = Inr (Inr f0) \<and> fs_root ops f0 = Inr (0, f1) \<and>
    get_inode_from_path ops hello_path 0 f1 = Inr (Some a, f2) \<and> lock_inode a f2 = Inr (set_lock a True f2) \<and>
    print_loop ops a 0 (replicate 4096 0) [] (set_lock a True f2) = Some (Inr (dump_chunks content, f3))"
proof -
  from image_opens [OF assms(1,2)] assms(3) f obtain f0 f1 F a k f2 where
    o: "fs_open ops d True = Inr (Inr f0)" "fs_root ops f0 = Inr (0, f1)" "get_inode_from_path ops hello_path 0 f1 = Inr (Some a, f2)" and
    r: "at BLOCK_BUFFER_SIZE (inr d) {} (fs_store f2)" "mounted (inr d) (view (fs_store f2)) f2 F" "handle f2 F a k"
      "data_file (view (fs_store f2)) F k content" "\<not> locks f2 ! a"
    unfolding hello_bin_path(1) files_ok_def using hello_bin_path(2) by fast
  have len: "length content < usize_range" using assms(3) f by (auto simp: files_ok_def N_DIRECT_def BLOCK_SIZE_def)
  have "lock_inode a f2 = Inr (set_lock a True f2)" using r(3,5) by (intro lock_eq) (simp_all add: handle_def)
  with o print_loop_gives [of BLOCK_BUFFER_SIZE "inr d" "set_lock a True f2" F a k content 0 "replicate 4096 0" "[]"] r(1-4) len
  show ?thesis by (auto simp: BLOCK_BUFFER_SIZE_def)
qed

end

section \<open>The kernel prints the program\<close>

lemma image_on_virtio:
  assumes "image (bf_in_range img) (bf_block img) files" and "length (bf_data img) = FS_SIZE" and "disk h = bf_data img" and "nsec * 512 = FS_SIZE"
  shows "image (virtio_in_range nsec (vb, gm, h)) (virtio_blk nsec disk (vb, gm, h)) files"
  by (rule image_cong [OF assms(1)])
    (use assms(2-4) in \<open>auto simp: virtio_blk_def virtio_in_range_def bf_block_def bf_in_range_def FS_SIZE_def BLOCK_SIZE_def\<close>)

context virtio_disk
begin

lemmas driver_prints = vs.image_prints

end

lemma init_fs_run:
  assumes "files_ok files" and "length files \<le> 14" and "(hello_name, content) \<in> set files" and "mkfs_main files img = Inr img'"
    and "virtio_disk dev 32768 disk header status buf" and "disk h = bf_data img'"
    and "virtio_init read_reg 32768 desc avail used = Inr (Inr vb, ws)"
  shows "\<exists>root_fs'. kernel_init_fs read_reg 32768 desc avail used dev header status buf gm h once_cell_new = Inr (dump_chunks content, root_fs') \<and>
    once_cell_get root_fs' \<noteq> None"
proof -
  have img': "length (bf_data img') = FS_SIZE" "image (bf_in_range img') (bf_block img') files"
    using mkfs_gives_image [OF assms(1,2), of img] assms(4) by auto
  have inv: "virtio_inv 32768 disk (vb, gm, h)"
    using virtio_init_inv(1) [OF assms(7)] assms(6) img'(1) by (simp add: virtio_inv_def FS_SIZE_def)
  have im: "image (virtio_in_range 32768 (vb, gm, h)) (virtio_blk 32768 disk (vb, gm, h)) files"
    by (rule image_on_virtio [of img']) (use img' assms(6) in \<open>simp_all add: FS_SIZE_def\<close>)
  from virtio_disk.driver_prints [OF assms(5) inv im assms(1,3)] assms(7) show ?thesis
    by (auto simp: kernel_init_fs_def run_loop_def once_cell_set_def once_cell_get_def once_cell_new_def)
qed

text \<open>
  C1: The whole stack works together, for files that fit into their direct blocks. Let \<open>mkfs\<close>
  build an image from at most 14 host files with different names of at most 24 bytes, each of
  at most 28 blocks, among them \<open>hello\<close>, and let a virtio device that follows the
  specification hold that image as its disk, 32768 sectors. Then \<open>init_fs\<close> of the kernel
  returns: it initialises the driver, mounts the file system through the block cache, finds
  \<open>/bin/hello\<close>, and prints exactly the bytes the host file had, in chunks of 4096. The global
  \<open>ROOT_FS\<close> holds the mounted file system afterwards. (A larger \<open>hello\<close> would be read through
  its index block, where \<open>read_data\<close> waits for a lock it holds itself.)
\<close>

theorem kernel_prints_hello:
  assumes "files_ok files" and "length files \<le> 14" and "(hello_name, content) \<in> set files" and "mkfs_main files img = Inr img'"
    and "virtio_disk dev 32768 disk header status buf" and "disk h = bf_data img'"
    and "virtio_init read_reg 32768 desc avail used = Inr (Inr vb, ws)"
  shows "\<exists>root_fs'. kernel_init_fs read_reg 32768 desc avail used dev header status buf gm h once_cell_new = Inr (dump_chunks content, root_fs') \<and>
    once_cell_get root_fs' \<noteq> None"
  using assms by (rule init_fs_run)

text \<open>A program of 5000 bytes on a device that follows the specification.\<close>

theorem kernel_prints_hello_witness:
  "\<exists>img' root_fs'. mkfs_main [(hello_name, replicate 5000 7)] \<lparr>bf_data = [], bf_pos = 0\<rparr> = Inr img' \<and>
    kernel_init_fs demo_regs 32768 0x80500000 0x80500100 0x80500200 spec_device 0x80400000 0x80400010 0x80401000 (\<lambda>_. 0) (bf_data img')
      once_cell_new = Inr (dump_chunks (replicate 5000 7), root_fs') \<and> once_cell_get root_fs' \<noteq> None"
proof -
  let ?files = "[(hello_name, replicate 5000 (7 :: u8))]" let ?img = "\<lparr>bf_data = [], bf_pos = 0\<rparr>"
  have ok: "files_ok ?files"
    by (simp add: files_ok_def name_ok_def hello_name_def DIR_NAME_SIZE_def N_DIRECT_def BLOCK_SIZE_def utf8_valid.simps)
  then obtain img' where img': "mkfs_main ?files ?img = Inr img'" using mkfs_gives_image [OF ok, of ?img] by auto
  obtain vb ws where i: "virtio_init demo_regs 32768 0x80500000 0x80500100 0x80500200 = Inr (Inr vb, ws)"
    by (simp add: virtio_init_def demo_regs_def DEVICE_TYPE_BLOCK_def Let_def)
  from kernel_prints_hello [OF ok _ _ img' sdev.virtio_disk_axioms refl i] img' show ?thesis by fastforce
qed

end
