(* ===== verification/Fs_Typed.thy ===== *)
theory Fs_Typed
  imports Path
begin

text \<open>
  Well-formedness of the file system in memory (\<open>FileSystem\<close> of \<open>fs/src/lib.rs\<close> and
  \<open>InodeCacheBuffer\<close> of \<open>fs/src/inode.rs\<close>), for every device, also one that fails or lies: the
  inode cache never holds an inode twice and never grows beyond its capacity, every handle
  stays valid and keeps its inode number, and every inode has its table of addresses.
\<close>

section \<open>The invariant\<close>

definition fs_typed :: "'d file_system \<Rightarrow> bool" where
  "fs_typed fs \<longleftrightarrow>
     (\<forall>c \<in> set (fs_cells fs). dinode_wf (inode_dinode (ic_inode c))) \<and>
     distinct (map fst (fs_icache fs)) \<and> length (fs_icache fs) \<le> fs_icapacity fs \<and>
     (\<forall>(inum, a) \<in> set (fs_icache fs). a < length (fs_cells fs) \<and> in_inode_num (cell_inode fs a) = inum)"

text \<open>Handles of the earlier state mean the same in the later one.\<close>

definition fs_later :: "'d file_system \<Rightarrow> 'd file_system \<Rightarrow> bool" where
  "fs_later fs fs' \<longleftrightarrow>
     fs_sb fs' = fs_sb fs \<and> fs_icapacity fs' = fs_icapacity fs \<and> length (fs_cells fs) \<le> length (fs_cells fs') \<and>
     (\<forall>a < length (fs_cells fs). in_inode_num (cell_inode fs' a) = in_inode_num (cell_inode fs a) \<and>
        in_block_id (cell_inode fs' a) = in_block_id (cell_inode fs a) \<and>
        in_block_offset (cell_inode fs' a) = in_block_offset (cell_inode fs a))"

lemma fs_later_refl [simp]: "fs_later fs fs"
  by (simp add: fs_later_def)

lemma fs_later_trans: "fs_later fs fs1 \<Longrightarrow> fs_later fs1 fs2 \<Longrightarrow> fs_later fs fs2"
  by (auto simp: fs_later_def)

lemma fs_later_handle: "fs_later fs fs' \<Longrightarrow> a < length (fs_cells fs) \<Longrightarrow> a < length (fs_cells fs')"
  by (simp add: fs_later_def)

text \<open>Computations that keep the invariant, with what holds of their value.\<close>

definition keeps :: "'d file_system \<Rightarrow> ('v \<times> 'd file_system) result \<Rightarrow> ('v \<Rightarrow> 'd file_system \<Rightarrow> bool) \<Rightarrow> bool" where
  "keeps fs r P \<longleftrightarrow> (\<forall>v fs'. r = Inr (v, fs') \<longrightarrow> fs_typed fs' \<and> fs_later fs fs' \<and> P v fs')"

lemma keeps_fail [simp]: "keeps fs (Inl e) P"
  by (simp add: keeps_def)

lemma keeps_return: "fs_typed fs \<Longrightarrow> P v fs \<Longrightarrow> keeps fs (Inr (v, fs)) P"
  by (simp add: keeps_def)

lemma keeps_check: "(b \<Longrightarrow> keeps fs r P) \<Longrightarrow> keeps fs (check b r) P"
  by (simp add: check_def)

lemma keeps_if: "(b \<Longrightarrow> keeps fs r P) \<Longrightarrow> (\<not> b \<Longrightarrow> keeps fs r' P) \<Longrightarrow> keeps fs (if b then r else r') P"
  by simp

lemma keeps_bind:
  assumes "keeps fs m P" and "\<And>v fs'. fs_typed fs' \<Longrightarrow> fs_later fs fs' \<Longrightarrow> P v fs' \<Longrightarrow> keeps fs' (f (v, fs')) Q"
  shows "keeps fs (bindr m f) Q"
  unfolding keeps_def
proof (intro allI impI)
  fix v fs' assume "bindr m f = Inr (v, fs')"
  then obtain w fs1 where m: "m = Inr (w, fs1)" "f (w, fs1) = Inr (v, fs')" by (auto simp: bindr_eq_Inr)
  then have "fs_typed fs1" "fs_later fs fs1" "P w fs1" using assms(1) by (auto simp: keeps_def)
  with assms(2) [OF this] m show "fs_typed fs' \<and> fs_later fs fs' \<and> Q v fs'"
    by (auto simp: keeps_def intro: fs_later_trans)
qed

lemma keeps_mono: "keeps fs r P \<Longrightarrow> (\<And>v fs'. P v fs' \<Longrightarrow> Q v fs') \<Longrightarrow> keeps fs r Q"
  by (auto simp: keeps_def)

text \<open>Computations without a value.\<close>

definition keeps_unit :: "'d file_system \<Rightarrow> 'd file_system result \<Rightarrow> bool" where
  "keeps_unit fs r \<longleftrightarrow> (\<forall>fs'. r = Inr fs' \<longrightarrow> fs_typed fs' \<and> fs_later fs fs')"

lemma keeps_bind_unit:
  assumes "keeps_unit fs m" and "\<And>fs'. fs_typed fs' \<Longrightarrow> fs_later fs fs' \<Longrightarrow> keeps fs' (f fs') Q"
  shows "keeps fs (bindr m f) Q"
  unfolding keeps_def
proof (intro allI impI)
  fix v fs' assume "bindr m f = Inr (v, fs')"
  then obtain fs1 where m: "m = Inr fs1" "f fs1 = Inr (v, fs')" by (auto simp: bindr_eq_Inr)
  then have "fs_typed fs1" "fs_later fs fs1" using assms(1) by (auto simp: keeps_unit_def)
  with assms(2) [OF this] m show "fs_typed fs' \<and> fs_later fs fs' \<and> Q v fs'"
    by (auto simp: keeps_def intro: fs_later_trans)
qed

lemma keeps_then:
  assumes "fs_typed fs1" and "fs_later fs fs1" and "keeps fs1 r P"
  shows "keeps fs r P"
  using assms by (auto simp: keeps_def intro: fs_later_trans)

section \<open>The operations\<close>

lemma typed_store [simp]: "fs_typed (fs\<lparr>fs_store := s\<rparr>) = fs_typed fs" "fs_later fs (fs\<lparr>fs_store := s\<rparr>)"
  by (simp_all add: fs_typed_def fs_later_def)

lemma keeps_on_store: "fs_typed fs \<Longrightarrow> keeps fs (on_store m fs) (\<lambda>_ _. True)"
  by (auto simp: keeps_def on_store_def bindr_eq_Inr)

lemma cell_update:
  assumes "fs_typed fs" and "in_inode_num i = in_inode_num (cell_inode fs a)" and "in_block_id i = in_block_id (cell_inode fs a)"
    and "in_block_offset i = in_block_offset (cell_inode fs a)" and "a < length (fs_cells fs) \<Longrightarrow> dinode_wf (inode_dinode i)"
  shows "fs_typed (fs\<lparr>fs_cells := (fs_cells fs)[a := \<lparr>ic_inode = i, ic_locked = l\<rparr>]\<rparr>)"
    and "fs_later fs (fs\<lparr>fs_cells := (fs_cells fs)[a := \<lparr>ic_inode = i, ic_locked = l\<rparr>]\<rparr>)"
proof -
  have n: "(fs_cells fs)[a := \<lparr>ic_inode = i, ic_locked = l\<rparr>] ! b =
      (if a = b \<and> b < length (fs_cells fs) then \<lparr>ic_inode = i, ic_locked = l\<rparr> else fs_cells fs ! b)" for b
    by (cases "a < length (fs_cells fs)") (auto simp: nth_list_update list_update_beyond)
  have "dinode_wf (inode_dinode (ic_inode c))" if "c \<in> set ((fs_cells fs)[a := \<lparr>ic_inode = i, ic_locked = l\<rparr>])" for c
  proof (cases "a < length (fs_cells fs)")
    case True
    from that have "c = \<lparr>ic_inode = i, ic_locked = l\<rparr> \<or> c \<in> set (fs_cells fs)"
      using set_update_subset_insert [of "fs_cells fs" a "\<lparr>ic_inode = i, ic_locked = l\<rparr>"] by blast
    with True assms(1,5) show ?thesis by (auto simp: fs_typed_def)
  next
    case False
    with that assms(1) show ?thesis by (simp add: fs_typed_def list_update_beyond)
  qed
  with assms n show "fs_typed (fs\<lparr>fs_cells := (fs_cells fs)[a := \<lparr>ic_inode = i, ic_locked = l\<rparr>]\<rparr>)" by (auto simp: fs_typed_def)
  show "fs_later fs (fs\<lparr>fs_cells := (fs_cells fs)[a := \<lparr>ic_inode = i, ic_locked = l\<rparr>]\<rparr>)" using assms n by (auto simp: fs_later_def)
qed

lemma cell_record: "c\<lparr>ic_locked := l\<rparr> = \<lparr>ic_inode = ic_inode c, ic_locked = l\<rparr>" "c\<lparr>ic_inode := i\<rparr> = \<lparr>ic_inode = i, ic_locked = ic_locked c\<rparr>"
  by simp_all

lemma typed_cell: "fs_typed fs \<Longrightarrow> a < length (fs_cells fs) \<Longrightarrow> dinode_wf (inode_dinode (cell_inode fs a))"
  by (simp add: fs_typed_def)

lemma typed_unlock:
  assumes "fs_typed fs"
  shows "fs_typed (unlock_inode a fs)" and "fs_later fs (unlock_inode a fs)"
  unfolding unlock_inode_def cell_record using cell_update [OF assms, of "cell_inode fs a" a False] typed_cell [OF assms] by simp_all

lemma keeps_lock_inode: "fs_typed fs \<Longrightarrow> keeps_unit fs (lock_inode a fs)"
  unfolding lock_inode_def cell_record keeps_unit_def
  using cell_update [of fs "cell_inode fs a" a True] typed_cell [of fs a] by auto

lemma typed_ilock [simp]:
  "fs_typed (fs\<lparr>fs_ilocked := l\<rparr>) = fs_typed fs" "fs_later fs (fs\<lparr>fs_ilocked := l\<rparr>)"
  by (simp_all add: fs_typed_def fs_later_def)

lemma keeps_lock_cache: "fs_typed fs \<Longrightarrow> keeps_unit fs (lock_inode_cache fs)"
  by (simp add: lock_inode_cache_def keeps_unit_def)

lemma keeps_update_dinode:
  assumes "fs_typed fs" and "\<And>d s v d' s'. dinode_wf d \<Longrightarrow> f d s = Inr (v, d', s') \<Longrightarrow> dinode_wf d'"
  shows "keeps fs (update_dinode ops a f fs) (\<lambda>_ _. True)"
  unfolding keeps_def
proof (intro allI impI)
  fix v fs' assume "update_dinode ops a f fs = Inr (v, fs')"
  then obtain d' s' where u: "cache_update ops dinode_layout (in_block_id (cell_inode fs a)) (in_block_offset (cell_inode fs a))
      (\<lambda>d s. bindr (f d s) (\<lambda>(v, d', s). Inr ((v, d'), d', s))) (fs_store fs) = Inr ((v, d'), s')"
    and fs': "fs' = fs\<lparr>fs_store := s', fs_cells := (fs_cells fs)[a := (fs_cells fs ! a)\<lparr>ic_inode := inode_update d' (cell_inode fs a)\<rparr>]\<rparr>"
    by (auto simp: update_dinode_def on_store_def outcome_eqs Let_def)
  from u have "\<exists>d s s''. dinode_wf d \<and> f d s = Inr (v, d', s'')"
    by (auto simp: cache_update_def outcome_eqs dinode_layout_def dest: decode_dinode_wf)
  then have wf: "dinode_wf d'" using assms(2) by blast
  show "fs_typed fs' \<and> fs_later fs fs' \<and> True"
    unfolding fs' cell_record
    using cell_update [of "fs\<lparr>fs_store := s'\<rparr>" "inode_update d' (cell_inode fs a)" a "ic_locked (fs_cells fs ! a)"] assms(1) wf
      fs_later_trans [OF typed_store(2)]
    by (auto simp: inode_update_def inode_dinode_def dinode_new_def dinode_wf_def)
qed

text \<open>The inode cache: after the eviction there is room, after the search the number is new.\<close>

lemma evict_room:
  assumes "fs_typed fs" and "inode_cache_evict fs = Inr fs'"
  shows "fs_typed fs'" and "fs_later fs fs'" and "length (fs_icache fs') < fs_icapacity fs'"
proof -
  consider "length (fs_icache fs) = fs_icapacity fs" "0 < fs_icapacity fs" "fs' = fs\<lparr>fs_icache := butlast (fs_icache fs)\<rparr>"
    | "length (fs_icache fs) \<noteq> fs_icapacity fs" "fs' = fs"
    using assms(2) by (auto simp: inode_cache_evict_def check_eq_Inr split: if_splits)
  then have "fs_typed fs' \<and> fs_later fs fs' \<and> length (fs_icache fs') < fs_icapacity fs'"
  proof cases
    case 1
    with assms(1) show ?thesis
      by (auto simp: fs_typed_def fs_later_def map_butlast distinct_butlast dest: in_set_butlastD)
  next
    case 2
    with assms(1) show ?thesis by (auto simp: fs_typed_def)
  qed
  then show "fs_typed fs'" and "fs_later fs fs'" and "length (fs_icache fs') < fs_icapacity fs'" by simp_all
qed

lemma find_new:
  assumes "fs_typed fs" and "length (fs_icache fs) < fs_icapacity fs" and "inode_cache_find ops inum fs = Inr (a, fs')"
  shows "fs_typed (fs'\<lparr>fs_icache := (inum, a) # fs_icache fs'\<rparr>)" and "fs_later fs fs'"
    and "a < length (fs_cells fs')" and "in_inode_num (cell_inode fs' a) = inum"
proof -
  have "fs_typed (fs'\<lparr>fs_icache := (inum, a) # fs_icache fs'\<rparr>) \<and> fs_later fs fs' \<and>
    a < length (fs_cells fs') \<and> in_inode_num (cell_inode fs' a) = inum"
  proof (cases "List.extract (\<lambda>(id, _). id = inum) (fs_icache fs)")
    case None
    obtain block_id off where f: "find_inode (fs_sb fs) inum = (block_id, off)" by fastforce
    obtain d s where d: "cache_read ops dinode_layout block_id off Inr (fs_store fs) = Inr (d, s)" "a = length (fs_cells fs)"
      and fs': "fs' = fs\<lparr>fs_store := s, fs_cells := fs_cells fs @
          [\<lparr>ic_inode = inode_new block_id off inum d, ic_locked = False\<rparr>]\<rparr>"
      using assms(3) None f by (auto simp: inode_cache_find_def on_store_def outcome_eqs)
    have "dinode_wf d" using d(1)
      by (auto simp: cache_read_def locked_read_def block_cache_read_def outcome_eqs dinode_layout_def dest: decode_dinode_wf)
    moreover have "inum \<notin> fst ` set (fs_icache fs)" using None by (auto simp: extract_None_iff)
    ultimately show ?thesis using assms(1,2) d(2)
      by (auto simp: fs' fs_typed_def fs_later_def nth_append inode_new_def inode_dinode_def dinode_new_def dinode_wf_def)
  next
    case (Some r)
    obtain before k cell after where r: "r = (before, (k, cell), after)" by (cases r) auto
    have "fs_icache fs = before @ (inum, cell) # after" using Some by (auto simp: r extract_Some_iff)
    moreover have "fs' = fs\<lparr>fs_icache := before @ after\<rparr>" "a = cell"
      using assms(3) by (simp_all add: inode_cache_find_def Some r)
    ultimately show ?thesis using assms(1) by (auto simp: fs_typed_def fs_later_def)
  qed
  then show "fs_typed (fs'\<lparr>fs_icache := (inum, a) # fs_icache fs'\<rparr>)" and "fs_later fs fs'"
    and "a < length (fs_cells fs')" and "in_inode_num (cell_inode fs' a) = inum" by simp_all
qed

text \<open>What a handle that is given out is: a cell of the inode asked for.\<close>

definition handle_of :: "u64 \<Rightarrow> 'e + nat \<Rightarrow> 'd file_system \<Rightarrow> bool" where
  "handle_of inum r fs \<longleftrightarrow> (case r of Inl _ \<Rightarrow> True | Inr a \<Rightarrow> a < length (fs_cells fs) \<and> in_inode_num (cell_inode fs a) = inum)"

fun opt_handle :: "nat option \<Rightarrow> 'd file_system \<Rightarrow> bool" where
  "opt_handle None fs = True"
| "opt_handle (Some a) fs = (a < length (fs_cells fs))"

fun new_handle :: "'e + nat \<Rightarrow> 'd file_system \<Rightarrow> bool" where
  "new_handle (Inl _) fs = True"
| "new_handle (Inr a) fs = (a < length (fs_cells fs))"

lemma keeps_cache_get:
  assumes "fs_typed fs"
  shows "keeps fs (inode_cache_get ops inum fs) (handle_of inum)"
  unfolding keeps_def
proof (intro allI impI)
  fix v fs' assume g: "inode_cache_get ops inum fs = Inr (v, fs')"
  show "fs_typed fs' \<and> fs_later fs fs' \<and> handle_of inum v fs'"
  proof (cases "max_inode_num (fs_sb fs) < inum")
    case True
    with g assms show ?thesis by (auto simp: inode_cache_get_def handle_of_def)
  next
    case False
    then obtain fs1 a fs2 where e: "inode_cache_evict fs = Inr fs1" and f: "inode_cache_find ops inum fs1 = Inr (a, fs2)"
      and v: "v = Inr a" "fs' = fs2\<lparr>fs_icache := (inum, a) # fs_icache fs2\<rparr>"
      using g by (auto simp: inode_cache_get_def outcome_eqs)
    note e = evict_room [OF assms e]
    note f = find_new [OF e(1,3) f]
    have "fs_later fs2 fs'" by (simp add: v fs_later_def)
    then have "fs_later fs fs'" using e(2) f(2) fs_later_trans by blast
    then show ?thesis using f by (simp add: v handle_of_def)
  qed
qed

lemma keeps_get_inode: "fs_typed fs \<Longrightarrow> keeps fs (get_inode ops inum fs) (handle_of inum)"
  unfolding get_inode_def
  by (rule keeps_bind_unit [OF keeps_lock_cache], assumption, rule keeps_bind [OF keeps_cache_get], assumption)
    (auto simp: unlock_inode_cache_def keeps_def handle_of_def split: sum.splits)

lemma keeps_set_size: "fs_typed fs \<Longrightarrow> keeps fs (set_inode_size ops a sz fs) (\<lambda>_ _. True)"
  unfolding set_inode_size_def by (erule keeps_update_dinode) (auto simp: dinode_wf_def)

lemma keeps_allocate_data_block: "fs_typed fs \<Longrightarrow> keeps fs (allocate_data_block ops fs) (\<lambda>_ _. True)"
  unfolding allocate_data_block_def allocate_bmap_def
  by (rule keeps_bind [OF keeps_on_store]) (auto simp: keeps_return split: option.splits)

lemma keeps_locked:
  assumes "fs_typed fs" and "a < length (fs_cells fs)"
    and "\<And>fs1. fs_typed fs1 \<Longrightarrow> fs_later fs fs1 \<Longrightarrow> a < length (fs_cells fs1) \<Longrightarrow> keeps fs1 (f fs1) P"
  shows "keeps fs (bindr (lock_inode a fs) f) P"
  by (rule keeps_bind_unit [OF keeps_lock_inode [OF assms(1)]])
    (simp add: assms(3) fs_later_handle [OF _ assms(2)])

lemma keeps_unlocked:
  assumes "fs_typed fs" and "\<And>fs'. length (fs_cells fs') = length (fs_cells fs) \<Longrightarrow> P v fs'"
  shows "keeps fs (Inr (v, unlock_inode a fs)) P"
    and "keeps fs (Inr (v, unlock_inode_cache (unlock_inode a fs))) P"
proof -
  have "length (fs_cells (unlock_inode a fs)) = length (fs_cells fs)"
    "length (fs_cells (unlock_inode_cache (unlock_inode a fs))) = length (fs_cells fs)"
    by (simp_all add: unlock_inode_def unlock_inode_cache_def)
  then show "keeps fs (Inr (v, unlock_inode a fs)) P" "keeps fs (Inr (v, unlock_inode_cache (unlock_inode a fs))) P"
    using typed_unlock [OF assms(1), of a] assms(2) fs_later_trans [OF _ typed_ilock(2)]
    by (auto simp: keeps_def unlock_inode_cache_def)
qed

lemma keeps_initialize:
  assumes "fs_typed fs" and "a < length (fs_cells fs)"
  shows "keeps fs (bindr (lock_inode a fs) (\<lambda>fs. bindr (update_dinode ops a (\<lambda>d s. Inr ((), dinode_initialize ty d, s)) fs)
    (\<lambda>(_, fs). Inr (Some a, unlock_inode_cache (unlock_inode a fs))))) opt_handle"
  by (rule keeps_locked [OF assms], rule keeps_bind [OF keeps_update_dinode])
    (auto simp: dinode_wf_def dinode_initialize_def intro!: keeps_unlocked dest: fs_later_handle)

lemma keeps_allocate_inode: "fs_typed fs \<Longrightarrow> keeps fs (allocate_inode ops ty fs) opt_handle"
  unfolding allocate_inode_def allocate_bmap_def
  by (rule keeps_bind [OF keeps_on_store])
    (auto simp: keeps_return handle_of_def split: option.split sum.splits
      intro!: keeps_bind_unit [OF keeps_lock_cache] keeps_bind [OF keeps_cache_get] keeps_initialize)

lemma keeps_grow: "fs_typed fs \<Longrightarrow> keeps fs (grow_loop ops a n b is fs) (\<lambda>_ _. True)"
proof (induction "is" arbitrary: fs)
  case (Cons i "is")
  have wf: "dinode_wf d'" if "dinode_wf d" "bindr (dinode_set_bid ops j k d s) (\<lambda>(d, s). Inr ((), d, s)) = Inr (v, d', s')" for j k d s v d' s'
    using that by (auto simp: dinode_set_bid_def outcome_eqs dinode_wf_def split: if_splits)
  show ?case
    using Cons wf by (auto split: option.split simp: keeps_return
      intro!: keeps_bind [OF keeps_allocate_data_block] keeps_bind [OF keeps_on_store] keeps_bind [OF keeps_update_dinode])
qed (simp add: keeps_return)

lemma keeps_resize: "fs_typed fs \<Longrightarrow> keeps fs (resize_inode ops a n fs) (\<lambda>_ _. True)"
  unfolding resize_inode_def Let_def
  by (auto simp: keeps_return split: sum.splits intro!: keeps_bind [OF keeps_set_size] keeps_bind [OF keeps_grow])

lemma keeps_read: "fs_typed fs \<Longrightarrow> keeps fs (read_inode ops a off buf fs) (\<lambda>_ _. True)"
  unfolding read_inode_def by (rule keeps_on_store)

lemma keeps_write: "fs_typed fs \<Longrightarrow> keeps fs (write_inode ops a off buf fs) (\<lambda>_ _. True)"
  unfolding write_inode_def by (rule keeps_on_store)

lemma keeps_bind_pure: "(\<And>x. r = Inr x \<Longrightarrow> keeps fs (f x) P) \<Longrightarrow> keeps fs (bindr r f) P"
  by (cases r) simp_all

lemmas keeps_pure = keeps_bind_pure [of "dir_entry_name e" for e] keeps_bind_pure [of "dir_entry_new n i" for n i]
  keeps_bind_pure [of "skip path" for path]

lemma keeps_look_up_loop: "fs_typed fs \<Longrightarrow> keeps fs (look_up_loop ops a name is dirent fs) opt_handle"
  by (induction "is" arbitrary: dirent fs)
    (auto simp: keeps_return handle_of_def split: sum.splits
      intro!: keeps_bind [OF keeps_read] keeps_bind [OF keeps_get_inode] keeps_check keeps_pure)

lemma keeps_look_up: "fs_typed fs \<Longrightarrow> keeps fs (look_up ops a name fs) opt_handle"
  unfolding look_up_def by (intro keeps_check keeps_look_up_loop)

lemma keeps_children_loop: "fs_typed fs \<Longrightarrow> keeps fs (children_loop ops a is dirent ret fs) (\<lambda>_ _. True)"
  by (induction "is" arbitrary: dirent ret fs)
    (auto simp: keeps_return intro!: keeps_bind [OF keeps_read] keeps_check keeps_pure)

lemma keeps_list_children: "fs_typed fs \<Longrightarrow> keeps fs (list_children ops a fs) (\<lambda>_ _. True)"
  unfolding list_children_def by (intro keeps_check keeps_children_loop)

lemma keeps_add_link:
  assumes "fs_typed fs" and "a < length (fs_cells fs)"
  shows "keeps fs (bindr (update_dinode ops a (\<lambda>d s. Inr ((), d\<lparr>di_links_num := di_links_num d + 1\<rparr>, s)) fs)
    (\<lambda>(_, fs). Inr (Inr a, unlock_inode a fs))) new_handle"
  by (rule keeps_bind [OF keeps_update_dinode [OF assms(1)]])
    (auto simp: dinode_wf_def intro!: keeps_unlocked dest: fs_later_handle [OF _ assms(2)])

lemma keeps_create_inode: "fs_typed fs \<Longrightarrow> keeps fs (create_inode ops a name ty fs) new_handle"
  unfolding create_inode_def Let_def
  by (intro keeps_check keeps_if, simp add: keeps_return, auto simp: keeps_return split: option.split sum.splits
      intro!: keeps_bind [OF keeps_look_up] keeps_bind [OF keeps_allocate_inode] keeps_bind [OF keeps_resize] keeps_check keeps_locked keeps_pure
        keeps_bind [OF keeps_write] keeps_add_link)
    (blast intro: fs_later_handle)+

lemma handle_cong: "length (fs_cells fs') = length (fs_cells fs) \<Longrightarrow> opt_handle r fs' = opt_handle r fs"
  by (cases r) simp_all

lemma keeps_get_inode_from_path:
  "fs_typed fs \<Longrightarrow> start < length (fs_cells fs) \<Longrightarrow> keeps fs (get_inode_from_path ops path start fs) opt_handle"
proof (induction "length path" arbitrary: path start fs rule: less_induct)
  case less
  note rec = keeps_bind [OF less.hyps]
  show ?case
    unfolding get_inode_from_path.simps [of ops path start fs] using less.prems
    by (auto simp: keeps_return split: option.split intro!: keeps_pure keeps_locked keeps_unlocked keeps_bind [OF keeps_look_up] rec dest: fs_later_handle)
      (blast intro: skip_shorter handle_cong [THEN iffD2])+
qed

section \<open>Sequences of operations\<close>

text \<open>
  What the owners of a mounted file system may call, on any handles they hold: \<open>fs\<close> stands
  for the device and the state behind the \<open>Arc\<close>, guards are taken and released in any order.
\<close>

inductive fs_step :: "'d block_device \<Rightarrow> 'd file_system \<Rightarrow> 'd file_system \<Rightarrow> bool" for ops where
  step_root: "fs_root ops fs = Inr (a, fs') \<Longrightarrow> fs_step ops fs fs'"
| step_get: "get_inode ops inum fs = Inr (r, fs') \<Longrightarrow> fs_step ops fs fs'"
| step_allocate: "allocate_inode ops ty fs = Inr (i, fs') \<Longrightarrow> fs_step ops fs fs'"
| step_init: "fs_init ops sb fs = Inr (u, fs') \<Longrightarrow> fs_step ops fs fs'"
| step_lock: "lock_inode a fs = Inr fs' \<Longrightarrow> fs_step ops fs fs'"
| step_unlock: "fs_step ops fs (unlock_inode a fs)"
| step_read: "read_inode ops a offset buf fs = Inr (x, fs') \<Longrightarrow> fs_step ops fs fs'"
| step_write: "write_inode ops a offset buf fs = Inr (n, fs') \<Longrightarrow> fs_step ops fs fs'"
| step_resize: "resize_inode ops a sz fs = Inr (u, fs') \<Longrightarrow> fs_step ops fs fs'"
| step_look_up: "look_up ops a name fs = Inr (i, fs') \<Longrightarrow> fs_step ops fs fs'"
| step_children: "list_children ops a fs = Inr (names, fs') \<Longrightarrow> fs_step ops fs fs'"
| step_create: "create_inode ops a name ty fs = Inr (c, fs') \<Longrightarrow> fs_step ops fs fs'"
| step_path: "a < length (fs_cells fs) \<Longrightarrow> get_inode_from_path ops path a fs = Inr (i, fs') \<Longrightarrow> fs_step ops fs fs'"

lemma keepsD: "keeps fs r P \<Longrightarrow> r = Inr (v, fs') \<Longrightarrow> fs_typed fs' \<and> fs_later fs fs'"
  by (simp add: keeps_def)

lemma keeps_root: "fs_typed fs \<Longrightarrow> keeps fs (fs_root ops fs) (\<lambda>a fs'. handle_of 0 (Inr a :: unit + nat) fs')"
  unfolding fs_root_def
  by (rule keeps_bind [OF keeps_get_inode]) (auto simp: keeps_return handle_of_def split: sum.splits)

lemma fs_step_typed:
  assumes "fs_step ops fs fs'" and "fs_typed fs"
  shows "fs_typed fs' \<and> fs_later fs fs'"
  using assms(1)
proof cases
  case (step_lock a)
  with keeps_lock_inode [OF assms(2)] show ?thesis by (simp add: keeps_unit_def)
next
  case (step_unlock a)
  with typed_unlock [OF assms(2)] show ?thesis by simp
next
  case (step_init sb u)
  with assms(2) show ?thesis by (auto simp: fs_init_def outcome_eqs)
next
  case (step_path a path i)
  show ?thesis by (rule keepsD [OF keeps_get_inode_from_path [OF assms(2) step_path(1)] step_path(2)])
qed (erule keepsD [rotated], (rule keeps_root keeps_get_inode keeps_allocate_inode keeps_read keeps_write keeps_resize
  keeps_look_up keeps_list_children keeps_create_inode; fact assms(2)))+

lemma fs_steps_typed: "(fs_step ops)\<^sup>*\<^sup>* fs fs' \<Longrightarrow> fs_typed fs \<Longrightarrow> fs_typed fs' \<and> fs_later fs fs'"
  by (induction rule: rtranclp_induct) (auto dest: fs_step_typed intro: fs_later_trans)

lemma open_typed: "fs_open ops dev v = Inr (Inr fs) \<Longrightarrow> fs_typed fs"
  by (auto simp: fs_open_def outcome_eqs fs_typed_def split: if_splits)

text \<open>
  C14: The type invariant of a mounted file system, whatever the device answers. However the
  operations are interleaved after \<open>open\<close>, the inode cache never holds one inode twice and
  never more than its 64 entries, each entry leads to a cell that carries the inode number it
  is filed under, and every inode in memory has its 28 addresses. Handles given out earlier
  stay valid: they name the same inode at the same place of the disk in every later state.
\<close>

theorem file_system_typed:
  assumes "fs_open ops dev validate = Inr (Inr fs0)" and "(fs_step ops)\<^sup>*\<^sup>* fs0 fs" and "(fs_step ops)\<^sup>*\<^sup>* fs fs'"
  shows "distinct (map fst (fs_icache fs')) \<and> length (fs_icache fs') \<le> INODE_BUFFER_SIZE \<and>
    (\<forall>(inum, a) \<in> set (fs_icache fs'). a < length (fs_cells fs') \<and> in_inode_num (cell_inode fs' a) = inum) \<and>
    (\<forall>c \<in> set (fs_cells fs'). length (in_addresses (ic_inode c)) = N_DIRECT) \<and> fs_later fs fs'"
proof -
  have t: "fs_typed fs" "fs_typed fs'" "fs_later fs fs'" "fs_later fs0 fs"
    using fs_steps_typed [OF assms(2) open_typed [OF assms(1)]] fs_steps_typed [OF assms(3)] by blast+
  have "fs_icapacity fs0 = INODE_BUFFER_SIZE" using assms(1) by (auto simp: fs_open_def outcome_eqs split: if_splits)
  with t show ?thesis
    by (simp add: fs_later_def) (auto simp: fs_typed_def dinode_wf_def inode_dinode_def dinode_new_def)
qed

lemma find_append_None: "find P xs = None \<Longrightarrow> find P (xs @ ys) = find P ys"
  by (induction xs) (auto split: if_splits)

lemma failing_read:
  assumes "\<And>d b buf. bd_read ops d b buf = Inr (Inl e, buf, d)"
    and "\<not> st_locked s" "slot_lookup b (st_buffer s) = None" "length (st_buffer s) < st_capacity s"
    and "ly_size T \<le> BLOCK_SIZE" "ly_dec T (replicate (ly_size T) 0) = Inr v"
  shows "cache_read ops T b 0 Inr s = Inr (v, s\<lparr>st_buffer := st_buffer s @ [\<lparr>sl_id = b,
    sl_block = \<lparr>bc_cache = replicate BLOCK_SIZE 0, bc_block_id = b, bc_modified = False\<rparr>, sl_strong = 1, sl_locked = False\<rparr>]\<rparr>)"
proof -
  have u: "add_usize 0 (ly_size T) = ly_size T" using assms(5) by (simp add: add_usize_def BLOCK_SIZE_def)
  have z: "get_slice 0 (ly_size T) (replicate BLOCK_SIZE 0) = replicate (ly_size T) (0 :: u8)" "0 < BLOCK_SIZE"
    using assms(5) by (simp_all add: get_slice_def BLOCK_SIZE_def)
  have "\<forall>x \<in> set (st_buffer s). sl_id x \<noteq> b" using assms(3) by (auto simp: slot_lookup_def find_None_iff)
  then have "slot_map b f (st_buffer s) = st_buffer s" for f by (auto simp: slot_map_def intro: map_idI)
  moreover have "slot_map b f (xs @ ys) = slot_map b f xs @ slot_map b f ys" for f xs ys by (simp add: slot_map_def)
  moreover have "slot_lookup b (st_buffer s @ ys) = slot_lookup b ys" for ys
    using assms(3) by (simp add: slot_lookup_def find_append_None)
  ultimately show ?thesis using assms u z
    by (simp add: cache_read_def locked_read_def lock_cache_def block_cache_buffer_get_def block_cache_new_def
        lock_block_def block_cache_read_def block_cache_get_ref_def release_block_def unlock_cache_def)
qed

theorem file_system_typed_witness:
  "let ops = \<lparr>bd_read = \<lambda>d _ buf. Inr (Inl ''error'', buf, d), bd_write = \<lambda>d _ _. Inr (Inl ''error'', d)\<rparr>
   in \<exists>fs0 fs. fs_open ops () False = Inr (Inr fs0) \<and> fs_root ops fs0 = Inr (0, fs) \<and> length (fs_cells fs) = 1 \<and>
        (\<forall>c \<in> set (fs_cells fs). length (in_addresses (ic_inode c)) = N_DIRECT) \<and> fs_later fs0 fs"
proof -
  let ?ops = "\<lparr>bd_read = \<lambda>d _ buf. Inr (Inl ''error'', buf, d), bd_write = \<lambda>d _ _. Inr (Inl ''error'', d)\<rparr> :: unit block_device"
  note r = failing_read [of ?ops "''error''", simplified]
  define sb where "sb = decode_super_block (replicate SUPER_BLOCK_SIZE 0)"
  define fs0 where "fs0 = \<lparr>fs_sb = sb, fs_store = \<lparr>st_dev = (), st_buffer = [\<lparr>sl_id = SUPER_BLOCK_LOC,
    sl_block = \<lparr>bc_cache = replicate BLOCK_SIZE 0, bc_block_id = SUPER_BLOCK_LOC, bc_modified = False\<rparr>, sl_strong = 1, sl_locked = False\<rparr>],
    st_capacity = BLOCK_BUFFER_SIZE, st_locked = False\<rparr>, fs_icache = [], fs_icapacity = INODE_BUFFER_SIZE,
    fs_ilocked = False, fs_cells = []\<rparr>"
  have 1: "fs_open ?ops () False = Inr (Inr fs0)"
    using r [of "block_cache_buffer_new BLOCK_BUFFER_SIZE ()" SUPER_BLOCK_LOC super_block_layout sb]
    by (simp add: fs_open_def block_cache_buffer_new_def slot_lookup_def BLOCK_BUFFER_SIZE_def super_block_layout_def
        SUPER_BLOCK_SIZE_def BLOCK_SIZE_def fs0_def sb_def)
  have "get_slice off 8 (replicate 64 0) = le64 0" if "off + 8 \<le> 64" for off
    using that by (simp add: get_slice_def le64_def) (simp add: numeral_eq_Suc)
  then have "sb_inode_start sb = 0" "sb_inode_blocks sb = 0"
    by (simp_all add: sb_def decode_super_block_def u64_at_def SUPER_BLOCK_SIZE_def)
  then have f: "find_inode sb 0 = (0, 0)" by (simp add: find_inode_def)
  have "DINODE_SIZE \<le> BLOCK_SIZE" by (simp add: DINODE_SIZE_def N_DIRECT_def BLOCK_SIZE_def)
  then obtain s where "cache_read ?ops dinode_layout 0 0 Inr (fs_store fs0) = Inr (dinode_new Invalid 0 0 0 (replicate N_DIRECT 0), s)"
    using r [of "fs_store fs0" 0 dinode_layout "dinode_new Invalid 0 0 0 (replicate N_DIRECT 0)"] decode_dinode_zero
    by (simp add: fs0_def slot_lookup_def SUPER_BLOCK_LOC_def BLOCK_BUFFER_SIZE_def dinode_layout_def)
  then have "\<exists>fs. fs_root ?ops fs0 = Inr (0, fs) \<and> length (fs_cells fs) = 1" using f
    by (simp add: fs0_def fs_root_def get_inode_def lock_inode_cache_def inode_cache_get_def inode_cache_evict_def
        inode_cache_find_def INODE_BUFFER_SIZE_def on_store_def unlock_inode_cache_def extract_Nil_code)
  then obtain fs where 2: "fs_root ?ops fs0 = Inr (0, fs)" "length (fs_cells fs) = 1" by blast
  then have "(fs_step ?ops)\<^sup>*\<^sup>* fs0 fs" by (blast intro: step_root)
  from file_system_typed [OF 1 rtranclp.rtrancl_refl this] 1 2 show ?thesis unfolding Let_def by blast
qed

end
