(* ===== verification/Slab_Correct.thy ===== *)
theory Slab_Correct
  imports Slab
begin

text \<open>
  What the slab allocator does: freeing a slab that is not the first of its cache leaves it
  in the list, and the list becomes cyclic as soon as its frames are used again.
\<close>

lemma slab_search_cycle:
  assumes "p \<noteq> 0" and "q \<noteq> 0" and "mem p = 0" and "mem q = 0" and "mem (p + 32) = q" and "mem (q + 32) = p"
  shows "slab_search p mem = None"
proof -
  have "slab_search c m = Some r \<Longrightarrow> \<not> (m = mem \<and> (c = p \<or> c = q))" for c m r
    by (erule slab_search.raw_induct [rotated]) (use assms in \<open>auto split: if_splits\<close>)
  then show ?thesis by (metis not_None_eq)
qed

section \<open>A slab that is freed twice\<close>

text \<open>
  Two page-sized objects are allocated, the first is freed, and a third is allocated, on an
  allocator that manages eight pages.
\<close>

definition alloc_page_object :: "slab_state \<Rightarrow> (u64 \<times> slab_state) result" where
  "alloc_page_object = global_alloc 4096 4096"

definition reuse_run :: "slab_state result" where
  "reuse_run =
     bindr slab_allocator_new (\<lambda>caches.
     bindr (init_allocator 0x80210000 0x80218000 (caches, buddy_new, \<lambda>_. 0)) (\<lambda>s.
     bindr (alloc_page_object s) (\<lambda>(a, s).
     bindr (alloc_page_object s) (\<lambda>(b, s).
     bindr (global_dealloc a 4096 s) (\<lambda>s.
     bindr (alloc_page_object s) (\<lambda>(c, s). Inr s))))))"

lemma reuse_run_cycle:
  "case reuse_run of Inl e \<Rightarrow> False
   | Inr (caches, ba, mem) \<Rightarrow> length caches = 13 \<and>
       (let p = mc_slabs (caches ! 12); q = mem (p + 32) in
        p \<noteq> 0 \<and> q \<noteq> 0 \<and> mem p = 0 \<and> mem q = 0 \<and> mem (q + 32) = p)"
  by code_simp

text \<open>
  C31: The slab list becomes cyclic. \<open>free_slab\<close> does not unlink a slab that is not the first
  of its cache, because the loop variable hides the parameter. After two page-sized
  allocations, freeing the first and allocating a third, the frames of the freed slab are
  in the list twice and the fourth allocation never returns.
\<close>

theorem slab_reuse_hangs:
  "bindr reuse_run alloc_page_object = Inl Hang"
proof (cases reuse_run)
  case (Inl e)
  show ?thesis using reuse_run_cycle unfolding Inl sum.case by (rule FalseE)
next
  case (Inr s)
  obtain caches ba mem where s: "s = (caches, ba, mem)" by (metis prod.exhaust)
  let ?mc = "caches ! 12"
  from reuse_run_cycle [unfolded Inr s sum.case prod.case Let_def] have c: "length caches = 13" "mc_slabs ?mc \<noteq> 0" "mem (mc_slabs ?mc + 32) \<noteq> 0"
    "mem (mc_slabs ?mc) = 0" "mem (mem (mc_slabs ?mc + 32)) = 0" "mem (mem (mc_slabs ?mc + 32) + 32) = mc_slabs ?mc"
    by blast+
  have "slab_search (mc_slabs ?mc) mem = None" by (rule slab_search_cycle [OF c(2,3,4,5) refl c(6)])
  then have "mem_cache_alloc ?mc (ba, mem) = None" by (subst mem_cache_alloc.simps) simp
  moreover have "order 4096 = 12" by code_simp
  ultimately show ?thesis using c(1)
    by (simp add: Inr s alloc_page_object_def global_alloc_def slab_alloc_def run_loop_def MAX_SLAB_ORDER_def)
qed

end
