(* ===== verification/Page_Walk.thy ===== *)
theory Page_Walk
  imports Page_Table
begin

text \<open>
  Correctness of the page tables (\<open>kernel/src/mem/page/page_table.rs\<close>). The specification is
  the address translation of the Sv39 scheme of RISC-V, as the processor does it; a table is
  a tree of pages, given by a map from index paths to pages. What \<open>walk\<close> and \<open>map\<close> need of the
  page allocator is the locale \<open>page_source\<close>.
\<close>

section \<open>Entries\<close>

lemma unat_px: "unat (px level va) = unat va div 2 ^ (12 + 9 * level) mod 512"
proof -
  have m: "(0x1FF :: u64) = mask 9" by (simp add: mask_eq_exp_minus_1)
  have "px level va = take_bit 9 (drop_bit (12 + 9 * level) va)"
    by (simp add: px_def PG_SHIFT_def m take_bit_eq_mask)
  then show ?thesis by (simp add: unsigned_take_bit_eq unsigned_drop_bit_eq take_bit_eq_mod [where ?'a = nat] drop_bit_eq_div [where ?'a = nat]
        div_le_dividend le_less_trans [OF div_le_dividend] mod_less)
qed

text \<open>The index of a virtual address at a level, and the words of a table.\<close>

definition idx :: "nat \<Rightarrow> u64 \<Rightarrow> nat" where
  "idx level va = unat (px level va)"

definition table_slot :: "u64 \<Rightarrow> nat \<Rightarrow> u64" where
  "table_slot t i = t + of_nat (8 * i)"

lemma idx_less [simp]: "idx level va < 512"
  by (simp add: idx_def unat_px)

lemma entry_addr_slot: "entry_addr t level va = table_slot t (idx level va)"
  by (simp add: entry_addr_def table_slot_def idx_def mult.commute)

definition page_ok :: "u64 \<Rightarrow> bool" where
  "page_ok t \<longleftrightarrow> t \<noteq> 0 \<and> unat t mod 4096 = 0"

lemma unat_slot:
  assumes "page_ok t" and "i < 512"
  shows "unat (table_slot t i) = unat t + 8 * i"
proof -
  have "unat t + 4096 \<le> usize_range"
  proof -
    obtain k where k: "unat t = 4096 * k" using assms(1) by (auto simp: page_ok_def)
    have "4096 * k < 4096 * 2 ^ 52" using unat_u64_less [of t] unfolding k by simp
    then have "Suc k \<le> 2 ^ 52" by simp
    then show ?thesis unfolding k by simp
  qed
  with assms(2) show ?thesis unfolding table_slot_def by (subst unat_add_u64) (simp_all add: unat_of_nat_u64 del: of_nat_mult)
qed

lemma slot_eq_iff:
  assumes "page_ok t" and "page_ok u" and "i < 512" and "j < 512"
  shows "table_slot t i = table_slot u j \<longleftrightarrow> t = u \<and> i = j"
proof
  assume "table_slot t i = table_slot u j"
  then have eq: "unat t + 8 * i = unat u + 8 * j" using unat_slot assms by (metis (no_types))
  obtain k where k: "unat t = 4096 * k" using assms(1) by (auto simp: page_ok_def)
  obtain l where l: "unat u = 4096 * l" using assms(2) by (auto simp: page_ok_def)
  note kl = k l
  with eq assms(3,4) have "k = l" by linarith
  with kl eq show "t = u \<and> i = j" by (simp add: u64_eq_iff_unat)
qed simp

lemma pte_flag_bits: "PTE_V = mask 1" "PTE_R = push_bit 1 1" "PTE_W = push_bit 2 1" "PTE_X = push_bit 3 1"
  by (simp_all add: PTE_V_def PTE_R_def PTE_W_def PTE_X_def push_bit_eq_mult)

lemma bit_pte_new:
  assumes "take_bit 10 flags = flags"
  shows "n < 10 \<Longrightarrow> bit (pte_new pa flags) n = bit flags n" and "drop_bit 10 (pte_new pa flags) = drop_bit 12 pa"
proof -
  have hi: "\<not> bit flags n" if "10 \<le> n" for n using that assms by (metis bit_take_bit_iff not_le)
  show "n < 10 \<Longrightarrow> bit (pte_new pa flags) n = bit flags n" by (simp add: pte_new_def bit_or_iff bit_push_bit_iff)
  show "drop_bit 10 (pte_new pa flags) = drop_bit 12 pa"
    by (rule bit_word_eqI) (auto simp: pte_new_def PG_SHIFT_def bit_simps hi dest: bit_imp_le_length)
qed

lemma pte_pa_new:
  assumes "take_bit 10 flags = flags" and "unat pa mod 4096 = 0"
  shows "pte_pa (pte_new pa flags) = pa"
proof -
  have "unat (push_bit 12 (drop_bit 12 pa)) = unat pa" using assms(2) unat_push_drop_u64 [of 12 pa] by auto
  then show ?thesis by (simp add: pte_pa_def PG_SHIFT_def bit_pte_new(2) [OF assms(1)] u64_eq_iff_unat)
qed

lemma and_one_bit: "(w AND push_bit n 1 \<noteq> (0 :: u64)) \<longleftrightarrow> n < 64 \<and> bit w n"
proof -
  have "w AND push_bit n 1 = of_bool (n < 64 \<and> bit w n) * push_bit n 1"
    by (rule bit_word_eqI) (auto simp: bit_simps)
  then show ?thesis by (auto simp: push_bit_eq_mult dest: arg_cong [where f = "\<lambda>w. bit w n"])
qed

lemma pte_test_bits:
  "pte_is_valid e \<longleftrightarrow> bit e 0" "pte_is_readable e \<longleftrightarrow> bit e 1" "pte_is_writable e \<longleftrightarrow> bit e 2" "pte_is_executable e \<longleftrightarrow> bit e 3"
  using and_one_bit [of "take_bit 8 e" 0] and_one_bit [of "take_bit 8 e" 1] and_one_bit [of "take_bit 8 e" 2] and_one_bit [of "take_bit 8 e" 3]
  by (simp_all add: pte_is_valid_def pte_is_readable_def pte_is_writable_def pte_is_executable_def pte_flags_def
      PTE_V_def PTE_R_def PTE_W_def PTE_X_def bit_simps)

text \<open>Permissions are the flags above \<open>V\<close>, bits 1 to 7.\<close>

definition perm_ok :: "u64 \<Rightarrow> bool" where
  "perm_ok perm \<longleftrightarrow> take_bit 8 perm = perm"

lemma perm_flags:
  assumes "perm_ok perm"
  shows "take_bit 10 (PTE_V OR perm) = PTE_V OR perm" and "take_bit 8 (PTE_V OR perm) = PTE_V OR perm"
proof -
  have "bit perm n \<Longrightarrow> n < 8" for n using assms by (metis bit_take_bit_iff perm_ok_def)
  then show "take_bit 10 (PTE_V OR perm) = PTE_V OR perm" "take_bit 8 (PTE_V OR perm) = PTE_V OR perm"
    by (fastforce intro!: bit_word_eqI simp: bit_simps PTE_V_def)+
qed

lemma pte_table [simp]:
  "pte_is_valid (pte_new t PTE_V)" "pte_new t PTE_V \<noteq> 0" "\<not> pte_is_valid 0"
  "\<not> pte_is_readable (pte_new t PTE_V)" "\<not> pte_is_writable (pte_new t PTE_V)" "\<not> pte_is_executable (pte_new t PTE_V)"
proof -
  have f: "take_bit 10 PTE_V = PTE_V" by (simp add: PTE_V_def)
  show v: "pte_is_valid (pte_new t PTE_V)" "\<not> pte_is_readable (pte_new t PTE_V)" "\<not> pte_is_writable (pte_new t PTE_V)"
    "\<not> pte_is_executable (pte_new t PTE_V)"
    using bit_pte_new(1) [OF f] by (simp_all add: pte_test_bits PTE_V_def bit_1_iff)
  show "\<not> pte_is_valid 0" by (simp add: pte_test_bits)
  with v show "pte_new t PTE_V \<noteq> 0" by metis
qed

lemma pte_table_pa: "page_ok t \<Longrightarrow> pte_pa (pte_new t PTE_V) = t"
  by (rule pte_pa_new) (simp_all add: PTE_V_def page_ok_def)

section \<open>Address translation of the processor\<close>

text \<open>
  Sv39: from the root at level 2 down, an entry that is not valid, or writable and not
  readable, faults; one with a permission to read or execute is a leaf; any other is the
  next table. The result is the physical address and the entry.
\<close>

definition pte_leaf :: "pte \<Rightarrow> bool" where
  "pte_leaf e \<longleftrightarrow> pte_is_readable e \<or> pte_is_executable e"

definition pte_fault :: "pte \<Rightarrow> bool" where
  "pte_fault e \<longleftrightarrow> \<not> pte_is_valid e \<or> (pte_is_writable e \<and> \<not> pte_is_readable e)"

primrec sv39_walk :: "nat \<Rightarrow> (u64 \<Rightarrow> u64) \<Rightarrow> u64 \<Rightarrow> u64 \<Rightarrow> (nat \<times> pte) option" where
  "sv39_walk 0 m t va =
     (let e = m (entry_addr t 0 va) in if pte_fault e \<or> \<not> pte_leaf e then None else Some (0, e))"
| "sv39_walk (Suc level) m t va =
     (let e = m (entry_addr t (Suc level) va) in
      if pte_fault e then None else if pte_leaf e then Some (Suc level, e) else sv39_walk level m (pte_pa e) va)"

definition translate :: "(u64 \<Rightarrow> u64) \<Rightarrow> u64 \<Rightarrow> u64 \<Rightarrow> (u64 \<times> pte) option" where
  "translate m root va =
     (case sv39_walk 2 m root va of
        None \<Rightarrow> None
      | Some (level, e) \<Rightarrow> Some (push_bit (12 + 9 * level) (drop_bit (10 + 9 * level) e) OR take_bit (12 + 9 * level) va, e))"

section \<open>Tables as a tree\<close>

text \<open>
  A table tree maps paths of indices, from the root, to pages: the root at the empty path,
  a table of level 1 at a path of one index, one of level 0 at a path of two.
\<close>

type_synonym tables = "nat list \<Rightarrow> u64 option"

definition tables_ok :: "'s page_ops \<Rightarrow> u64 set \<Rightarrow> u64 \<Rightarrow> tables \<Rightarrow> 's \<Rightarrow> bool" where
  "tables_ok ops P root f s \<longleftrightarrow>
     f [] = Some root \<and> (\<forall>p i. f (p @ [i]) \<noteq> None \<longrightarrow> f p \<noteq> None \<and> i < 512 \<and> length p < 2) \<and>
     inj_on f (dom f) \<and> ran f \<subseteq> P \<and>
     (\<forall>p t i. f p = Some t \<and> length p < 2 \<and> i < 512 \<longrightarrow>
        po_load ops (table_slot t i) s = (case f (p @ [i]) of None \<Rightarrow> 0 | Some q \<Rightarrow> pte_new q PTE_V))"

text \<open>The entry for a page of the virtual address space.\<close>

definition leaf :: "'s page_ops \<Rightarrow> tables \<Rightarrow> 's \<Rightarrow> nat \<Rightarrow> nat \<Rightarrow> nat \<Rightarrow> pte" where
  "leaf ops f s i2 i1 i0 = (case f [i2, i1] of None \<Rightarrow> 0 | Some t \<Rightarrow> po_load ops (table_slot t i0) s)"

definition page_entry :: "'s page_ops \<Rightarrow> tables \<Rightarrow> 's \<Rightarrow> nat \<Rightarrow> pte" where
  "page_entry ops f s v = leaf ops f s (v div 2 ^ 18) (v div 512 mod 512) (v mod 512)"

text \<open>The tables on the way to a page.\<close>

definition page_path :: "nat \<Rightarrow> nat list set" where
  "page_path v = {[v div 2 ^ 18], [v div 2 ^ 18, v div 512 mod 512]}"

definition pg_addr :: "nat \<Rightarrow> u64" where
  "pg_addr v = of_nat (v * 4096)"

definition paths :: "nat \<Rightarrow> nat \<Rightarrow> nat list set" where
  "paths v n = \<Union> (page_path ` {v..<v + n})"

text \<open>The entries after \<open>n\<close> pages from \<open>v\<close> on have been mapped to the physical pages from \<open>pa\<close> on.\<close>

definition mapped :: "nat \<Rightarrow> nat \<Rightarrow> u64 \<Rightarrow> u64 \<Rightarrow> (nat \<Rightarrow> pte) \<Rightarrow> nat \<Rightarrow> pte" where
  "mapped v n pa perm g = (\<lambda>w. if v \<le> w \<and> w < v + n then pte_new (pa + pg_addr (w - v)) (PTE_V OR perm) else g w)"

lemma pg_addr: "v \<le> 2 ^ 27 \<Longrightarrow> unat (pg_addr v) = v * 4096"
  by (simp add: pg_addr_def unat_of_nat take_bit_eq_mod del: of_nat_mult)

lemma pg_addr_inj: "v \<le> 2 ^ 27 \<Longrightarrow> w \<le> 2 ^ 27 \<Longrightarrow> pg_addr v = pg_addr w \<longleftrightarrow> v = w"
  using pg_addr [of v] pg_addr [of w] by (metis mult_cancel2 zero_neq_numeral)

lemma pg_addr_step: "pg_addr v + 4096 = pg_addr (Suc v)"
  by (simp add: pg_addr_def PAGE_SIZE_def algebra_simps)

lemma paths_Suc: "paths v (Suc n) = page_path v \<union> paths (Suc v) n"
proof -
  have "{v..<v + Suc n} = insert v {Suc v..<Suc v + n}" by auto
  then show ?thesis by (simp add: paths_def)
qed

lemma mapped_Suc:
  "mapped (Suc v) n (pa + PAGE_SIZE) perm (g(v := pte_new pa (PTE_V OR perm))) = mapped v (Suc n) pa perm g"
proof
  fix w
  have "pa + PAGE_SIZE + pg_addr (w - Suc v) = pa + pg_addr (w - v)" if "v < w"
    using that pg_addr_step [of "w - Suc v"] by (simp add: Suc_diff_Suc ac_simps)
  then show "mapped (Suc v) n (pa + PAGE_SIZE) perm (g(v := pte_new pa (PTE_V OR perm))) w = mapped v (Suc n) pa perm g w"
    by (auto simp: mapped_def pg_addr_def)
qed

lemma page_indices:
  assumes "unat va div 4096 = v" and "v < 2 ^ 27"
  shows "idx 2 va = v div 2 ^ 18" and "idx 1 va = v div 512 mod 512" and "idx 0 va = v mod 512"
proof -
  have d: "unat va div 2 ^ (12 + n) = v div 2 ^ n" for n using assms(1) by (simp add: power_add div_mult2_eq)
  have "v div 2 ^ 18 < 512" using assms(2) by (simp add: less_mult_imp_div_less)
  then show "idx 2 va = v div 2 ^ 18" using d [of 18] by (simp add: idx_def unat_px)
  show "idx 1 va = v div 512 mod 512" using d [of 9] by (simp add: idx_def unat_px)
  show "idx 0 va = v mod 512" using d [of 0] by (simp add: idx_def unat_px)
qed

lemma page_index_inj:
  assumes "v div 2 ^ 18 = w div 2 ^ 18" and "v div 512 mod 512 = w div 512 mod 512" and "v mod 512 = w mod (512 :: nat)"
  shows "v = w"
proof -
  have "x = (x div 2 ^ 18 * 512 + x div 512 mod 512) * 512 + x mod 512" for x :: nat
  proof -
    have "x div 512 = x div 2 ^ 18 * 512 + x div 512 mod 512" using div_mult_mod_eq [of "x div 512" 512] by (simp add: div_mult2_eq [symmetric])
    then show ?thesis using div_mult_mod_eq [of x 512] by simp
  qed
  with assms show ?thesis by metis
qed

section \<open>The contract of the page allocator\<close>

text \<open>
  \<open>inv P s\<close>: the pages \<open>P\<close> have been handed out. A new page is none of them, aligned, full of
  zeros, and the others keep their words; when there is none the call panics. At least
  \<open>avail s\<close> more pages can be had.
\<close>

locale page_source =
  fixes ops :: "'s page_ops"
    and inv :: "u64 set \<Rightarrow> 's \<Rightarrow> bool"
    and avail :: "'s \<Rightarrow> nat"
  assumes page_ok: "inv P s \<Longrightarrow> p \<in> P \<Longrightarrow> page_ok p"
    and new_page: "inv P s \<Longrightarrow> po_new_zeroed ops s = Inr (p, s') \<Longrightarrow> p \<notin> P \<and> inv (insert p P) s' \<and> avail s \<le> Suc (avail s')"
    and new_zero: "inv P s \<Longrightarrow> po_new_zeroed ops s = Inr (p, s') \<Longrightarrow> i < 512 \<Longrightarrow> po_load ops (table_slot p i) s' = 0"
    and new_same: "inv P s \<Longrightarrow> po_new_zeroed ops s = Inr (p, s') \<Longrightarrow> q \<in> P \<Longrightarrow> i < 512 \<Longrightarrow>
      po_load ops (table_slot q i) s' = po_load ops (table_slot q i) s"
    and new_fails: "inv P s \<Longrightarrow> po_new_zeroed ops s = Inl e \<Longrightarrow> e = Panic \<and> avail s = 0"
    and store_inv: "inv P s \<Longrightarrow> q \<in> P \<Longrightarrow> i < 512 \<Longrightarrow> inv P (po_store ops (table_slot q i) v s)"
    and store_avail: "inv P s \<Longrightarrow> q \<in> P \<Longrightarrow> i < 512 \<Longrightarrow> avail (po_store ops (table_slot q i) v s) = avail s"
    and load_store: "po_load ops w (po_store ops u v s) = (if w = u then v else po_load ops w s)"
begin

lemma tables_page: "inv P s \<Longrightarrow> tables_ok ops P root f s \<Longrightarrow> f p = Some t \<Longrightarrow> page_ok t \<and> t \<in> P"
  using page_ok [of P s t] by (auto simp: tables_ok_def ran_def)

lemma slot_other:
  assumes "inv P s" and "q \<in> P" and "t \<in> P" and "i < 512" and "j < 512" and "(q, i) \<noteq> (t, j)"
  shows "po_load ops (table_slot q i) (po_store ops (table_slot t j) v s) = po_load ops (table_slot q i) s"
  using slot_eq_iff [OF page_ok [OF assms(1,2)] page_ok [OF assms(1,3)] assms(4,5)] assms(6) by (auto simp: load_store)

text \<open>A new table at a free entry.\<close>

lemma add_table:
  assumes "inv P s" and "tables_ok ops P root f s" and "f p = Some t" and "length p < 2" and "i < 512" and "f (p @ [i]) = None"
    and "po_new_zeroed ops s = Inr (q, s1)"
  defines "s2 \<equiv> po_store ops (table_slot t i) (pte_new q PTE_V) s1"
  shows "inv (insert q P) s2" and "tables_ok ops (insert q P) root (f(p @ [i] \<mapsto> q)) s2"
    and "k < 512 \<Longrightarrow> leaf ops (f(p @ [i] \<mapsto> q)) s2 i2 i1 k = leaf ops f s i2 i1 k"
    and "avail s \<le> Suc (avail s2)"
    and "u \<in> P \<Longrightarrow> u \<notin> ran f \<Longrightarrow> k < 512 \<Longrightarrow> po_load ops (table_slot u k) s2 = po_load ops (table_slot u k) s"
proof -
  note new = new_page [OF assms(1,7)]
  have t: "t \<in> P" using tables_page [OF assms(1-3)] by simp
  have inv1: "inv (insert q P) s1" using new by simp
  show "inv (insert q P) s2" unfolding s2_def by (rule store_inv [OF inv1]) (use t assms(5) in simp_all)
  have "avail s2 = avail s1" unfolding s2_def by (rule store_avail [OF inv1]) (use t assms(5) in simp_all)
  with new show "avail s \<le> Suc (avail s2)" by simp
  have old: "po_load ops (table_slot u k) s2 = po_load ops (table_slot u k) s" if "u \<in> P" "k < 512" "(u, k) \<noteq> (t, i)" for u k
    using slot_other [OF inv1, of u t k i] new_same [OF assms(1,7) that(1,2)] that t assms(5) by (simp add: s2_def)
  have fresh: "po_load ops (table_slot q k) s2 = 0" if "k < 512" for k
    using slot_other [OF inv1, of q t k i] new_zero [OF assms(1,7) that] that t assms(5) new by (auto simp: s2_def)
  show "u \<in> P \<Longrightarrow> u \<notin> ran f \<Longrightarrow> k < 512 \<Longrightarrow> po_load ops (table_slot u k) s2 = po_load ops (table_slot u k) s"
    using old [of u k] assms(3) by (auto simp: ran_def)
  have inj: "inj_on f (dom f)" and ran: "ran f \<subseteq> P" and root: "f [] = Some root"
    and pre: "\<And>p i. f (p @ [i]) \<noteq> None \<Longrightarrow> f p \<noteq> None \<and> i < 512 \<and> length p < 2"
    and ent: "\<And>p t i. f p = Some t \<Longrightarrow> length p < 2 \<Longrightarrow> i < 512 \<Longrightarrow>
      po_load ops (table_slot t i) s = (case f (p @ [i]) of None \<Rightarrow> 0 | Some q \<Rightarrow> pte_new q PTE_V)"
    using assms(2) unfolding tables_ok_def by blast+
  have "q \<notin> ran f" using ran new by auto
  let ?f = "f(p @ [i] \<mapsto> q)"
  have uniq: "p' = p" if "f p' = Some t" for p' using inj that assms(3) by (auto simp: inj_on_def dom_def)
  have none: "f ((p @ [i]) @ [j]) = None" for j using pre [of "p @ [i]" j] assms(6) by blast
  have entries: "po_load ops (table_slot t' j) s2 = (case ?f (p' @ [j]) of None \<Rightarrow> 0 | Some q \<Rightarrow> pte_new q PTE_V)"
    if "?f p' = Some t'" "length p' < 2" "j < 512" for p' t' j
  proof (cases "p' = p @ [i]")
    case True
    then have "t' = q" using that(1) by simp
    with True fresh [OF that(3)] none [of j] show ?thesis by auto
  next
    case False
    then have f: "f p' = Some t'" using that(1) by simp
    then have t': "t' \<in> P" using ran by (auto simp: ran_def)
    show ?thesis
    proof (cases "(t', j) = (t, i)")
      case True
      with uniq f have "p' = p" by simp
      with True show ?thesis by (simp add: s2_def load_store)
    next
      case ne: False
      then have "p' @ [j] \<noteq> p @ [i]" using f assms(3) by auto
      then have "?f (p' @ [j]) = f (p' @ [j])" by (rule fun_upd_other)
      with old [OF t' that(3) ne] ent [OF f that(2,3)] show ?thesis by (simp only:)
    qed
  qed
  have "inj_on ?f (dom ?f)" using inj \<open>q \<notin> ran f\<close> assms(6) by (auto simp: inj_on_def ran_def)
  moreover have "ran ?f \<subseteq> insert q P" using ran by (auto simp: ran_def)
  moreover have "?f (p' @ [j]) \<noteq> None \<Longrightarrow> ?f p' \<noteq> None \<and> j < 512 \<and> length p' < 2" for p' j
    using pre [of p' j] assms(3-5) by (auto split: if_splits)
  ultimately show "tables_ok ops (insert q P) root ?f s2" unfolding tables_ok_def using root entries by auto
  assume k: "k < 512"
  show "leaf ops ?f s2 i2 i1 k = leaf ops f s i2 i1 k"
  proof (cases "p @ [i] = [i2, i1]")
    case True
    with assms(6) fresh [OF k] show ?thesis by (simp add: leaf_def)
  next
    case False
    then have eq: "?f [i2, i1] = f [i2, i1]" by auto
    show ?thesis
    proof (cases "f [i2, i1]")
      case (Some u)
      have "u \<in> P" using Some ran by (auto simp: ran_def)
      moreover have "u \<noteq> t" using uniq Some assms(4) by fastforce
      ultimately show ?thesis using old [of u k] k Some eq by (simp add: leaf_def)
    qed (use eq in \<open>simp add: leaf_def\<close>)
  qed
qed

text \<open>
  From one state of the tables to a later one: more tables, the entries \<open>g\<close>, and pages that
  are no tables as they were. Every new table is one page less to be had.
\<close>

definition grown :: "u64 set \<Rightarrow> u64 \<Rightarrow> tables \<Rightarrow> 's \<Rightarrow> u64 set \<Rightarrow> tables \<Rightarrow> 's \<Rightarrow> (nat \<Rightarrow> pte) \<Rightarrow> bool" where
  "grown P root f s P' f' s' g \<longleftrightarrow>
     inv P' s' \<and> tables_ok ops P' root f' s' \<and> P \<subseteq> P' \<and> ran f' \<subseteq> ran f \<union> (P' - P) \<and>
     avail s + card (dom f) \<le> avail s' + card (dom f') \<and> (\<forall>v < 2 ^ 27. page_entry ops f' s' v = g v) \<and>
     (\<forall>u \<in> P - ran f. \<forall>k < 512. po_load ops (table_slot u k) s' = po_load ops (table_slot u k) s)"

lemma grownD:
  assumes "grown P root f s P' f' s' g"
  shows "inv P' s'" and "tables_ok ops P' root f' s'"
  using assms by (simp_all add: grown_def)

lemma grown_refl: "inv P s \<Longrightarrow> tables_ok ops P root f s \<Longrightarrow> grown P root f s P f s (page_entry ops f s)"
  by (simp add: grown_def)

lemma grown_trans:
  assumes "grown P root f s P1 f1 s1 g" and "grown P1 root f1 s1 P2 f2 s2 h"
  shows "grown P root f s P2 f2 s2 h"
proof -
  have "u \<in> P1 - ran f1" if "u \<in> P - ran f" for u using assms(1) that by (auto simp: grown_def)
  then have "\<forall>u \<in> P - ran f. \<forall>k < 512. po_load ops (table_slot u k) s2 = po_load ops (table_slot u k) s"
    using assms by (simp add: grown_def)
  moreover have "ran f2 \<subseteq> ran f \<union> (P2 - P)" and "P \<subseteq> P2" using assms unfolding grown_def by blast+
  ultimately show ?thesis using assms by (simp add: grown_def)
qed

lemma finite_tables: "tables_ok ops P root f s \<Longrightarrow> finite (dom f)"
proof -
  assume ok: "tables_ok ops P root f s"
  have "dom f \<subseteq> {xs. set xs \<subseteq> {..<512} \<and> length xs \<le> 2}"
  proof
    fix p assume "p \<in> dom f"
    have pre: "f (q @ [i]) \<noteq> None \<Longrightarrow> f q \<noteq> None \<and> i < 512 \<and> length q < 2" for q i using ok unfolding tables_ok_def by blast
    have "f p \<noteq> None \<longrightarrow> set p \<subseteq> {..<512} \<and> length p \<le> 2"
    proof (induction p rule: rev_induct)
      case (snoc i q)
      then show ?case using pre [of q i] by auto
    qed simp
    with \<open>p \<in> dom f\<close> show "p \<in> {xs. set xs \<subseteq> {..<512} \<and> length xs \<le> 2}" by auto
  qed
  then show ?thesis by (rule finite_subset) (rule finite_lists_length_le, simp)
qed

text \<open>One level of \<open>walk\<close>.\<close>

lemma descend:
  assumes "inv P s" and "tables_ok ops P root f s" and "f p = Some t" and "length p < 2"
  shows "walk_levels (l # ls) ops t va True s = Inl Panic \<and> avail s = 0 \<and> p @ [idx l va] \<notin> dom f \<or>
    (\<exists>P' f' s' q. walk_levels (l # ls) ops t va True s = walk_levels ls ops q va True s' \<and>
      grown P root f s P' f' s' (page_entry ops f s) \<and> dom f' = insert (p @ [idx l va]) (dom f) \<and> f' (p @ [idx l va]) = Some q \<and>
      (\<forall>r \<in> dom f. f' r = f r))"
proof -
  let ?i = "idx l va"
  have ent: "po_load ops (table_slot t ?i) s = (case f (p @ [?i]) of None \<Rightarrow> 0 | Some q \<Rightarrow> pte_new q PTE_V)"
    using assms(2-4) idx_less unfolding tables_ok_def by blast
  show ?thesis
  proof (cases "f (p @ [?i])")
    case (Some q)
    have q: "page_ok q" using tables_page [OF assms(1,2) Some] by simp
    then have "q \<noteq> 0" by (simp add: page_ok_def)
    then have "walk_levels (l # ls) ops t va True s = walk_levels ls ops q va True s"
      using ent Some pte_table_pa [OF q] by (simp add: entry_addr_slot)
    moreover have "dom f = insert (p @ [?i]) (dom f)" using Some by auto
    ultimately show ?thesis using grown_refl [OF assms(1,2)] Some by blast
  next
    case None
    show ?thesis
    proof (cases "po_new_zeroed ops s")
      case (Inl e)
      with new_fails [OF assms(1) Inl] ent None show ?thesis by (simp add: entry_addr_slot pte_empty_def domIff)
    next
      case (Inr qs)
      obtain q s1 where qs: "qs = (q, s1)" by (cases qs)
      note new = Inr [unfolded qs]
      note add = add_table [OF assms(1-4) idx_less None new]
      let ?f = "f(p @ [?i] \<mapsto> q)" and ?s = "po_store ops (table_slot t ?i) (pte_new q PTE_V) s1"
      have qp: "q \<notin> P" "page_ok q" using new_page [OF assms(1) new] page_ok [OF add(1), of q] by auto
      then have "q \<noteq> 0" by (simp add: page_ok_def)
      then have run: "walk_levels (l # ls) ops t va True s = walk_levels ls ops q va True ?s"
        using ent None new by (simp add: entry_addr_slot pte_empty_def)
      have fin: "finite (dom f)" by (rule finite_tables [OF assms(2)])
      have "card (dom ?f) = Suc (card (dom f))" using fin None by (simp add: domIff)
      moreover have "ran ?f \<subseteq> ran f \<union> (insert q P - P)" using qp(1) by (auto simp: ran_def)
      moreover have "page_entry ops ?f ?s v = page_entry ops f s v" for v by (simp add: page_entry_def add(3))
      ultimately have "grown P root f s (insert q P) ?f ?s (page_entry ops f s)"
        using add(1,2,4,5) by (auto simp: grown_def)
      moreover have "\<forall>r \<in> dom f. ?f r = f r" using None by auto
      ultimately show ?thesis using run by (intro disjI2 exI [of _ "insert q P"] exI [of _ ?f] exI [of _ ?s] exI [of _ q]) auto
    qed
  qed
qed

text \<open>\<open>walk\<close> ends at the entry of the page, or panics when the tables it needs are not to be had.\<close>

lemma walk_run:
  assumes "inv P s" and "tables_ok ops P root f s" and "va < MAX_VA" and "unat va div 4096 = v" and "v < 2 ^ 27"
  shows "walk ops root va True s = Inl Panic \<and> avail s + card (dom f) < card (dom f \<union> page_path v) \<or>
    (\<exists>P' f' s' t. walk ops root va True s = Inr (Some (table_slot t (v mod 512)), s') \<and>
      grown P root f s P' f' s' (page_entry ops f s) \<and> dom f' = dom f \<union> page_path v \<and>
      f' [v div 2 ^ 18, v div 512 mod 512] = Some t)"
proof -
  note ix = page_indices [OF assms(4,5)]
  have root: "f [] = Some root" using assms(2) by (simp add: tables_ok_def)
  have w: "walk ops root va True s = walk_levels [2, 1] ops root va True s" using assms(3) by (simp add: walk_def)
  have fin: "finite (dom f)" by (rule finite_tables [OF assms(2)])
  consider "walk_levels [2, 1] ops root va True s = Inl Panic" "avail s = 0" "[v div 2 ^ 18] \<notin> dom f"
    | P1 f1 s1 q where "walk_levels [2, 1] ops root va True s = walk_levels [1] ops q va True s1"
      "grown P root f s P1 f1 s1 (page_entry ops f s)" "dom f1 = insert [v div 2 ^ 18] (dom f)" "f1 [v div 2 ^ 18] = Some q"
    using descend [OF assms(1,2) root, of 2 "[1]" va] by (fastforce simp: ix)
  then show ?thesis
  proof cases
    case 1
    have "card (dom f) < card (dom f \<union> page_path v)"
      by (rule psubset_card_mono) (use fin 1(3) in \<open>auto simp: page_path_def\<close>)
    with 1 w show ?thesis by simp
  next
    case 2
    note g = grownD [OF 2(2)]
    have len: "length [v div 2 ^ 18] < 2" by simp
    have same: "page_entry ops f1 s1 x = page_entry ops f s x" if "x < 2 ^ 27" for x using 2(2) that by (simp add: grown_def)
    have dom: "insert [v div 2 ^ 18, v div 512 mod 512] (dom f1) = dom f \<union> page_path v" using 2(3) by (auto simp: page_path_def)
    consider "walk_levels [1] ops q va True s1 = Inl Panic" "avail s1 = 0" "[v div 2 ^ 18, v div 512 mod 512] \<notin> dom f1"
      | P2 f2 s2 t where "walk_levels [1] ops q va True s1 = walk_levels [] ops t va True s2"
        "grown P1 root f1 s1 P2 f2 s2 (page_entry ops f1 s1)" "dom f2 = dom f \<union> page_path v"
        "f2 [v div 2 ^ 18, v div 512 mod 512] = Some t"
    proof -
      note d = descend [OF g 2(4) len, of 1 "[]" va, unfolded ix append_Cons append_Nil dom]
      show thesis using d by (elim disjE exE conjE) (rule that(1) that(2); assumption)+
    qed
    then show ?thesis
    proof cases
      case 1
      have "finite (dom f1)" by (rule finite_tables [OF g(2)])
      then have "card (dom f \<union> page_path v) = Suc (card (dom f1))" using 1(3) by (simp add: dom [symmetric])
      with 1 2(1,2) w show ?thesis by (simp add: grown_def)
    next
      case inner: 2
      have "grown P root f s P2 f2 s2 (page_entry ops f s)"
        using grown_trans [OF 2(2) inner(2)] same by (simp add: grown_def)
      moreover have "walk ops root va True s = Inr (Some (table_slot t (v mod 512)), s2)"
        using w 2(1) inner(1) by (simp add: entry_addr_slot ix(3))
      ultimately show ?thesis using inner(3,4) by blast
    qed
  qed
qed

text \<open>A store to the entry of a page.\<close>

lemma set_entry:
  assumes "inv P s" and "tables_ok ops P root f s" and "v < 2 ^ 27" and "f [v div 2 ^ 18, v div 512 mod 512] = Some t"
    and s'_def: "s' = po_store ops (table_slot t (v mod 512)) e s"
  shows "grown P root f s P f s' ((page_entry ops f s)(v := e))"
proof -
  have t: "t \<in> P" using tables_page [OF assms(1,2,4)] by simp
  have oth: "po_load ops (table_slot u k) s' = po_load ops (table_slot u k) s" if "u \<in> P" "k < 512" "(u, k) \<noteq> (t, v mod 512)" for u k
    unfolding s'_def by (rule slot_other [OF assms(1)]) (use that t in auto)
  have inj: "f p = Some t \<Longrightarrow> p = [v div 2 ^ 18, v div 512 mod 512]" for p
    using assms(2,4) unfolding tables_ok_def by (metis domI inj_onD)
  have ranP: "f p = Some u \<Longrightarrow> u \<in> P" for p u using tables_page [OF assms(1,2)] by blast
  have "tables_ok ops P root f s'"
    unfolding tables_ok_def
  proof (intro conjI allI impI)
    fix p u and i :: nat assume a: "f p = Some u \<and> length p < 2 \<and> i < 512"
    then have "u \<noteq> t" using inj by force
    then have "po_load ops (table_slot u i) s' = po_load ops (table_slot u i) s" using a oth [of u i] ranP [of p u] by simp
    with a show "po_load ops (table_slot u i) s' = (case f (p @ [i]) of None \<Rightarrow> 0 | Some q \<Rightarrow> pte_new q PTE_V)"
      using assms(2) by (simp add: tables_ok_def)
  qed (use assms(2) in \<open>simp_all add: tables_ok_def\<close>)
  moreover have "page_entry ops f s' w = ((page_entry ops f s)(v := e)) w" for w
  proof (cases "w = v")
    case True
    then show ?thesis using assms(4) by (simp add: page_entry_def leaf_def s'_def load_store)
  next
    case False
    show ?thesis
    proof (cases "f [w div 2 ^ 18, w div 512 mod 512]")
      case (Some u)
      have "(u, w mod 512) \<noteq> (t, v mod 512)" using page_index_inj [of w v] False inj Some by auto
      then show ?thesis using False Some oth [of u "w mod 512"] ranP by (simp add: page_entry_def leaf_def)
    qed (use False in \<open>simp add: page_entry_def leaf_def\<close>)
  qed
  moreover have "\<forall>u \<in> P - ran f. \<forall>k < 512. po_load ops (table_slot u k) s' = po_load ops (table_slot u k) s"
    using oth assms(4) by (auto simp: ran_def)
  moreover have "inv P s'" unfolding s'_def by (rule store_inv [OF assms(1) t]) simp
  moreover have "avail s' = avail s" unfolding s'_def by (rule store_avail [OF assms(1) t]) simp
  ultimately show ?thesis by (simp add: grown_def)
qed

lemma map_page_run:
  assumes "inv P s" and "tables_ok ops P root f s" and "va < MAX_VA" and "unat va div 4096 = v" and "v < 2 ^ 27"
  shows "map_page ops root va pa perm s = Inl Panic \<and>
      (pte_is_valid (page_entry ops f s v) \<or> avail s + card (dom f) < card (dom f \<union> page_path v)) \<or>
    (\<exists>P' f' s'. map_page ops root va pa perm s = Inr s' \<and> \<not> pte_is_valid (page_entry ops f s v) \<and>
      grown P root f s P' f' s' ((page_entry ops f s)(v := pte_new pa (PTE_V OR perm))) \<and> dom f' = dom f \<union> page_path v)"
  using walk_run [OF assms]
proof (elim disjE exE conjE)
  fix P' f' s' t
  assume w: "walk ops root va True s = Inr (Some (table_slot t (v mod 512)), s')"
    and g: "grown P root f s P' f' s' (page_entry ops f s)" and d: "dom f' = dom f \<union> page_path v"
    and t: "f' [v div 2 ^ 18, v div 512 mod 512] = Some t"
  have e: "po_load ops (table_slot t (v mod 512)) s' = page_entry ops f s v"
  proof -
    have "page_entry ops f' s' v = page_entry ops f s v" using g assms(5) by (simp add: grown_def)
    then show ?thesis using t by (simp add: page_entry_def [of ops f'] leaf_def [of ops f'])
  qed
  have "grown P root f s P' f' (po_store ops (table_slot t (v mod 512)) x s') ((page_entry ops f s)(v := x))" for x
    using grown_trans [OF g set_entry [OF grownD [OF g] assms(5) t refl]] g by (simp add: grown_def)
  note g' = this [of "pte_new pa (PTE_V OR perm)"]
  show ?thesis
  proof (cases "pte_is_valid (page_entry ops f s v)")
    case False
    have "map_page ops root va pa perm s = Inr (po_store ops (table_slot t (v mod 512)) (pte_new pa (PTE_V OR perm)) s')"
      using w e False by (simp add: map_page_def)
    with d False g' show ?thesis by blast
  qed (use w e in \<open>simp add: map_page_def\<close>)
qed (simp add: map_page_def)

text \<open>The loop of \<open>map\<close> over the pages \<open>v\<close> to \<open>v + n\<close>.\<close>

lemma map_loop_run:
  assumes "inv P s" and "tables_ok ops P root f s" and "v + n \<le> 2 ^ 26"
  shows "map_loop ops root (pg_addr v) pa (pg_addr (v + n)) perm s = Some (Inl Panic) \<and>
      ((\<exists>w \<in> {v..<v + n}. pte_is_valid (page_entry ops f s w)) \<or> avail s + card (dom f) < card (dom f \<union> paths v n)) \<or>
    (\<exists>P' f' s'. map_loop ops root (pg_addr v) pa (pg_addr (v + n)) perm s = Some (Inr s') \<and>
      (\<forall>w \<in> {v..<v + n}. \<not> pte_is_valid (page_entry ops f s w)) \<and>
      grown P root f s P' f' s' (mapped v n pa perm (page_entry ops f s)) \<and> dom f' = dom f \<union> paths v n)"
  using assms
proof (induction n arbitrary: v pa P f s)
  case 0
  have "paths v 0 = {}" and "mapped v 0 pa perm g = g" for g by (auto simp: paths_def mapped_def fun_eq_iff)
  with 0 grown_refl [OF 0(1,2)] show ?case by (subst map_loop.simps) (auto simp: map_loop.simps)
next
  case (Suc n)
  have va: "pg_addr v < MAX_VA" "unat (pg_addr v) div 4096 = v" "v < 2 ^ 27"
    using Suc.prems(3) pg_addr [of v] by (simp_all add: word_less_nat_alt MAX_VA_eq)
  have ne: "pg_addr v \<noteq> pg_addr (v + Suc n)" using Suc.prems(3) by (simp add: pg_addr_inj)
  have set: "{v..<v + Suc n} = insert v {Suc v..<Suc v + n}" by auto
  have more: "card (dom f \<union> page_path v) \<le> card (dom f \<union> paths v (Suc n))"
    by (rule card_mono) (use finite_tables [OF Suc.prems(2)] in \<open>auto simp: paths_Suc paths_def page_path_def\<close>)
  let ?g = "page_entry ops f s" and ?e = "pte_new pa (PTE_V OR perm)"
  from map_page_run [OF Suc.prems(1,2) va, of pa perm] show ?case
  proof (elim disjE exE conjE)
    fix P1 f1 s1
    assume m: "map_page ops root (pg_addr v) pa perm s = Inr s1" and nv: "\<not> pte_is_valid (?g v)"
      and g: "grown P root f s P1 f1 s1 (?g(v := ?e))" and d: "dom f1 = dom f \<union> page_path v"
    have run: "map_loop ops root (pg_addr v) pa (pg_addr (v + Suc n)) perm s =
        map_loop ops root (pg_addr (Suc v)) (pa + PAGE_SIZE) (pg_addr (Suc v + n)) perm s1"
      using ne m by (subst map_loop.simps) (simp add: pg_addr_step)
    have same: "page_entry ops f1 s1 w = (?g(v := ?e)) w" if "w < 2 ^ 27" for w using g that by (simp add: grown_def)
    then have val: "pte_is_valid (page_entry ops f1 s1 w) \<longleftrightarrow> pte_is_valid (?g w)" if "w \<in> {Suc v..<Suc v + n}" for w
      using that Suc.prems(3) by simp
    have dom: "dom f1 \<union> paths (Suc v) n = dom f \<union> paths v (Suc n)" by (auto simp: d paths_Suc)
    have av: "avail s + card (dom f) \<le> avail s1 + card (dom f1)" using g by (simp add: grown_def)
    have le: "Suc v + n \<le> 2 ^ 26" using Suc.prems(3) by simp
    from Suc.IH [OF grownD [OF g] le, of "pa + PAGE_SIZE", unfolded dom] show ?thesis
    proof (elim disjE exE conjE)
      fix P2 f2 s2
      assume r: "map_loop ops root (pg_addr (Suc v)) (pa + PAGE_SIZE) (pg_addr (Suc v + n)) perm s1 = Some (Inr s2)"
        and nv2: "\<forall>w \<in> {Suc v..<Suc v + n}. \<not> pte_is_valid (page_entry ops f1 s1 w)"
        and g2: "grown P1 root f1 s1 P2 f2 s2 (mapped (Suc v) n (pa + PAGE_SIZE) perm (page_entry ops f1 s1))"
        and d2: "dom f2 = dom f \<union> paths v (Suc n)"
      have "mapped (Suc v) n (pa + PAGE_SIZE) perm (page_entry ops f1 s1) w = mapped v (Suc n) pa perm ?g w" if "w < 2 ^ 27" for w
        using same [OF that] unfolding mapped_Suc [symmetric] by (auto simp: mapped_def)
      then have "grown P root f s P2 f2 s2 (mapped v (Suc n) pa perm ?g)"
        using grown_trans [OF g g2] by (simp add: grown_def)
      moreover have "\<forall>w \<in> {v..<v + Suc n}. \<not> pte_is_valid (?g w)" using nv nv2 val unfolding set by blast
      ultimately show ?thesis using r d2 unfolding run by blast
    qed (use set val av run in auto)
  qed (use set ne more in \<open>auto simp: map_loop.simps\<close>)
qed

end

end
