(* ===== verification/Address_Space.thy ===== *)
theory Address_Space
  imports Page_Walk
begin

text \<open>
  What a page table is for: a map from the pages of the virtual address space to physical
  pages and permissions. \<open>map\<close> of \<open>kernel/src/mem/page/page_table.rs\<close> is shown to extend this
  map, and the translation of the processor to look it up, for any page allocator with the
  laws of \<open>page_source\<close>.
\<close>

section \<open>Address spaces\<close>

type_synonym space = "nat \<Rightarrow> (u64 \<times> u64) option"

definition space_map :: "nat \<Rightarrow> nat \<Rightarrow> u64 \<Rightarrow> u64 \<Rightarrow> space \<Rightarrow> space" where
  "space_map v n pa perm m = (\<lambda>w. if v \<le> w \<and> w < v + n then Some (pa + pg_addr (w - v), perm) else m w)"

text \<open>
  What a call of \<open>map\<close> is asked for: every page that has a byte of the \<open>n\<close> bytes from \<open>a\<close> on,
  each at its distance from the start.
\<close>

definition page_in :: "nat \<Rightarrow> nat \<Rightarrow> nat \<Rightarrow> bool" where
  "page_in w a n \<longleftrightarrow> 0 < n \<and> w * 4096 < a + n \<and> a < (w + 1) * 4096"

definition space_range :: "u64 \<Rightarrow> u64 \<Rightarrow> u64 \<Rightarrow> u64 \<Rightarrow> space \<Rightarrow> space" where
  "space_range va pa sz perm m =
     (\<lambda>w. if page_in w (unat va) (unat sz) then Some (pa + (pg_addr w - va), perm) else m w)"

text \<open>The physical address and the flags for a virtual address.\<close>

definition space_lookup :: "space \<Rightarrow> u64 \<Rightarrow> (u64 \<times> u64) option" where
  "space_lookup m va =
     (case m (unat va div 4096) of None \<Rightarrow> None | Some (pa, perm) \<Rightarrow> Some (pa + va mod 4096, PTE_V OR perm))"

text \<open>Permissions of a leaf that the processor accepts: to read or execute, and to write only with reading.\<close>

definition leaf_perm :: "u64 \<Rightarrow> bool" where
  "leaf_perm perm \<longleftrightarrow> perm_ok perm \<and> (bit perm 1 \<or> bit perm 3) \<and> (bit perm 2 \<longrightarrow> bit perm 1)"

definition space_ok :: "space \<Rightarrow> bool" where
  "space_ok m \<longleftrightarrow> (\<forall>v pa perm. m v = Some (pa, perm) \<longrightarrow> leaf_perm perm \<and> unat pa mod 4096 = 0)"

text \<open>The entry in the last table.\<close>

definition space_entry :: "space \<Rightarrow> nat \<Rightarrow> pte" where
  "space_entry m v = (case m v of None \<Rightarrow> 0 | Some (pa, perm) \<Rightarrow> pte_new pa (PTE_V OR perm))"

text \<open>Pages of a size, and the number of tables that mapping \<open>n\<close> pages may need.\<close>

definition npg :: "u64 \<Rightarrow> nat" where
  "npg sz = (unat sz + 4095) div 4096"

definition map_cost :: "nat \<Rightarrow> nat" where
  "map_cost n = 2 * (n div 512 + 2)"

lemma card_paths: "card (paths v n) \<le> map_cost n"
proof -
  let ?Q = "{v div 512..(v + n) div 512}"
  have "paths v n \<subseteq> (\<lambda>q. [q div 512]) ` ?Q \<union> (\<lambda>q. [q div 512, q mod 512]) ` ?Q"
  proof
    fix p assume "p \<in> paths v n"
    then obtain w where w: "v \<le> w" "w < v + n" "p \<in> page_path w" by (auto simp: paths_def)
    have "w div 512 \<in> ?Q" using w(1,2) by (simp add: div_le_mono)
    moreover have "p = [w div 512 div 512] \<or> p = [w div 512 div 512, w div 512 mod 512]"
      using w(3) by (simp add: page_path_def div_mult2_eq [symmetric])
    ultimately show "p \<in> (\<lambda>q. [q div 512]) ` ?Q \<union> (\<lambda>q. [q div 512, q mod 512]) ` ?Q" by blast
  qed
  then have "card (paths v n) \<le> card ((\<lambda>q. [q div 512]) ` ?Q \<union> (\<lambda>q. [q div 512, q mod 512]) ` ?Q)" by (rule card_mono [rotated]) simp
  also have "\<dots> \<le> card ?Q + card ?Q" by (rule order_trans [OF card_Un_le add_mono]) (rule card_image_le, simp)+
  also have "card ?Q \<le> n div 512 + 2"
  proof -
    have "(v + n) div 512 \<le> v div 512 + n div 512 + 1" by linarith
    then show ?thesis by simp
  qed
  finally show ?thesis by (simp add: map_cost_def)
qed

lemma page_in_aligned: "0 < unat sz \<Longrightarrow> page_in w (v * 4096) (unat sz) \<longleftrightarrow> v \<le> w \<and> w < v + npg sz"
  unfolding page_in_def npg_def by (intro iffI conjI; elim conjE; (linarith | simp))

lemma pages_touched: "0 < unat sz \<Longrightarrow> (\<exists>w. page_in w (v * 4096) (unat sz) \<and> Q w) \<longleftrightarrow> (\<exists>w \<in> {v..<v + npg sz}. Q w)"
  using page_in_aligned [of sz _ v] by auto

lemma space_range_eq:
  assumes "unat va = v * 4096" and "0 < unat sz"
  shows "space_range va pa sz perm m = space_map v (npg sz) pa perm m"
proof -
  have "of_nat (unat va) = (of_nat (v * 4096) :: u64)" using assms(1) by simp
  then have "va = pg_addr v" by (simp add: pg_addr_def)
  then have "pg_addr w - va = pg_addr (w - v)" if "v \<le> w" for w
    using that by (simp add: pg_addr_def of_nat_diff diff_mult_distrib)
  then show ?thesis unfolding space_range_def space_map_def assms(1) page_in_aligned [OF assms(2)] by auto
qed

lemma mapped_space: "mapped v n pa perm (space_entry m) = space_entry (space_map v n pa perm m)"
  by (auto simp: mapped_def space_entry_def space_map_def fun_eq_iff)

lemma entry_valid: "pte_is_valid (space_entry m v) \<longleftrightarrow> m v \<noteq> None"
  by (auto simp: space_entry_def pte_test_bits pte_new_def bit_simps PTE_V_def split: option.splits)

lemma space_map_ok:
  assumes "space_ok m" and "leaf_perm perm" and "unat pa mod 4096 = 0"
  shows "space_ok (space_map v n pa perm m)"
proof -
  have "unat (pa + pg_addr k) mod 4096 = 0" for k
  proof -
    have "unat (pa + pg_addr k) = (unat pa + k * 4096) mod 2 ^ 64"
      by (simp add: pg_addr_def unat_word_ariths unat_of_nat mod_simps del: of_nat_mult)
    moreover have "4096 dvd unat pa + k * 4096" using assms(3) by (simp add: dvd_eq_mod_eq_0 [symmetric])
    then have "4096 dvd (unat pa + k * 4096) mod 2 ^ 64" by (rule dvd_mod) simp
    ultimately show ?thesis by (simp only: dvd_eq_mod_eq_0)
  qed
  with assms show ?thesis by (auto simp: space_ok_def space_map_def split: if_splits)
qed

lemma leaf_entry:
  assumes "leaf_perm perm" and "unat pa mod 4096 = 0"
  shows "\<not> pte_fault (pte_new pa (PTE_V OR perm))" and "pte_leaf (pte_new pa (PTE_V OR perm))"
    and "pte_pa (pte_new pa (PTE_V OR perm)) = pa" and "pte_flags (pte_new pa (PTE_V OR perm)) = PTE_V OR perm"
proof -
  have p: "perm_ok perm" using assms(1) by (simp add: leaf_perm_def)
  note f = perm_flags [OF p] and b = bit_pte_new(1) [OF perm_flags(1) [OF p], of _ pa]
  show "\<not> pte_fault (pte_new pa (PTE_V OR perm))" "pte_leaf (pte_new pa (PTE_V OR perm))"
    using assms(1) b by (auto simp: pte_fault_def pte_leaf_def pte_test_bits leaf_perm_def bit_simps PTE_V_def)
  show "pte_pa (pte_new pa (PTE_V OR perm)) = pa" by (rule pte_pa_new [OF f(1) assms(2)])
  have "take_bit 8 (pte_new pa (PTE_V OR perm)) = take_bit 8 (PTE_V OR perm)"
    by (rule bit_word_eqI) (unfold bit_take_bit_iff, use b in auto)
  with f(2) show "pte_flags (pte_new pa (PTE_V OR perm)) = PTE_V OR perm" by (simp add: pte_flags_def)
qed

section \<open>Mapping and translating\<close>

lemma unat_pg_addr: "k * 4096 < 2 ^ 64 \<Longrightarrow> unat (pg_addr k) = k * 4096"
  by (simp add: pg_addr_def unat_of_nat_u64 del: of_nat_mult)

lemma range_ends:
  assumes "unat va div 4096 = v" and "v * 4096 + unat sz + 4095 < 2 ^ 64"
  shows "pg_round_down va PAGE_SIZE = pg_addr v" and "pg_round_up (pg_addr v + sz) PAGE_SIZE = pg_addr (v + npg sz)"
proof -
  note u = unat_pg_addr
  show "pg_round_down va PAGE_SIZE = pg_addr v"
    using u [of v] assms by (simp add: u64_eq_iff_unat unat_pg_round_down_page)
  have "unat (pg_addr v + sz) = v * 4096 + unat sz" using assms(2) u [of v] by (subst unat_add_u64) simp_all
  moreover have "(4095 + (v * 4096 + unat sz)) div 4096 = v + npg sz" unfolding npg_def by linarith
  moreover have "(v + npg sz) * 4096 < 2 ^ 64"
    using assms(2) div_times_less_eq_dividend [of "unat sz + 4095" 4096] unfolding npg_def distrib_right by linarith
  ultimately show "pg_round_up (pg_addr v + sz) PAGE_SIZE = pg_addr (v + npg sz)"
    using unat_pg_round_up [of "pg_addr v + sz" 12] assms(2) u [of "v + npg sz"]
    by (simp add: u64_eq_iff_unat)
qed

lemma page_below: "unat (va :: u64) div 4096 = v \<Longrightarrow> v * 4096 < 2 ^ 64"
  using le_less_trans [OF div_times_less_eq_dividend [of "unat va" 4096] unat_u64_less] by simp

lemma range_start: "unat va div 4096 = v \<Longrightarrow> pg_round_down va PAGE_SIZE = pg_addr v"
proof -
  assume v: "unat va div 4096 = v"
  from unat_pg_addr [OF page_below [OF v]] v show ?thesis by (simp add: u64_eq_iff_unat unat_pg_round_down_page)
qed

text \<open>The end of a range, also where the sum wraps around.\<close>

lemma range_end:
  assumes "v * 4096 < 2 ^ 64"
  shows "unat (pg_round_up (pg_addr v + sz) PAGE_SIZE) = (v * 4096 + unat sz + 4095) mod 2 ^ 64 div 4096 * 4096"
proof -
  let ?x = "pg_addr v + sz + (PAGE_SIZE - 1)"
  have "unat ?x = (v * 4096 + unat sz + 4095) mod 2 ^ 64"
    using unat_pg_addr [OF assms] by (simp add: unat_word_ariths mod_simps)
  moreover have "pg_round_up (pg_addr v + sz) PAGE_SIZE = pg_round_down ?x 4096"
    unfolding pg_round_up_def pg_round_down_def add_diff_eq [symmetric] by simp
  ultimately show ?thesis by (simp only: unat_pg_round_down_page)
qed

lemma range_past:
  assumes "v * 4096 < 2 ^ 64" and "0 < unat sz" and "unat sz \<le> 2 ^ 64 - 4096" and "2 ^ 38 < v * 4096 + unat sz"
    and "v \<le> w" and "w \<le> max v (2 ^ 26)"
  shows "pg_addr w \<noteq> pg_round_up (pg_addr v + sz) PAGE_SIZE"
proof -
  have w: "unat (pg_addr w) = w * 4096" using assms(1,6) by (intro unat_pg_addr) (auto simp: max_def split: if_splits)
  show ?thesis
  proof (cases "v * 4096 + unat sz + 4095 < 2 ^ 64")
    case True
    then have e: "unat (pg_round_up (pg_addr v + sz) PAGE_SIZE) = (v * 4096 + unat sz + 4095) div 4096 * 4096"
      using range_end [OF assms(1), of sz] by simp
    have "w < (v * 4096 + unat sz + 4095) div 4096"
    proof (cases "w \<le> v")
      case True
      then show ?thesis using assms(2) by linarith
    next
      case False
      then show ?thesis using assms(4,6) by (simp add: max_def split: if_splits)
    qed
    with w e show ?thesis by (metis mult_right_cancel nat_neq_iff zero_neq_numeral)
  next
    case False
    then have "(v * 4096 + unat sz + 4095) mod 2 ^ 64 = v * 4096 + unat sz + 4095 - 2 ^ 64"
      using assms(1,3) by (subst le_mod_geq) simp_all
    then have "unat (pg_round_up (pg_addr v + sz) PAGE_SIZE) = (v * 4096 + unat sz + 4095 - 2 ^ 64) div 4096 * 4096"
      using range_end [OF assms(1), of sz] by simp
    moreover have "(v * 4096 + unat sz + 4095 - 2 ^ 64) div 4096 < v" using assms(3) False by (intro less_mult_imp_div_less) simp
    ultimately show ?thesis using w assms(5) by (metis mult_right_cancel not_le zero_neq_numeral)
  qed
qed

lemma range_none:
  assumes "v * 4096 < 2 ^ 64" and "2 ^ 64 - 4096 < unat (sz :: u64)"
  shows "pg_round_up (pg_addr v + sz) PAGE_SIZE = pg_addr v"
proof -
  define t where "t = unat sz + 4095 - 2 ^ 64"
  have t: "unat sz + 4095 = 2 ^ 64 + t" "t < 4096"
    using unat_u64_less [of sz] assms(2) unfolding t_def usize_range_eq [symmetric] by linarith+
  have "(v * 4096 + unat sz + 4095) mod 2 ^ 64 = (v * 4096 + t + 2 ^ 64) mod 2 ^ 64" using t(1) by (simp add: ac_simps)
  also have "\<dots> = v * 4096 + t" using assms(1) t(2) by (subst mod_add_self2) simp
  finally have "(v * 4096 + unat sz + 4095) mod 2 ^ 64 div 4096 = v" using t(2) by simp
  then show ?thesis using range_end [OF assms(1), of sz] unat_pg_addr [OF assms(1)] by (simp add: u64_eq_iff_unat)
qed

lemma page_or:
  assumes "unat (pa :: u64) mod 4096 = 0"
  shows "pa OR take_bit 12 va = pa + va mod 4096"
proof -
  have "unat (take_bit 12 pa) = 0" using assms by (simp add: take_bit_eq_mod unat_mod)
  then have "take_bit 12 pa = 0" by (simp only: unat_eq_0)
  then have "\<not> (bit pa n \<and> bit (take_bit 12 va) n)" for n by (metis bit_take_bit_iff bit_0_eq bot_apply bot_bool_def)
  then have "pa OR take_bit 12 va = pa + take_bit 12 va" by (subst disjunctive_add) auto
  then show ?thesis by (simp add: take_bit_eq_mod)
qed

context page_source
begin

text \<open>The tables at \<open>root\<close> are those of the address space \<open>m\<close>.\<close>

definition space_in :: "u64 set \<Rightarrow> u64 \<Rightarrow> space \<Rightarrow> 's \<Rightarrow> bool" where
  "space_in P root m s \<longleftrightarrow>
     (\<exists>f. inv P s \<and> tables_ok ops P root f s \<and> (\<forall>v < 2 ^ 27. page_entry ops f s v = space_entry m v))"

lemma space_root: "space_in P root m s \<Longrightarrow> root \<in> P \<and> inv P s"
  by (auto simp: space_in_def tables_ok_def ran_def)

lemma new_space:
  assumes "inv P s" and "po_new_zeroed ops s = Inr (root, s')"
  shows "space_in (insert root P) root (\<lambda>_. None) s'" and "page_ok root"
proof -
  note new = new_page [OF assms]
  show "page_ok root" using page_ok [of "insert root P" s' root] new by simp
  have "tables_ok ops (insert root P) root [[] \<mapsto> root] s'"
    using new_zero [OF assms] by (auto simp: tables_ok_def)
  moreover have "page_entry ops [[] \<mapsto> root] s' v = space_entry (\<lambda>_. None) v" for v
    by (simp add: page_entry_def leaf_def space_entry_def)
  ultimately show "space_in (insert root P) root (\<lambda>_. None) s'" using new unfolding space_in_def by blast
qed

lemma map_range_space:
  assumes "space_in P root m s" and "unat va div 4096 = v" and "0 < unat sz" and "v + npg sz \<le> 2 ^ 26"
  defines "n \<equiv> npg sz"
  shows "map_range ops root va pa sz perm s = Inl Panic \<and> ((\<exists>w \<in> {v..<v + n}. m w \<noteq> None) \<or> avail s < map_cost n) \<or>
    (\<exists>P' s'. map_range ops root va pa sz perm s = Inr s' \<and> (\<forall>w \<in> {v..<v + n}. m w = None) \<and> P \<subseteq> P' \<and>
      space_in P' root (space_map v n (pg_round_down pa PAGE_SIZE) perm m) s' \<and> avail s \<le> avail s' + map_cost n)"
proof -
  from assms(1) obtain f where f: "inv P s" "tables_ok ops P root f s" "\<forall>v < 2 ^ 27. page_entry ops f s v = space_entry m v"
    by (auto simp: space_in_def)
  have "v * 4096 + unat sz + 4095 < 2 ^ 64" using assms(4) unfolding npg_def by simp
  note ends = range_ends [OF assms(2) this]
  let ?pa = "pg_round_down pa PAGE_SIZE"
  have sz: "0 < sz" using assms(3) by (simp add: word_less_nat_alt)
  have run: "map_range ops root va pa sz perm s = run_loop (map_loop ops root (pg_addr v) ?pa (pg_addr (v + n)) perm s)"
    unfolding map_range_def Let_def ends n_def using sz by (simp add: check_def)
  have le: "v + n \<le> 2 ^ 26" using assms(4) by (simp add: n_def)
  have val: "pte_is_valid (page_entry ops f s w) \<longleftrightarrow> m w \<noteq> None" if "w \<in> {v..<v + n}" for w
    using f(3) that le entry_valid [of m w] by simp
  have cost: "card (dom f \<union> paths v n) \<le> card (dom f) + map_cost n"
    using card_paths [of v n] card_Un_le [of "dom f" "paths v n"] by linarith
  from map_loop_run [OF f(1,2) le, of ?pa perm] show ?thesis
  proof (elim disjE exE conjE)
    fix P' f' s'
    assume r: "map_loop ops root (pg_addr v) ?pa (pg_addr (v + n)) perm s = Some (Inr s')"
      and free: "\<forall>w \<in> {v..<v + n}. \<not> pte_is_valid (page_entry ops f s w)"
      and g: "grown P root f s P' f' s' (mapped v n ?pa perm (page_entry ops f s))" and d: "dom f' = dom f \<union> paths v n"
    have "mapped v n ?pa perm (page_entry ops f s) w = space_entry (space_map v n ?pa perm m) w" if "w < 2 ^ 27" for w
      using f(3) that unfolding mapped_space [symmetric] by (simp add: mapped_def)
    with g have "space_in P' root (space_map v n ?pa perm m) s'" unfolding space_in_def grown_def by (intro exI [of _ f']) simp
    moreover have "avail s \<le> avail s' + map_cost n" using g cost d by (simp add: grown_def)
    moreover have "P \<subseteq> P'" using g by (simp add: grown_def)
    moreover have "\<forall>w \<in> {v..<v + n}. m w = None" using free val by blast
    ultimately show ?thesis using r run by (auto simp: run_loop_def)
  qed (use run val cost in \<open>auto simp: run_loop_def\<close>)
qed

lemma map_range_ok:
  assumes "space_in P root m s" and "unat va div 4096 = v" and "0 < unat sz" and "npg sz = n" and "v + n \<le> 2 ^ 26"
    and "\<forall>w \<in> {v..<v + n}. m w = None" and "map_cost n \<le> avail s"
  shows "\<exists>P' s'. map_range ops root va pa sz perm s = Inr s' \<and>
    space_in P' root (space_map v n (pg_round_down pa PAGE_SIZE) perm m) s' \<and> avail s \<le> avail s' + map_cost n"
proof -
  have "v + npg sz \<le> 2 ^ 26" using assms(4,5) by simp
  from map_range_space [OF assms(1-3) this, unfolded assms(4)] assms(6,7) show ?thesis by (meson not_le)
qed

text \<open>Past the last page of the address space there is no way on.\<close>

lemma map_loop_past:
  assumes "inv P s" and "tables_ok ops P root f s" and "v \<le> 2 ^ 26" and "\<And>w. v \<le> w \<Longrightarrow> w \<le> 2 ^ 26 \<Longrightarrow> pg_addr w \<noteq> e"
  shows "map_loop ops root (pg_addr v) pa e perm s = Some (Inl Panic)"
  using assms
proof (induction "2 ^ 26 - v" arbitrary: v pa P f s)
  case 0
  then have "unat (pg_addr v) = 2 ^ 38" using pg_addr [of v] by simp
  then have "\<not> pg_addr v < MAX_VA" by (simp add: word_less_nat_alt MAX_VA_eq)
  then have "map_page ops root (pg_addr v) pa perm s = Inl Panic" by (simp add: map_page_def walk_def)
  with 0 show ?case by (subst map_loop.simps) simp
next
  case (Suc d)
  have va: "pg_addr v < MAX_VA" "unat (pg_addr v) div 4096 = v" "v < 2 ^ 27"
    using Suc.hyps(2) pg_addr [of v] by (simp_all add: word_less_nat_alt MAX_VA_eq)
  note ne = Suc.prems(4) [OF order_refl Suc.prems(3)]
  from map_page_run [OF Suc.prems(1,2) va, of pa perm] show ?case
  proof (elim disjE exE conjE)
    fix P' f' s'
    assume m: "map_page ops root (pg_addr v) pa perm s = Inr s'"
      and g: "grown P root f s P' f' s' ((page_entry ops f s)(v := pte_new pa (PTE_V OR perm)))"
    have "map_loop ops root (pg_addr (Suc v)) (pa + PAGE_SIZE) e perm s' = Some (Inl Panic)"
      by (rule Suc.hyps(1) [OF _ grownD [OF g]]) (use Suc.hyps(2) Suc.prems(4) in auto)
    with m ne show ?thesis by (subst map_loop.simps) (simp add: pg_addr_step)
  qed (use ne in \<open>simp_all add: map_loop.simps\<close>)
qed

lemma map_range_past:
  assumes "space_in P root m s" and v: "unat va div 4096 = v" and "0 < unat sz" and "2 ^ 38 < v * 4096 + unat sz" and "unat sz \<le> 2 ^ 64 - 4096"
  shows "map_range ops root va pa sz perm s = Inl Panic"
proof -
  let ?e = "pg_round_up (pg_addr v + sz) PAGE_SIZE"
  note lt = page_below [OF v]
  note start = range_start [OF v]
  have ne: "pg_addr w \<noteq> ?e" if "v \<le> w" "w \<le> max v (2 ^ 26)" for w
    using range_past [OF lt assms(3,5,4) that] by simp
  have "map_loop ops root (pg_addr v) (pg_round_down pa PAGE_SIZE) ?e perm s = Some (Inl Panic)"
  proof (cases "v \<le> 2 ^ 26")
    case True
    from assms(1) obtain f where "inv P s" "tables_ok ops P root f s" by (auto simp: space_in_def)
    then show ?thesis by (rule map_loop_past [OF _ _ True]) (use ne in simp)
  next
    case False
    with unat_pg_addr [OF lt] have "map_page ops root (pg_addr v) (pg_round_down pa PAGE_SIZE) perm s = Inl Panic"
      by (simp add: map_page_def walk_def word_less_nat_alt MAX_VA_eq)
    then show ?thesis using ne [of v] by (subst map_loop.simps) simp
  qed
  then show ?thesis unfolding map_range_def Let_def start by (simp add: check_def run_loop_def)
qed

text \<open>The processor finds the entries.\<close>

lemma table_step:
  assumes "inv P s" and "tables_ok ops P root f s" and "f p = Some t" and "length p < 2" and "level = Suc l"
  shows "sv39_walk level (\<lambda>w. po_load ops w s) t va =
    (case f (p @ [idx level va]) of None \<Rightarrow> None | Some q \<Rightarrow> sv39_walk l (\<lambda>w. po_load ops w s) q va)"
proof -
  have e: "po_load ops (table_slot t (idx level va)) s = (case f (p @ [idx level va]) of None \<Rightarrow> 0 | Some q \<Rightarrow> pte_new q PTE_V)"
    using assms(2-4) idx_less unfolding tables_ok_def by blast
  show ?thesis
  proof (cases "f (p @ [idx level va])")
    case None
    then show ?thesis using e by (simp add: assms(5) entry_addr_slot pte_fault_def)
  next
    case (Some q)
    have "page_ok q" using tables_page [OF assms(1,2) Some] by simp
    with Some show ?thesis using e by (simp add: assms(5) entry_addr_slot pte_fault_def pte_leaf_def pte_table_pa)
  qed
qed

lemma walk_entry:
  assumes "inv P s" and "tables_ok ops P root f s" and "unat va div 4096 = v" and "v < 2 ^ 27"
  shows "sv39_walk 2 (\<lambda>w. po_load ops w s) root va =
    (let e = page_entry ops f s v in if pte_fault e \<or> \<not> pte_leaf e then None else Some (0, e))"
proof -
  note ix = page_indices [OF assms(3,4)]
  have root: "f [] = Some root" using assms(2) by (simp add: tables_ok_def)
  let ?l = "\<lambda>w. po_load ops w s" and ?i = "v div 2 ^ 18" and ?j = "v div 512 mod 512"
  have two: "sv39_walk 2 ?l root va = (case f [?i] of None \<Rightarrow> None | Some q \<Rightarrow> sv39_walk 1 ?l q va)"
    by (rule table_step [OF assms(1,2) root, of 2 1 va, unfolded ix append_Nil]) simp_all
  show ?thesis
  proof (cases "f [?i]")
    case None
    have "f ([?i] @ [?j]) = None" using assms(2) None unfolding tables_ok_def by metis
    then have "page_entry ops f s v = 0" by (simp add: page_entry_def leaf_def)
    moreover have "sv39_walk 2 ?l root va = None" using two None by (simp only: option.case)
    ultimately show ?thesis by (simp add: pte_fault_def del: sv39_walk.simps)
  next
    case (Some q)
    have one: "sv39_walk 1 ?l q va = (case f [?i, ?j] of None \<Rightarrow> None | Some t \<Rightarrow> sv39_walk 0 ?l t va)"
      by (rule table_step [OF assms(1,2) Some, of 1 0 va, unfolded ix append_Cons append_Nil]) simp_all
    have run: "sv39_walk 2 ?l root va = (case f [?i, ?j] of None \<Rightarrow> None | Some t \<Rightarrow> sv39_walk 0 ?l t va)"
      using two Some one by (simp only: option.case)
    show ?thesis
      unfolding run by (cases "f [?i, ?j]") (simp_all add: page_entry_def leaf_def pte_fault_def Let_def entry_addr_slot ix(3))
  qed
qed

lemma space_translate:
  assumes "space_in P root m s" and "space_ok m" and "unat va < 2 ^ 39"
  shows "map_option (\<lambda>(pa, e). (pa, pte_flags e)) (translate (\<lambda>w. po_load ops w s) root va) = space_lookup m va"
proof -
  let ?v = "unat va div 4096"
  from assms(1) obtain f where f: "inv P s" "tables_ok ops P root f s" "\<forall>v < 2 ^ 27. page_entry ops f s v = space_entry m v"
    by (auto simp: space_in_def)
  have v: "?v < 2 ^ 27" using assms(3) by (simp add: less_mult_imp_div_less)
  note w = walk_entry [OF f(1,2) refl v]
  have e: "page_entry ops f s ?v = space_entry m ?v" using f(3) v by blast
  show ?thesis
  proof (cases "m ?v")
    case None
    then have "pte_fault (space_entry m ?v)" by (simp add: space_entry_def pte_fault_def)
    with None w e show ?thesis by (simp add: translate_def space_lookup_def)
  next
    case (Some x)
    obtain pa perm where x: "x = (pa, perm)" by (cases x)
    have ok: "leaf_perm perm" "unat pa mod 4096 = 0" using assms(2) Some x unfolding space_ok_def by blast+
    note l = leaf_entry [OF ok]
    have "push_bit 12 (drop_bit 10 (pte_new pa (PTE_V OR perm))) = pa" using l(3) by (simp add: pte_pa_def PG_SHIFT_def)
    moreover have "pa OR take_bit 12 va = pa + va mod 4096" by (rule page_or [OF ok(2)])
    ultimately show ?thesis using Some x w e l by (simp add: translate_def space_lookup_def space_entry_def)
  qed
qed

end

end
