(* ===== verification/Slab_Rep.thy ===== *)
theory Slab_Rep
  imports Slab
begin

text \<open>
  Correctness of the slab allocator (\<open>slab_allocator.rs\<close>): what the words of a slab mean, and
  what every operation of a cache does to them. The slabs of a cache are a list of page
  numbers with the free objects of each slab; objects that are not free are live.
\<close>

section \<open>Words of the slabs\<close>

text \<open>
  The objects of a slab: behind the header, rounded up to the object size, as many as two
  pages hold.
\<close>

definition slab_off :: "nat \<Rightarrow> nat" where
  "slab_off sz = (40 + sz - 1) div sz * sz"

definition slab_cap :: "nat \<Rightarrow> nat" where
  "slab_cap sz = (8192 - slab_off sz) div sz"

definition slab_objs :: "nat \<Rightarrow> u64 \<Rightarrow> u64 list" where
  "slab_objs sz slab = map (\<lambda>i. slab + of_nat (slab_off sz + i * sz)) [0..<slab_cap sz]"

text \<open>The sizes of the caches.\<close>

definition size_ok :: "nat \<Rightarrow> bool" where
  "size_ok sz \<longleftrightarrow> sz \<in> {8, 16, 32, 64, 128, 256, 512, 1024, 2048, 4096}"

lemma size_okE:
  assumes "size_ok sz"
  obtains "sz = 8" | "sz = 16" | "sz = 32" | "sz = 64" | "sz = 128" | "sz = 256" | "sz = 512" | "sz = 1024" | "sz = 2048" | "sz = 4096"
  using assms by (auto simp: size_ok_def)

lemma size_ok_facts:
  assumes "size_ok sz"
  shows "8 \<le> sz" and "sz \<le> 4096" and "40 \<le> slab_off sz" and "slab_off sz \<le> 4096" and "sz dvd slab_off sz"
    and "0 < slab_cap sz" and "slab_off sz + slab_cap sz * sz \<le> 8192" and "\<exists>j \<le> 12. sz = 2 ^ j"
proof -
  show "8 \<le> sz" "sz \<le> 4096" "40 \<le> slab_off sz" "slab_off sz \<le> 4096" "0 < slab_cap sz" "slab_off sz + slab_cap sz * sz \<le> 8192"
    using assms by (auto elim!: size_okE simp: slab_off_def slab_cap_def)
  show "sz dvd slab_off sz" by (simp add: slab_off_def)
  have "sz = 2 ^ 3 \<or> sz = 2 ^ 4 \<or> sz = 2 ^ 5 \<or> sz = 2 ^ 6 \<or> sz = 2 ^ 7 \<or> sz = 2 ^ 8 \<or> sz = 2 ^ 9 \<or> sz = 2 ^ 10 \<or> sz = 2 ^ 11 \<or> sz = 2 ^ 12"
    using assms by (simp add: size_ok_def)
  then show "\<exists>j \<le> 12. sz = 2 ^ j"
    by (elim disjE) (simp_all, (rule exI [of _ 3] exI [of _ 4] exI [of _ 5] exI [of _ 6] exI [of _ 7] exI [of _ 8] exI [of _ 9]
        exI [of _ 10] exI [of _ 11] exI [of _ 12], simp)+)
qed

text \<open>A slab with the free objects \<open>fl\<close>.\<close>

definition slab_rep :: "memory \<Rightarrow> nat \<Rightarrow> u64 \<Rightarrow> u64 list \<Rightarrow> bool" where
  "slab_rep mem sz slab fl \<longleftrightarrow>
     mem (hdr_object_start slab) = slab + of_nat (slab_off sz) \<and>
     mem (hdr_object_end slab) = slab + of_nat (slab_off sz + slab_cap sz * sz) \<and>
     mem (hdr_active_objects slab) = of_nat (slab_cap sz - length fl) \<and>
     chain mem (mem (hdr_free_list slab)) fl \<and> distinct fl \<and> set fl \<subseteq> set (slab_objs sz slab)"

text \<open>A slab at an address where its two pages do not wrap.\<close>

definition slab_fits :: "u64 \<Rightarrow> bool" where
  "slab_fits slab \<longleftrightarrow> 0 < unat slab \<and> unat slab mod 4096 = 0 \<and> unat slab + 8192 < 2 ^ 64"

definition in_slab :: "u64 \<Rightarrow> u64 \<Rightarrow> bool" where
  "in_slab slab w \<longleftrightarrow> unat slab \<le> unat w \<and> unat w < unat slab + 8192"

lemma unat_slab_word [simp]:
  "slab_fits slab \<Longrightarrow> off \<le> 8192 \<Longrightarrow> unat (slab + of_nat off) = unat slab + off"
  by (subst unat_add_u64) (simp_all add: slab_fits_def unat_of_nat_u64)

lemma unat_hdr [simp]:
  assumes "slab_fits slab"
  shows "unat (slab + 8) = unat slab + 8" "unat (slab + 16) = unat slab + 16" "unat (slab + 24) = unat slab + 24"
    "unat (slab + 32) = unat slab + 32"
  using unat_slab_word [OF assms, of 8] unat_slab_word [OF assms, of 16] unat_slab_word [OF assms, of 24]
    unat_slab_word [OF assms, of 32] by simp_all

lemma slab_obj:
  assumes "size_ok sz" and "slab_fits slab" and "x \<in> set (slab_objs sz slab)"
  obtains i where "i < slab_cap sz" and "x = slab + of_nat (slab_off sz + i * sz)"
    and "unat x = unat slab + (slab_off sz + i * sz)" and "slab_off sz + Suc i * sz \<le> 8192"
proof -
  obtain i where i: "i < slab_cap sz" "x = slab + of_nat (slab_off sz + i * sz)" using assms(3) by (auto simp: slab_objs_def)
  have "Suc i * sz \<le> slab_cap sz * sz" using i(1) by (intro mult_le_mono1) simp
  then have le: "slab_off sz + Suc i * sz \<le> 8192" using size_ok_facts(7) [OF assms(1)] by linarith
  then have "unat x = unat slab + (slab_off sz + i * sz)" unfolding i(2) using assms(2) by (intro unat_slab_word) simp_all
  with i le that show ?thesis by blast
qed

lemma slab_obj_in:
  assumes "size_ok sz" and "slab_fits slab" and "x \<in> set (slab_objs sz slab)"
  shows "unat slab + 40 \<le> unat x" and "unat x + sz \<le> unat slab + 8192" and "unat x mod sz = 0" and "x \<noteq> 0" and "in_slab slab x"
proof -
  note sz = size_ok_facts [OF assms(1)]
  from slab_obj [OF assms] obtain i where i: "unat x = unat slab + (slab_off sz + i * sz)" "slab_off sz + Suc i * sz \<le> 8192" .
  show "unat slab + 40 \<le> unat x" using i(1) sz(3) by linarith
  then show "x \<noteq> 0" by auto
  show b: "unat x + sz \<le> unat slab + 8192" using i by simp
  with \<open>unat slab + 40 \<le> unat x\<close> sz(1) show "in_slab slab x" by (simp add: in_slab_def)
  obtain j where "j \<le> 12" "sz = 2 ^ j" using sz(8) by blast
  then have "sz dvd 4096" using le_imp_power_dvd [of j 12 "2 :: nat"] by simp
  moreover have "4096 dvd unat slab" using assms(2) by (auto simp: slab_fits_def)
  ultimately have "sz dvd unat slab" by (rule dvd_trans)
  with i(1) sz(5) show "unat x mod sz = 0" by (simp add: mod_eq_0_iff_dvd)
qed

lemma distinct_slab_objs:
  assumes "size_ok sz" and "slab_fits slab"
  shows "distinct (slab_objs sz slab)"
proof -
  have "inj_on (\<lambda>i. slab + of_nat (slab_off sz + i * sz)) (set [0..<slab_cap sz])"
  proof (rule inj_onI)
    fix i j assume ij: "i \<in> set [0..<slab_cap sz]" "j \<in> set [0..<slab_cap sz]"
      and eq: "slab + of_nat (slab_off sz + i * sz) = slab + of_nat (slab_off sz + j * sz)"
    have "slab_off sz + k * sz \<le> 8192" if "k < slab_cap sz" for k
    proof -
      have "k * sz \<le> slab_cap sz * sz" using that by (intro mult_le_mono1) simp
      with size_ok_facts(7) [OF assms(1)] show ?thesis by linarith
    qed
    with ij arg_cong [OF eq, of unat] assms(2) have "slab_off sz + i * sz = slab_off sz + j * sz"
      by (simp del: of_nat_add of_nat_mult)
    then show "i = j" using size_ok_facts(1) [OF assms(1)] by simp
  qed
  then show ?thesis by (simp add: slab_objs_def distinct_map)
qed

lemma chain_cong: "(\<And>x. x \<in> set xs \<Longrightarrow> mem' x = mem x) \<Longrightarrow> chain mem' p xs = chain mem p xs"
  by (induction xs arbitrary: p) auto

text \<open>A slab's words are its own.\<close>

lemma slab_rep_cong:
  assumes "size_ok sz" and "slab_fits slab" and "\<And>w. in_slab slab w \<Longrightarrow> mem' w = mem w" and "slab_rep mem sz slab fl"
  shows "slab_rep mem' sz slab fl"
proof -
  have h: "mem' slab = mem slab" "mem' (slab + 8) = mem (slab + 8)" "mem' (slab + 16) = mem (slab + 16)"
    "mem' (slab + 24) = mem (slab + 24)" using assms(2) by (auto intro!: assms(3) simp: in_slab_def)
  have "chain mem' (mem slab) fl = chain mem (mem slab) fl"
    by (rule chain_cong) (use assms(4) slab_obj_in(5) [OF assms(1,2)] in \<open>auto intro!: assms(3) simp: slab_rep_def\<close>)
  with assms(4) show ?thesis by (simp add: slab_rep_def h)
qed

section \<open>One slab\<close>

lemma init_objects_chain:
  assumes "distinct (map (\<lambda>i. object_start + of_nat i * object_size) [0..<m])"
    and "\<And>i. i < m \<Longrightarrow> object_start + of_nat i * object_size \<noteq> 0"
  shows "case init_objects m object_start object_size mem of (head, mem') \<Rightarrow>
    chain mem' head (rev (map (\<lambda>i. object_start + of_nat i * object_size) [0..<m])) \<and>
    (\<forall>w. w \<notin> set (map (\<lambda>i. object_start + of_nat i * object_size) [0..<m]) \<longrightarrow> mem' w = mem w)"
  using assms
proof (induction m)
  case (Suc m)
  let ?obj = "\<lambda>i. object_start + of_nat i * object_size"
  obtain head mem' where r: "init_objects m object_start object_size mem = (head, mem')" by (metis prod.exhaust)
  have "distinct (map ?obj [0..<m])" "?obj m \<notin> set (map ?obj [0..<m])" using Suc.prems(1) by auto
  moreover from this Suc.IH Suc.prems(2) r have "chain mem' head (rev (map ?obj [0..<m]))"
    "\<forall>w. w \<notin> set (map ?obj [0..<m]) \<longrightarrow> mem' w = mem w" by auto
  ultimately show ?case using Suc.prems(2) [of m]
    by (simp add: r Let_def chain_upd del: fun_upd_apply add: fun_upd_same fun_upd_other)
qed simp

lemma slab_header_init_rep:
  assumes "size_ok sz" and "slab_fits slab"
  shows "slab_rep (slab_header_init slab (slab + of_nat (slab_off sz)) (of_nat sz) (of_nat (slab_cap sz)) mem) sz slab
      (rev (slab_objs sz slab))"
    and "\<not> in_slab slab w \<Longrightarrow>
      slab_header_init slab (slab + of_nat (slab_off sz)) (of_nat sz) (of_nat (slab_cap sz)) mem w = mem w"
proof -
  note sz = size_ok_facts [OF assms(1)]
  let ?os = "slab + of_nat (slab_off sz) :: u64"
  have objs: "map (\<lambda>i. ?os + of_nat i * of_nat sz) [0..<slab_cap sz] = slab_objs sz slab"
    by (simp add: slab_objs_def algebra_simps)
  have "slab_cap sz \<le> 8192" by (simp add: slab_cap_def div_le_dividend le_trans [OF div_le_dividend])
  then have cap: "unat (of_nat (slab_cap sz) :: u64) = slab_cap sz" by (simp add: unat_of_nat_u64)
  obtain head mem' where r: "init_objects (slab_cap sz) ?os (of_nat sz) mem = (head, mem')" by (metis prod.exhaust)
  have "?os + of_nat i * of_nat sz \<noteq> 0" if "i < slab_cap sz" for i
  proof -
    have "?os + of_nat i * of_nat sz \<in> set (slab_objs sz slab)" unfolding objs [symmetric] using that by simp
    then show ?thesis by (rule slab_obj_in(4) [OF assms])
  qed
  with init_objects_chain [of ?os "of_nat sz" "slab_cap sz" mem] distinct_slab_objs [OF assms]
  have ch: "chain mem' head (rev (slab_objs sz slab))" and keep: "\<And>w. w \<notin> set (slab_objs sz slab) \<Longrightarrow> mem' w = mem w"
    unfolding objs r by auto
  have hdr: "x \<noteq> slab" "x \<noteq> slab + 8" "x \<noteq> slab + 16" "x \<noteq> slab + 24" "x \<noteq> slab + 32" if "x \<in> set (slab_objs sz slab)" for x
    using slab_obj_in(1) [OF assms that] assms(2) by auto
  have apart: "slab + 8 \<noteq> slab" "slab + 16 \<noteq> slab" "slab + 24 \<noteq> slab" "slab + 32 \<noteq> slab" "slab + 16 \<noteq> slab + 8"
    "slab + 24 \<noteq> slab + 8" "slab + 24 \<noteq> slab + 16" "slab + 32 \<noteq> slab + 8" "slab + 32 \<noteq> slab + 16" "slab + 32 \<noteq> slab + 24"
    by simp_all
  have eq: "slab_header_init slab ?os (of_nat sz) (of_nat (slab_cap sz)) mem =
      mem'(slab := head, slab + 32 := 0, slab + 24 := 0, slab + 8 := ?os, slab + 16 := ?os + of_nat sz * of_nat (slab_cap sz))"
    by (simp add: slab_header_init_def cap r)
  have "chain (slab_header_init slab ?os (of_nat sz) (of_nat (slab_cap sz)) mem) head (rev (slab_objs sz slab)) =
      chain mem' head (rev (slab_objs sz slab))"
    by (rule chain_cong) (use hdr in \<open>auto simp: eq\<close>)
  then show "slab_rep (slab_header_init slab ?os (of_nat sz) (of_nat (slab_cap sz)) mem) sz slab (rev (slab_objs sz slab))"
    using ch distinct_slab_objs [OF assms] apart by (simp add: slab_rep_def eq slab_objs_def algebra_simps)
  assume "\<not> in_slab slab w"
  then have "w \<notin> set (slab_objs sz slab)" "w \<notin> {slab, slab + 8, slab + 16, slab + 24, slab + 32}"
    using slab_obj_in(5) [OF assms] assms(2) by (auto simp: in_slab_def)
  with keep show "slab_header_init slab ?os (of_nat sz) (of_nat (slab_cap sz)) mem w = mem w" by (simp add: eq)
qed

lemma slab_rep_length:
  assumes "size_ok sz" and "slab_fits slab" and "slab_rep mem sz slab fl"
  shows "length fl \<le> slab_cap sz"
proof -
  have "length fl = card (set fl)" using assms(3) by (simp add: slab_rep_def distinct_card)
  also have "\<dots> \<le> card (set (slab_objs sz slab))" using assms(3) by (intro card_mono) (simp_all add: slab_rep_def)
  also have "\<dots> = slab_cap sz" using distinct_card [OF distinct_slab_objs [OF assms(1,2)]] by (simp add: slab_objs_def)
  finally show ?thesis .
qed

lemma slab_header_alloc_rep:
  assumes "size_ok sz" and "slab_fits slab" and "slab_rep mem sz slab (x # xs)"
  shows "\<exists>mem'. slab_header_alloc slab mem = (Some x, mem') \<and> slab_rep mem' sz slab xs \<and>
    (\<forall>w. w \<noteq> slab \<and> w \<noteq> slab + 24 \<longrightarrow> mem' w = mem w)"
proof -
  let ?mem = "mem(slab := mem x, slab + 24 := mem (slab + 24) + 1)"
  have x: "mem slab = x" "x \<noteq> 0" using assms(3) by (simp_all add: slab_rep_def)
  have "Suc (length xs) \<le> slab_cap sz" using slab_rep_length [OF assms] by simp
  then have act: "of_nat (slab_cap sz - Suc (length xs)) + 1 = (of_nat (slab_cap sz - length xs) :: u64)"
    by (metis Suc_diff_Suc Suc_le_lessD add.commute of_nat_Suc)
  have "chain ?mem (mem x) xs = chain mem (mem x) xs"
  proof (rule chain_cong)
    fix y assume "y \<in> set xs"
    then have "y \<in> set (slab_objs sz slab)" using assms(3) by (auto simp: slab_rep_def)
    from slab_obj_in(1) [OF assms(1,2) this] assms(2) show "?mem y = mem y" by auto
  qed
  with assms(3) have "slab_rep ?mem sz slab xs" by (simp add: slab_rep_def act)
  with x show ?thesis by (simp add: slab_header_alloc_def Let_def)
qed

lemma slab_header_free_rep:
  assumes "size_ok sz" and "slab_fits slab" and "slab_rep mem sz slab fl"
    and "x \<in> set (slab_objs sz slab)" and "x \<notin> set fl"
  shows "slab_rep (slab_header_free slab x mem) sz slab (x # fl)"
    and "w \<noteq> x \<Longrightarrow> w \<noteq> slab \<Longrightarrow> w \<noteq> slab + 24 \<Longrightarrow> slab_header_free slab x mem w = mem w"
    and "slab_header_free slab x mem (slab + 24) = of_nat (slab_cap sz - Suc (length fl))" and "length fl < slab_cap sz"
proof -
  have hdr: "x \<noteq> slab" "x \<noteq> slab + 8" "x \<noteq> slab + 16" "x \<noteq> slab + 24"
    using slab_obj_in(1) [OF assms(1,2,4)] assms(2) by auto
  have eq: "slab_header_free slab x mem = mem(x := mem slab, slab + 24 := mem (slab + 24) - 1, slab := x)"
    using hdr by (simp add: slab_header_free_def Let_def)
  have "length (x # fl) \<le> card (set (slab_objs sz slab))"
    using assms(3-5) card_mono [of "set (slab_objs sz slab)" "set (x # fl)"] by (simp add: slab_rep_def distinct_card)
  also have "\<dots> = slab_cap sz" using distinct_card [OF distinct_slab_objs [OF assms(1,2)]] by (simp add: slab_objs_def)
  finally show len: "length fl < slab_cap sz" by simp
  then have act: "of_nat (slab_cap sz - length fl) - 1 = (of_nat (slab_cap sz - Suc (length fl)) :: u64)"
    by (metis Suc_diff_Suc add_diff_cancel_left' of_nat_Suc)
  have "chain (slab_header_free slab x mem) (mem slab) fl = chain mem (mem slab) fl"
  proof (rule chain_cong)
    fix y assume y: "y \<in> set fl"
    then have "y \<in> set (slab_objs sz slab)" using assms(3) by (auto simp: slab_rep_def)
    from slab_obj_in(1) [OF assms(1,2) this] assms(2,5) y show "slab_header_free slab x mem y = mem y" by (auto simp: eq)
  qed
  with assms(3-5) hdr slab_obj_in(4) [OF assms(1,2,4)] show "slab_rep (slab_header_free slab x mem) sz slab (x # fl)"
    by (auto simp: slab_rep_def eq act)
  show "slab_header_free slab x mem (slab + 24) = of_nat (slab_cap sz - Suc (length fl))"
    using assms(3) hdr by (simp add: eq slab_rep_def act)
  show "w \<noteq> x \<Longrightarrow> w \<noteq> slab \<Longrightarrow> w \<noteq> slab + 24 \<Longrightarrow> slab_header_free slab x mem w = mem w" by (simp add: eq)
qed

lemma slab_header_contains_eq:
  assumes "size_ok sz" and "slab_fits slab" and "slab_rep mem sz slab fl"
  shows "x \<in> set (slab_objs sz slab) \<Longrightarrow> slab_header_contains slab x mem"
    and "slab_header_contains slab x mem \<Longrightarrow> in_slab slab x"
proof -
  note sz = size_ok_facts [OF assms(1)]
  have c: "slab_header_contains slab x mem \<longleftrightarrow>
      unat slab + slab_off sz \<le> unat x \<and> unat x < unat slab + (slab_off sz + slab_cap sz * sz)"
    using assms(3) unat_slab_word [OF assms(2), of "slab_off sz"] unat_slab_word [OF assms(2), of "slab_off sz + slab_cap sz * sz"]
      sz(4,7) by (simp add: slab_header_contains_def slab_rep_def word_le_nat_alt word_less_nat_alt)
  show "slab_header_contains slab x mem \<Longrightarrow> in_slab slab x" using sz(7) by (simp add: c in_slab_def)
  assume "x \<in> set (slab_objs sz slab)"
  from slab_obj [OF assms(1,2) this] obtain i where i: "i < slab_cap sz" "unat x = unat slab + (slab_off sz + i * sz)" .
  have "i * sz < slab_cap sz * sz" using i(1) sz(1) by simp
  with i(2) show "slab_header_contains slab x mem" by (simp add: c)
qed

section \<open>The slabs of a cache\<close>

text \<open>
  Pages are numbered from the start \<open>base\<close> of the region; a slab has two of them. The slabs
  of a cache are linked through the last word of their headers.
\<close>

definition page_no :: "nat \<Rightarrow> u64 \<Rightarrow> nat" where
  "page_no base w = (unat w - base) div 4096"

definition slab_ok :: "nat \<Rightarrow> u64 \<Rightarrow> bool" where
  "slab_ok base slab \<longleftrightarrow> base \<le> unat slab \<and> (unat slab - base) mod 8192 = 0"

definition slab_pages :: "nat \<Rightarrow> (u64 \<times> u64 list) list \<Rightarrow> nat multiset" where
  "slab_pages base sls = sum_list (map (\<lambda>(slab, fl). pages_at 1 (page_no base slab)) sls)"

definition cache_rep :: "nat \<Rightarrow> nat \<Rightarrow> mem_cache \<Rightarrow> (u64 \<times> u64 list) list \<Rightarrow> memory \<Rightarrow> bool" where
  "cache_rep base sz mc sls mem \<longleftrightarrow>
     mc_object_size mc = of_nat sz \<and> mc_align mc = of_nat sz \<and> chain (\<lambda>x. mem (hdr_next x)) (mc_slabs mc) (map fst sls) \<and>
     (\<forall>(slab, fl) \<in> set sls. slab_ok base slab \<and> slab_rep mem sz slab fl)"

definition live :: "nat \<Rightarrow> (u64 \<times> u64 list) list \<Rightarrow> u64 set" where
  "live sz sls = (\<Union>(slab, fl) \<in> set sls. set (slab_objs sz slab) - set fl)"

text \<open>The words of free pages, and the region.\<close>

definition in_pages :: "nat \<Rightarrow> nat multiset \<Rightarrow> u64 \<Rightarrow> bool" where
  "in_pages base F w \<longleftrightarrow> base \<le> unat w \<and> page_no base w \<in># F"

definition region :: "nat \<Rightarrow> nat \<Rightarrow> bool" where
  "region base n \<longleftrightarrow> 0 < base \<and> base mod 4096 = 0 \<and> base + n * 4096 < 2 ^ 63"

lemma buddy_inv_region: "buddy_inv base n F st \<Longrightarrow> region base n"
  by (auto simp: buddy_inv_def buddy_rep_def region_ok_def region_def)

lemma slab_pages_simps [simp]:
  "slab_pages base [] = {#}" "slab_pages base ((slab, fl) # sls) = pages_at 1 (page_no base slab) + slab_pages base sls"
  by (simp_all add: slab_pages_def)

lemma slab_pages_append [simp]: "slab_pages base (us @ vs) = slab_pages base us + slab_pages base vs"
  by (simp add: slab_pages_def)

lemma in_slab_pages: "(slab, fl) \<in> set sls \<Longrightarrow> pages_at 1 (page_no base slab) \<subseteq># slab_pages base sls"
  by (induction sls) (auto intro: subset_mset.order_trans)

lemma slab_pages_iff: "p \<in># slab_pages base sls \<longleftrightarrow> (\<exists>(slab, fl) \<in> set sls. p \<in># pages_at 1 (page_no base slab))"
  by (induction sls) auto

lemma in_pages_mono: "F \<subseteq># G \<Longrightarrow> in_pages base F w \<Longrightarrow> in_pages base G w"
  by (auto simp: in_pages_def dest: mset_subset_eqD)

lemma in_pages_union [simp]: "in_pages base (F + G) w \<longleftrightarrow> in_pages base F w \<or> in_pages base G w"
  by (auto simp: in_pages_def)

lemma slab_okE:
  assumes "slab_ok base slab"
  obtains k where "unat slab = base + k * 8192" and "page_no base slab = k * 2"
proof -
  have "base \<le> unat slab" "8192 dvd unat slab - base" using assms by (auto simp: slab_ok_def)
  then obtain k where "unat slab - base = 8192 * k" by blast
  with \<open>base \<le> unat slab\<close> have "unat slab = base + k * 8192" by simp
  with that [of k] show ?thesis by (simp add: page_no_def)
qed

lemma in_slab_iff:
  assumes "slab_ok base slab"
  shows "in_slab slab w \<longleftrightarrow> in_pages base (pages_at 1 (page_no base slab)) w"
proof -
  from slab_okE [OF assms] obtain k where k: "unat slab = base + k * 8192" and "page_no base slab = k * 2" .
  moreover have "base \<le> unat w \<Longrightarrow> (k * 2 \<le> page_no base w \<and> page_no base w < k * 2 + 2) \<longleftrightarrow> (unat slab \<le> unat w \<and> unat w < unat slab + 8192)"
    unfolding k page_no_def by linarith
  ultimately show ?thesis using k by (auto simp: in_slab_def in_pages_def in_pages_at)
qed

lemma slab_fits_in_region:
  assumes "region base n" and "slab_ok base slab" and "pages_at 1 (page_no base slab) + M \<subseteq># mset [0..<n]"
  shows "slab_fits slab"
proof -
  from slab_okE [OF assms(2)] obtain k where k: "unat slab = base + k * 8192" and "page_no base slab = k * 2" .
  with block_bound [OF assms(3)] have "k * 2 + 2 \<le> n" by simp
  moreover have "base mod 4096 = 0" "0 < base" "base + n * 4096 < 2 ^ 63" using assms(1) by (simp_all add: region_def)
  moreover have "unat slab mod 4096 = base mod 4096" unfolding k by (simp add: mod_add_eq [symmetric])
  ultimately show ?thesis by (auto simp: slab_fits_def k)
qed

lemma pages_apart:
  assumes "F + G \<subseteq># mset [0..<n]" and "in_pages base F w"
  shows "\<not> in_pages base G w"
proof
  assume "in_pages base G w"
  with assms(2) have "0 < count F (page_no base w)" "0 < count G (page_no base w)" by (auto simp: in_pages_def)
  moreover have "count (F + G) (page_no base w) \<le> count (mset [0..<n]) (page_no base w)" using assms(1) by (rule mset_subset_eq_count)
  moreover have "count (mset [0..<n]) (page_no base w) \<le> 1" using count_upt [of n "page_no base w"] by simp
  ultimately show False unfolding count_union by linarith
qed

lemma cache_rep_cong:
  assumes "region base n" and "size_ok sz" and "slab_pages base sls + M \<subseteq># mset [0..<n]"
    and "\<And>w. in_pages base (slab_pages base sls) w \<Longrightarrow> mem' w = mem w" and "cache_rep base sz mc sls mem"
  shows "cache_rep base sz mc sls mem'"
proof -
  have fits: "slab_fits slab" and same: "\<And>w. in_slab slab w \<Longrightarrow> mem' w = mem w" if "(slab, fl) \<in> set sls" for slab fl
  proof -
    have ok: "slab_ok base slab" using assms(5) that by (auto simp: cache_rep_def)
    have sub: "pages_at 1 (page_no base slab) \<subseteq># slab_pages base sls" by (rule in_slab_pages [OF that])
    then have "pages_at 1 (page_no base slab) + {#} \<subseteq># mset [0..<n]" using assms(3)
      by (metis add.right_neutral mset_subset_eq_add_left subset_mset.order_trans)
    then show "slab_fits slab" by (rule slab_fits_in_region [OF assms(1) ok])
    show "mem' w = mem w" if "in_slab slab w" for w
      using that in_pages_mono [OF sub] by (intro assms(4)) (simp add: in_slab_iff [OF ok])
  qed
  have "chain (\<lambda>x. mem' (x + 32)) (mc_slabs mc) (map fst sls) = chain (\<lambda>x. mem (x + 32)) (mc_slabs mc) (map fst sls)"
    by (rule chain_cong) (use fits same in \<open>fastforce simp: in_slab_def\<close>)
  moreover have "slab_rep mem' sz slab fl" if "(slab, fl) \<in> set sls" for slab fl
    using slab_rep_cong [OF assms(2) fits [OF that] same [OF that]] assms(5) that by (auto simp: cache_rep_def)
  ultimately show ?thesis using assms(5) by (auto simp: cache_rep_def)
qed

lemma slab_pages_split:
  "slab_pages base (us @ (slab, fl) # vs) + M = pages_at 1 (page_no base slab) + (slab_pages base (us @ vs) + M)"
  by (simp add: ac_simps)

text \<open>A change of one slab.\<close>

lemma cache_slab:
  assumes "region base n" and "slab_pages base (us @ (slab, fl) # vs) + M \<subseteq># mset [0..<n]"
    and "cache_rep base sz mc (us @ (slab, fl) # vs) mem"
  shows "slab_ok base slab" and "slab_fits slab" and "slab_rep mem sz slab fl"
    and "in_slab slab w \<Longrightarrow> \<not> in_pages base (slab_pages base (us @ vs) + M) w"
proof -
  show ok: "slab_ok base slab" and "slab_rep mem sz slab fl" using assms(3) by (auto simp: cache_rep_def)
  have sub: "pages_at 1 (page_no base slab) + (slab_pages base (us @ vs) + M) \<subseteq># mset [0..<n]"
    using assms(2) unfolding slab_pages_split .
  then show "slab_fits slab" by (rule slab_fits_in_region [OF assms(1) ok])
  show "in_slab slab w \<Longrightarrow> \<not> in_pages base (slab_pages base (us @ vs) + M) w"
    using pages_apart [OF sub] by (simp add: in_slab_iff [OF ok])
qed

lemma cache_rep_update:
  assumes "region base n" and "size_ok sz" and "slab_pages base (us @ (slab, fl) # vs) + M \<subseteq># mset [0..<n]"
    and "cache_rep base sz mc (us @ (slab, fl) # vs) mem" and "slab_rep mem' sz slab fl'"
    and "mem' (slab + 32) = mem (slab + 32)" and "\<And>w. \<not> in_slab slab w \<Longrightarrow> mem' w = mem w"
  shows "cache_rep base sz mc (us @ (slab, fl') # vs) mem'"
proof -
  note slab = cache_slab [OF assms(1,3,4)]
  have other: "slab_fits slab' \<and> slab_ok base slab' \<and> slab_rep mem sz slab' fl'' \<and> (\<forall>w. in_slab slab' w \<longrightarrow> mem' w = mem w)"
    if "(slab', fl'') \<in> set (us @ vs)" for slab' fl''
  proof -
    have ok: "slab_ok base slab'" "slab_rep mem sz slab' fl''" using assms(4) that by (auto simp: cache_rep_def)
    have sub: "pages_at 1 (page_no base slab') \<subseteq># slab_pages base (us @ vs)" by (rule in_slab_pages [OF that])
    have "slab_pages base (us @ vs) \<subseteq># slab_pages base (us @ (slab, fl) # vs) + M"
      unfolding slab_pages_split by (metis add.left_commute mset_subset_eq_add_left)
    from subset_mset.order_trans [OF subset_mset.order_trans [OF sub this] assms(3)]
    have "pages_at 1 (page_no base slab') + {#} \<subseteq># mset [0..<n]" unfolding add_0_right .
    then have "slab_fits slab'" by (rule slab_fits_in_region [OF assms(1) ok(1)])
    moreover have "mem' w = mem w" if "in_slab slab' w" for w
    proof (rule assms(7))
      show "\<not> in_slab slab w"
        using slab(4) [of w] in_pages_mono [OF sub, of base w] that by (auto simp: in_slab_iff [OF ok(1)])
    qed
    ultimately show ?thesis using ok by simp
  qed
  have "chain (\<lambda>x. mem' (x + 32)) (mc_slabs mc) (map fst (us @ (slab, fl) # vs)) =
      chain (\<lambda>x. mem (x + 32)) (mc_slabs mc) (map fst (us @ (slab, fl) # vs))"
  proof (rule chain_cong)
    fix x assume "x \<in> set (map fst (us @ (slab, fl) # vs))"
    then consider "x = slab" | fl'' where "(x, fl'') \<in> set (us @ vs)" by fastforce
    then show "mem' (x + 32) = mem (x + 32)"
    proof cases
      case 2
      with other [of x] show ?thesis by (auto simp: in_slab_def)
    qed (simp add: assms(6))
  qed
  moreover have "slab_rep mem' sz slab' fl''" if "(slab', fl'') \<in> set (us @ vs)" for slab' fl''
    using other [OF that] slab_rep_cong [OF assms(2), of slab' mem' mem fl''] by blast
  moreover have "mc_object_size mc = of_nat sz" "mc_align mc = of_nat sz"
    "chain (\<lambda>x. mem (x + 32)) (mc_slabs mc) (map fst (us @ (slab, fl) # vs))" using assms(4) by (simp_all add: cache_rep_def)
  ultimately show ?thesis using assms(5) slab(1) other unfolding cache_rep_def by auto
qed

lemma live_split: "live sz (us @ (slab, fl) # vs) = live sz (us @ vs) \<union> (set (slab_objs sz slab) - set fl)"
  by (auto simp: live_def)

lemma live_in_pages:
  assumes "region base n" and "size_ok sz" and "slab_pages base sls + M \<subseteq># mset [0..<n]" and "cache_rep base sz mc sls mem"
    and "x \<in> live sz sls"
  shows "in_pages base (slab_pages base sls) x"
proof -
  from assms(5) obtain slab fl where sl: "(slab, fl) \<in> set sls" "x \<in> set (slab_objs sz slab)" by (auto simp: live_def)
  from split_list [OF sl(1)] obtain us vs where sls: "sls = us @ (slab, fl) # vs" by blast
  note slab = cache_slab [OF assms(1) assms(3,4) [unfolded sls]]
  have "in_slab slab x" by (rule slab_obj_in(5) [OF assms(2) slab(2) sl(2)])
  with in_pages_mono [OF in_slab_pages [OF sl(1)]] show ?thesis by (simp add: in_slab_iff [OF slab(1)])
qed

lemma live_other:
  assumes "region base n" and "size_ok sz" and "slab_pages base (us @ (slab, fl) # vs) + M \<subseteq># mset [0..<n]"
    and "cache_rep base sz mc (us @ (slab, fl) # vs) mem" and "x \<in> set (slab_objs sz slab)"
  shows "x \<notin> live sz (us @ vs)"
proof
  assume "x \<in> live sz (us @ vs)"
  then obtain slab' fl' where sl: "(slab', fl') \<in> set (us @ vs)" "x \<in> set (slab_objs sz slab')" by (auto simp: live_def)
  note slab = cache_slab [OF assms(1,3,4)]
  have "(slab', fl') \<in> set (us @ (slab, fl) # vs)" using sl(1) by auto
  from split_list [OF this] obtain us' vs' where sls: "us @ (slab, fl) # vs = us' @ (slab', fl') # vs'" by blast
  note slab' = cache_slab [OF assms(1) assms(3,4) [unfolded sls]]
  have "in_slab slab' x" by (rule slab_obj_in(5) [OF assms(2) slab'(2) sl(2)])
  then have "in_pages base (slab_pages base (us @ vs)) x"
    using in_pages_mono [OF in_slab_pages [OF sl(1)]] by (simp add: in_slab_iff [OF slab'(1)])
  moreover have "in_slab slab x" by (rule slab_obj_in(5) [OF assms(2) slab(2) assms(5)])
  ultimately show False using slab(4) [of x] by simp
qed

section \<open>Allocating from a cache\<close>

lemma buddy_inv_cong:
  assumes "buddy_inv base n F (ba, mem)" and "\<And>w. in_pages base F w \<Longrightarrow> mem' w = mem w"
  shows "buddy_inv base n F (ba, mem')" and "pairs (ba, mem') = pairs (ba, mem)"
proof -
  obtain L where L: "buddy_rep n L (ba, mem)" "pages_of L = F" "unat (ba_start_addr ba) = base"
    using assms(1) by (auto simp: buddy_inv_def)
  have r: "region_ok ba n" and ok: "lists_ok n L" using L(1) by (simp_all add: buddy_rep_def)
  have "mem' (page_addr (ba_start_addr ba) k) = mem (page_addr (ba_start_addr ba) k)" if "ord < MAX_ORDER" "k \<in> set (L ord)" for ord k
  proof (rule assms(2))
    note k = block_below [OF ok that]
    have "unat (page_addr (ba_start_addr ba) k) = base + k * 4096" using unat_page_addr [OF r, of k] k(1) L(3) by simp
    with k(2) show "in_pages base F (page_addr (ba_start_addr ba) k)" by (simp add: in_pages_def page_no_def L(2))
  qed
  then have "chain mem' (free_list ba ord) (map (page_addr (ba_start_addr ba)) (L ord)) =
      chain mem (free_list ba ord) (map (page_addr (ba_start_addr ba)) (L ord))" if "ord < MAX_ORDER" for ord
    using that by (intro chain_cong) auto
  with L have L': "buddy_rep n L (ba, mem')" by (simp add: buddy_rep_def)
  with L show "buddy_inv base n F (ba, mem')" by (auto simp: buddy_inv_def)
  show "pairs (ba, mem') = pairs (ba, mem)" using pairs_size [OF L(1)] pairs_size [OF L'] by simp
qed

lemma slab_search_chain:
  assumes "chain (\<lambda>x. mem (x + 32)) p (map fst sls)" and "\<And>slab fl. (slab, fl) \<in> set sls \<Longrightarrow> chain mem (mem slab) fl"
  shows "slab_search p mem = Some (map_option fst (find (\<lambda>(slab, fl). fl \<noteq> []) sls))"
  using assms
proof (induction sls arbitrary: p)
  case Nil
  then show ?case by (subst slab_search.simps) simp
next
  case (Cons sl sls)
  obtain slab fl where sl: "sl = (slab, fl)" by (cases sl)
  have "chain mem (mem slab) fl" using Cons.prems(2) by (simp add: sl)
  then have "mem slab = 0 \<longleftrightarrow> fl = []" by (cases fl) auto
  with Cons show ?case by (subst slab_search.simps) (auto simp: sl)
qed

lemma order_two [simp]: "order 2 = 1"
proof -
  have u: "unat (2 :: u64) = 2" by simp
  from order_eq(3,4) [of 2] u have "2 \<le> (2 :: nat) ^ order 2" "(2 :: nat) ^ order 2 < 2 ^ 2" by simp_all
  then have "1 \<le> order 2" "order 2 < 2" by (metis not_less_eq_eq One_nat_def power_0 Suc_1 not_less le_zero_eq less_numeral_extra(4) one_le_numeral,
        metis power_less_imp_less_exp one_less_numeral_iff semiring_norm(76))
  then show ?thesis by simp
qed

lemma slab_rep_next:
  assumes "size_ok sz" and "slab_fits slab" and "slab_rep mem sz slab fl"
  shows "slab_rep (mem(slab + 32 := v)) sz slab fl"
proof -
  have "chain (mem(slab + 32 := v)) (mem slab) fl = chain mem (mem slab) fl"
  proof (rule chain_upd)
    show "slab + 32 \<notin> set fl"
      using assms(3) slab_obj_in(1) [OF assms(1,2), of "slab + 32"] assms(2) by (auto simp: slab_rep_def)
  qed
  with assms(3) show ?thesis by (simp add: slab_rep_def)
qed

lemma slab_layout:
  assumes "size_ok sz" and "slab_fits slab"
  shows "pg_round_up (slab + SLAB_HEADER_SIZE) (of_nat sz) = slab + of_nat (slab_off sz)"
    and "slab + of_nat (slab_off sz) < slab + SLAB_PAGES * PAGE_SIZE"
    and "(slab + SLAB_PAGES * PAGE_SIZE - (slab + of_nat (slab_off sz))) div of_nat sz = of_nat (slab_cap sz)"
proof -
  note sz = size_ok_facts [OF assms(1)]
  obtain j where j: "j \<le> 12" "sz = 2 ^ j" using sz(8) by blast
  have dvd: "sz dvd unat slab"
  proof -
    have "sz dvd 4096" using le_imp_power_dvd [OF j(1), of "2 :: nat"] j(2) by simp
    moreover have "4096 dvd unat slab" using assms(2) by (auto simp: slab_fits_def)
    ultimately show ?thesis by (rule dvd_trans)
  qed
  have h: "unat (slab + 40) = unat slab + 40" using unat_slab_word [OF assms(2), of 40] by simp
  have "unat (pg_round_up (slab + 40) (2 ^ j)) = (unat (slab + 40) + 2 ^ j - 1) div 2 ^ j * 2 ^ j"
    by (rule unat_pg_round_up) (use assms(2) sz(2) j h in \<open>auto simp: slab_fits_def\<close>)
  also have "\<dots> = (unat slab + (40 + sz - 1)) div sz * sz" using sz(1) by (simp add: h j(2) [symmetric] ac_simps)
  also have "\<dots> = unat slab + slab_off sz" using dvd sz(1) by (auto simp: slab_off_def div_plus_div_distrib_dvd_left algebra_simps)
  finally show "pg_round_up (slab + SLAB_HEADER_SIZE) (of_nat sz) = slab + of_nat (slab_off sz)"
    using unat_slab_word [OF assms(2), of "slab_off sz"] sz(4) by (simp add: u64_eq_iff_unat SLAB_HEADER_SIZE_def j(2))
  have e: "unat (slab + 8192) = unat slab + 8192" using unat_slab_word [OF assms(2), of 8192] by simp
  have o: "unat (slab + of_nat (slab_off sz)) = unat slab + slab_off sz" using assms(2) sz(4) by simp
  show lt: "slab + of_nat (slab_off sz) < slab + SLAB_PAGES * PAGE_SIZE"
    using e o sz(4) by (simp add: SLAB_PAGES_def word_less_nat_alt)
  have "unat (slab + 8192 - (slab + of_nat (slab_off sz))) = 8192 - slab_off sz"
    using lt e o by (subst unat_sub_u64) (simp_all add: SLAB_PAGES_def order_less_imp_le)
  then have "unat ((slab + 8192 - (slab + of_nat (slab_off sz))) div of_nat sz) = slab_cap sz"
    using sz(2) by (simp add: unat_div slab_cap_def unat_of_nat_u64)
  then show "(slab + SLAB_PAGES * PAGE_SIZE - (slab + of_nat (slab_off sz))) div of_nat sz = of_nat (slab_cap sz)"
    unfolding SLAB_PAGES_def PAGE_SIZE_eq by simp (metis word_unat_eq_iff unat_of_nat_u64 unat_u64_less)
qed

lemma alloc_outside:
  assumes "buddy_inv base n F (ba, mem)" and "alloc_pages p (ba, mem) = (Some a, ba', mem')" and "\<not> in_pages base F w"
  shows "mem' w = mem w"
proof -
  have "\<forall>k \<in># F. unat w \<noteq> base + k * 4096" using assms(3) by (auto simp: in_pages_def page_no_def)
  from buddy_alloc_keeps [OF assms(1,2) this] show ?thesis by (simp add: load_word_def)
qed

lemma alloc_slab_rep:
  assumes "buddy_inv base n F (ba, mem)" and "size_ok sz" and "cache_rep base sz mc sls mem"
    and "slab_pages base sls + F \<subseteq># mset [0..<n]"
  shows "alloc_slab mc (ba, mem) = Inr (None, mc, ba, mem) \<and> pairs (ba, mem) = 0 \<or>
    (\<exists>slab ba' mem' F'. alloc_slab mc (ba, mem) = Inr (Some slab, mc\<lparr>mc_slabs := slab\<rparr>, ba', mem') \<and> buddy_inv base n F' (ba', mem') \<and>
      cache_rep base sz (mc\<lparr>mc_slabs := slab\<rparr>) ((slab, rev (slab_objs sz slab)) # sls) mem' \<and>
      F = pages_at 1 (page_no base slab) + F' \<and> (\<forall>w. \<not> in_pages base F w \<longrightarrow> mem' w = mem w) \<and>
      pairs (ba, mem) = Suc (pairs (ba', mem')))"
proof -
  obtain r st where al: "alloc_pages SLAB_PAGES (ba, mem) = (r, st)" by (metis prod.exhaust)
  note reg = buddy_inv_region [OF assms(1)]
  have pr: "pairs (ba, mem) = (case r of None \<Rightarrow> 0 | Some a \<Rightarrow> Suc (pairs st))"
    using buddy_alloc_pairs [OF assms(1)] al by (simp add: SLAB_PAGES_def)
  show ?thesis
  proof (cases r)
    case None
    with al pr buddy_alloc_none [OF assms(1)] show ?thesis by (simp add: alloc_slab_def)
  next
    case (Some slab)
    obtain ba1 mem1 where st: "st = (ba1, mem1)" by (cases st)
    note al = al [unfolded Some st]
    from buddy_alloc_some [OF assms(1) al] obtain k F' where
      k: "unat slab = base + k * 4096" "2 dvd k" "F = pages_at 1 k + F'" "buddy_inv base n F' (ba1, mem1)"
      by (auto simp: SLAB_PAGES_def block_ok_def)
    have no: "page_no base slab = k" by (simp add: page_no_def k(1))
    have ok: "slab_ok base slab" using k(1,2) by (auto simp: slab_ok_def elim!: dvdE)
    have sub: "pages_at 1 (page_no base slab) + (F' + slab_pages base sls) \<subseteq># mset [0..<n]" using assms(4) by (simp add: k(3) no ac_simps)
    have fits: "slab_fits slab" by (rule slab_fits_in_region [OF reg ok sub])
    let ?mem = "(slab_header_init slab (slab + of_nat (slab_off sz)) (of_nat sz) (of_nat (slab_cap sz)) mem1)(slab + 32 := mc_slabs mc)"
    have mc: "mc_object_size mc = of_nat sz" "mc_align mc = of_nat sz" using assms(3) by (simp_all add: cache_rep_def)
    have "unat (of_nat sz :: u64) = sz" using size_ok_facts(2) [OF assms(2)] by (intro unat_of_nat_u64) simp
    then have "(of_nat sz :: u64) \<noteq> 0" using size_ok_facts(1) [OF assms(2)] by auto
    then have run: "alloc_slab mc (ba, mem) = Inr (Some slab, mc\<lparr>mc_slabs := slab\<rparr>, ba1, ?mem)"
      using slab_layout [OF assms(2) fits] by (simp add: alloc_slab_def al mc del: PAGE_SIZE_eq)
    have in_F: "in_slab slab w \<Longrightarrow> in_pages base F w \<and> \<not> in_pages base (F' + slab_pages base sls) w" for w
      using pages_apart [OF sub] by (simp add: in_slab_iff [OF ok] k(3) no)
    have next_in: "in_slab slab (slab + 32)" using fits by (simp add: in_slab_def)
    have keep: "?mem w = mem1 w" if "\<not> in_slab slab w" for w
      using slab_header_init_rep(2) [OF assms(2) fits that] next_in that by auto
    have out: "?mem w = mem w" if "\<not> in_pages base F w" for w
      using keep [of w] in_F [of w] alloc_outside [OF assms(1) al that] that by metis
    have "cache_rep base sz mc sls ?mem"
      by (rule cache_rep_cong [OF reg assms(2,4) _ assms(3)]) (rule out [OF pages_apart [OF assms(4)]])
    then have "cache_rep base sz (mc\<lparr>mc_slabs := slab\<rparr>) ((slab, rev (slab_objs sz slab)) # sls) ?mem"
      using slab_rep_next [OF assms(2) fits slab_header_init_rep(1) [OF assms(2) fits]] ok fits
      by (simp add: cache_rep_def slab_fits_def) auto
    moreover have sameF: "?mem w = mem1 w" if "in_pages base F' w" for w by (rule keep) (use in_F that in auto)
    have "buddy_inv base n F' (ba1, ?mem)" by (rule buddy_inv_cong(1) [OF k(4)]) (rule sameF)
    moreover have "pairs (ba1, ?mem) = pairs (ba1, mem1)" by (rule buddy_inv_cong(2) [OF k(4)]) (rule sameF)
    then have "pairs (ba, mem) = Suc (pairs (ba1, ?mem))" using pr by (simp only: Some st option.case)
    ultimately show ?thesis using run k(3) no out by blast
  qed
qed

text \<open>The header words that the operations on objects write.\<close>

definition hdr_word :: "(u64 \<times> u64 list) list \<Rightarrow> u64 \<Rightarrow> bool" where
  "hdr_word sls w \<longleftrightarrow> (\<exists>(slab, fl) \<in> set sls. w = hdr_free_list slab \<or> w = hdr_active_objects slab)"

lemma take_object:
  assumes "region base n" and "size_ok sz" and "slab_pages base (us @ (slab, x # xs) # vs) + M \<subseteq># mset [0..<n]"
    and "cache_rep base sz mc (us @ (slab, x # xs) # vs) mem"
  shows "\<exists>mem'. slab_header_alloc slab mem = (Some x, mem') \<and> cache_rep base sz mc (us @ (slab, xs) # vs) mem' \<and>
    (\<forall>w. w \<noteq> slab \<and> w \<noteq> slab + 24 \<longrightarrow> mem' w = mem w) \<and>
    x \<notin> live sz (us @ (slab, x # xs) # vs) \<and> live sz (us @ (slab, xs) # vs) = insert x (live sz (us @ (slab, x # xs) # vs))"
proof -
  note slab = cache_slab [OF assms(1,3,4)]
  from slab_header_alloc_rep [OF assms(2) slab(2,3)] obtain mem' where
    m: "slab_header_alloc slab mem = (Some x, mem')" "slab_rep mem' sz slab xs"
      "\<forall>w. w \<noteq> slab \<and> w \<noteq> slab + 24 \<longrightarrow> mem' w = mem w" by blast
  have "in_slab slab slab" "in_slab slab (slab + 24)" using slab(2) by (simp_all add: in_slab_def)
  with m(3) have "\<not> in_slab slab w \<Longrightarrow> mem' w = mem w" for w by metis
  with m(3) have "cache_rep base sz mc (us @ (slab, xs) # vs) mem'" by (intro cache_rep_update [OF assms m(2)]) auto
  moreover have x: "x \<in> set (slab_objs sz slab)" "x \<notin> set xs" using slab(3) by (auto simp: slab_rep_def)
  moreover have "x \<notin> live sz (us @ vs)" by (rule live_other [OF assms x(1)])
  ultimately show ?thesis using m(1,3) by (auto simp: live_split)
qed

lemma find_split:
  assumes "find P xs = Some x"
  obtains us vs where "xs = us @ x # vs" and "P x"
proof -
  from assms obtain i where i: "i < length xs" "P (xs ! i)" "x = xs ! i" by (auto simp: find_Some_iff)
  from id_take_nth_drop [OF i(1)] i that show ?thesis by metis
qed

lemma mem_cache_alloc_found:
  assumes "buddy_inv base n F (ba, mem)" and "size_ok sz" and "cache_rep base sz mc sls mem"
    and "slab_pages base sls + F \<subseteq># mset [0..<n]" and "find (\<lambda>(slab, fl). fl \<noteq> []) sls = Some sl"
  shows "\<exists>x mem' sls'. mem_cache_alloc mc (ba, mem) = Some (Inr (Some x, mc, ba, mem')) \<and> buddy_inv base n F (ba, mem') \<and>
    cache_rep base sz mc sls' mem' \<and> slab_pages base sls' = slab_pages base sls \<and> (\<forall>w. mem' w \<noteq> mem w \<longrightarrow> hdr_word sls w) \<and>
    x \<notin> live sz sls \<and> live sz sls' = insert x (live sz sls) \<and> pairs (ba, mem') = pairs (ba, mem)"
proof -
  note reg = buddy_inv_region [OF assms(1)]
  from find_split [OF assms(5)] obtain us vs where "sls = us @ sl # vs" "(\<lambda>(slab, fl). fl \<noteq> []) sl" .
  then obtain slab x xs where sls: "sls = us @ (slab, x # xs) # vs" and sl: "sl = (slab, x # xs)"
    by (cases sl) (auto simp: neq_Nil_conv)
  from take_object [OF reg assms(2) assms(4,3) [unfolded sls]] obtain mem' where
    m: "slab_header_alloc slab mem = (Some x, mem')" "cache_rep base sz mc (us @ (slab, xs) # vs) mem'"
      "\<forall>w. w \<noteq> slab \<and> w \<noteq> slab + 24 \<longrightarrow> mem' w = mem w" "x \<notin> live sz sls" "live sz (us @ (slab, xs) # vs) = insert x (live sz sls)"
    unfolding sls by blast
  note slab = cache_slab [OF reg assms(4,3) [unfolded sls]]
  have "in_slab slab slab" "in_slab slab (slab + 24)" using slab(2) by (simp_all add: in_slab_def)
  with slab(4) have "\<not> in_pages base F slab" "\<not> in_pages base F (slab + 24)" by auto
  with m(3) have "mem' w = mem w" if "in_pages base F w" for w using that by metis
  note cong = buddy_inv_cong [OF assms(1) this]
  moreover have "slab_search (mc_slabs mc) mem = Some (Some slab)"
    using slab_search_chain [of mem "mc_slabs mc" sls] assms(3,5) sl by (auto simp: cache_rep_def slab_rep_def)
  then have "mem_cache_alloc mc (ba, mem) = Some (Inr (Some x, mc, ba, mem'))"
    by (subst mem_cache_alloc.simps) (simp add: m(1))
  moreover have "\<forall>w. mem' w \<noteq> mem w \<longrightarrow> hdr_word sls w" using m(3) by (auto simp: hdr_word_def sls)
  moreover have "slab_pages base (us @ (slab, xs) # vs) = slab_pages base sls" by (simp add: sls)
  ultimately show ?thesis using m(2,4,5) by blast
qed

lemma mem_cache_alloc_rep:
  assumes "buddy_inv base n F (ba, mem)" and "size_ok sz" and "cache_rep base sz mc sls mem"
    and "slab_pages base sls + F \<subseteq># mset [0..<n]"
  shows "\<exists>r mc' ba' mem' sls' F'. mem_cache_alloc mc (ba, mem) = Some (Inr (r, mc', ba', mem')) \<and> buddy_inv base n F' (ba', mem') \<and>
    cache_rep base sz mc' sls' mem' \<and> slab_pages base sls' + F' = slab_pages base sls + F \<and>
    (\<forall>w. mem' w \<noteq> mem w \<longrightarrow> in_pages base F w \<or> hdr_word sls w) \<and>
    (case r of None \<Rightarrow> live sz sls' = live sz sls | Some x \<Rightarrow> x \<notin> live sz sls \<and> live sz sls' = insert x (live sz sls)) \<and>
    pairs (ba, mem) \<le> (if r = None then 0 else Suc (pairs (ba', mem')))"
proof (cases "find (\<lambda>(slab, fl). fl \<noteq> []) sls")
  case (Some sl)
  from mem_cache_alloc_found [OF assms this] obtain x mem' sls' where
    "mem_cache_alloc mc (ba, mem) = Some (Inr (Some x, mc, ba, mem'))" "buddy_inv base n F (ba, mem')"
    "cache_rep base sz mc sls' mem'" "slab_pages base sls' = slab_pages base sls" "\<forall>w. mem' w \<noteq> mem w \<longrightarrow> hdr_word sls w"
    "x \<notin> live sz sls" "live sz sls' = insert x (live sz sls)" "pairs (ba, mem') = pairs (ba, mem)" by blast
  then show ?thesis by (intro exI [of _ "Some x"] exI [of _ mc] exI [of _ ba] exI [of _ mem'] exI [of _ sls'] exI [of _ F]) auto
next
  case None
  then have "slab_search (mc_slabs mc) mem = Some None"
    using slab_search_chain [of mem "mc_slabs mc" sls] assms(3) by (auto simp: cache_rep_def slab_rep_def)
  then have run: "mem_cache_alloc mc (ba, mem) = (case alloc_slab mc (ba, mem) of
      Inl e \<Rightarrow> Some (Inl e) | Inr (None, mc, st) \<Rightarrow> Some (Inr (None, mc, st)) | Inr (Some page, mc, st) \<Rightarrow> mem_cache_alloc mc st)"
    by (subst mem_cache_alloc.simps) simp
  consider "alloc_slab mc (ba, mem) = Inr (None, mc, ba, mem)" "pairs (ba, mem) = 0"
    | slab ba' mem' F' where "alloc_slab mc (ba, mem) = Inr (Some slab, mc\<lparr>mc_slabs := slab\<rparr>, ba', mem')" "buddy_inv base n F' (ba', mem')"
      "cache_rep base sz (mc\<lparr>mc_slabs := slab\<rparr>) ((slab, rev (slab_objs sz slab)) # sls) mem'"
      "F = pages_at 1 (page_no base slab) + F'" "\<forall>w. \<not> in_pages base F w \<longrightarrow> mem' w = mem w"
      "pairs (ba, mem) = Suc (pairs (ba', mem'))"
  proof -
    show thesis using alloc_slab_rep [OF assms] by (elim disjE exE conjE) (rule that(1) that(2); assumption)+
  qed
  then show ?thesis
  proof cases
    case 1
    with assms run show ?thesis by (intro exI [of _ None] exI [of _ mc] exI [of _ ba] exI [of _ mem] exI [of _ sls] exI [of _ F]) auto
  next
    case 2
    let ?sl = "(slab, rev (slab_objs sz slab))"
    have pg: "slab_pages base (?sl # sls) + F' = slab_pages base sls + F" by (simp add: 2(4) ac_simps)
    have sub: "slab_pages base (?sl # sls) + F' \<subseteq># mset [0..<n]" unfolding pg by (rule assms(4))
    have "slab_objs sz slab \<noteq> []" using size_ok_facts(6) [OF assms(2)] by (simp add: slab_objs_def)
    then have "find (\<lambda>(slab, fl). fl \<noteq> []) (?sl # sls) = Some ?sl" by simp
    from mem_cache_alloc_found [OF 2(2) assms(2) 2(3) sub this] obtain x mem'' sls'' where
      x: "mem_cache_alloc (mc\<lparr>mc_slabs := slab\<rparr>) (ba', mem') = Some (Inr (Some x, mc\<lparr>mc_slabs := slab\<rparr>, ba', mem''))"
      "buddy_inv base n F' (ba', mem'')" "cache_rep base sz (mc\<lparr>mc_slabs := slab\<rparr>) sls'' mem''"
      "slab_pages base sls'' = slab_pages base (?sl # sls)" "\<forall>w. mem'' w \<noteq> mem' w \<longrightarrow> hdr_word (?sl # sls) w"
      "x \<notin> live sz (?sl # sls)" "live sz sls'' = insert x (live sz (?sl # sls))" "pairs (ba', mem'') = pairs (ba', mem')" by blast
    have l: "live sz (?sl # sls) = live sz sls" by (simp add: live_def)
    have fit: "slab_ok base slab" "slab_fits slab"
      using cache_slab [OF buddy_inv_region [OF assms(1)], of "[]" slab "rev (slab_objs sz slab)" sls F' sz _ mem'] sub 2(3) by auto
    then have "hdr_word (?sl # sls) w \<Longrightarrow> in_pages base F w \<or> hdr_word sls w" for w
      using in_slab_iff [OF fit(1), of slab] in_slab_iff [OF fit(1), of "slab + 24"] by (auto simp: hdr_word_def 2(4) in_slab_def)
    then have "\<forall>w. mem'' w \<noteq> mem w \<longrightarrow> in_pages base F w \<or> hdr_word sls w" using x(5) 2(5) by metis
    with x l pg run 2(1,6) show ?thesis
      by (intro exI [of _ "Some x"] exI [of _ "mc\<lparr>mc_slabs := slab\<rparr>"] exI [of _ ba'] exI [of _ mem''] exI [of _ sls''] exI [of _ F']) auto
  qed
qed

section \<open>Freeing an object\<close>

text \<open>The slab that \<open>free\<close> finds for an object.\<close>

partial_function (option) slab_of :: "u64 \<Rightarrow> u64 \<Rightarrow> memory \<Rightarrow> u64 option option" where
  "slab_of obj current_slab mem =
     (if current_slab = 0 then Some None
      else if slab_header_contains current_slab obj mem then Some (Some current_slab)
      else slab_of obj (mem (hdr_next current_slab)) mem)"

declare slab_of.simps [code]

text \<open>
  The object is the last one in use of a slab that is not the first of its cache: the case
  in which the slab is given back and stays linked.
\<close>

definition frees_inner_slab :: "u64 \<Rightarrow> mem_cache \<Rightarrow> memory \<Rightarrow> bool" where
  "frees_inner_slab obj mc mem \<longleftrightarrow>
     (case slab_of obj (mc_slabs mc) mem of
        Some (Some slab) \<Rightarrow> slab \<noteq> mc_slabs mc \<and> mem (hdr_active_objects slab) = 1
      | _ \<Rightarrow> False)"

lemma free_walk:
  assumes "chain (\<lambda>x. mem (x + 32)) p (map fst us @ slab # map fst vs)" and "slab_header_contains slab obj mem"
    and "\<And>s fl. (s, fl) \<in> set us \<Longrightarrow> \<not> slab_header_contains s obj mem"
  shows "mem_cache_free_loop obj p mc (ba, mem) =
      (let mem = slab_header_free slab obj mem in
       if mem (slab + 24) = 0 then Some (free_slab slab mc (ba, mem)) else Some (Inr (mc, ba, mem)))"
    and "slab_of obj p mem = Some (Some slab)"
  using assms
proof (induction us arbitrary: p)
  case Nil
  { case 1
    then show ?case by (subst mem_cache_free_loop.simps) (simp add: Let_def)
  next
    case 2
    then show ?case by (subst slab_of.simps) simp }
next
  case (Cons sl us)
  obtain s fl where sl: "sl = (s, fl)" by (cases sl)
  { case 1
    then show ?case using Cons.IH(1) [of "mem (s + 32)"] by (subst mem_cache_free_loop.simps) (auto simp: sl)
  next
    case 2
    then show ?case using Cons.IH(2) [of "mem (s + 32)"] by (subst slab_of.simps) (auto simp: sl) }
qed

text \<open>On a proper list of slabs the search for the predecessor finds nothing.\<close>

lemma unlink_walk_chain: "chain (\<lambda>x. mem (x + 32)) p xs \<Longrightarrow> distinct xs \<Longrightarrow> unlink_walk p mem = Some mem"
proof (induction xs arbitrary: p)
  case Nil
  then show ?case by (subst unlink_walk.simps) simp
next
  case (Cons x xs)
  have "mem (x + 32) \<noteq> x" using Cons.prems by (cases xs) auto
  with Cons show ?case by (subst unlink_walk.simps) simp
qed

lemma slabs_distinct:
  assumes "slab_pages base sls + M \<subseteq># mset [0..<n]"
  shows "distinct (map fst sls)"
proof (rule ccontr)
  assume "\<not> distinct (map fst sls)"
  then obtain us vs ws a where "map fst sls = us @ [a] @ vs @ [a] @ ws" using not_distinct_decomp by blast
  then have eq: "map (\<lambda>a. pages_at 1 (page_no base a)) (map fst sls) =
      map (\<lambda>a. pages_at 1 (page_no base a)) (us @ [a] @ vs @ [a] @ ws)" by (rule arg_cong)
  have "slab_pages base sls = sum_list (map (\<lambda>a. pages_at 1 (page_no base a)) (map fst sls))"
    by (simp add: slab_pages_def case_prod_unfold comp_def)
  then obtain N where "slab_pages base sls + M = pages_at 1 (page_no base a) + (pages_at 1 (page_no base a) + N)"
    unfolding eq by (auto simp: ac_simps)
  with assms have "pages_at 1 (page_no base a) + (pages_at 1 (page_no base a) + N) \<subseteq># mset [0..<n]" by metis
  from page_once(1) [OF this, of "page_no base a"] show False by (simp add: in_pages_at)
qed

lemma release_keeps_words:
  assumes "buddy_inv base n F (ba, mem)" and "slab_ok base slab" and "pages_at 1 (page_no base slab) + F \<subseteq># mset [0..<n]"
  shows "\<exists>ba' mem'. free_pages slab SLAB_PAGES (ba, mem) = Inr (ba', mem') \<and>
    buddy_inv base n (pages_at 1 (page_no base slab) + F) (ba', mem') \<and>
    (\<forall>w. \<not> in_pages base (pages_at 1 (page_no base slab) + F) w \<or> unat w mod 4096 \<noteq> 0 \<longrightarrow> mem' w = mem w)"
proof -
  let ?k = "page_no base slab"
  have reg: "base mod 4096 = 0" using buddy_inv_region [OF assms(1)] by (simp add: region_def)
  have a: "unat slab = base + ?k * 4096" and "2 dvd ?k" by (rule slab_okE [OF assms(2)], simp)+
  then have b: "block_ok (?k, SLAB_PAGES)" by (simp add: block_ok_def SLAB_PAGES_def)
  have o: "order SLAB_PAGES = 1" by (simp add: SLAB_PAGES_def)
  from buddy_release [OF assms(1) b _ a] assms(3) obtain ba' mem' where
    f: "free_pages slab SLAB_PAGES (ba, mem) = Inr (ba', mem')" "buddy_inv base n (pages_at 1 ?k + F) (ba', mem')"
    unfolding o by fastforce
  have "mem' w = mem w" if "\<not> in_pages base (pages_at 1 ?k + F) w \<or> unat w mod 4096 \<noteq> 0" for w
  proof -
    have "\<forall>j \<in># pages_at 1 ?k + F. unat w \<noteq> base + j * 4096" using that reg by (auto simp: in_pages_def page_no_def)
    from buddy_release_keeps [OF assms(1) b _ a f(1), of w] this assms(3) show ?thesis unfolding o by (simp add: load_word_def)
  qed
  with f show ?thesis by blast
qed

lemma put_object:
  assumes "region base n" and "size_ok sz" and "slab_pages base (us @ (slab, fl) # vs) + M \<subseteq># mset [0..<n]"
    and "cache_rep base sz mc (us @ (slab, fl) # vs) mem" and "x \<in> set (slab_objs sz slab)" and "x \<notin> set fl"
  shows "cache_rep base sz mc (us @ (slab, x # fl) # vs) (slab_header_free slab x mem)"
    and "\<not> in_slab slab w \<Longrightarrow> slab_header_free slab x mem w = mem w"
    and "live sz (us @ (slab, x # fl) # vs) = live sz (us @ (slab, fl) # vs) - {x}"
proof -
  note slab = cache_slab [OF assms(1,3,4)] and x = slab_obj_in [OF assms(2) cache_slab(2) [OF assms(1,3,4)] assms(5)]
  note free = slab_header_free_rep [OF assms(2) slab(2,3) assms(5,6)]
  have h: "in_slab slab slab" "in_slab slab (slab + 24)" using slab(2) by (simp_all add: in_slab_def)
  have "x \<noteq> slab + 32" using x(1) slab(2) by auto
  with free(2) [of "slab + 32"] have n: "slab_header_free slab x mem (slab + 32) = mem (slab + 32)" by simp
  show out: "\<not> in_slab slab w \<Longrightarrow> slab_header_free slab x mem w = mem w" for w using h x(5) by (intro free(2)) auto
  show "cache_rep base sz mc (us @ (slab, x # fl) # vs) (slab_header_free slab x mem)"
    by (rule cache_rep_update [OF assms(1-4) free(1) n out])
  show "live sz (us @ (slab, x # fl) # vs) = live sz (us @ (slab, fl) # vs) - {x}"
    using live_other [OF assms(1-5)] by (auto simp: live_split)
qed

text \<open>A slab without objects in use: all its objects are free.\<close>

lemma slab_full_free:
  assumes "size_ok sz" and "slab_fits slab" and "slab_rep mem sz slab fl" and "length fl = slab_cap sz"
  shows "set fl = set (slab_objs sz slab)"
proof (rule card_subset_eq)
  show "set fl \<subseteq> set (slab_objs sz slab)" using assms(3) by (simp add: slab_rep_def)
  have "card (set fl) = slab_cap sz" using assms(3,4) by (simp add: slab_rep_def distinct_card)
  also have "\<dots> = card (set (slab_objs sz slab))" using distinct_card [OF distinct_slab_objs [OF assms(1,2)]] by (simp add: slab_objs_def)
  finally show "card (set fl) = card (set (slab_objs sz slab))" .
qed simp

text \<open>Giving back the first slab of a cache.\<close>

lemma free_first_slab:
  assumes "buddy_inv base n F (ba, mem)" and "size_ok sz" and "cache_rep base sz mc ((slab, fl) # vs) mem"
    and "slab_pages base ((slab, fl) # vs) + F \<subseteq># mset [0..<n]" and "length fl = slab_cap sz"
  shows "\<exists>mc' ba' mem'. free_slab slab mc (ba, mem) = Inr (mc', ba', mem') \<and>
    buddy_inv base n (pages_at 1 (page_no base slab) + F) (ba', mem') \<and> cache_rep base sz mc' vs mem' \<and>
    live sz vs = live sz ((slab, fl) # vs) \<and>
    (\<forall>w. mem' w \<noteq> mem w \<longrightarrow> in_pages base (pages_at 1 (page_no base slab) + F) w)"
proof -
  note reg = buddy_inv_region [OF assms(1)]
  note slab = cache_slab [of base n "[]" slab fl vs F sz mc mem, simplified append_Nil, OF reg assms(4,3)]
  have sub: "slab_pages base vs + (pages_at 1 (page_no base slab) + F) \<subseteq># mset [0..<n]" using assms(4) by (simp add: ac_simps)
  then have "pages_at 1 (page_no base slab) + F \<subseteq># mset [0..<n]" by (metis mset_subset_eq_add_right subset_mset.order_trans)
  from release_keeps_words [OF assms(1) slab(1) this] obtain ba' mem' where
    f: "free_pages slab SLAB_PAGES (ba, mem) = Inr (ba', mem')" "buddy_inv base n (pages_at 1 (page_no base slab) + F) (ba', mem')"
      "\<forall>w. \<not> in_pages base (pages_at 1 (page_no base slab) + F) w \<or> unat w mod 4096 \<noteq> 0 \<longrightarrow> mem' w = mem w" by blast
  have "unat (slab + 32) mod 4096 \<noteq> 0" using slab(2) by (simp add: slab_fits_def mod_add_eq [symmetric])
  with f(3) have nx: "mem' (slab + 32) = mem (slab + 32)" by blast
  have "mc_slabs mc = slab" using assms(3) by (simp add: cache_rep_def)
  with f(1) nx have run: "free_slab slab mc (ba, mem) = Inr (mc\<lparr>mc_slabs := mem (slab + 32)\<rparr>, ba', mem')" by (simp add: free_slab_def)
  have tail: "cache_rep base sz (mc\<lparr>mc_slabs := mem (slab + 32)\<rparr>) vs mem" using assms(3) by (simp add: cache_rep_def)
  have "mem' w = mem w" if "in_pages base (slab_pages base vs) w" for w using f(3) pages_apart [OF sub that] by blast
  from cache_rep_cong [OF reg assms(2) sub this tail]
  have "cache_rep base sz (mc\<lparr>mc_slabs := mem (slab + 32)\<rparr>) vs mem'" .
  moreover have "live sz vs = live sz ((slab, fl) # vs)"
    using slab_full_free [OF assms(2) slab(2,3) assms(5)] by (simp add: live_def)
  ultimately show ?thesis using run f(2,3) by blast
qed

text \<open>Giving back another slab returns and leaves the list as it is.\<close>

lemma free_inner_slab:
  assumes "buddy_inv base n F (ba, mem)" and "size_ok sz" and "cache_rep base sz mc (us @ (slab, fl) # vs) mem" and "us \<noteq> []"
    and "slab_pages base (us @ (slab, fl) # vs) + F \<subseteq># mset [0..<n]"
  shows "\<exists>ba' mem'. free_slab slab mc (ba, mem) = Inr (mc, ba', mem')"
    and "mc_slabs mc \<noteq> slab"
proof -
  note reg = buddy_inv_region [OF assms(1)]
  note slab = cache_slab [OF reg assms(5,3)] and dist = slabs_distinct [OF assms(5)]
  have sub: "slab_pages base (us @ vs) + (pages_at 1 (page_no base slab) + F) \<subseteq># mset [0..<n]" using assms(5) by (simp add: ac_simps)
  then have "pages_at 1 (page_no base slab) + F \<subseteq># mset [0..<n]" by (metis mset_subset_eq_add_right subset_mset.order_trans)
  from release_keeps_words [OF assms(1) slab(1) this] obtain ba' mem' where
    f: "free_pages slab SLAB_PAGES (ba, mem) = Inr (ba', mem')"
      "\<forall>w. \<not> in_pages base (pages_at 1 (page_no base slab) + F) w \<or> unat w mod 4096 \<noteq> 0 \<longrightarrow> mem' w = mem w" by blast
  have ch: "chain (\<lambda>x. mem (x + 32)) (mc_slabs mc) (map fst (us @ (slab, fl) # vs))" using assms(3) by (simp add: cache_rep_def)
  show ne: "mc_slabs mc \<noteq> slab" using ch dist assms(4) by (cases us) auto
  have "chain (\<lambda>x. mem' (x + 32)) (mc_slabs mc) (map fst (us @ (slab, fl) # vs)) =
      chain (\<lambda>x. mem (x + 32)) (mc_slabs mc) (map fst (us @ (slab, fl) # vs))"
  proof (rule chain_cong)
    fix x assume "x \<in> set (map fst (us @ (slab, fl) # vs))"
    then obtain g where "(x, g) \<in> set (us @ (slab, fl) # vs)" unfolding set_map image_iff by (metis surj_pair fst_conv)
    from split_list [OF this] obtain us' vs' where sls: "us @ (slab, fl) # vs = us' @ (x, g) # vs'" by blast
    from cache_slab(2) [OF reg assms(5,3) [unfolded sls]] have "slab_fits x" .
    then have "unat (x + 32) mod 4096 \<noteq> 0" by (simp add: slab_fits_def mod_add_eq [symmetric])
    with f(2) show "mem' (x + 32) = mem (x + 32)" by blast
  qed
  with ch have "unlink_walk (mc_slabs mc) mem' = Some mem'" using unlink_walk_chain dist by blast
  with f(1) ne show "\<exists>ba' mem'. free_slab slab mc (ba, mem) = Inr (mc, ba', mem')" by (simp add: free_slab_def)
qed

lemma mem_cache_free_rep:
  assumes "buddy_inv base n F (ba, mem)" and "size_ok sz" and "cache_rep base sz mc sls mem"
    and "slab_pages base sls + F \<subseteq># mset [0..<n]" and "x \<in> live sz sls"
  shows "\<exists>mc' ba' mem'. mem_cache_free x mc (ba, mem) = Some (Inr (mc', ba', mem')) \<and>
    (frees_inner_slab x mc mem \<or> (\<exists>sls' F'. buddy_inv base n F' (ba', mem') \<and> cache_rep base sz mc' sls' mem' \<and>
      slab_pages base sls' + F' = slab_pages base sls + F \<and> live sz sls' = live sz sls - {x} \<and>
      (\<forall>w. mem' w \<noteq> mem w \<longrightarrow> in_pages base F' w \<or> hdr_word sls w \<or> w = x)))"
proof -
  note reg = buddy_inv_region [OF assms(1)]
  obtain slab fl where sl: "(slab, fl) \<in> set sls" "x \<in> set (slab_objs sz slab)" "x \<notin> set fl" using assms(5) by (auto simp: live_def)
  from split_list [OF sl(1)] obtain us vs where sls: "sls = us @ (slab, fl) # vs" by blast
  note sub = assms(4) [unfolded sls] and rep = assms(3) [unfolded sls]
  note slab = cache_slab [OF reg sub rep] and x = slab_obj_in [OF assms(2) cache_slab(2) [OF reg sub rep] sl(2)]
  note free = slab_header_free_rep [OF assms(2) slab(2,3) sl(2,3)] and put = put_object [OF reg assms(2) sub rep sl(2,3)]
  let ?mem = "slab_header_free slab x mem"
  have len: "length fl < slab_cap sz" by (rule free(4))
  have "slab_cap sz \<le> 8192" by (simp add: slab_cap_def le_trans [OF div_le_dividend])
  then have act: "unat (?mem (slab + 24)) = slab_cap sz - Suc (length fl)" "unat (mem (slab + 24)) = slab_cap sz - length fl"
    using free(3) slab(3) by (simp_all add: slab_rep_def unat_of_nat_u64)
  have other: "\<not> slab_header_contains s x mem" if "(s, g) \<in> set us" for s g
  proof
    assume c: "slab_header_contains s x mem"
    have "(s, g) \<in> set (us @ vs)" using that by simp
    note s = in_slab_pages [OF this, of base]
    have "(s, g) \<in> set sls" using that by (simp add: sls)
    from split_list [OF this] obtain us' vs' where "sls = us' @ (s, g) # vs'" by blast
    with cache_slab [OF reg, of us' s g vs' F sz mc mem] assms(3,4)
    have "slab_ok base s" "slab_fits s" "slab_rep mem sz s g" by simp_all
    from slab_header_contains_eq(2) [OF assms(2) this(2,3) c] in_pages_mono [OF s] in_slab_iff [OF this(1)]
    have "in_pages base (slab_pages base (us @ vs)) x" by blast
    with slab(4) [OF x(5)] show False by simp
  qed
  have ch: "chain (\<lambda>x. mem (x + 32)) (mc_slabs mc) (map fst us @ slab # map fst vs)" using rep by (simp add: cache_rep_def)
  note walk = free_walk [OF ch slab_header_contains_eq(1) [OF assms(2) slab(2,3) sl(2)]]
  have run: "mem_cache_free x mc (ba, mem) = (if ?mem (slab + 24) = 0 then Some (free_slab slab mc (ba, ?mem)) else Some (Inr (mc, ba, ?mem)))"
    using walk(1) [of mc ba] other by (simp add: mem_cache_free_def Let_def)
  have so: "slab_of x (mc_slabs mc) mem = Some (Some slab)" using walk(2) other by blast
  have "\<not> in_slab slab w" if "in_pages base F w" for w using slab(4) [of w] that by auto
  with put(2) have inv: "buddy_inv base n F (ba, ?mem)" by (intro buddy_inv_cong [OF assms(1)]) blast
  have hdr: "?mem w \<noteq> mem w \<longrightarrow> hdr_word sls w \<or> w = x" for w using free(2) [of w] by (auto simp: hdr_word_def sls)
  have pg: "slab_pages base (us @ (slab, x # fl) # vs) = slab_pages base sls" by (simp add: sls)
  show ?thesis
  proof (cases "slab_cap sz = Suc (length fl)")
    case False
    with act(1) len have "?mem (slab + 24) \<noteq> 0" by (auto simp: u64_eq_iff_unat)
    with run have r: "mem_cache_free x mc (ba, mem) = Some (Inr (mc, ba, ?mem))" by simp
    have l: "live sz (us @ (slab, x # fl) # vs) = live sz sls - {x}" unfolding sls by (rule put(3))
    have "slab_pages base (us @ (slab, x # fl) # vs) + F = slab_pages base sls + F" unfolding pg ..
    moreover have "\<forall>w. ?mem w \<noteq> mem w \<longrightarrow> in_pages base F w \<or> hdr_word sls w \<or> w = x" using hdr by blast
    ultimately show ?thesis
      by (intro exI [of _ mc] exI [of _ ba] exI [of _ ?mem] conjI disjI2 exI [of _ "us @ (slab, x # fl) # vs"] exI [of _ F] r inv put(1) l)
  next
    case True
    with act have z: "?mem (slab + 24) = 0" "mem (slab + 24) = 1" by (simp_all add: u64_eq_iff_unat)
    show ?thesis
    proof (cases "us = []")
      case us: True
      note sub' = assms(4) [folded pg, unfolded us append_Nil]
      from free_first_slab [OF inv assms(2) put(1) [unfolded us append_Nil] sub'] True obtain mc' ba' mem' where
        f: "free_slab slab mc (ba, ?mem) = Inr (mc', ba', mem')" "buddy_inv base n (pages_at 1 (page_no base slab) + F) (ba', mem')"
          "cache_rep base sz mc' vs mem'" "live sz vs = live sz ((slab, x # fl) # vs)"
          "\<forall>w. mem' w \<noteq> ?mem w \<longrightarrow> in_pages base (pages_at 1 (page_no base slab) + F) w" by auto
      have "slab_pages base vs + (pages_at 1 (page_no base slab) + F) = slab_pages base sls + F" by (simp add: sls us ac_simps)
      moreover have "live sz vs = live sz sls - {x}" using f(4) put(3) by (simp add: us sls)
      moreover have "\<forall>w. mem' w \<noteq> mem w \<longrightarrow> in_pages base (pages_at 1 (page_no base slab) + F) w \<or> hdr_word sls w \<or> w = x"
        using f(5) hdr by metis
      moreover have r: "mem_cache_free x mc (ba, mem) = Some (Inr (mc', ba', mem'))" using f(1) run z(1) by simp
      ultimately show ?thesis
        by (intro exI [of _ mc'] exI [of _ ba'] exI [of _ mem'] conjI disjI2 exI [of _ vs]
            exI [of _ "pages_at 1 (page_no base slab) + F"] r f(2,3))
    next
      case ne: False
      from free_inner_slab [OF inv assms(2) put(1) ne] assms(4) pg obtain ba' mem' where
        f: "free_slab slab mc (ba, ?mem) = Inr (mc, ba', mem')" "mc_slabs mc \<noteq> slab" by auto
      then have "frees_inner_slab x mc mem" using so z(2) by (auto simp: frees_inner_slab_def)
      with f run z(1) show ?thesis by auto
    qed
  qed
qed

end
