(* ===== verification/Heap_Rep.thy ===== *)
theory Heap_Rep
  imports Slab_Rep
begin

text \<open>
  The state of the global allocator (\<open>kernel/src/mem/allocator/mod.rs\<close>): which blocks its
  clients hold, which slabs the caches have and which pages are free. Every page of the
  region is in exactly one of the three.
\<close>

section \<open>Sizes\<close>

definition cache_size :: "nat \<Rightarrow> nat" where
  "cache_size i = unat (cache_sizes ! i)"

definition big :: "u64 \<Rightarrow> bool" where
  "big sz \<longleftrightarrow> MAX_SLAB_ORDER < order sz"

text \<open>The number of pages of a big block.\<close>

definition npages :: "u64 \<Rightarrow> u64" where
  "npages sz = (sz + (PAGE_SIZE - 1)) div PAGE_SIZE"

lemma less_13: "i < 13 \<longleftrightarrow> i \<in> {0, 1, 2, 3, 4, 5, 6, 7, 8, 9, 10, 11, 12 :: nat}"
  by simp arith

lemma cache_size_eq: "i < 13 \<Longrightarrow> cache_size i = max 8 (2 ^ i)"
  unfolding less_13 by (elim insertE) (simp_all add: cache_size_def cache_sizes_def)

lemma cache_size_ok: "i < 13 \<Longrightarrow> size_ok (cache_size i)"
  unfolding less_13 by (elim insertE) (simp_all add: cache_size_def cache_sizes_def size_ok_def)

lemma trailing_zeros_0 [simp]: "trailing_zeros 0 = 64"
  by (simp add: trailing_zeros_def takeWhile_map comp_def takeWhile_eq_all_conv [THEN iffD2])

lemma order_large:
  assumes "2 ^ 15 < unat sz"
  shows "15 < order sz"
proof -
  have x: "unat (sz - 1) = unat sz - 1" using assms by (subst unat_sub_u64) (simp_all add: word_le_nat_alt)
  have "0 < unat (sz - 1)" using x assms by simp
  from power_bracket [OF this] obtain m where m: "2 ^ m \<le> unat (sz - 1)" "unat (sz - 1) < 2 ^ Suc m" by blast
  have "(2 :: nat) ^ 15 < 2 ^ Suc m" using m(2) x assms by linarith
  then have m15: "15 \<le> m" by (metis less_Suc_eq_le power_less_imp_less_exp one_less_numeral_iff semiring_norm(76))
  have "(2 :: nat) ^ m < 2 ^ 64" using le_less_trans [OF m(1) unat_u64_less] unfolding usize_range_eq .
  then have m64: "m < 64" by (metis power_less_imp_less_exp one_less_numeral_iff semiring_norm(76))
  have "next_power_of_two sz = push_bit (64 - leading_zeros (sz - 1)) 1"
    using assms by (simp add: next_power_of_two_def word_le_nat_alt)
  also have "64 - leading_zeros (sz - 1) = Suc m" using leading_zeros_eq [OF m m64] m64 by simp
  finally have e: "order sz = trailing_zeros (push_bit (Suc m) 1)" by (simp only: order_def)
  show ?thesis
  proof (cases "m = 63")
    case True
    then have "push_bit (Suc m) 1 = (0 :: u64)" by (simp add: push_bit_eq_mult)
    with e show ?thesis by (simp only: trailing_zeros_0)
  next
    case False
    with m64 have "trailing_zeros (push_bit (Suc m) 1) = Suc m" by (intro trailing_zeros_exp) simp
    with e m15 show ?thesis by simp
  qed
qed

lemma small_fits:
  assumes "\<not> big sz"
  shows "order sz < 13" and "unat sz \<le> cache_size (order sz)"
proof -
  have o: "order sz \<le> 12" using assms by (simp add: big_def MAX_SLAB_ORDER_def)
  then show lt: "order sz < 13" by simp
  have le: "unat sz \<le> 2 ^ 15" using order_large [of sz] o by linarith
  show "unat sz \<le> cache_size (order sz)"
  proof (cases "0 < unat sz")
    case True
    from order_eq(3) [OF this le] lt show ?thesis by (simp add: cache_size_eq)
  qed simp
qed

lemma big_pages:
  assumes "0 < unat (npages sz)"
  shows "unat sz \<le> unat (npages sz) * 4096"
proof (cases "unat sz + 4095 < usize_range")
  case True
  then have "unat (sz + 4095) = unat sz + 4095" by (simp add: unat_add_u64)
  then have "unat (npages sz) = (unat sz + 4095) div 4096" by (simp add: npages_def unat_div)
  then show ?thesis by simp
next
  case False
  have "unat (sz + 4095) = (unat sz + 4095) mod usize_range" by (simp add: unat_word_ariths)
  also have "\<dots> = (unat sz + 4095 - usize_range) mod usize_range" using False by (intro le_mod_geq) linarith
  also have "\<dots> \<le> unat sz + 4095 - usize_range" by (rule mod_less_eq_dividend)
  also have "\<dots> < 4096" using unat_u64_less [of sz] by linarith
  finally have "unat (sz + 4095) < 4096" .
  then have "unat (npages sz) = 0" by (simp add: npages_def unat_div)
  with assms show ?thesis by simp
qed

section \<open>The state\<close>

text \<open>
  \<open>F\<close> are the free pages, \<open>S i\<close> the slabs of the \<open>i\<close>-th cache and \<open>A\<close> the blocks the clients
  hold, each with its address and the size that was asked for.
\<close>

definition big_ok :: "nat \<Rightarrow> u64 \<times> u64 \<Rightarrow> bool" where
  "big_ok base = (\<lambda>(a, sz). base \<le> unat a \<and> (unat a - base) mod 4096 = 0 \<and> block_ok (page_no base a, npages sz))"

definition block_pages :: "nat \<Rightarrow> u64 \<times> u64 \<Rightarrow> nat multiset" where
  "block_pages base = (\<lambda>(a, sz). pages_at (order (npages sz)) (page_no base a))"

definition bigs :: "(u64 \<times> u64) list \<Rightarrow> (u64 \<times> u64) list" where
  "bigs A = filter (\<lambda>(a, sz). big sz) A"

definition smalls :: "nat \<Rightarrow> (u64 \<times> u64) list \<Rightarrow> u64 list" where
  "smalls i A = map fst (filter (\<lambda>(a, sz). order sz = i) A)"

definition big_held :: "nat \<Rightarrow> (u64 \<times> u64) list \<Rightarrow> nat multiset" where
  "big_held base A = sum_list (map (block_pages base) (bigs A))"

definition cache_pages :: "nat \<Rightarrow> (nat \<Rightarrow> (u64 \<times> u64 list) list) \<Rightarrow> nat multiset" where
  "cache_pages base S = (\<Sum>i < 13. slab_pages base (S i))"

definition heap_rep ::
  "nat \<Rightarrow> nat \<Rightarrow> nat multiset \<Rightarrow> (nat \<Rightarrow> (u64 \<times> u64 list) list) \<Rightarrow> (u64 \<times> u64) list \<Rightarrow> slab_state \<Rightarrow> bool" where
  "heap_rep base n F S A s \<longleftrightarrow>
     buddy_inv base n F (snd s) \<and> cache_pages base S + big_held base A + F = mset [0..<n] \<and>
     length (fst s) = 13 \<and> (\<forall>i < 13. cache_rep base (cache_size i) (fst s ! i) (S i) (snd (snd s))) \<and>
     list_all (big_ok base) (bigs A) \<and> (\<forall>i < 13. distinct (smalls i A) \<and> set (smalls i A) = live (cache_size i) (S i))"

lemma cache_pages_split:
  assumes "ord < 13"
  shows "cache_pages base S = slab_pages base (S ord) + (\<Sum>i \<in> {..<13} - {ord}. slab_pages base (S i))"
  unfolding cache_pages_def using assms by (intro sum.remove) simp_all

lemma cache_pages_upd:
  assumes "ord < 13"
  shows "cache_pages base (S(ord := sls)) + slab_pages base (S ord) = cache_pages base S + slab_pages base sls"
proof -
  have "(\<Sum>i \<in> {..<13} - {ord}. slab_pages base ((S(ord := sls)) i)) = (\<Sum>i \<in> {..<13} - {ord}. slab_pages base (S i))"
    by (rule sum.cong) auto
  then show ?thesis by (simp add: cache_pages_split [OF assms] ac_simps)
qed

lemma cache_pages_two:
  assumes "i < 13" and "j < 13" and "i \<noteq> j"
  shows "slab_pages base (S i) + slab_pages base (S j) \<subseteq># cache_pages base S"
proof -
  have "(\<Sum>k \<in> {..<13} - {i}. slab_pages base (S k)) = slab_pages base (S j) + (\<Sum>k \<in> {..<13} - {i} - {j}. slab_pages base (S k))"
    using assms by (intro sum.remove) auto
  then show ?thesis unfolding cache_pages_split [OF assms(1)] by simp
qed

lemma heap_pages:
  assumes "heap_rep base n F S A s"
  shows "region base n" and "i < 13 \<Longrightarrow> slab_pages base (S i) + F \<subseteq># mset [0..<n]"
    and "i < 13 \<Longrightarrow> j < 13 \<Longrightarrow> i \<noteq> j \<Longrightarrow> slab_pages base (S i) + slab_pages base (S j) \<subseteq># mset [0..<n]"
    and "i < 13 \<Longrightarrow> slab_pages base (S i) + big_held base A \<subseteq># mset [0..<n]" and "big_held base A + F \<subseteq># mset [0..<n]"
    and "i < 13 \<Longrightarrow> cache_rep base (cache_size i) (fst s ! i) (S i) (snd (snd s))"
    and "i < 13 \<Longrightarrow> set (smalls i A) = live (cache_size i) (S i)" and "i < 13 \<Longrightarrow> distinct (smalls i A)"
proof -
  have pg: "cache_pages base S + big_held base A + F = mset [0..<n]" using assms by (simp add: heap_rep_def)
  have "buddy_inv base n F (snd s)" using assms by (simp add: heap_rep_def)
  then show "region base n" by (rule buddy_inv_region)
  show "i < 13 \<Longrightarrow> slab_pages base (S i) + F \<subseteq># mset [0..<n]" unfolding pg [symmetric] cache_pages_split [of i] by simp
  show "i < 13 \<Longrightarrow> slab_pages base (S i) + big_held base A \<subseteq># mset [0..<n]" unfolding pg [symmetric] cache_pages_split [of i] by simp
  show "big_held base A + F \<subseteq># mset [0..<n]" unfolding pg [symmetric] by simp
  show "i < 13 \<Longrightarrow> j < 13 \<Longrightarrow> i \<noteq> j \<Longrightarrow> slab_pages base (S i) + slab_pages base (S j) \<subseteq># mset [0..<n]"
    using cache_pages_two [of i j base S] unfolding pg [symmetric] by (metis mset_subset_eq_add_left subset_mset.order_trans)
qed (use assms in \<open>simp_all add: heap_rep_def\<close>)

lemma hdr_word_pages:
  assumes "region base n" and "slab_pages base sls + M \<subseteq># mset [0..<n]" and "cache_rep base sz mc sls mem" and "hdr_word sls w"
  shows "in_pages base (slab_pages base sls) w"
proof -
  from assms(4) obtain slab fl where sl: "(slab, fl) \<in> set sls" "w = slab \<or> w = slab + 24" by (auto simp: hdr_word_def)
  from split_list [OF sl(1)] obtain us vs where sls: "sls = us @ (slab, fl) # vs" by blast
  note slab = cache_slab [OF assms(1) assms(2,3) [unfolded sls]]
  have "in_slab slab w" using sl(2) slab(2) by (auto simp: in_slab_def)
  with in_pages_mono [OF in_slab_pages [OF sl(1)]] show ?thesis by (simp add: in_slab_iff [OF slab(1)])
qed

text \<open>The words of a live object.\<close>

lemma live_word:
  assumes "region base n" and "size_ok sz" and "slab_pages base sls + M \<subseteq># mset [0..<n]" and "cache_rep base sz mc sls mem"
    and "x \<in> live sz sls" and "unat x \<le> unat w" and "unat w < unat x + sz"
  shows "in_pages base (slab_pages base sls) w" and "\<not> hdr_word sls w" and "unat x mod sz = 0" and "x \<noteq> 0"
    and "base \<le> unat x" and "unat x + sz \<le> base + n * 4096"
proof -
  from assms(5) obtain slab fl where sl: "(slab, fl) \<in> set sls" "x \<in> set (slab_objs sz slab)" by (auto simp: live_def)
  from split_list [OF sl(1)] obtain us vs where sls: "sls = us @ (slab, fl) # vs" by blast
  note slab = cache_slab [OF assms(1) assms(3,4) [unfolded sls]]
  note x = slab_obj_in [OF assms(2) slab(2) sl(2)]
  show "unat x mod sz = 0" "x \<noteq> 0" by (fact x)+
  have w: "in_slab slab w" using x(1,2) assms(6,7) by (simp add: in_slab_def)
  with in_pages_mono [OF in_slab_pages [OF sl(1)]] show "in_pages base (slab_pages base sls) w" by (simp add: in_slab_iff [OF slab(1)])
  from slab_okE [OF slab(1)] obtain k where k: "unat slab = base + k * 8192" "page_no base slab = k * 2" .
  have "pages_at 1 (page_no base slab) + (slab_pages base (us @ vs) + M) \<subseteq># mset [0..<n]"
    using assms(3) unfolding sls slab_pages_split .
  from block_bound [OF this] k x(1,2) show "base \<le> unat x" "unat x + sz \<le> base + n * 4096" by simp_all
  show "\<not> hdr_word sls w"
  proof
    assume "hdr_word sls w"
    then consider "w = slab \<or> w = slab + 24" | "hdr_word (us @ vs) w" by (auto simp: hdr_word_def sls)
    then show False
    proof cases
      case 1
      with x(1) assms(6) slab(2) show ?thesis by auto
    next
      case 2
      then obtain s g where s: "(s, g) \<in> set (us @ vs)" "w = s \<or> w = s + 24" by (auto simp: hdr_word_def)
      then have "(s, g) \<in> set sls" by (auto simp: sls)
      from split_list [OF this] obtain us' vs' where "sls = us' @ (s, g) # vs'" by blast
      with cache_slab [OF assms(1), of us' s g vs' M sz mc mem] assms(3,4) have ok: "slab_ok base s" "slab_fits s" by simp_all
      with s(2) have "in_slab s w" by (auto simp: in_slab_def)
      with in_pages_mono [OF in_slab_pages [OF s(1)]] have "in_pages base (slab_pages base (us @ vs)) w" by (simp add: in_slab_iff [OF ok(1)])
      with slab(4) [OF w] show ?thesis by simp
    qed
  qed
qed

section \<open>Blocks\<close>

text \<open>The room behind a block: whole pages or an object of its cache.\<close>

definition block_cap :: "u64 \<Rightarrow> nat" where
  "block_cap sz = (if big sz then unat (npages sz) * 4096 else cache_size (order sz))"

definition in_block :: "u64 \<times> u64 \<Rightarrow> u64 \<Rightarrow> bool" where
  "in_block = (\<lambda>(a, sz) w. unat a \<le> unat w \<and> unat w < unat a + block_cap sz)"

lemma bigs_simps [simp]:
  "bigs [] = []" "bigs ((a, sz) # A) = (if big sz then (a, sz) # bigs A else bigs A)" "bigs (A @ B) = bigs A @ bigs B"
  by (simp_all add: bigs_def)

lemma smalls_simps [simp]:
  "smalls i [] = []" "smalls i ((a, sz) # A) = (if order sz = i then a # smalls i A else smalls i A)"
  "smalls i (A @ B) = smalls i A @ smalls i B"
  by (simp_all add: smalls_def)

lemma in_bigs: "(a, sz) \<in> set (bigs A) \<longleftrightarrow> (a, sz) \<in> set A \<and> big sz"
  by (auto simp: bigs_def)

lemma in_smalls: "(a, sz) \<in> set A \<Longrightarrow> a \<in> set (smalls (order sz) A)"
  by (force simp: smalls_def)

lemma big_held_simps [simp]:
  "big_held base [] = {#}"
  "big_held base ((a, sz) # A) = (if big sz then block_pages base (a, sz) + big_held base A else big_held base A)"
  "big_held base (A @ B) = big_held base A + big_held base B"
  by (simp_all add: big_held_def)

lemma block_pages_held: "(a, sz) \<in> set A \<Longrightarrow> big sz \<Longrightarrow> block_pages base (a, sz) \<subseteq># big_held base A"
  by (induction A) (auto intro: subset_mset.order_trans)

lemma big_okE:
  assumes "big_ok base (a, sz)"
  shows "unat a = base + page_no base a * 4096" and "block_ok (page_no base a, npages sz)"
    and "unat (npages sz) \<le> 2 ^ order (npages sz)" and "0 < unat (npages sz)"
proof -
  have "base \<le> unat a" "4096 dvd unat a - base" using assms by (auto simp: big_ok_def)
  then show "unat a = base + page_no base a * 4096" by (simp add: page_no_def)
  show "block_ok (page_no base a, npages sz)" using assms by (simp add: big_ok_def)
  then show "0 < unat (npages sz)" "unat (npages sz) \<le> 2 ^ order (npages sz)" using order_eq(3) by (auto simp: block_ok_def)
qed

lemma big_word:
  assumes "big_ok base (a, sz)" and "big sz" and "in_block (a, sz) w"
  shows "in_pages base (block_pages base (a, sz)) w"
proof -
  note b = big_okE [OF assms(1)]
  define k where "k = page_no base a"
  have w: "base + k * 4096 \<le> unat w" "unat w < base + k * 4096 + unat (npages sz) * 4096"
    using assms(2,3) b(1) by (simp_all add: in_block_def block_cap_def k_def)
  have "k \<le> page_no base w" "page_no base w < k + unat (npages sz)" using w unfolding page_no_def by linarith+
  with b(3) w show ?thesis unfolding in_pages_def block_pages_def prod.case in_pages_at k_def [symmetric] by linarith
qed

lemma small_word:
  assumes "heap_rep base n F S A s" and "(a, sz) \<in> set A" and "\<not> big sz" and "in_block (a, sz) w"
  shows "in_pages base (slab_pages base (S (order sz))) w" and "\<not> hdr_word (S (order sz)) w"
    and "unat a mod cache_size (order sz) = 0" and "a \<noteq> 0" and "base \<le> unat a" and "unat a + cache_size (order sz) \<le> base + n * 4096"
proof -
  note o = small_fits(1) [OF assms(3)]
  have "a \<in> live (cache_size (order sz)) (S (order sz))" using in_smalls [OF assms(2)] heap_pages(7) [OF assms(1) o] by simp
  from live_word [OF heap_pages(1) [OF assms(1)] cache_size_ok [OF o] heap_pages(2) [OF assms(1) o] heap_pages(6) [OF assms(1) o] this, of w]
    assms(3,4)
  show "in_pages base (slab_pages base (S (order sz))) w" "\<not> hdr_word (S (order sz)) w" "unat a mod cache_size (order sz) = 0" "a \<noteq> 0"
    "base \<le> unat a" "unat a + cache_size (order sz) \<le> base + n * 4096"
    by (simp_all add: in_block_def block_cap_def)
qed

lemma heap_big_ok: "heap_rep base n F S A s \<Longrightarrow> (a, sz) \<in> set A \<Longrightarrow> big sz \<Longrightarrow> big_ok base (a, sz)"
  by (auto simp: heap_rep_def list_all_iff in_bigs)

text \<open>What a client holds is neither free nor part of a header.\<close>

lemma heap_word:
  assumes "heap_rep base n F S A s" and "(a, sz) \<in> set A" and "in_block (a, sz) w"
  shows "\<not> in_pages base F w" and "i < 13 \<Longrightarrow> \<not> hdr_word (S i) w"
    and "i < 13 \<Longrightarrow> big sz \<or> order sz \<noteq> i \<Longrightarrow> \<not> in_pages base (slab_pages base (S i)) w"
    and "base \<le> unat w" and "page_no base w < n"
proof -
  note pg = heap_pages [OF assms(1)]
  have hp: "\<not> hdr_word (S i) w" if "i < 13" "\<not> in_pages base (slab_pages base (S i)) w" for i
    using hdr_word_pages [OF pg(1) pg(2,6) [OF that(1)]] that(2) by blast
  have "\<not> in_pages base F w \<and> (i < 13 \<longrightarrow> \<not> hdr_word (S i) w) \<and> (i < 13 \<and> (big sz \<or> order sz \<noteq> i) \<longrightarrow> \<not> in_pages base (slab_pages base (S i)) w)
      \<and> in_pages base (mset [0..<n]) w" for i
  proof (cases "big sz")
    case True
    from big_word [OF heap_big_ok [OF assms(1,2) True] True assms(3)] in_pages_mono [OF block_pages_held [OF assms(2) True]]
    have w: "in_pages base (big_held base A) w" by blast
    have ni: "\<not> in_pages base (slab_pages base (S i)) w" if "i < 13" for i using pages_apart [OF pg(4) [OF that]] w by blast
    have "big_held base A \<subseteq># mset [0..<n]" using pg(5) by (metis mset_subset_eq_add_left subset_mset.order_trans)
    from in_pages_mono [OF this w] pages_apart [OF pg(5) w] ni hp show ?thesis by blast
  next
    case False
    note o = small_fits(1) [OF False] and w = small_word [OF assms(1,2) False assms(3)]
    have "slab_pages base (S (order sz)) \<subseteq># mset [0..<n]" using pg(2) [OF o] by (metis mset_subset_eq_add_left subset_mset.order_trans)
    from in_pages_mono [OF this w(1)] have "in_pages base (mset [0..<n]) w" .
    moreover have ni: "\<not> in_pages base (slab_pages base (S i)) w" if "i < 13" "order sz \<noteq> i" for i
      using pages_apart [OF pg(3) [OF o that] w(1)] .
    moreover have "\<not> hdr_word (S i) w" if "i < 13" for i using hp ni w(2) that by (cases "order sz = i") auto
    ultimately show ?thesis using pages_apart [OF pg(2) [OF o] w(1)] False by blast
  qed
  then show "\<not> in_pages base F w" "i < 13 \<Longrightarrow> \<not> hdr_word (S i) w"
    "i < 13 \<Longrightarrow> big sz \<or> order sz \<noteq> i \<Longrightarrow> \<not> in_pages base (slab_pages base (S i)) w" "base \<le> unat w" "page_no base w < n"
    by (auto simp: in_pages_def)
qed

text \<open>Blocks at different places of the list are apart.\<close>

lemma multiples_apart:
  assumes "a mod sz = 0" and "b mod sz = 0" and "a \<noteq> b" and "0 < (sz :: nat)"
  shows "a + sz \<le> b \<or> b + sz \<le> a"
proof -
  obtain i j where ij: "a = i * sz" "b = j * sz" using assms(1,2) by (metis mod_eq_0_iff_dvd dvd_def mult.commute)
  with assms(3) consider "Suc i \<le> j" | "Suc j \<le> i" by (metis Suc_leI linorder_neqE_nat)
  then show ?thesis
  proof cases
    case 1
    then have "Suc i * sz \<le> j * sz" by (rule mult_le_mono1)
    with ij show ?thesis by simp
  next
    case 2
    then have "Suc j * sz \<le> i * sz" by (rule mult_le_mono1)
    with ij show ?thesis by simp
  qed
qed

lemma block_word_apart:
  assumes "heap_rep base n F S (us @ (a, p) # vs) s" and "(b, q) \<in> set (us @ vs)" and "in_block (a, p) w"
  shows "\<not> in_block (b, q) w"
proof
  assume bw: "in_block (b, q) w"
  let ?A = "us @ (a, p) # vs"
  have a: "(a, p) \<in> set ?A" and b: "(b, q) \<in> set ?A" using assms(2) by auto
  note pg = heap_pages [OF assms(1)]
  consider (bb) "big p" "big q" | (bs) "big p" "\<not> big q" | (sb) "\<not> big p" "big q" | (ss) "\<not> big p" "\<not> big q" by blast
  then show False
  proof cases
    case bb
    have "block_pages base (a, p) + (big_held base (us @ vs) + F) = big_held base ?A + F" using bb by (simp add: ac_simps)
    with pg(5) have "block_pages base (a, p) + (big_held base (us @ vs) + F) \<subseteq># mset [0..<n]" by (simp only:)
    from pages_apart [OF this big_word [OF heap_big_ok [OF assms(1) a] _ assms(3)]] bb
    have "\<not> in_pages base (big_held base (us @ vs)) w" by auto
    with big_word [OF heap_big_ok [OF assms(1) b] _ bw] in_pages_mono [OF block_pages_held [OF assms(2)]] bb show ?thesis by blast
  next
    case bs
    from heap_word(3) [OF assms(1) a assms(3) small_fits(1) [OF bs(2)]] small_word(1) [OF assms(1) b bs(2) bw] bs show ?thesis by blast
  next
    case sb
    from heap_word(3) [OF assms(1) b bw small_fits(1) [OF sb(1)]] small_word(1) [OF assms(1) a sb(1) assms(3)] sb show ?thesis by blast
  next
    case ss
    show ?thesis
    proof (cases "order p = order q")
      case False
      with heap_word(3) [OF assms(1) b bw small_fits(1) [OF ss(1)]] small_word(1) [OF assms(1) a ss(1) assms(3)] show ?thesis by auto
    next
      case True
      note o = small_fits(1) [OF ss(1)]
      have "a \<notin> set (smalls (order p) (us @ vs))" using pg(8) [OF o] by simp
      with in_smalls [OF assms(2)] True have "a \<noteq> b" by auto
      with small_word(3) [OF assms(1) a ss(1) assms(3)] small_word(3) [OF assms(1) b ss(2) bw] True
        size_ok_facts(1) [OF cache_size_ok [OF o]]
      have "unat a + cache_size (order p) \<le> unat b \<or> unat b + cache_size (order p) \<le> unat a"
        by (intro multiples_apart) (simp_all add: u64_eq_iff_unat)
      with assms(3) bw ss True show ?thesis by (auto simp: in_block_def block_cap_def)
    qed
  qed
qed

lemma block_room:
  assumes "heap_rep base n F S A s" and "(a, sz) \<in> set A"
  shows "unat sz \<le> block_cap sz" and "0 < block_cap sz" and "a \<noteq> 0" and "base \<le> unat a" and "unat a + block_cap sz \<le> base + n * 4096"
proof -
  have "unat sz \<le> block_cap sz \<and> 0 < block_cap sz \<and> a \<noteq> 0 \<and> base \<le> unat a \<and> unat a + block_cap sz \<le> base + n * 4096"
  proof (cases "big sz")
    case True
    note b = big_okE [OF heap_big_ok [OF assms True]]
    have "0 < base" using heap_pages(1) [OF assms(1)] by (simp add: region_def)
    with b(1) have "a \<noteq> 0" by auto
    have "block_pages base (a, sz) + {#} \<subseteq># mset [0..<n]"
      using subset_mset.order_trans [OF block_pages_held [OF assms(2) True]] heap_pages(5) [OF assms(1)]
      by (metis add.right_neutral mset_subset_eq_add_left subset_mset.order_trans)
    from block_bound [OF this [unfolded block_pages_def prod.case]] b(3) have "page_no base a + unat (npages sz) \<le> n" by linarith
    then have "unat a + unat (npages sz) * 4096 \<le> base + n * 4096" using b(1) by linarith
    with \<open>a \<noteq> 0\<close> True b big_pages [OF b(4)] show ?thesis by (simp add: block_cap_def)
  next
    case False
    have s: "8 \<le> cache_size (order sz)" by (rule size_ok_facts(1) [OF cache_size_ok [OF small_fits(1) [OF False]]])
    then have "in_block (a, sz) a" using False by (simp add: in_block_def block_cap_def)
    from small_word [OF assms False this] small_fits [OF False] False s show ?thesis by (simp add: block_cap_def)
  qed
  then show "unat sz \<le> block_cap sz" "0 < block_cap sz" "a \<noteq> 0" "base \<le> unat a" "unat a + block_cap sz \<le> base + n * 4096" by simp_all
qed

lemma blocks_apart_heap:
  assumes "heap_rep base n F S A s" and "i < j" and "j < length A" and "A ! i = (a, p)" and "A ! j = (b, q)"
  shows "unat a + block_cap p \<le> unat b \<or> unat b + block_cap q \<le> unat a"
proof (rule ccontr)
  assume no: "\<not> ?thesis"
  have A: "A = take i A @ (a, p) # drop (Suc i) A" using id_take_nth_drop [of i A] assms(2-4) by simp
  have "(b, q) \<in> set (drop (Suc i) A)"
    using assms(2,3,5) by (auto simp: in_set_conv_nth intro!: exI [of _ "j - Suc i"])
  then have b: "(b, q) \<in> set (take i A @ drop (Suc i) A)" by simp
  have m: "(a, p) \<in> set A" "(b, q) \<in> set A" using assms(2-5) nth_mem [of i A] nth_mem [of j A] by simp_all
  note ra = block_room [OF assms(1) m(1)] and rb = block_room [OF assms(1) m(2)]
  define w where "w = (if unat a \<le> unat b then b else a)"
  have "in_block (a, p) w" "in_block (b, q) w" using no ra(2) rb(2) by (auto simp: in_block_def w_def)
  moreover have "heap_rep base n F S (take i A @ (a, p) # drop (Suc i) A) s" using assms(1) A by simp
  ultimately show False using block_word_apart [OF _ b] by blast
qed

section \<open>Operations on the state\<close>

lemma heap_buddy: "heap_rep base n F S A (caches, ba, mem) \<Longrightarrow> buddy_inv base n F (ba, mem)"
  by (simp add: heap_rep_def)

lemma other_cache:
  assumes "heap_rep base n F S A (caches, ba, mem)" and "i < 13" and "slab_pages base (S i) + G \<subseteq># mset [0..<n]"
    and "\<And>w. mem' w \<noteq> mem w \<Longrightarrow> in_pages base G w"
  shows "cache_rep base (cache_size i) (caches ! i) (S i) mem'"
proof -
  have "mem' w = mem w" if "in_pages base (slab_pages base (S i)) w" for w using pages_apart [OF assms(3) that] assms(4) by blast
  from cache_rep_cong [OF heap_pages(1) [OF assms(1)] cache_size_ok [OF assms(2)] assms(3) this]
    heap_pages(6) [OF assms(1,2)] show ?thesis by simp
qed

lemma heap_alloc_big:
  assumes "heap_rep base n F S A (caches, ba, mem)" and "big sz" and "alloc_pages (npages sz) (ba, mem) = (Some a, ba', mem')"
  shows "\<exists>F'. heap_rep base n F' S ((a, sz) # A) (caches, ba', mem')" and "mem' w \<noteq> mem w \<Longrightarrow> in_pages base F w"
proof -
  note inv = heap_buddy [OF assms(1)]
  show ch: "mem' w \<noteq> mem w \<Longrightarrow> in_pages base F w" for w using alloc_outside [OF inv assms(3)] by blast
  from buddy_alloc_some [OF inv assms(3)] obtain k F' where
    k: "unat a = base + k * 4096" "block_ok (k, npages sz)" "F = pages_at (order (npages sz)) k + F'" "buddy_inv base n F' (ba', mem')" by blast
  have no: "page_no base a = k" by (simp add: page_no_def k(1))
  have "cache_rep base (cache_size i) (caches ! i) (S i) mem'" if "i < 13" for i
    using other_cache [OF assms(1) that heap_pages(2) [OF assms(1) that]] ch by blast
  moreover have "cache_pages base S + big_held base ((a, sz) # A) + F' = mset [0..<n]"
    using assms(1,2) by (simp add: heap_rep_def block_pages_def no k(3) ac_simps)
  moreover have "big_ok base (a, sz)" using k(1,2) by (simp add: big_ok_def no)
  moreover have "i < 13 \<Longrightarrow> order sz \<noteq> i" for i using assms(2) by (auto simp: big_def MAX_SLAB_ORDER_def)
  ultimately show "\<exists>F'. heap_rep base n F' S ((a, sz) # A) (caches, ba', mem')"
    using assms(1,2) k(4) by (intro exI [of _ F']) (auto simp: heap_rep_def)
qed

lemma heap_free_big:
  assumes "heap_rep base n F S (us @ (a, sz) # vs) (caches, ba, mem)" and "big sz"
  shows "\<exists>ba' mem' F'. free_pages a (npages sz) (ba, mem) = Inr (ba', mem') \<and> heap_rep base n F' S (us @ vs) (caches, ba', mem') \<and>
    (\<forall>w. mem' w \<noteq> mem w \<longrightarrow> in_pages base F' w)"
proof -
  note inv = heap_buddy [OF assms(1)]
  let ?P = "block_pages base (a, sz)"
  have b: "unat a = base + page_no base a * 4096" "block_ok (page_no base a, npages sz)"
    using big_okE [OF heap_big_ok [OF assms(1) _ assms(2), of a]] by auto
  have held: "big_held base (us @ (a, sz) # vs) + F = big_held base (us @ vs) + (?P + F)" using assms(2) by (simp add: ac_simps)
  then have pg: "cache_pages base S + big_held base (us @ vs) + (?P + F) = mset [0..<n]"
    using assms(1) by (simp add: heap_rep_def add.assoc)
  then have sub: "?P + F \<subseteq># mset [0..<n]" by (metis mset_subset_eq_add_right)
  have sub': "slab_pages base (S i) + (?P + F) \<subseteq># mset [0..<n]" if "i < 13" for i
    unfolding pg [symmetric] cache_pages_split [OF that] by simp
  from buddy_release [OF inv b(2) _ b(1)] sub obtain ba' mem' where
    f: "free_pages a (npages sz) (ba, mem) = Inr (ba', mem')" "buddy_inv base n (?P + F) (ba', mem')" by (auto simp: block_pages_def)
  have ch: "in_pages base (?P + F) w" if "mem' w \<noteq> mem w" for w
  proof (rule ccontr)
    assume "\<not> in_pages base (?P + F) w"
    then have "\<forall>j \<in># pages_at (order (npages sz)) (page_no base a) + F. unat w \<noteq> base + j * 4096"
      by (auto simp: in_pages_def page_no_def block_pages_def)
    from buddy_release_keeps [OF inv b(2) _ b(1) f(1) this] sub that show False by (simp add: block_pages_def load_word_def)
  qed
  have "cache_rep base (cache_size i) (caches ! i) (S i) mem'" if "i < 13" for i
    using other_cache [OF assms(1) that sub' [OF that]] ch by blast
  moreover have "i < 13 \<Longrightarrow> order sz \<noteq> i" for i using assms(2) by (auto simp: big_def MAX_SLAB_ORDER_def)
  ultimately have "heap_rep base n (?P + F) S (us @ vs) (caches, ba', mem')"
    using assms pg f(2) by (auto simp: heap_rep_def)
  with f(1) ch show ?thesis by blast
qed

lemma heap_update:
  assumes "heap_rep base n F S A (caches, ba, mem)" and "ord < 13"
    and "buddy_inv base n F' (ba', mem')" and "cache_rep base (cache_size ord) mc sls mem'"
    and "slab_pages base sls + F' = slab_pages base (S ord) + F" and "\<And>w. mem' w \<noteq> mem w \<Longrightarrow> in_pages base (slab_pages base (S ord) + F) w"
    and "bigs A' = bigs A" and "\<And>i. i < 13 \<Longrightarrow> i \<noteq> ord \<Longrightarrow> smalls i A' = smalls i A"
    and "distinct (smalls ord A')" and "set (smalls ord A') = live (cache_size ord) sls"
  shows "heap_rep base n F' (S(ord := sls)) A' (caches[ord := mc], ba', mem')"
proof -
  have pg0: "cache_pages base S + big_held base A + F = mset [0..<n]" and len: "length caches = 13" using assms(1) by (simp_all add: heap_rep_def)
  have held: "big_held base A' = big_held base A" by (simp add: big_held_def assms(7))
  have "cache_pages base (S(ord := sls)) + big_held base A' + F' + slab_pages base (S ord) =
      (cache_pages base (S(ord := sls)) + slab_pages base (S ord)) + big_held base A + F'" by (simp add: held ac_simps)
  also have "\<dots> = cache_pages base S + big_held base A + (slab_pages base sls + F')"
    unfolding cache_pages_upd [OF assms(2)] by (simp add: ac_simps)
  also have "\<dots> = mset [0..<n] + slab_pages base (S ord)" unfolding assms(5) pg0 [symmetric] by (simp add: ac_simps)
  finally have pg: "cache_pages base (S(ord := sls)) + big_held base A' + F' = mset [0..<n]" by (rule add_right_imp_eq)
  have "slab_pages base (S i) + (slab_pages base (S ord) + F) \<subseteq># mset [0..<n]" if "i < 13" "i \<noteq> ord" for i
  proof -
    from cache_pages_two [OF that(1) assms(2) that(2), of base S]
    have "slab_pages base (S i) + slab_pages base (S ord) + F \<subseteq># cache_pages base S + F" by simp
    also have "\<dots> \<subseteq># mset [0..<n]" unfolding pg0 [symmetric] by simp
    finally show ?thesis by (simp only: add.assoc)
  qed
  with other_cache [OF assms(1)] assms(6) have "cache_rep base (cache_size i) (caches ! i) (S i) mem'" if "i < 13" "i \<noteq> ord" for i
    using that by blast
  then have "cache_rep base (cache_size i) (caches[ord := mc] ! i) ((S(ord := sls)) i) mem'" if "i < 13" for i
    using that assms(2,4) len by (cases "i = ord") auto
  moreover have "distinct (smalls i A') \<and> set (smalls i A') = live (cache_size i) ((S(ord := sls)) i)" if "i < 13" for i
    using that assms(8-10) heap_pages(7,8) [OF assms(1) that] by (cases "i = ord") auto
  ultimately show ?thesis using assms(1,3) pg len by (simp add: heap_rep_def assms(7))
qed

lemma heap_alloc_small:
  assumes "heap_rep base n F S A (caches, ba, mem)" and "\<not> big sz"
  shows "\<exists>r mc ba' mem' F' S'. mem_cache_alloc (caches ! order sz) (ba, mem) = Some (Inr (r, mc, ba', mem')) \<and>
    heap_rep base n F' S' (case r of None \<Rightarrow> A | Some a \<Rightarrow> (a, sz) # A) (caches[order sz := mc], ba', mem') \<and>
    (\<forall>w. mem' w \<noteq> mem w \<longrightarrow> in_pages base F w \<or> hdr_word (S (order sz)) w) \<and>
    pairs (ba, mem) \<le> (if r = None then 0 else Suc (pairs (ba', mem')))"
proof -
  let ?o = "order sz"
  note o = small_fits(1) [OF assms(2)] and pg = heap_pages [OF assms(1)]
  have rep: "cache_rep base (cache_size ?o) (caches ! ?o) (S ?o) mem" using pg(6) [OF o] by simp
  from mem_cache_alloc_rep [OF heap_buddy [OF assms(1)] cache_size_ok [OF o] rep pg(2) [OF o]]
  obtain r mc ba' mem' sls F' where
    r: "mem_cache_alloc (caches ! ?o) (ba, mem) = Some (Inr (r, mc, ba', mem'))" "buddy_inv base n F' (ba', mem')"
      "cache_rep base (cache_size ?o) mc sls mem'" "slab_pages base sls + F' = slab_pages base (S ?o) + F"
      "\<forall>w. mem' w \<noteq> mem w \<longrightarrow> in_pages base F w \<or> hdr_word (S ?o) w"
      "case r of None \<Rightarrow> live (cache_size ?o) sls = live (cache_size ?o) (S ?o)
       | Some x \<Rightarrow> x \<notin> live (cache_size ?o) (S ?o) \<and> live (cache_size ?o) sls = insert x (live (cache_size ?o) (S ?o))"
      "pairs (ba, mem) \<le> (if r = None then 0 else Suc (pairs (ba', mem')))" by (elim exE conjE) (rule that)
  let ?A = "case r of None \<Rightarrow> A | Some a \<Rightarrow> (a, sz) # A"
  have "in_pages base (slab_pages base (S ?o) + F) w" if "mem' w \<noteq> mem w" for w
    using r(5) that hdr_word_pages [OF pg(1) pg(2) [OF o] rep] by auto
  moreover have "bigs ?A = bigs A" using assms(2) by (cases r) simp_all
  moreover have "smalls i ?A = smalls i A" if "i \<noteq> ?o" for i using that by (cases r) auto
  moreover have "distinct (smalls ?o ?A)" "set (smalls ?o ?A) = live (cache_size ?o) sls"
    using r(6) pg(7,8) [OF o] by (cases r; simp)+
  ultimately have "heap_rep base n F' (S(?o := sls)) ?A (caches[?o := mc], ba', mem')"
    by (intro heap_update [OF assms(1) o r(2-4)])
  with r(1,5,7) show ?thesis by blast
qed

lemma heap_free_small:
  assumes "heap_rep base n F S (us @ (a, sz) # vs) (caches, ba, mem)" and "\<not> big sz"
  shows "\<exists>mc ba' mem'. mem_cache_free a (caches ! order sz) (ba, mem) = Some (Inr (mc, ba', mem')) \<and>
    (frees_inner_slab a (caches ! order sz) mem \<or> (\<exists>F' S'. heap_rep base n F' S' (us @ vs) (caches[order sz := mc], ba', mem') \<and>
      (\<forall>w. mem' w \<noteq> mem w \<longrightarrow> in_pages base F' w \<or> hdr_word (S (order sz)) w \<or> w = a)))"
proof -
  let ?o = "order sz"
  note o = small_fits(1) [OF assms(2)] and pg = heap_pages [OF assms(1)]
  have rep: "cache_rep base (cache_size ?o) (caches ! ?o) (S ?o) mem" using pg(6) [OF o] by simp
  have a: "a \<in> live (cache_size ?o) (S ?o)" using in_smalls [of a sz] pg(7) [OF o] by auto
  from mem_cache_free_rep [OF heap_buddy [OF assms(1)] cache_size_ok [OF o] rep pg(2) [OF o] a] obtain mc ba' mem' where
    run: "mem_cache_free a (caches ! ?o) (ba, mem) = Some (Inr (mc, ba', mem'))" and
    "frees_inner_slab a (caches ! ?o) mem \<or> (\<exists>sls F'. buddy_inv base n F' (ba', mem') \<and> cache_rep base (cache_size ?o) mc sls mem' \<and>
      slab_pages base sls + F' = slab_pages base (S ?o) + F \<and> live (cache_size ?o) sls = live (cache_size ?o) (S ?o) - {a} \<and>
      (\<forall>w. mem' w \<noteq> mem w \<longrightarrow> in_pages base F' w \<or> hdr_word (S ?o) w \<or> w = a))" by (elim exE conjE) (rule that)
  then consider "frees_inner_slab a (caches ! ?o) mem"
    | sls F' where "buddy_inv base n F' (ba', mem')" "cache_rep base (cache_size ?o) mc sls mem'"
      "slab_pages base sls + F' = slab_pages base (S ?o) + F" "live (cache_size ?o) sls = live (cache_size ?o) (S ?o) - {a}"
      "\<forall>w. mem' w \<noteq> mem w \<longrightarrow> in_pages base F' w \<or> hdr_word (S ?o) w \<or> w = a" by blast
  then show ?thesis
  proof cases
    case 2
    have sub: "F' \<subseteq># slab_pages base (S ?o) + F" unfolding 2(3) [symmetric] by simp
    have "in_pages base (slab_pages base (S ?o)) a" by (rule live_in_pages [OF pg(1) cache_size_ok [OF o] pg(2) [OF o] rep a])
    then have "in_pages base (slab_pages base (S ?o) + F) w" if "mem' w \<noteq> mem w" for w
      using 2(5) that in_pages_mono [OF sub] hdr_word_pages [OF pg(1) pg(2) [OF o] rep] by (metis in_pages_union)
    moreover have "bigs (us @ vs) = bigs (us @ (a, sz) # vs)" using assms(2) by simp
    moreover have "smalls i (us @ vs) = smalls i (us @ (a, sz) # vs)" if "i \<noteq> ?o" for i using that by simp
    moreover have "distinct (smalls ?o (us @ vs))" "set (smalls ?o (us @ vs)) = live (cache_size ?o) sls"
      using 2(4) pg(7,8) [OF o] by auto
    ultimately have "heap_rep base n F' (S(?o := sls)) (us @ vs) (caches[?o := mc], ba', mem')"
      by (intro heap_update [OF assms(1) o 2(1-3)])
    with run 2(5) show ?thesis by blast
  qed (use run in blast)
qed

lemma live_store:
  assumes "region base n" and "size_ok sz" and "slab_pages base sls + M \<subseteq># mset [0..<n]" and "cache_rep base sz mc sls mem"
    and "x \<in> live sz sls" and "unat x \<le> unat w" and "unat w < unat x + sz"
  shows "cache_rep base sz mc sls (mem(w := v))"
proof -
  from assms(5) obtain slab fl where sl: "(slab, fl) \<in> set sls" "x \<in> set (slab_objs sz slab)" "x \<notin> set fl" by (auto simp: live_def)
  from split_list [OF sl(1)] obtain us vs where sls: "sls = us @ (slab, fl) # vs" by blast
  note slab = cache_slab [OF assms(1) assms(3,4) [unfolded sls]]
  note x = slab_obj_in [OF assms(2) slab(2) sl(2)]
  have w: "unat slab + 40 \<le> unat w" "in_slab slab w" using x(1,2) assms(6,7) by (auto simp: in_slab_def)
  then have hdr: "w \<noteq> slab" "w \<noteq> slab + 8" "w \<noteq> slab + 16" "w \<noteq> slab + 24" "w \<noteq> slab + 32" using slab(2) by auto
  have "w \<notin> set fl"
  proof
    assume "w \<in> set fl"
    moreover from this have "w \<in> set (slab_objs sz slab)" using slab(3) by (auto simp: slab_rep_def)
    ultimately have "unat x + sz \<le> unat w \<or> unat w + sz \<le> unat x"
      using x(3) slab_obj_in(3) [OF assms(2) slab(2)] sl(3) size_ok_facts(1) [OF assms(2)]
      by (intro multiples_apart) (auto simp: u64_eq_iff_unat [symmetric])
    with assms(6,7) size_ok_facts(1) [OF assms(2)] show False by linarith
  qed
  then have "slab_rep (mem(w := v)) sz slab fl" using slab(3) hdr by (simp add: slab_rep_def chain_upd)
  moreover have "(mem(w := v)) u = mem u" if "\<not> in_slab slab u" for u using that w(2) by auto
  ultimately show ?thesis unfolding sls
    by (intro cache_rep_update [OF assms(1,2) assms(3,4) [unfolded sls]]) (use hdr(5) in simp_all)
qed

lemma heap_store:
  assumes "heap_rep base n F S A (caches, ba, mem)" and "(a, sz) \<in> set A" and "in_block (a, sz) w"
  shows "heap_rep base n F S A (caches, ba, mem(w := v))" and "pairs (ba, mem(w := v)) = pairs (ba, mem)"
proof -
  note hw = heap_word [OF assms]
  show "pairs (ba, mem(w := v)) = pairs (ba, mem)"
    by (rule buddy_inv_cong(2) [OF heap_buddy [OF assms(1)]]) (use hw(1) in auto)
  have "buddy_inv base n F (ba, mem(w := v))"
    by (rule buddy_inv_cong(1) [OF heap_buddy [OF assms(1)]]) (use hw(1) in auto)
  moreover have "cache_rep base (cache_size i) (caches ! i) (S i) (mem(w := v))" if i: "i < 13" for i
  proof (cases "big sz \<or> order sz \<noteq> i")
    case True
    show ?thesis
    proof (rule cache_rep_cong [OF heap_pages(1) [OF assms(1)] cache_size_ok [OF i] heap_pages(2) [OF assms(1) i]])
      show "(mem(w := v)) u = mem u" if "in_pages base (slab_pages base (S i)) u" for u using that hw(3) [OF i True] by auto
      show "cache_rep base (cache_size i) (caches ! i) (S i) mem" using heap_pages(6) [OF assms(1) i] by simp
    qed
  next
    case False
    then have "a \<in> live (cache_size i) (S i)" using in_smalls [OF assms(2)] heap_pages(7) [OF assms(1) i] by simp
    from live_store [OF heap_pages(1) [OF assms(1)] cache_size_ok [OF i] heap_pages(2) [OF assms(1) i] _ this] heap_pages(6) [OF assms(1) i]
      assms(3) False show ?thesis by (simp add: in_block_def block_cap_def)
  qed
  ultimately show "heap_rep base n F S A (caches, ba, mem(w := v))" using assms(1) by (simp add: heap_rep_def)
qed

end
