(* ===== verification/Heap.thy ===== *)
theory Heap
  imports Heap_Rep
begin

text \<open>
  The contract of the kernel's heap, \<open>GlobalAllocator\<close> of \<open>kernel/src/mem/allocator/mod.rs\<close>.
  The locale \<open>heap_source\<close> states what a client of \<open>alloc\<close> and \<open>dealloc\<close> may rely on, over the
  list of blocks that are held; whole runs of clients are treated from the laws alone, and
  the allocator is shown to have them. The one exception, a free that empties a slab
  which is not the first of its cache, is part of the contract.
\<close>

section \<open>Client runs\<close>

inductive heap_step ::
  "(u64 \<Rightarrow> u64 \<Rightarrow> 's \<Rightarrow> (u64 \<times> 's) result) \<Rightarrow> (u64 \<Rightarrow> u64 \<Rightarrow> 's \<Rightarrow> 's result) \<Rightarrow> (u64 \<Rightarrow> u64 \<Rightarrow> 's \<Rightarrow> bool) \<Rightarrow>
   (u64 \<Rightarrow> u64 \<Rightarrow> 's \<Rightarrow> 's) \<Rightarrow> 's \<times> (u64 \<times> u64) list \<Rightarrow> 's \<times> (u64 \<times> u64) list \<Rightarrow> bool"
  for alloc release inner store where
  take: "alloc sz align s = Inr (a, s') \<Longrightarrow> a \<noteq> 0 \<Longrightarrow> heap_step alloc release inner store (s, A) (s', (a, sz) # A)"
| refuse: "alloc sz align s = Inr (0, s') \<Longrightarrow> heap_step alloc release inner store (s, A) (s', A)"
| give: "(a, sz) \<in> set A \<Longrightarrow> \<not> inner a sz s \<Longrightarrow> release a sz s = Inr s' \<Longrightarrow>
    heap_step alloc release inner store (s, A) (s', remove1 (a, sz) A)"
| put: "(a, sz) \<in> set A \<Longrightarrow> unat a \<le> unat w \<Longrightarrow> unat w < unat a + unat sz \<Longrightarrow>
    heap_step alloc release inner store (s, A) (store w v s, A)"

inductive_cases heap_stepE [consumes 1, case_names take refuse give put]: "heap_step alloc release inner store (s, A) t"

text \<open>Alignments that the allocator can serve: divisors of the object size, or of a page.\<close>

definition align_ok :: "u64 \<Rightarrow> u64 \<Rightarrow> bool" where
  "align_ok sz align \<longleftrightarrow> unat align dvd (if big sz then 4096 else cache_size (order sz))"

section \<open>The contract\<close>

locale heap_source =
  fixes alloc :: "u64 \<Rightarrow> u64 \<Rightarrow> 's \<Rightarrow> (u64 \<times> 's) result"
    and release :: "u64 \<Rightarrow> u64 \<Rightarrow> 's \<Rightarrow> 's result"
    and inner :: "u64 \<Rightarrow> u64 \<Rightarrow> 's \<Rightarrow> bool"
    and load :: "u64 \<Rightarrow> 's \<Rightarrow> u64"
    and store :: "u64 \<Rightarrow> u64 \<Rightarrow> 's \<Rightarrow> 's"
    and lo :: nat
    and hi :: nat
    and inv :: "(u64 \<times> u64) list \<Rightarrow> 's \<Rightarrow> bool"
  assumes alloc_returns: "inv A s \<Longrightarrow> align_ok sz align \<Longrightarrow> \<exists>r. alloc sz align s = Inr r"
    and alloc_inv: "inv A s \<Longrightarrow> alloc sz align s = Inr (a, s') \<Longrightarrow> inv (if a = 0 then A else (a, sz) # A) s'"
    and alloc_aligned: "inv A s \<Longrightarrow> alloc sz align s = Inr (a, s') \<Longrightarrow> unat a mod unat align = 0"
    and alloc_same: "inv A s \<Longrightarrow> alloc sz align s = Inr (a, s') \<Longrightarrow> blk \<in> set A \<Longrightarrow> in_block blk w \<Longrightarrow> load w s' = load w s"
    and release_returns: "inv A s \<Longrightarrow> (a, sz) \<in> set A \<Longrightarrow> \<exists>s'. release a sz s = Inr s'"
    and release_inv: "inv A s \<Longrightarrow> (a, sz) \<in> set A \<Longrightarrow> \<not> inner a sz s \<Longrightarrow> release a sz s = Inr s' \<Longrightarrow> inv (remove1 (a, sz) A) s'"
    and release_same: "inv A s \<Longrightarrow> (a, sz) \<in> set A \<Longrightarrow> \<not> inner a sz s \<Longrightarrow> release a sz s = Inr s' \<Longrightarrow>
      blk \<in> set (remove1 (a, sz) A) \<Longrightarrow> in_block blk w \<Longrightarrow> load w s' = load w s"
    and store_inv: "inv A s \<Longrightarrow> blk \<in> set A \<Longrightarrow> in_block blk w \<Longrightarrow> inv A (store w v s)"
    and load_store: "load w (store u v s) = (if w = u then v else load w s)"
    and room: "inv A s \<Longrightarrow> (a, sz) \<in> set A \<Longrightarrow> a \<noteq> 0 \<and> unat sz \<le> block_cap sz \<and> lo \<le> unat a \<and> unat a + block_cap sz \<le> hi"
    and apart: "inv A s \<Longrightarrow> i < j \<Longrightarrow> j < length A \<Longrightarrow> A ! i = (a, p) \<Longrightarrow> A ! j = (b, q) \<Longrightarrow>
      unat a + block_cap p \<le> unat b \<or> unat b + block_cap q \<le> unat a"
begin

lemma block_word: "inv A s \<Longrightarrow> (a, sz) \<in> set A \<Longrightarrow> unat a \<le> unat w \<Longrightarrow> unat w < unat a + unat sz \<Longrightarrow> in_block (a, sz) w"
  using room [of A s a sz] by (simp add: in_block_def)

lemma run_keeps_inv:
  assumes "(heap_step alloc release inner store)\<^sup>*\<^sup>* (s, A) t" and "inv A s"
  shows "inv (snd t) (fst t)"
  using assms(1)
proof (induction rule: rtranclp_induct)
  case base
  then show ?case using assms(2) by simp
next
  case (step t u)
  obtain s1 A1 where t: "t = (s1, A1)" by (cases t)
  have i: "inv A1 s1" using step.IH by (simp add: t)
  from step.hyps(2) [unfolded t] show ?case
  proof (cases rule: heap_stepE)
    case (take sz align a s')
    with alloc_inv [OF i take(2)] show ?thesis by simp
  next
    case (refuse sz align s')
    with alloc_inv [OF i refuse(2)] show ?thesis by simp
  next
    case (give a sz s')
    with release_inv [OF i give(2-4)] show ?thesis by simp
  next
    case (put a sz w v)
    with store_inv [OF i put(2) block_word [OF i put(2-4)]] show ?thesis by simp
  qed
qed

lemma step_same:
  assumes "inv A s" and "heap_step alloc release inner (\<lambda>_ _ s. s) (s, A) (s', A')"
    and "(a, sz) \<in> set A" and "(a, sz) \<in> set A'" and "unat a \<le> unat w" and "unat w < unat a + unat sz"
  shows "load w s' = load w s"
proof -
  note w = block_word [OF assms(1,3,5,6)]
  from assms(2) show ?thesis
  proof (cases rule: heap_stepE)
    case (take sz align a)
    with alloc_same [OF assms(1) take(2) assms(3) w] show ?thesis by simp
  next
    case (refuse sz align)
    with alloc_same [OF assms(1) refuse(2) assms(3) w] show ?thesis by simp
  next
    case (give b q)
    with release_same [OF assms(1) give(2-4), of "(a, sz)" w] w assms(4) show ?thesis by simp
  qed simp
qed

lemma held_apart_sizes:
  assumes "inv A s" and "i < j" and "j < length A" and "A ! i = (a, p)" and "A ! j = (b, q)"
  shows "unat a + unat p \<le> unat b \<or> unat b + unat q \<le> unat a"
proof -
  have "(a, p) \<in> set A" "(b, q) \<in> set A" using assms(2-5) nth_mem [of i A] nth_mem [of j A] by auto
  with room [OF assms(1)] apart [OF assms] show ?thesis by (meson add_left_mono le_trans)
qed

end

section \<open>The global allocator keeps the contract\<close>

definition heap_load :: "u64 \<Rightarrow> slab_state \<Rightarrow> u64" where
  "heap_load w = (\<lambda>(caches, ba, mem). mem w)"

definition heap_store_word :: "u64 \<Rightarrow> u64 \<Rightarrow> slab_state \<Rightarrow> slab_state" where
  "heap_store_word w v = (\<lambda>(caches, ba, mem). (caches, ba, mem(w := v)))"

definition frees_inner :: "u64 \<Rightarrow> u64 \<Rightarrow> slab_state \<Rightarrow> bool" where
  "frees_inner a sz = (\<lambda>(caches, ba, mem). \<not> big sz \<and> frees_inner_slab a (caches ! order sz) mem)"

definition heap_inv :: "nat \<Rightarrow> nat \<Rightarrow> (u64 \<times> u64) list \<Rightarrow> slab_state \<Rightarrow> bool" where
  "heap_inv base n A s \<longleftrightarrow> (\<exists>F S. heap_rep base n F S A s)"

lemma heap_length: "heap_rep base n F S A (caches, st) \<Longrightarrow> length caches = 13"
  by (simp add: heap_rep_def)

lemma global_alloc_run:
  assumes "heap_inv base n A s"
  shows "\<exists>a s'. heap_inv base n (if a = 0 then A else (a, sz) # A) s' \<and>
    (\<forall>blk \<in> set A. \<forall>w. in_block blk w \<longrightarrow> heap_load w s' = heap_load w s) \<and>
    global_alloc sz align s = (if a \<noteq> 0 then check (align \<noteq> 0 \<and> a mod align = 0) (Inr (a, s')) else Inr (0, s')) \<and>
    (\<not> big sz \<longrightarrow> pairs (snd s) \<le> (if a = 0 then 0 else Suc (pairs (snd s'))))"
proof -
  obtain caches ba mem where s: "s = (caches, ba, mem)" by (metis prod.exhaust)
  from assms obtain F S where rep: "heap_rep base n F S A (caches, ba, mem)" by (auto simp: heap_inv_def s)
  show ?thesis
  proof (cases "big sz")
    case True
    obtain r ba' mem' where al: "alloc_pages (npages sz) (ba, mem) = (r, ba', mem')" by (metis prod.exhaust)
    have run: "global_alloc sz align s = (let result = (case r of None \<Rightarrow> 0 | Some a \<Rightarrow> a) in
        if result \<noteq> 0 then check (align \<noteq> 0 \<and> result mod align = 0) (Inr (result, caches, ba', mem')) else Inr (result, caches, ba', mem'))"
      using True al by (simp add: global_alloc_def s big_def npages_def)
    show ?thesis
    proof (cases r)
      case None
      have "(ba', mem') = (ba, mem)" by (rule buddy_alloc_none [OF heap_buddy [OF rep] al [unfolded None]])
      with None run assms s True show ?thesis by (intro exI [of _ 0] exI [of _ s]) auto
    next
      case (Some a)
      note big = heap_alloc_big [OF rep True al [unfolded Some]]
      from big(1) obtain F' where rep': "heap_rep base n F' S ((a, sz) # A) (caches, ba', mem')" ..
      have "a \<noteq> 0" using block_room(3) [OF rep', of a sz] by simp
      moreover have "mem' w = mem w" if "blk \<in> set A" "in_block blk w" for blk w
        using heap_word(1) [OF rep, of "fst blk" "snd blk" w] that big(2) [of w] by auto
      ultimately show ?thesis using run Some rep' s True
        by (intro exI [of _ a] exI [of _ "(caches, ba', mem')"]) (auto simp: heap_inv_def heap_load_def)
    qed
  next
    case False
    note o = small_fits(1) [OF False]
    from heap_alloc_small [OF rep False] obtain r mc ba' mem' F' S' where
      r: "mem_cache_alloc (caches ! order sz) (ba, mem) = Some (Inr (r, mc, ba', mem'))"
        "heap_rep base n F' S' (case r of None \<Rightarrow> A | Some a \<Rightarrow> (a, sz) # A) (caches[order sz := mc], ba', mem')"
        "\<forall>w. mem' w \<noteq> mem w \<longrightarrow> in_pages base F w \<or> hdr_word (S (order sz)) w"
        "pairs (ba, mem) \<le> (if r = None then 0 else Suc (pairs (ba', mem')))" by (elim exE conjE) (rule that)
    have "MAX_SLAB_ORDER = 12" by (simp add: MAX_SLAB_ORDER_def)
    then have run: "global_alloc sz align s = (let result = (case r of None \<Rightarrow> 0 | Some a \<Rightarrow> a); s' = (caches[order sz := mc], ba', mem') in
        if result \<noteq> 0 then check (align \<noteq> 0 \<and> result mod align = 0) (Inr (result, s')) else Inr (result, s'))"
      using False o heap_length [OF rep] r(1) by (simp add: global_alloc_def slab_alloc_def run_loop_def s big_def Let_def)
    have same: "mem' w = mem w" if "blk \<in> set A" "in_block blk w" for blk w
      using heap_word(1,2) [OF rep, of "fst blk" "snd blk" w] that r(3) o by auto
    show ?thesis
    proof (cases r)
      case None
      with run r(2,4) same show ?thesis
        by (intro exI [of _ 0] exI [of _ "(caches[order sz := mc], ba', mem')"]) (auto simp: heap_inv_def heap_load_def s)
    next
      case (Some a)
      with r(2) have rep': "heap_rep base n F' S' ((a, sz) # A) (caches[order sz := mc], ba', mem')" by simp
      have "a \<noteq> 0" using block_room(3) [OF rep', of a sz] by simp
      with run Some rep' same r(4) show ?thesis
        by (intro exI [of _ a] exI [of _ "(caches[order sz := mc], ba', mem')"]) (auto simp: heap_inv_def heap_load_def s)
    qed
  qed
qed

lemma global_dealloc_run:
  assumes "heap_inv base n A s" and "(a, sz) \<in> set A"
  shows "\<exists>s'. global_dealloc a sz s = Inr s' \<and> (frees_inner a sz s \<or>
    heap_inv base n (remove1 (a, sz) A) s' \<and>
    (\<forall>blk \<in> set (remove1 (a, sz) A). \<forall>w. in_block blk w \<longrightarrow> heap_load w s' = heap_load w s))"
proof -
  obtain caches ba mem where s: "s = (caches, ba, mem)" by (metis prod.exhaust)
  from split_list_first [OF assms(2)] obtain us vs where A: "A = us @ (a, sz) # vs" "(a, sz) \<notin> set us" by blast
  then have rem: "remove1 (a, sz) A = us @ vs" by (simp add: remove1_append)
  from assms(1) obtain F S where rep: "heap_rep base n F S (us @ (a, sz) # vs) (caches, ba, mem)" by (auto simp: heap_inv_def s A(1))
  show ?thesis
  proof (cases "big sz")
    case True
    from heap_free_big [OF rep True] obtain ba' mem' F' where
      f: "free_pages a (npages sz) (ba, mem) = Inr (ba', mem')" "heap_rep base n F' S (us @ vs) (caches, ba', mem')"
        "\<forall>w. mem' w \<noteq> mem w \<longrightarrow> in_pages base F' w" by blast
    have "global_dealloc a sz s = Inr (caches, ba', mem')" using True f(1) by (simp add: global_dealloc_def s big_def npages_def)
    moreover have "mem' w = mem w" if "blk \<in> set (us @ vs)" "in_block blk w" for blk w
      using heap_word(1) [OF f(2), of "fst blk" "snd blk" w] that f(3) by auto
    ultimately show ?thesis using f(2) unfolding rem by (auto simp: heap_inv_def heap_load_def s)
  next
    case False
    note o = small_fits(1) [OF False]
    from heap_free_small [OF rep False] obtain mc ba' mem' where
      f: "mem_cache_free a (caches ! order sz) (ba, mem) = Some (Inr (mc, ba', mem'))"
        "frees_inner_slab a (caches ! order sz) mem \<or> (\<exists>F' S'. heap_rep base n F' S' (us @ vs) (caches[order sz := mc], ba', mem') \<and>
          (\<forall>w. mem' w \<noteq> mem w \<longrightarrow> in_pages base F' w \<or> hdr_word (S (order sz)) w \<or> w = a))" by (elim exE conjE) (rule that)
    have "MAX_SLAB_ORDER = 12" by (simp add: MAX_SLAB_ORDER_def)
    then have run: "global_dealloc a sz s = Inr (caches[order sz := mc], ba', mem')"
      using False o heap_length [OF rep] f(1) by (simp add: global_dealloc_def slab_free_def run_loop_def s big_def)
    show ?thesis
    proof (cases "frees_inner_slab a (caches ! order sz) mem")
      case True
      with False run show ?thesis by (simp add: frees_inner_def s)
    next
      case nf: False
      with f(2) obtain F' S' where
        g: "heap_rep base n F' S' (us @ vs) (caches[order sz := mc], ba', mem')"
          "\<forall>w. mem' w \<noteq> mem w \<longrightarrow> in_pages base F' w \<or> hdr_word (S (order sz)) w \<or> w = a" by blast
      have ina: "in_block (a, sz) a" using block_room(2) [OF rep, of a sz] by (simp add: in_block_def)
      have "mem' w = mem w" if "blk \<in> set (us @ vs)" "in_block blk w" for blk w
      proof -
        obtain b q where blk: "blk = (b, q)" by (cases blk)
        have "\<not> in_pages base F' w" using heap_word(1) [OF g(1), of b q w] that blk by simp
        moreover have "\<not> hdr_word (S (order sz)) w" using heap_word(2) [OF rep, of b q w] that blk o by auto
        moreover have "w \<noteq> a" using block_word_apart [OF rep that(1) [unfolded blk] ina] that(2) blk by auto
        ultimately show ?thesis using g(2) by blast
      qed
      with run g(1) show ?thesis unfolding rem by (auto simp: heap_inv_def heap_load_def s)
    qed
  qed
qed

text \<open>A block is aligned to its object size, or to a page.\<close>

lemma block_aligned:
  assumes "heap_inv base n A s" and "(a, sz) \<in> set A" and "align_ok sz align"
  shows "align \<noteq> 0" and "a mod align = 0"
proof -
  from assms(1) obtain F S where rep: "heap_rep base n F S A s" by (auto simp: heap_inv_def)
  have "unat a mod (if big sz then 4096 else cache_size (order sz)) = 0"
  proof (cases "big sz")
    case True
    from big_okE(1) [OF heap_big_ok [OF rep assms(2) True]] have "unat a mod 4096 = base mod 4096" by (metis mod_mult_self1)
    with True heap_pages(1) [OF rep] show ?thesis by (simp add: region_def)
  next
    case False
    have "in_block (a, sz) a" using block_room(2) [OF rep assms(2)] by (simp add: in_block_def)
    from small_word(3) [OF rep assms(2) False this] False show ?thesis by simp
  qed
  from dvd_trans [OF assms(3) [unfolded align_ok_def] mod_0_imp_dvd [OF this]] have "unat align dvd unat a" .
  then have "unat (a mod align) = 0" by (simp add: unat_mod)
  then show "a mod align = 0" by (simp add: unat_eq_0)
  have "0 < (if big sz then 4096 else cache_size (order sz))"
    using size_ok_facts(1) [OF cache_size_ok [OF small_fits(1)], of sz] by auto
  then show "align \<noteq> 0" using assms(3) by (auto simp: align_ok_def)
qed

lemma heap_store_inv:
  assumes "heap_inv base n A s" and "blk \<in> set A" and "in_block blk w"
  shows "heap_inv base n A (heap_store_word w v s)" and "pairs (snd (heap_store_word w v s)) = pairs (snd s)"
proof -
  obtain caches ba mem where s: "s = (caches, ba, mem)" by (metis prod.exhaust)
  from assms(1) obtain F S where "heap_rep base n F S A (caches, ba, mem)" by (auto simp: heap_inv_def s)
  from heap_store [OF this, of "fst blk" "snd blk" w v] assms(2,3)
  show "heap_inv base n A (heap_store_word w v s)" "pairs (snd (heap_store_word w v s)) = pairs (snd s)"
    by (auto simp: heap_inv_def heap_store_word_def s)
qed

lemma heap_alloc_laws:
  assumes "heap_inv base n A s"
  shows "align_ok sz align \<Longrightarrow> \<exists>r. global_alloc sz align s = Inr r"
    and "global_alloc sz align s = Inr (a, s') \<Longrightarrow> heap_inv base n (if a = 0 then A else (a, sz) # A) s'"
    and "global_alloc sz align s = Inr (a, s') \<Longrightarrow> unat a mod unat align = 0"
    and "global_alloc sz align s = Inr (a, s') \<Longrightarrow> blk \<in> set A \<Longrightarrow> in_block blk w \<Longrightarrow> heap_load w s' = heap_load w s"
    and "global_alloc sz align s = Inr (a, s') \<Longrightarrow> \<not> big sz \<Longrightarrow> pairs (snd s) \<le> (if a = 0 then 0 else Suc (pairs (snd s')))"
proof -
  from global_alloc_run [OF assms, of sz align] obtain b t where
    r: "heap_inv base n (if b = 0 then A else (b, sz) # A) t" "\<forall>blk \<in> set A. \<forall>w. in_block blk w \<longrightarrow> heap_load w t = heap_load w s"
      "global_alloc sz align s = (if b \<noteq> 0 then check (align \<noteq> 0 \<and> b mod align = 0) (Inr (b, t)) else Inr (0, t))"
      "\<not> big sz \<longrightarrow> pairs (snd s) \<le> (if b = 0 then 0 else Suc (pairs (snd t)))" by (elim exE conjE) (rule that)
  show "\<exists>r. global_alloc sz align s = Inr r" if "align_ok sz align"
  proof (cases "b = 0")
    case False
    with r(1) have "heap_inv base n ((b, sz) # A) t" by simp
    from block_aligned [OF this _ that, of b] False r(3) have "global_alloc sz align s = Inr (b, t)" by simp
    then show ?thesis ..
  next
    case True
    with r(3) have "global_alloc sz align s = Inr (0, t)" by simp
    then show ?thesis ..
  qed
  assume g: "global_alloc sz align s = Inr (a, s')"
  then have e: "a = b \<and> s' = t \<and> (a \<noteq> 0 \<longrightarrow> a mod align = 0)" using r(3) unfolding check_def by (metis Inr_inject Pair_inject Inr_not_Inl)
  show "heap_inv base n (if a = 0 then A else (a, sz) # A) s'" using r(1) e by (simp only:)
  show "blk \<in> set A \<Longrightarrow> in_block blk w \<Longrightarrow> heap_load w s' = heap_load w s" using r(2) e by blast
  show "\<not> big sz \<Longrightarrow> pairs (snd s) \<le> (if a = 0 then 0 else Suc (pairs (snd s')))" using r(4) e by (simp split: if_splits)
  show "unat a mod unat align = 0"
  proof (cases "a = 0")
    case False
    with e have "a mod align = 0" by blast
    then show ?thesis by (metis unat_0 unat_mod)
  qed simp
qed

lemma heap_dealloc_laws:
  assumes "heap_inv base n A s" and "(a, sz) \<in> set A"
  shows "\<exists>s'. global_dealloc a sz s = Inr s'"
    and "\<not> frees_inner a sz s \<Longrightarrow> global_dealloc a sz s = Inr s' \<Longrightarrow> heap_inv base n (remove1 (a, sz) A) s'"
    and "\<not> frees_inner a sz s \<Longrightarrow> global_dealloc a sz s = Inr s' \<Longrightarrow> blk \<in> set (remove1 (a, sz) A) \<Longrightarrow> in_block blk w \<Longrightarrow>
      heap_load w s' = heap_load w s"
  using global_dealloc_run [OF assms] by auto

lemma heap_block_laws:
  assumes "heap_inv base n A s"
  shows "(a, sz) \<in> set A \<Longrightarrow> a \<noteq> 0 \<and> unat sz \<le> block_cap sz \<and> base \<le> unat a \<and> unat a + block_cap sz \<le> base + n * 4096"
    and "i < j \<Longrightarrow> j < length A \<Longrightarrow> A ! i = (a, p) \<Longrightarrow> A ! j = (b, q) \<Longrightarrow>
      unat a + block_cap p \<le> unat b \<or> unat b + block_cap q \<le> unat a"
  using assms block_room blocks_apart_heap unfolding heap_inv_def by metis+

interpretation gh: heap_source global_alloc global_dealloc frees_inner heap_load heap_store_word base "base + n * 4096" "heap_inv base n" for base n
proof
  show "heap_load w (heap_store_word u v s) = (if w = u then v else heap_load w s)" for w u v s
    by (simp add: heap_load_def heap_store_word_def case_prod_unfold)
qed (fact heap_alloc_laws heap_dealloc_laws heap_store_inv heap_block_laws)+

section \<open>From initialisation on\<close>

lemma caches_new_eq:
  "slab_allocator_new = Inr (map (\<lambda>sz. \<lparr>mc_object_size = sz, mc_align = sz, mc_slabs = 0\<rparr>) cache_sizes)"
  by (simp add: slab_allocator_new_def cache_sizes_def mem_cache_new_def is_power_of_two_def)

lemma heap_init:
  assumes "0 < unat start_addr" and "0 < region_pages start_addr end_addr" and "unat end_addr < 2 ^ 63"
    and "slab_allocator_new = Inr caches" and "init_allocator start_addr end_addr (caches, buddy_new, mem) = Inr s"
  shows "heap_inv (region_start start_addr * 4096) (region_pages start_addr end_addr) [] s"
    and "region_pages start_addr end_addr \<le> 2 * pairs (snd s) + 1"
proof -
  let ?b = "region_start start_addr * 4096" and ?n = "region_pages start_addr end_addr"
  obtain st where st: "buddy_init start_addr end_addr (buddy_new, mem) = Inr st" "s = (caches, st)"
    using assms(5) by (auto simp: init_allocator_def bindr_eq_Inr)
  have b: "buddy_inv ?b ?n (mset [0..<?n]) st" using init_inv [of buddy_new, OF _ assms(1-3), of mem] st(1) by (auto simp: buddy_new_def)
  have len: "length cache_sizes = 13" by (simp add: cache_sizes_def)
  have c: "caches = map (\<lambda>sz. \<lparr>mc_object_size = sz, mc_align = sz, mc_slabs = 0\<rparr>) cache_sizes" using assms(4) by (simp add: caches_new_eq)
  have "cache_rep ?b (cache_size i) (caches ! i) [] mem'" if "i < 13" for i mem'
    using that len by (simp add: c cache_rep_def cache_size_def)
  moreover have "cache_pages ?b (\<lambda>_. []) = {#}" by (simp add: cache_pages_def)
  ultimately have "heap_rep ?b ?n (mset [0..<?n]) (\<lambda>_. []) [] s" using b len by (simp add: heap_rep_def st(2) c live_def)
  then show "heap_inv ?b ?n [] s" by (auto simp: heap_inv_def)
  show "?n \<le> 2 * pairs (snd s) + 1" using init_pairs [OF _ assms(1-3) st(1)] st(2) by (simp add: buddy_new_def)
qed

text \<open>A run: a page-sized object, a block of two pages, and a word in the first.\<close>

lemma heap_demo_values:
  "case slab_allocator_new of Inl e \<Rightarrow> False | Inr caches \<Rightarrow>
     (case init_allocator 0x80210000 0x80218000 (caches, buddy_new, \<lambda>_. 0) of Inl e \<Rightarrow> False | Inr s \<Rightarrow>
       (case global_alloc 4096 4096 s of Inl e \<Rightarrow> False | Inr (a, s) \<Rightarrow> a = 0x80211000 \<and>
         (case global_alloc 8000 8 s of Inl e \<Rightarrow> False | Inr (a, s) \<Rightarrow> a = 0x80212000)))"
  by code_simp

lemma heap_demo:
  obtains caches s0 s1 s2 where "slab_allocator_new = Inr caches"
    and "init_allocator 0x80210000 0x80218000 (caches, buddy_new, \<lambda>_. 0) = Inr s0"
    and "global_alloc 4096 4096 s0 = Inr (0x80211000, s1)" and "global_alloc 8000 8 s1 = Inr (0x80212000, s2)"
proof -
  obtain caches where c: "slab_allocator_new = Inr caches" unfolding caches_new_eq by blast
  note v = heap_demo_values [unfolded c sum.case]
  obtain s0 where i: "init_allocator 0x80210000 0x80218000 (caches, buddy_new, \<lambda>_. 0) = Inr s0"
    using v by (cases "init_allocator 0x80210000 0x80218000 (caches, buddy_new, \<lambda>_. 0)") simp_all
  note v = v [unfolded i sum.case]
  obtain a s1 where a: "global_alloc 4096 4096 s0 = Inr (a, s1)" using v by (cases "global_alloc 4096 4096 s0") auto
  note v = v [unfolded a sum.case prod.case]
  obtain b s2 where "global_alloc 8000 8 s1 = Inr (b, s2)" using v by (cases "global_alloc 8000 8 s1") auto
  with v c i a that show ?thesis by auto
qed

lemma heap_demo_run:
  assumes "global_alloc 4096 4096 s0 = Inr (0x80211000, s1)" and "global_alloc 8000 8 s1 = Inr (0x80212000, s2)"
  shows "(heap_step global_alloc global_dealloc frees_inner heap_store_word)\<^sup>*\<^sup>* (s0, [])
    (heap_store_word 0x80211008 7 s2, [(0x80212000, 8000), (0x80211000, 4096)])"
proof -
  let ?R = "heap_step global_alloc global_dealloc frees_inner heap_store_word"
  have "?R (s0, []) (s1, [(0x80211000, 4096)])" by (rule heap_step.take) (rule assms(1), simp)
  moreover have "?R (s1, [(0x80211000, 4096)]) (s2, [(0x80212000, 8000), (0x80211000, 4096)])" by (rule heap_step.take) (rule assms(2), simp)
  moreover have "?R (s2, [(0x80212000, 8000), (0x80211000, 4096)])
      (heap_store_word 0x80211008 7 s2, [(0x80212000, 8000), (0x80211000, 4096)])" by (rule heap_step.put [of "0x80211000" 4096]) simp_all
  ultimately show ?thesis by (meson converse_rtranclp_into_rtranclp r_into_rtranclp)
qed

text \<open>
  C6: Blocks of the heap are private. In every run of allocations of any size, frees and
  writes into held blocks, from initialisation on, in which no free empties a slab that is
  not the first of its cache, the held blocks are not null, lie inside the region and are
  pairwise disjoint, and no allocation or free changes a word of a block that stays held.
\<close>

theorem heap_blocks_private:
  assumes "0 < unat start_addr" and "0 < region_pages start_addr end_addr" and "unat end_addr < 2 ^ 63"
    and "slab_allocator_new = Inr caches" and "init_allocator start_addr end_addr (caches, buddy_new, mem) = Inr s0"
    and "(heap_step global_alloc global_dealloc frees_inner heap_store_word)\<^sup>*\<^sup>* (s0, []) (s, A)"
  shows "(\<forall>(a, sz) \<in> set A. a \<noteq> 0 \<and> unat start_addr \<le> unat a \<and> unat a + unat sz \<le> unat end_addr) \<and>
    (\<forall>i j a p b q. i < j \<and> j < length A \<and> A ! i = (a, p) \<and> A ! j = (b, q) \<longrightarrow> unat a + unat p \<le> unat b \<or> unat b + unat q \<le> unat a) \<and>
    (\<forall>s' A' a sz w. heap_step global_alloc global_dealloc frees_inner (\<lambda>_ _ s. s) (s, A) (s', A') \<and> (a, sz) \<in> set A \<and> (a, sz) \<in> set A' \<and>
      unat a \<le> unat w \<and> unat w < unat a + unat sz \<longrightarrow> heap_load w s' = heap_load w s)"
proof -
  let ?b = "region_start start_addr * 4096" and ?n = "region_pages start_addr end_addr"
  from gh.run_keeps_inv [OF assms(6) heap_init(1) [OF assms(1-5)]] have inv: "heap_inv ?b ?n A s" by simp
  have "?b + ?n * 4096 \<le> unat end_addr" "unat start_addr \<le> ?b" using assms(2) unfolding region_pages_def region_start_def by linarith+
  with gh.room [OF inv] have "\<forall>(a, sz) \<in> set A. a \<noteq> 0 \<and> unat start_addr \<le> unat a \<and> unat a + unat sz \<le> unat end_addr" by fastforce
  with gh.held_apart_sizes [OF inv] gh.step_same [OF inv] show ?thesis by blast
qed

theorem heap_blocks_private_witness:
  "\<exists>caches s0 s. slab_allocator_new = Inr caches \<and> init_allocator 0x80210000 0x80218000 (caches, buddy_new, \<lambda>_. 0) = Inr s0 \<and>
    (heap_step global_alloc global_dealloc frees_inner heap_store_word)\<^sup>*\<^sup>* (s0, []) (s, [(0x80212000, 8000), (0x80211000, 4096)]) \<and>
    unat (0x80211000 :: u64) + unat (4096 :: u64) \<le> unat (0x80212000 :: u64)"
proof -
  obtain caches s0 s1 s2 where d: "slab_allocator_new = Inr caches"
    "init_allocator 0x80210000 0x80218000 (caches, buddy_new, \<lambda>_. 0) = Inr s0"
    "global_alloc 4096 4096 s0 = Inr (0x80211000, s1)" "global_alloc 8000 8 s1 = Inr (0x80212000, s2)" by (rule heap_demo)
  note r = heap_demo_run [OF d(3,4)]
  have "0 < region_pages 0x80210000 0x80218000" by (simp add: region_pages_def region_start_def)
  from heap_blocks_private [OF _ this _ d(1,2) r, THEN conjunct2, THEN conjunct1, THEN spec, of 0, THEN spec, of 1]
  have "unat (0x80211000 :: u64) + unat (4096 :: u64) \<le> unat (0x80212000 :: u64)" by simp
  with d(1,2) r show ?thesis by blast
qed

text \<open>
  C12: The calls of the heap return. In every such run an allocation whose alignment divides
  its object size (or a page, for blocks above 4096 bytes) neither panics nor hangs, and a
  block it returns has that alignment; and every held block can be freed.
\<close>

theorem heap_calls_return:
  assumes "0 < unat start_addr" and "0 < region_pages start_addr end_addr" and "unat end_addr < 2 ^ 63"
    and "slab_allocator_new = Inr caches" and "init_allocator start_addr end_addr (caches, buddy_new, mem) = Inr s0"
    and "(heap_step global_alloc global_dealloc frees_inner heap_store_word)\<^sup>*\<^sup>* (s0, []) (s, A)"
  shows "(align_ok sz align \<longrightarrow> (\<exists>a s'. global_alloc sz align s = Inr (a, s') \<and> unat a mod unat align = 0)) \<and>
    (\<forall>(a, sz) \<in> set A. \<exists>s'. global_dealloc a sz s = Inr s')"
proof -
  from gh.run_keeps_inv [OF assms(6) heap_init(1) [OF assms(1-5)]]
  have inv: "heap_inv (region_start start_addr * 4096) (region_pages start_addr end_addr) A s" by simp
  have "\<exists>a s'. global_alloc sz align s = Inr (a, s') \<and> unat a mod unat align = 0" if "align_ok sz align"
    using gh.alloc_returns [OF inv that] gh.alloc_aligned [OF inv, of sz align] by (metis surj_pair)
  with gh.release_returns [OF inv] show ?thesis by blast
qed

theorem heap_calls_return_witness:
  "\<exists>caches s0 s. slab_allocator_new = Inr caches \<and> init_allocator 0x80210000 0x80218000 (caches, buddy_new, \<lambda>_. 0) = Inr s0 \<and>
    (heap_step global_alloc global_dealloc frees_inner heap_store_word)\<^sup>*\<^sup>* (s0, []) (s, [(0x80212000, 8000), (0x80211000, 4096)]) \<and>
    (\<exists>a s'. global_alloc 64 64 s = Inr (a, s') \<and> unat a mod 64 = 0) \<and> (\<exists>s'. global_dealloc 0x80211000 4096 s = Inr s')"
proof -
  obtain caches s0 s1 s2 where d: "slab_allocator_new = Inr caches"
    "init_allocator 0x80210000 0x80218000 (caches, buddy_new, \<lambda>_. 0) = Inr s0"
    "global_alloc 4096 4096 s0 = Inr (0x80211000, s1)" "global_alloc 8000 8 s1 = Inr (0x80212000, s2)" by (rule heap_demo)
  note r = heap_demo_run [OF d(3,4)]
  have o: "order 64 = 6" by code_simp
  have "0 < region_pages 0x80210000 0x80218000" by (simp add: region_pages_def region_start_def)
  from heap_calls_return [OF _ this _ d(1,2) r, of 64 64]
  have "align_ok 64 64 \<longrightarrow> (\<exists>a s'. global_alloc 64 64 (heap_store_word 0x80211008 7 s2) = Inr (a, s') \<and> unat a mod 64 = 0)"
    and e2: "\<exists>s'. global_dealloc 0x80211000 4096 (heap_store_word 0x80211008 7 s2) = Inr s'" by simp_all
  moreover have "align_ok 64 64" by (simp add: align_ok_def big_def MAX_SLAB_ORDER_def o cache_size_eq)
  ultimately have e1: "\<exists>a s'. global_alloc 64 64 (heap_store_word 0x80211008 7 s2) = Inr (a, s') \<and> unat a mod 64 = 0" by blast
  show ?thesis
    by (rule exI [of _ caches], rule exI [of _ s0], rule exI [of _ "heap_store_word 0x80211008 7 s2"]) (intro conjI d(1,2) r e1 e2)
qed

end
