(* ===== verification/Kernel_Space.thy ===== *)
theory Kernel_Space
  imports Address_Space Heap
begin

text \<open>
  Page tables on the global allocator (\<open>kernel_pages\<close>). The pages of tables are blocks of the
  heap like any other, so tables and everything else the kernel allocates stay apart. From
  this follow what a page table maps after any run, and that \<open>init\<close> of
  \<open>kernel/src/mem/mod.rs\<close> returns with the kernel's address space in place.
\<close>

section \<open>A page from the heap\<close>

lemma page_size_facts: "\<not> big 4096" "block_cap 4096 = 4096" "align_ok 4096 4096"
proof -
  have o: "order 4096 = 12" by code_simp
  then show b: "\<not> big 4096" by (simp add: big_def MAX_SLAB_ORDER_def)
  have "cache_size 12 = 4096" by (simp add: cache_size_eq)
  with o b show "block_cap 4096 = 4096" "align_ok 4096 4096" by (simp_all add: block_cap_def align_ok_def)
qed

lemma in_page: "in_block (p, 4096) w \<longleftrightarrow> unat p \<le> unat w \<and> unat w < unat p + 4096"
  by (simp add: in_block_def page_size_facts)

lemma heap_page:
  assumes "heap_inv base n Z s" and "(p, 4096) \<in> set Z"
  shows "page_ok p" and "unat p + 4096 < 2 ^ 64"
proof -
  show "unat p + 4096 < 2 ^ 64"
  proof -
    obtain F S where "heap_rep base n F S Z s" using assms(1) by (auto simp: heap_inv_def)
    from heap_pages(1) [OF this] have "base + n * 4096 < 2 ^ 63" by (simp add: region_def)
    moreover have "unat p + 4096 \<le> base + n * 4096" using gh.room [OF assms] by (simp add: page_size_facts)
    ultimately show ?thesis by simp
  qed
  have "p mod 4096 = 0" by (rule block_aligned(2) [OF assms page_size_facts(3)])
  then have "unat (p mod 4096) = 0" by simp
  then have "unat p mod 4096 = 0" by (simp add: unat_mod)
  with gh.room [OF assms] show "page_ok p" by (simp add: page_ok_def)
qed

lemma page_slot_in:
  assumes "heap_inv base n Z s" and "(p, 4096) \<in> set Z" and "i < 512"
  shows "in_block (p, 4096) (table_slot p i)"
  using unat_slot [OF heap_page(1) [OF assms(1,2)] assms(3)] assms(3) by (simp add: in_page)

text \<open>Clearing a page is a sequence of stores into it.\<close>

lemma clear_page_heap:
  assumes "heap_inv base n Z (caches, ba, mem)" and "(p, 4096) \<in> set Z"
  shows "heap_inv base n Z (caches, ba, clear_page p mem)" and "pairs (ba, clear_page p mem) = pairs (ba, mem)"
proof -
  define m where "m k = (\<lambda>w. if unat p \<le> unat w \<and> unat w < unat p + k then 0 else mem w)" for k
  note lt = heap_page(2) [OF assms]
  have "heap_inv base n Z (caches, ba, m k) \<and> pairs (ba, m k) = pairs (ba, mem)" if "k \<le> 4096" for k
    using that
  proof (induction k)
    case 0
    have "m 0 = mem" by (auto simp: m_def fun_eq_iff)
    then show ?case using assms(1) by simp
  next
    case (Suc k)
    have u: "unat (p + of_nat k) = unat p + k" using lt Suc.prems by (subst unat_add_u64) (simp_all add: unat_of_nat_u64)
    then have i: "in_block (p, 4096) (p + of_nat k)" using Suc.prems by (simp add: in_page)
    have "(m k)(p + of_nat k := 0) = m (Suc k)" using u by (auto simp: m_def fun_eq_iff u64_eq_iff_unat)
    then have "heap_store_word (p + of_nat k) 0 (caches, ba, m k) = (caches, ba, m (Suc k))" by (simp add: heap_store_word_def)
    moreover have h: "heap_inv base n Z (caches, ba, m k)" "pairs (ba, m k) = pairs (ba, mem)" using Suc by simp_all
    ultimately show ?case using heap_store_inv [OF h(1) assms(2) i, of 0] by simp
  qed
  from this [of 4096] have m: "heap_inv base n Z (caches, ba, m 4096)" "pairs (ba, m 4096) = pairs (ba, mem)" by simp_all
  have "clear_page p mem = m 4096"
  proof
    fix w
    have "p \<le> w \<and> w - p < 4096 \<longleftrightarrow> unat p \<le> unat w \<and> unat w < unat p + 4096"
      using lt by (auto simp: word_le_nat_alt word_less_nat_alt unat_sub_u64)
    then show "clear_page p mem w = m 4096 w" by (simp add: clear_page_def m_def)
  qed
  with m show "heap_inv base n Z (caches, ba, clear_page p mem)" "pairs (ba, clear_page p mem) = pairs (ba, mem)" by simp_all
qed

text \<open>The pages \<open>P\<close> of tables and the blocks \<open>A\<close> of everybody else.\<close>

definition pages_inv :: "nat \<Rightarrow> nat \<Rightarrow> (u64 \<times> u64) list \<Rightarrow> u64 set \<Rightarrow> slab_state \<Rightarrow> bool" where
  "pages_inv base n A P s \<longleftrightarrow>
     finite P \<and> (\<exists>Z. heap_inv base n Z s \<and> mset Z = mset_set ((\<lambda>p. (p, 4096)) ` P) + mset A)"

lemma held_page:
  assumes "mset Z = mset_set ((\<lambda>p. (p, 4096)) ` P) + mset A" and "finite P" and "p \<in> P"
  shows "(p, 4096) \<in> set Z"
proof -
  have "(p, 4096) \<in># mset Z" using assms by simp
  then show ?thesis by simp
qed

lemma new_block_apart:
  assumes "heap_inv base n ((a, p) # Z) s" and "(b, q) \<in> set Z" and "in_block (a, p) w"
  shows "\<not> in_block (b, q) w"
proof -
  from assms(1) obtain F S where "heap_rep base n F S ([] @ (a, p) # Z) s" by (auto simp: heap_inv_def)
  from block_word_apart [OF this _ assms(3)] assms(2) show ?thesis by simp
qed

lemma new_zeroed_run:
  assumes "heap_inv base n Z s"
  shows "new_zeroed s = Inl Panic \<and> pairs (snd s) = 0 \<or>
    (\<exists>p s'. new_zeroed s = Inr (p, s') \<and> heap_inv base n ((p, 4096) # Z) s' \<and> pairs (snd s) \<le> Suc (pairs (snd s')) \<and>
      (\<forall>i < 512. heap_load (table_slot p i) s' = 0) \<and>
      (\<forall>blk \<in> set Z. \<forall>w. in_block blk w \<longrightarrow> heap_load w s' = heap_load w s))"
proof -
  note law = heap_alloc_laws [OF assms, of 4096 4096]
  from law(1) [OF page_size_facts(3)] obtain p s' where al: "global_alloc 4096 4096 s = Inr (p, s')" by (metis surj_pair)
  note room = law(5) [OF al page_size_facts(1)]
  show ?thesis
  proof (cases "p = 0")
    case True
    with al room show ?thesis by (cases s') (simp add: new_zeroed_def)
  next
    case False
    obtain caches ba mem where s': "s' = (caches, ba, mem)" by (metis prod.exhaust)
    have inv: "heap_inv base n ((p, 4096) # Z) (caches, ba, mem)" using law(2) [OF al] False s' by simp
    have p: "(p, 4096) \<in> set ((p, 4096) # Z)" by simp
    note clr = clear_page_heap [OF inv p] and pg = heap_page [OF inv p]
    have "p mod 4096 = 0" by (rule block_aligned(2) [OF inv p page_size_facts(3)])
    then have run: "new_zeroed s = Inr (p, caches, ba, clear_page p mem)" using al False s' by (simp add: new_zeroed_def)
    have in_clear: "p \<le> w \<and> w - p < 4096 \<longleftrightarrow> in_block (p, 4096) w" for w
      unfolding in_page using pg(2) by (auto simp: word_le_nat_alt word_less_nat_alt unat_sub_u64)
    have "heap_load w (caches, ba, clear_page p mem) = heap_load w s" if "blk \<in> set Z" "in_block blk w" for blk w
    proof -
      have "\<not> in_block (p, 4096) w" using new_block_apart [OF inv, of "fst blk" "snd blk" w] that by auto
      then show ?thesis using law(4) [OF al that] in_clear [of w] s' by (auto simp: heap_load_def clear_page_def)
    qed
    moreover have "heap_load (table_slot p i) (caches, ba, clear_page p mem) = 0" if "i < 512" for i
      using page_slot_in [OF inv p that] in_clear [of "table_slot p i"] by (simp add: heap_load_def clear_page_def)
    ultimately show ?thesis using run clr room False s' by auto
  qed
qed

definition heap_pairs :: "slab_state \<Rightarrow> nat" where
  "heap_pairs s = pairs (snd s)"

lemma kernel_pages_ops [simp]:
  "po_new_zeroed kernel_pages = new_zeroed" "po_load kernel_pages w s = heap_load w s" "po_store kernel_pages w v s = heap_store_word w v s"
  by (simp_all add: kernel_pages_def heap_load_def heap_store_word_def case_prod_unfold)

lemma new_zeroed_pages:
  assumes "pages_inv base n A P s" and "new_zeroed s = Inr (p, s')"
  shows "p \<notin> P \<and> pages_inv base n A (insert p P) s' \<and> heap_pairs s \<le> Suc (heap_pairs s')"
    and "i < 512 \<Longrightarrow> heap_load (table_slot p i) s' = 0"
    and "q \<in> P \<Longrightarrow> i < 512 \<Longrightarrow> heap_load (table_slot q i) s' = heap_load (table_slot q i) s"
proof -
  from assms(1) obtain Z where Z: "finite P" "heap_inv base n Z s" "mset Z = mset_set ((\<lambda>p. (p, 4096)) ` P) + mset A"
    by (auto simp: pages_inv_def)
  from new_zeroed_run [OF Z(2)] assms(2) have r: "heap_inv base n ((p, 4096) # Z) s'" "pairs (snd s) \<le> Suc (pairs (snd s'))"
    "\<forall>i < 512. heap_load (table_slot p i) s' = 0" "\<forall>blk \<in> set Z. \<forall>w. in_block blk w \<longrightarrow> heap_load w s' = heap_load w s" by auto
  have "in_block (p, 4096) p" by (simp add: in_page)
  with new_block_apart [OF r(1) _ this] held_page [OF Z(3,1)] have p: "p \<notin> P" by blast
  then have "(p, 4096) \<notin> (\<lambda>p. (p, 4096 :: u64)) ` P" by auto
  then have "mset ((p, 4096) # Z) = mset_set ((\<lambda>p. (p, 4096)) ` insert p P) + mset A" using Z(1,3) by simp
  then have "pages_inv base n A (insert p P) s'" using Z(1) r(1) unfolding pages_inv_def by blast
  with p r(2) show "p \<notin> P \<and> pages_inv base n A (insert p P) s' \<and> heap_pairs s \<le> Suc (heap_pairs s')" by (simp add: heap_pairs_def)
  show "i < 512 \<Longrightarrow> heap_load (table_slot p i) s' = 0" using r(3) by simp
  show "q \<in> P \<Longrightarrow> i < 512 \<Longrightarrow> heap_load (table_slot q i) s' = heap_load (table_slot q i) s"
    using r(4) held_page [OF Z(3,1)] page_slot_in [OF Z(2)] by blast
qed

lemma store_pages:
  assumes "pages_inv base n A P s" and "q \<in> P" and "i < 512"
  shows "pages_inv base n A P (heap_store_word (table_slot q i) v s)" and "heap_pairs (heap_store_word (table_slot q i) v s) = heap_pairs s"
proof -
  from assms(1) obtain Z where Z: "finite P" "heap_inv base n Z s" "mset Z = mset_set ((\<lambda>p. (p, 4096)) ` P) + mset A"
    by (auto simp: pages_inv_def)
  note q = held_page [OF Z(3,1) assms(2)]
  from heap_store_inv [OF Z(2) q page_slot_in [OF Z(2) q assms(3)], of v] Z
  show "pages_inv base n A P (heap_store_word (table_slot q i) v s)" "heap_pairs (heap_store_word (table_slot q i) v s) = heap_pairs s"
    by (auto simp: pages_inv_def heap_pairs_def)
qed

interpretation kp: page_source kernel_pages "pages_inv base n A" heap_pairs for base n A
proof
  show "page_ok p" if "pages_inv base n A P s" "p \<in> P" for P s p
  proof -
    from that(1) obtain Z where Z: "finite P" "heap_inv base n Z s" "mset Z = mset_set ((\<lambda>p. (p, 4096)) ` P) + mset A"
      by (auto simp: pages_inv_def)
    show ?thesis by (rule heap_page(1) [OF Z(2) held_page [OF Z(3,1) that(2)]])
  qed
  show "e = Panic \<and> heap_pairs s = 0" if "pages_inv base n A P s" "po_new_zeroed kernel_pages s = Inl e" for P s e
  proof -
    from that(1) obtain Z where "heap_inv base n Z s" by (auto simp: pages_inv_def)
    from new_zeroed_run [OF this] that(2) show ?thesis by (auto simp: heap_pairs_def)
  qed
  show "po_load kernel_pages w (po_store kernel_pages u v s) = (if w = u then v else po_load kernel_pages w s)" for w u v s
    using gh.load_store by simp
qed (unfold kernel_pages_ops, (fact new_zeroed_pages store_pages)+)

section \<open>Runs\<close>

text \<open>
  A page table and the rest of the kernel: \<open>map\<close> is called, or somebody else uses the heap. The
  calls of \<open>map\<close> are those with a meaning: page-aligned addresses, permissions that make a leaf,
  and a size that does not wrap around when it is rounded up.
\<close>

inductive space_step ::
  "u64 \<Rightarrow> slab_state \<times> (u64 \<times> u64) list \<times> space \<Rightarrow> slab_state \<times> (u64 \<times> u64) list \<times> space \<Rightarrow> bool"
  for root where
  map: "map_range kernel_pages root va pa sz perm s = Inr s' \<Longrightarrow> leaf_perm perm \<Longrightarrow>
    unat va mod 4096 = 0 \<Longrightarrow> unat pa mod 4096 = 0 \<Longrightarrow> unat sz \<le> 2 ^ 64 - 4096 \<Longrightarrow>
    space_step root (s, A, m) (s', A, space_range va pa sz perm m)"
| other: "heap_step global_alloc global_dealloc frees_inner heap_store_word (s, A) (s', A') \<Longrightarrow> space_step root (s, A, m) (s', A', m)"

lemma tables_cong:
  assumes "tables_ok ops P root f s" and "\<And>q i. q \<in> P \<Longrightarrow> i < 512 \<Longrightarrow> po_load ops (table_slot q i) s' = po_load ops (table_slot q i) s"
  shows "tables_ok ops P root f s'" and "page_entry ops f s' v = page_entry ops f s v"
proof -
  have P: "f p = Some t \<Longrightarrow> t \<in> P" for p t using assms(1) by (auto simp: tables_ok_def ran_def)
  show "tables_ok ops P root f s'" unfolding tables_ok_def
  proof (intro conjI allI impI)
    fix p t and i :: nat assume a: "f p = Some t \<and> length p < 2 \<and> i < 512"
    then have "po_load ops (table_slot t i) s' = po_load ops (table_slot t i) s" using assms(2) [OF P, of p t i] by simp
    with assms(1) a show "po_load ops (table_slot t i) s' = (case f (p @ [i]) of None \<Rightarrow> 0 | Some q \<Rightarrow> pte_new q PTE_V)"
      by (simp add: tables_ok_def)
  qed (use assms(1) in \<open>auto simp: tables_ok_def\<close>)
  show "page_entry ops f s' v = page_entry ops f s v"
    using assms(2) [OF P] by (auto simp: page_entry_def leaf_def split: option.splits)
qed

text \<open>Other clients leave the tables alone.\<close>

lemma other_step_pages:
  assumes "pages_inv base n A P s" and "heap_step global_alloc global_dealloc frees_inner heap_store_word (s, A) (s', A')"
  shows "pages_inv base n A' P s'" and "q \<in> P \<Longrightarrow> i < 512 \<Longrightarrow> heap_load (table_slot q i) s' = heap_load (table_slot q i) s"
proof -
  let ?T = "mset_set ((\<lambda>p. (p, 4096 :: u64)) ` P)"
  from assms(1) obtain Z where Z: "finite P" "heap_inv base n Z s" "mset Z = ?T + mset A" by (auto simp: pages_inv_def)
  have sub: "blk \<in> set A \<Longrightarrow> blk \<in> set Z" for blk using Z(3) by (metis UnCI set_mset_mset set_mset_union)
  have slot: "q \<in> P \<Longrightarrow> i < 512 \<Longrightarrow> in_block (q, 4096) (table_slot q i)" for q i
    using page_slot_in [OF Z(2) held_page [OF Z(3,1)]] by blast
  have "pages_inv base n A' P s' \<and> (\<forall>q i. q \<in> P \<and> i < 512 \<longrightarrow> heap_load (table_slot q i) s' = heap_load (table_slot q i) s)"
    using assms(2)
  proof (cases rule: heap_stepE)
    case (take sz align a t)
    with gh.alloc_inv [OF Z(2) take(2)] Z have "pages_inv base n A' P s'"
      unfolding pages_inv_def by (intro conjI exI [of _ "(a, sz) # Z"]) auto
    with gh.alloc_same [OF Z(2) take(2) held_page [OF Z(3,1)] slot] take show ?thesis by auto
  next
    case (refuse sz align t)
    with gh.alloc_inv [OF Z(2) refuse(2)] Z have "pages_inv base n A' P s'"
      unfolding pages_inv_def by auto
    with gh.alloc_same [OF Z(2) refuse(2) held_page [OF Z(3,1)] slot] refuse show ?thesis by auto
  next
    case (give a sz t)
    have ms: "mset (remove1 (a, sz) Z) = ?T + mset (remove1 (a, sz) A)" using Z(3) give(2) by simp
    have "pages_inv base n A' P s'"
      using gh.release_inv [OF Z(2) sub give(3,4)] give ms Z(1) unfolding pages_inv_def by auto
    with gh.release_same [OF Z(2) sub give(3,4) held_page [OF ms Z(1)] slot] give show ?thesis by auto
  next
    case (put a sz w v)
    note a = sub [OF put(2)]
    from split_list [OF a] obtain us vs where us: "Z = us @ (a, sz) # vs" by blast
    have w: "in_block (a, sz) w" by (rule gh.block_word [OF Z(2) a put(3,4)])
    have "table_slot q i \<noteq> w" if "q \<in> P" "i < 512" for q i
    proof -
      have "mset (us @ vs) = ?T + mset (remove1 (a, sz) A)" 
      proof -
        have "mset (us @ vs) = mset (remove1 (a, sz) Z)" by (simp add: us)
        also have "\<dots> = ?T + mset (remove1 (a, sz) A)" using Z(3) put(2) by simp
        finally show ?thesis .
      qed
      then have "(q, 4096) \<in> set (us @ vs)" by (rule held_page [OF _ Z(1) that(1)])
      moreover obtain F S where "heap_rep base n F S (us @ (a, sz) # vs) s" using Z(2) us by (auto simp: heap_inv_def)
      ultimately show ?thesis using block_word_apart [OF _ _ w] slot [OF that] by blast
    qed
    moreover have "pages_inv base n A' P s'" using gh.store_inv [OF Z(2) a w, of v] put Z unfolding pages_inv_def by auto
    ultimately show ?thesis using put gh.load_store by auto
  qed
  then show "pages_inv base n A' P s'" and "q \<in> P \<Longrightarrow> i < 512 \<Longrightarrow> heap_load (table_slot q i) s' = heap_load (table_slot q i) s" by blast+
qed

lemma round_aligned: "unat a mod 4096 = 0 \<Longrightarrow> pg_round_down a PAGE_SIZE = a"
  by (auto simp: u64_eq_iff_unat unat_pg_round_down_page)

definition space_at :: "nat \<Rightarrow> nat \<Rightarrow> u64 \<Rightarrow> slab_state \<times> (u64 \<times> u64) list \<times> space \<Rightarrow> bool" where
  "space_at base n root = (\<lambda>(s, A, m). space_ok m \<and> (\<exists>P. kp.space_in base n A P root m s))"

lemma map_success:
  assumes "kp.space_in base n A P root m s" and "map_range kernel_pages root va pa sz perm s = Inr s'"
    and "unat sz \<le> 2 ^ 64 - 4096"
  shows "0 < unat sz" and "unat va div 4096 + npg sz \<le> 2 ^ 26"
proof -
  show sz: "0 < unat sz" using assms(2) by (auto simp: map_range_def unat_gt_0 split: if_splits)
  have "\<not> 2 ^ 38 < unat va div 4096 * 4096 + unat sz"
    using kp.map_range_past [where va = va and pa = pa and perm = perm, OF assms(1) refl sz _ assms(3)] assms(2) by auto
  then show "unat va div 4096 + npg sz \<le> 2 ^ 26" unfolding npg_def by simp
qed

lemma space_step_keeps:
  assumes "space_step root t u" and "space_at base n root t"
  shows "space_at base n root u"
proof -
  from assms(1) show ?thesis
  proof (cases rule: space_step.cases)
    case (map va pa sz perm s s' A m)
    from assms(2) obtain P where P: "space_ok m" "kp.space_in base n A P root m s" by (auto simp: space_at_def map(1))
    note ok = map_success [OF P(2) map(3,7)]
    let ?m = "space_map (unat va div 4096) (npg sz) pa perm m"
    have pa: "pg_round_down pa PAGE_SIZE = pa" by (rule round_aligned [OF map(6)])
    from kp.map_range_space [OF P(2) refl ok, of pa perm] map(3) pa obtain P' where "kp.space_in base n A P' root ?m s'" by auto
    moreover have "space_ok ?m" by (rule space_map_ok [OF P(1) map(4,6)])
    moreover have "unat va = unat va div 4096 * 4096" using div_mult_mod_eq [of "unat va" 4096] unfolding map(5) add_0_right by (rule sym)
    then have "space_range va pa sz perm m = ?m" using ok(1) by (rule space_range_eq)
    ultimately show ?thesis by (auto simp: space_at_def map(2))
  next
    case (other s A s' A' m)
    from assms(2) obtain P where P: "space_ok m" "kp.space_in base n A P root m s" by (auto simp: space_at_def other(1))
    from P(2) obtain f where f: "pages_inv base n A P s" "tables_ok kernel_pages P root f s"
      "\<forall>v < 2 ^ 27. page_entry kernel_pages f s v = space_entry m v" by (auto simp: kp.space_in_def)
    note st = other_step_pages [OF f(1) other(3)]
    have "po_load kernel_pages (table_slot q i) s' = po_load kernel_pages (table_slot q i) s" if "q \<in> P" "i < 512" for q i
      using st(2) [OF that] by simp
    note tab = tables_cong [OF f(2) this]
    have "kp.space_in base n A' P root m s'"
      unfolding kp.space_in_def using st(1) tab f(3) by (intro exI [of _ f]) simp
    with P(1) show ?thesis by (auto simp: space_at_def other(2))
  qed
qed

lemma space_run:
  assumes "heap_inv base n A0 s0" and "new_zeroed s0 = Inr (root, s1)" and "(space_step root)\<^sup>*\<^sup>* (s1, A0, \<lambda>_. None) t"
  shows "space_at base n root t"
  using assms(3)
proof (induction rule: rtranclp_induct)
  case base
  have "pages_inv base n A0 {} s0" using assms(1) by (auto simp: pages_inv_def)
  moreover have "po_new_zeroed kernel_pages s0 = Inr (root, s1)" using assms(2) by simp
  ultimately have "kp.space_in base n A0 {root} root (\<lambda>_. None) s1" by (rule kp.new_space(1))
  then show ?case by (auto simp: space_at_def space_ok_def)
next
  case (step t u)
  then show ?case by (blast intro: space_step_keeps)
qed

section \<open>The kernel's address space\<close>

definition kernel_space :: "u64 \<Rightarrow> u64 \<Rightarrow> space" where
  "kernel_space etext trampoline =
     (let v = unat etext div 4096 in
      space_map 0xC000 0x4000 PLIC_BASE (PTE_R OR PTE_W OR PTE_G)
        (space_map 0x10001 1 VIRTIO_MMIO_BASE (PTE_R OR PTE_W)
          (space_map 0x3FFFFFF 1 (pg_round_down trampoline PAGE_SIZE) (PTE_R OR PTE_X OR PTE_G)
            (space_map v (0x88000 - v) etext (PTE_R OR PTE_W)
              (space_map 0x80200 (v - 0x80200) KERNEL_BASE (PTE_R OR PTE_X) (\<lambda>_. None))))))"

lemma map_pages_ok:
  assumes "kp.space_in base n A P root m s" and "unat va = v * 4096" and "unat sz = k * 4096" and "0 < k" and "v + k \<le> 2 ^ 26"
    and "\<forall>w \<in> {v..<v + k}. m w = None" and "map_cost k \<le> heap_pairs s" and "pg_round_down pa PAGE_SIZE = pa'"
  obtains P' s' where "map_range kernel_pages root va pa sz perm s = Inr s'"
    and "kp.space_in base n A P' root (space_map v k pa' perm m) s'" and "heap_pairs s \<le> heap_pairs s' + map_cost k"
proof -
  have "unat va div 4096 = v" "0 < unat sz" "npg sz = k" using assms(2-4) by (simp_all add: npg_def)
  from kp.map_range_ok [OF assms(1) this assms(5-7), of pa perm] assms(8) that show thesis by blast
qed

lemma memory_map_values:
  "unat KERNEL_BASE = 0x80200 * 4096" "unat MEM_END = 0x88000 * 4096" "unat TRAMPOLINE = 0x3FFFFFF * 4096"
  "unat VIRTIO_MMIO_BASE = 0x10001 * 4096" "unat VIRTIO_MMIO_LEN = 1 * 4096" "unat PLIC_BASE = 0xC000 * 4096"
  by (simp_all add: memory_map_defs)

lemma kvm_make_run:
  assumes "pages_inv base n A P s" and "unat etext = v * 4096" and "0x80200 < v" and "v < 0x88000" and "211 \<le> heap_pairs s"
  shows "\<exists>pt s' P'. kvm_make kernel_pages etext trampoline s = Inr (pt, s') \<and> kp.space_in base n A P' pt (kernel_space etext trampoline) s' \<and>
    heap_pairs s \<le> heap_pairs s' + 211"
proof -
  note e = assms(2) and v = assms(3,4) and val = memory_map_values
  have s1: "unat (etext - KERNEL_BASE) = (v - 0x80200) * 4096"
    using v e val by (subst unat_sub_u64) (simp_all add: word_le_nat_alt)
  have s2: "unat (MEM_END - etext) = (0x88000 - v) * 4096"
    using v e val by (subst unat_sub_u64) (simp_all add: word_le_nat_alt diff_mult_distrib)
  obtain pt t0 where new: "new_zeroed s = Inr (pt, t0)"
    using kp.new_fails [OF assms(1)] assms(5) by (cases "new_zeroed s") auto
  have new': "po_new_zeroed kernel_pages s = Inr (pt, t0)" using new by simp
  note sp = kp.new_space [OF assms(1) new'] and a0 = kp.new_page [OF assms(1) new']
  have "x div 512 + y div 512 \<le> (x + y) div 512" for x y :: nat by (simp add: div_add1_eq [of x y])
  from this [of "v - 0x80200" "0x88000 - v"] have c: "map_cost (v - 0x80200) + map_cost (0x88000 - v) \<le> 134"
    using v by (simp add: map_cost_def)
  have c1: "map_cost 1 = 4" "map_cost 0x4000 = 68" by (simp_all add: map_cost_def)
  let ?M1 = "space_map 0x80200 (v - 0x80200) KERNEL_BASE (PTE_R OR PTE_X) (\<lambda>_. None)"
  let ?M2 = "space_map v (0x88000 - v) etext (PTE_R OR PTE_W) ?M1"
  let ?M3 = "space_map 0x3FFFFFF 1 (pg_round_down trampoline PAGE_SIZE) (PTE_R OR PTE_X OR PTE_G) ?M2"
  let ?M4 = "space_map 0x10001 1 VIRTIO_MMIO_BASE (PTE_R OR PTE_W) ?M3"
  obtain P1 t1 where m1: "map_range kernel_pages pt KERNEL_BASE KERNEL_BASE (etext - KERNEL_BASE) (PTE_R OR PTE_X) t0 = Inr t1"
    "kp.space_in base n A P1 pt ?M1 t1" "heap_pairs t0 \<le> heap_pairs t1 + map_cost (v - 0x80200)"
    by (rule map_pages_ok [OF sp(1) val(1) s1 _ _ _ _ round_aligned]) (use v c a0 assms(5) val in auto)
  obtain P2 t2 where m2: "map_range kernel_pages pt etext etext (MEM_END - etext) (PTE_R OR PTE_W) t1 = Inr t2"
    "kp.space_in base n A P2 pt ?M2 t2" "heap_pairs t1 \<le> heap_pairs t2 + map_cost (0x88000 - v)"
    by (rule map_pages_ok [OF m1(2) e s2 _ _ _ _ round_aligned]) (use v c a0 assms(5) m1(3) e in \<open>auto simp: space_map_def\<close>)
  obtain P3 t3 where m3: "map_range kernel_pages pt TRAMPOLINE trampoline PAGE_SIZE (PTE_R OR PTE_X OR PTE_G) t2 = Inr t3"
    "kp.space_in base n A P3 pt ?M3 t3" "heap_pairs t2 \<le> heap_pairs t3 + map_cost 1"
    by (rule map_pages_ok [OF m2(2) val(3) _ _ _ _ _ refl, of PAGE_SIZE 1]) (use v c c1 a0 assms(5) m1(3) m2(3) in \<open>auto simp: space_map_def\<close>)
  obtain P4 t4 where m4: "map_range kernel_pages pt VIRTIO_MMIO_BASE VIRTIO_MMIO_BASE VIRTIO_MMIO_LEN (PTE_R OR PTE_W) t3 = Inr t4"
    "kp.space_in base n A P4 pt ?M4 t4" "heap_pairs t3 \<le> heap_pairs t4 + map_cost 1"
    by (rule map_pages_ok [OF m3(2) val(4,5) _ _ _ _ round_aligned])
      (use v c c1 a0 assms(5) m1(3) m2(3) m3(3) val in \<open>auto simp: space_map_def\<close>)
  obtain P5 t5 where m5: "map_range kernel_pages pt PLIC_BASE PLIC_BASE 0x4000000 (PTE_R OR PTE_W OR PTE_G) t4 = Inr t5"
    "kp.space_in base n A P5 pt (space_map 0xC000 0x4000 PLIC_BASE (PTE_R OR PTE_W OR PTE_G) ?M4) t5" "heap_pairs t4 \<le> heap_pairs t5 + map_cost 0x4000"
    by (rule map_pages_ok [OF m4(2) val(6) _ _ _ _ _ round_aligned, of "0x4000000" "0x4000"])
      (use v c c1 a0 assms(5) m1(3) m2(3) m3(3) m4(3) val in \<open>auto simp: space_map_def\<close>)
  have "pt \<noteq> 0" using sp(2) by (simp add: page_ok_def)
  then have "kvm_make kernel_pages etext trampoline s = Inr (pt, t5)"
    using m1(1) m2(1) m3(1) m4(1) m5(1) by (simp add: kvm_make_def new)
  moreover have "heap_pairs s \<le> heap_pairs t5 + 211" using a0 m1(3) m2(3) m3(3) m4(3) m5(3) c c1 by simp
  ultimately show ?thesis using m5(2) unfolding kernel_space_def Let_def e by auto
qed

text \<open>What the address space of the kernel is.\<close>

definition kernel_layout :: "u64 \<Rightarrow> u64 \<Rightarrow> u64 \<Rightarrow> (u64 \<times> u64) option" where
  "kernel_layout etext trampoline va =
     (if KERNEL_BASE \<le> va \<and> va < etext then Some (va, PTE_V OR PTE_R OR PTE_X)
      else if etext \<le> va \<and> va < MEM_END then Some (va, PTE_V OR PTE_R OR PTE_W)
      else if TRAMPOLINE \<le> va \<and> va < MAX_VA then Some (trampoline + (va - TRAMPOLINE), PTE_V OR PTE_R OR PTE_X OR PTE_G)
      else if VIRTIO_MMIO_BASE \<le> va \<and> va < VIRTIO_MMIO_BASE + VIRTIO_MMIO_LEN then Some (va, PTE_V OR PTE_R OR PTE_W)
      else if PLIC_BASE \<le> va \<and> va < PLIC_BASE + 0x4000000 then Some (va, PTE_V OR PTE_R OR PTE_W OR PTE_G)
      else None)"

lemma page_shift:
  assumes "unat a = v * 4096" and "v \<le> unat va div 4096"
  shows "x + pg_addr (unat va div 4096 - v) + va mod 4096 = x + (va - a)"
proof -
  let ?w = "unat va div 4096"
  have u: "unat va = ?w * 4096 + unat va mod 4096" by simp
  have le: "unat a \<le> unat va" using assms by linarith
  have lt: "unat va - unat a < usize_range" using unat_u64_less [of va] by linarith
  have "(?w - v) * 4096 \<le> unat va" using div_times_less_eq_dividend [of "unat va" 4096] by (simp add: diff_mult_distrib)
  then have "(?w - v) * 4096 < 2 ^ 64" using unat_u64_less [of va] unfolding usize_range_eq by (rule le_less_trans)
  then have "unat (pg_addr (?w - v)) = (?w - v) * 4096" by (rule unat_pg_addr)
  moreover have "unat (va mod 4096) = unat va mod 4096" by (simp add: unat_mod)
  moreover have "(?w - v) * 4096 + unat va mod 4096 = unat va - unat a" using assms u by (simp add: diff_mult_distrib)
  ultimately have "unat (pg_addr (?w - v) + va mod 4096) = unat (va - a)"
    using le lt by (subst unat_add_u64) (simp_all add: unat_sub_u64 word_le_nat_alt)
  then show ?thesis by (simp add: u64_eq_iff_unat [symmetric] add.assoc)
qed

lemma pg_addr_0 [simp]: "pg_addr 0 = 0"
  by (simp add: pg_addr_def)

lemma space_map_one: "space_map v 1 pa perm m = m(v \<mapsto> (pa, perm))"
  by (auto simp: space_map_def fun_eq_iff)

lemma kernel_space_lookup:
  assumes "unat etext = v * 4096" and "0x80200 < v" and "v < 0x88000" and "unat trampoline mod 4096 = 0"
  shows "space_lookup (kernel_space etext trampoline) va = kernel_layout etext trampoline va"
proof -
  obtain w where w: "unat va div 4096 = w" by blast
  have pg: "a \<le> va \<longleftrightarrow> k \<le> w" "va < a \<longleftrightarrow> w < k" if "unat a = k * 4096" for a k
    using that w by (auto simp: word_le_nat_alt word_less_nat_alt)
  have ends: "unat MAX_VA = 0x4000000 * 4096" "unat (VIRTIO_MMIO_BASE + VIRTIO_MMIO_LEN) = 0x10002 * 4096"
    "unat (PLIC_BASE + 0x4000000) = 0x10000 * 4096" by (simp_all add: memory_map_defs)
  have one: "0x3FFFFFF \<le> w \<and> w < 0x4000000 \<longleftrightarrow> w = 0x3FFFFFF" "0x10001 \<le> w \<and> w < 0x10002 \<longleftrightarrow> w = 0x10001" by linarith+
  have layout: "kernel_layout etext trampoline va =
     (if 0x80200 \<le> w \<and> w < v then Some (va, PTE_V OR PTE_R OR PTE_X)
      else if v \<le> w \<and> w < 0x88000 then Some (va, PTE_V OR PTE_R OR PTE_W)
      else if w = 0x3FFFFFF then Some (trampoline + (va - TRAMPOLINE), PTE_V OR PTE_R OR PTE_X OR PTE_G)
      else if w = 0x10001 then Some (va, PTE_V OR PTE_R OR PTE_W)
      else if 0xC000 \<le> w \<and> w < 0x10000 then Some (va, PTE_V OR PTE_R OR PTE_W OR PTE_G)
      else None)"
    unfolding kernel_layout_def pg [OF memory_map_values(1)] pg [OF memory_map_values(2)] pg [OF memory_map_values(3)]
      pg [OF memory_map_values(4)] pg [OF memory_map_values(6)] pg [OF assms(1)] pg [OF ends(1)] pg [OF ends(2)] pg [OF ends(3)] one ..
  have e: "unat etext div 4096 = v" using assms(1) by simp
  have id: "a + pg_addr (w - k) + va mod 4096 = va" if "unat a = k * 4096" "k \<le> w" for a k
    using page_shift [OF that(1), of va a] that(2) by (simp add: w)
  note shift = id [OF memory_map_values(1)] id [OF memory_map_values(4)] id [OF memory_map_values(6)] id [OF assms(1)]
    page_shift [OF memory_map_values(3), of va trampoline, unfolded w]
  show ?thesis
    unfolding layout space_lookup_def w kernel_space_def Let_def e space_map_one space_map_def round_aligned [OF assms(4)]
    using assms(2,3) shift by (auto simp: or.assoc)
qed

end
