(* ===== verification/Memory_Setup.thy ===== *)
theory Memory_Setup
  imports Kernel_Space
begin

text \<open>
  The properties of page tables and of the kernel's memory set-up: what the processor
  translates after any sequence of calls of \<open>map\<close>, when \<open>map\<close> panics, and that \<open>init\<close> of
  \<open>kernel/src/mem/mod.rs\<close> installs the address space of the kernel.
\<close>

section \<open>The register \<open>satp\<close>\<close>

lemma satp_bits:
  assumes "unat pt < 2 ^ 56" and "unat pt mod 4096 = 0"
  shows "drop_bit 60 (make_satp pt) = 8" and "push_bit 12 (take_bit 44 (make_satp pt)) = pt"
proof -
  have bit: "bit pt i \<longleftrightarrow> odd (unat pt div 2 ^ i)" for i
    by (metis bit_unsigned_iff bit_iff_odd possible_bit_nat possible_bit_def unat_of_nat)
  have hi: "\<not> bit pt n" if "56 \<le> n" for n
  proof -
    have "(2 :: nat) ^ 56 \<le> 2 ^ n" using that by (intro power_increasing) simp_all
    then have "unat pt div 2 ^ n = 0" using assms(1) by simp
    then show ?thesis by (simp add: bit)
  qed
  have eq: "push_bit 60 8 = (push_bit 63 1 :: u64)" "(8 :: u64) = push_bit 3 1" by simp_all
  have one: "bit (push_bit k 1 :: u64) n \<longleftrightarrow> n = k" if "k < 64" for k n using that by (auto simp: bit_exp_iff)
  have b: "bit (make_satp pt) n \<longleftrightarrow> n = 63 \<or> bit pt (12 + n)" for n
    unfolding make_satp_def eq(1) bit_or_iff bit_drop_bit_eq comp_def by (simp only: one)
  show "drop_bit 60 (make_satp pt) = 8"
  proof (rule bit_word_eqI)
    fix n show "bit (drop_bit 60 (make_satp pt)) n = bit (8 :: u64) n"
      unfolding eq(2) bit_drop_bit_eq comp_def b using one [of 3 n] hi [of "12 + (60 + n)"] by (simp del: push_bit_of_1)
  qed
  have "push_bit 12 (take_bit 44 (make_satp pt)) = push_bit 12 (drop_bit 12 pt)"
  proof (rule bit_word_eqI)
    fix n show "bit (push_bit 12 (take_bit 44 (make_satp pt))) n = bit (push_bit 12 (drop_bit 12 pt)) n"
      using hi [of n] by (cases "56 \<le> n") (auto simp: bit_simps b)
  qed
  also have "\<dots> = pt" using unat_push_drop_u64 [of 12 pt] assms(2) by (auto simp: u64_eq_iff_unat)
  finally show "push_bit 12 (take_bit 44 (make_satp pt)) = pt" .
qed

lemma kernel_space_ok:
  assumes "unat etext mod 4096 = 0"
  shows "space_ok (kernel_space etext trampoline)"
proof -
  have p: "leaf_perm (PTE_R OR PTE_X)" "leaf_perm (PTE_R OR PTE_W)" "leaf_perm (PTE_R OR PTE_X OR PTE_G)" "leaf_perm (PTE_R OR PTE_W OR PTE_G)"
    by (simp_all add: leaf_perm_def perm_ok_def PTE_R_def PTE_W_def PTE_X_def PTE_G_def)
  have a: "unat KERNEL_BASE mod 4096 = 0" "unat VIRTIO_MMIO_BASE mod 4096 = 0" "unat PLIC_BASE mod 4096 = 0"
    "unat (pg_round_down trampoline PAGE_SIZE) mod 4096 = 0"
    by (simp_all add: memory_map_values unat_pg_round_down_page)
  have "space_ok (\<lambda>_. None)" by (simp add: space_ok_def)
  from space_map_ok [OF space_map_ok [OF space_map_ok [OF space_map_ok [OF space_map_ok [OF this p(1) a(1)] p(2) assms] p(3) a(4)] p(2) a(2)] p(4) a(3)]
  show ?thesis unfolding kernel_space_def Let_def .
qed

lemma mem_init_run:
  assumes "slab_allocator_new = Inr caches" and "unat etext mod 4096 = 0" and "KERNEL_BASE < etext" and "etext < MEM_END"
    and "0 < unat end_addr" and "unat end_addr + 0x400000 \<le> unat MEM_END"
  shows "\<exists>pt s A P n. mem_init end_addr etext trampoline (caches, buddy_new, mem) = Inr (make_satp pt, s) \<and>
    unat pt < 2 ^ 56 \<and> unat pt mod 4096 = 0 \<and> kp.space_in (region_start end_addr * 4096) n A P pt (kernel_space etext trampoline) s \<and>
    300 \<le> heap_pairs s"
proof -
  let ?b = "region_start end_addr * 4096" and ?n = "region_pages end_addr MEM_END"
  have me: "unat MEM_END = 0x88000000" by (simp add: memory_map_values)
  have big: "1023 \<le> ?n" using assms(6) unfolding region_pages_def region_start_def me by linarith
  have fin: "?b + ?n * 4096 \<le> 0x88000000" using big unfolding region_pages_def me by simp
  from init_inv [of buddy_new end_addr MEM_END mem] assms(5) big me obtain st where
    st: "buddy_init end_addr MEM_END (buddy_new, mem) = Inr st" by (auto simp: buddy_new_def)
  then have i: "init_allocator end_addr MEM_END (caches, buddy_new, mem) = Inr (caches, st)" by (simp add: init_allocator_def)
  have pos: "0 < ?n" "unat MEM_END < 2 ^ 63" using big me by simp_all
  note h = heap_init [OF assms(5) pos assms(1) i]
  obtain v where e: "unat etext = v * 4096" using assms(2) by (metis dvd_def dvd_eq_mod_eq_0 mult.commute)
  have v: "0x80200 < v" "v < 0x88000" using assms(3,4) e by (simp_all add: memory_map_defs word_less_nat_alt)
  have "pages_inv ?b ?n [] {} (caches, st)" using h(1) by (auto simp: pages_inv_def)
  from kvm_make_run [OF this e v, of trampoline] h(2) big obtain pt s P where
    k: "kvm_make kernel_pages etext trampoline (caches, st) = Inr (pt, s)" "kp.space_in ?b ?n [] P pt (kernel_space etext trampoline) s"
      "300 \<le> heap_pairs s"
    by (auto simp: heap_pairs_def)
  have run: "mem_init end_addr etext trampoline (caches, buddy_new, mem) = Inr (make_satp pt, s)" by (simp add: mem_init_def i k(1))
  from kp.space_root [OF k(2)] obtain Z where Z: "pt \<in> P" "finite P" "heap_inv ?b ?n Z s" "mset Z = mset_set ((\<lambda>p. (p, 4096)) ` P) + mset []"
    by (auto simp: pages_inv_def)
  note pt = held_page [OF Z(4,2,1)]
  have "unat pt + 4096 \<le> ?b + ?n * 4096" using gh.room [OF Z(3) pt] by (simp add: page_size_facts)
  with fin have "unat pt < 2 ^ 56" by simp
  moreover have "unat pt mod 4096 = 0" using heap_page(1) [OF Z(3) pt] by (simp add: page_ok_def)
  ultimately show ?thesis using run k(2,3)
    by (intro exI [of _ pt] exI [of _ s]) (rule exI [of _ "[]"], rule exI [of _ P], rule exI [of _ ?n], intro conjI)
qed

section \<open>Runs of a page table\<close>

text \<open>
  From initialisation on: clients use the heap, one of them makes a table, and from then on
  calls of \<open>map\<close> and the other clients take turns.
\<close>

definition table_run :: "u64 \<Rightarrow> u64 \<Rightarrow> memory \<Rightarrow> u64 \<Rightarrow> slab_state \<times> (u64 \<times> u64) list \<times> space \<Rightarrow> bool" where
  "table_run start_addr end_addr mem root t \<longleftrightarrow>
     (\<exists>caches s0 s1 A1 s2. slab_allocator_new = Inr caches \<and> init_allocator start_addr end_addr (caches, buddy_new, mem) = Inr s0 \<and>
        (heap_step global_alloc global_dealloc frees_inner heap_store_word)\<^sup>*\<^sup>* (s0, []) (s1, A1) \<and>
        new_zeroed s1 = Inr (root, s2) \<and> (space_step root)\<^sup>*\<^sup>* (s2, A1, \<lambda>_. None) t)"

lemma table_run_space:
  assumes "0 < unat start_addr" and "0 < region_pages start_addr end_addr" and "unat end_addr < 2 ^ 63"
    and "table_run start_addr end_addr mem root t"
  shows "space_at (region_start start_addr * 4096) (region_pages start_addr end_addr) root t"
proof -
  from assms(4) obtain caches s0 s1 A1 s2 where
    r: "slab_allocator_new = Inr caches" "init_allocator start_addr end_addr (caches, buddy_new, mem) = Inr s0"
      "(heap_step global_alloc global_dealloc frees_inner heap_store_word)\<^sup>*\<^sup>* (s0, []) (s1, A1)"
      "new_zeroed s1 = Inr (root, s2)" "(space_step root)\<^sup>*\<^sup>* (s2, A1, \<lambda>_. None) t"
    unfolding table_run_def by (elim exE conjE) (rule that)
  from gh.run_keeps_inv [OF r(3) heap_init(1) [OF assms(1-3) r(1,2)]]
  have "heap_inv (region_start start_addr * 4096) (region_pages start_addr end_addr) A1 s1" by simp
  then show ?thesis by (rule space_run [OF _ r(4,5)])
qed

text \<open>One page mapped in a region of 496 pages.\<close>

lemma table_demo:
  obtains root s where "table_run 0x80210000 0x80400000 (\<lambda>_. 0) root (s, [], space_map 5 1 0x80000000 (PTE_R OR PTE_W) (\<lambda>_. None))"
    and "240 \<le> heap_pairs s"
proof -
  let ?b = "region_start 0x80210000 * 4096" and ?n = "region_pages 0x80210000 0x80400000"
  obtain caches where c: "slab_allocator_new = Inr caches" unfolding caches_new_eq by blast
  have n: "?n = 496" by (simp add: region_pages_def region_start_def)
  from init_inv [of buddy_new "0x80210000" "0x80400000" "\<lambda>_. 0"] n obtain st where
    st: "buddy_init 0x80210000 0x80400000 (buddy_new, \<lambda>_. 0) = Inr st" by (auto simp: buddy_new_def)
  then have i: "init_allocator 0x80210000 0x80400000 (caches, buddy_new, \<lambda>_. 0) = Inr (caches, st)" by (simp add: init_allocator_def)
  have pos: "0 < unat (0x80210000 :: u64)" "0 < ?n" "unat (0x80400000 :: u64) < 2 ^ 63" using n by simp_all
  note h = heap_init [OF pos c i]
  have p: "pages_inv ?b ?n [] {} (caches, st)" using h(1) by (auto simp: pages_inv_def)
  have room: "247 \<le> heap_pairs (caches, st)" using h(2) n by (simp add: heap_pairs_def)
  obtain root s2 where new: "new_zeroed (caches, st) = Inr (root, s2)"
    using kp.new_fails [OF p] room by (cases "new_zeroed (caches, st)") auto
  have new': "po_new_zeroed kernel_pages (caches, st) = Inr (root, s2)" using new by simp
  have cost: "map_cost 1 = 4" by (simp add: map_cost_def)
  obtain s where m: "map_range kernel_pages root 0x5000 0x80000000 0x1000 (PTE_R OR PTE_W) s2 = Inr s" "heap_pairs s2 \<le> heap_pairs s + map_cost 1"
    by (rule map_pages_ok [OF kp.new_space(1) [OF p new'], of "0x5000" 5 "0x1000" 1 "0x80000000" "0x80000000" "PTE_R OR PTE_W"])
      (use room cost kp.new_page [OF p new'] in \<open>auto simp: pg_round_down_def\<close>)
  have "leaf_perm (PTE_R OR PTE_W)" by (simp add: leaf_perm_def perm_ok_def PTE_R_def PTE_W_def)
  from space_step.map [OF m(1) this, of "[]" "\<lambda>_. None"]
  have "space_step root (s2, [], \<lambda>_. None) (s, [], space_map 5 1 0x80000000 (PTE_R OR PTE_W) (\<lambda>_. None))"
    using space_range_eq [of "0x5000" 5 "0x1000" "0x80000000" "PTE_R OR PTE_W" "\<lambda>_. None"] by (simp add: npg_def)
  then have "table_run 0x80210000 0x80400000 (\<lambda>_. 0) root (s, [], space_map 5 1 0x80000000 (PTE_R OR PTE_W) (\<lambda>_. None))"
    unfolding table_run_def using c i new by blast
  moreover have "240 \<le> heap_pairs s" using room cost m(2) kp.new_page [OF p new'] by simp
  ultimately show thesis by (rule that)
qed

section \<open>Properties\<close>

text \<open>
  C2: The memory set-up of the kernel returns and is right. When the linker puts \<open>etext\<close> on a
  page boundary between the start of the kernel and the end of memory, and leaves 4 MiB after
  the kernel, \<open>init\<close> of \<open>mem\<close> neither panics nor hangs; it writes the mode Sv39 and a root to
  \<open>satp\<close>, and under that root the processor translates every address as the memory map says:
  kernel text readable and executable, data readable and writable, both at their own
  addresses, the trampoline page at the top, the device registers, and nothing else.
\<close>

theorem mem_init_maps:
  assumes "slab_allocator_new = Inr caches" and "unat etext mod 4096 = 0" and "KERNEL_BASE < etext" and "etext < MEM_END"
    and "unat trampoline mod 4096 = 0" and "0 < unat end_addr" and "unat end_addr + 0x400000 \<le> unat MEM_END"
  shows "\<exists>satp s. mem_init end_addr etext trampoline (caches, buddy_new, mem) = Inr (satp, s) \<and> drop_bit 60 satp = 8 \<and>
    (\<forall>va. unat va < 2 ^ 39 \<longrightarrow>
      map_option (\<lambda>(pa, e). (pa, pte_flags e)) (translate (\<lambda>w. heap_load w s) (push_bit 12 (take_bit 44 satp)) va) =
      kernel_layout etext trampoline va)"
proof -
  from mem_init_run [OF assms(1-4,6,7), of trampoline mem] obtain pt s A P n where
    r: "mem_init end_addr etext trampoline (caches, buddy_new, mem) = Inr (make_satp pt, s)" "unat pt < 2 ^ 56" "unat pt mod 4096 = 0"
      "kp.space_in (region_start end_addr * 4096) n A P pt (kernel_space etext trampoline) s" by (elim exE conjE) (rule that; assumption)
  obtain v where e: "unat etext = v * 4096" using assms(2) by (metis dvd_def dvd_eq_mod_eq_0 mult.commute)
  have v: "0x80200 < v" "v < 0x88000" using assms(3,4) e by (simp_all add: memory_map_defs word_less_nat_alt)
  note satp = satp_bits [OF r(2,3)]
  have "map_option (\<lambda>(pa, e). (pa, pte_flags e)) (translate (\<lambda>w. heap_load w s) pt va) = kernel_layout etext trampoline va"
    if "unat va < 2 ^ 39" for va
    using kp.space_translate [OF r(4) kernel_space_ok [OF assms(2)] that] kernel_space_lookup [OF e v assms(5), of va] by simp
  with r(1) satp show ?thesis by auto
qed

theorem mem_init_maps_witness:
  "\<exists>caches satp s. slab_allocator_new = Inr caches \<and> mem_init 0x80300000 0x80210000 0x80205000 (caches, buddy_new, \<lambda>_. 0) = Inr (satp, s) \<and>
    map_option (\<lambda>(pa, e). (pa, pte_flags e)) (translate (\<lambda>w. heap_load w s) (push_bit 12 (take_bit 44 satp)) 0x80212345) = Some (0x80212345, 7)"
proof -
  obtain caches where c: "slab_allocator_new = Inr caches" unfolding caches_new_eq by blast
  have "kernel_layout 0x80210000 0x80205000 0x80212345 = Some (0x80212345, 7)"
    by (simp add: kernel_layout_def memory_map_defs PTE_V_def PTE_R_def PTE_W_def)
  moreover from mem_init_maps [OF c, of "0x80210000" "0x80205000" "0x80300000" "\<lambda>_. 0"] obtain satp s where
    "mem_init 0x80300000 0x80210000 0x80205000 (caches, buddy_new, \<lambda>_. 0) = Inr (satp, s)"
    "\<forall>va. unat va < 2 ^ 39 \<longrightarrow>
      map_option (\<lambda>(pa, e). (pa, pte_flags e)) (translate (\<lambda>w. heap_load w s) (push_bit 12 (take_bit 44 satp)) va) =
      kernel_layout 0x80210000 0x80205000 va" by (auto simp: memory_map_defs)
  moreover have "unat (0x80212345 :: u64) < 2 ^ 39" by simp
  ultimately show ?thesis using c by metis
qed

text \<open>
  C3: A page table is the address space it is meant to be. Take any run in which calls of \<open>map\<close>
  for a table alternate with other uses of the heap, where the calls of \<open>map\<close> have page-aligned
  addresses, leaf permissions and a size that does not wrap when rounded up, and where no free
  empties a slab that is not the first of its cache. Then the processor translates an
  address through the table exactly as the calls that returned ask for: every byte of a
  range asked for to its physical byte with the permissions of that call, and likewise the
  rest of its last page, and every other address to a fault.
\<close>

theorem page_table_translates:
  assumes "0 < unat start_addr" and "0 < region_pages start_addr end_addr" and "unat end_addr < 2 ^ 63"
    and "table_run start_addr end_addr mem root (s, A, m)" and "unat va < 2 ^ 39"
  shows "map_option (\<lambda>(pa, e). (pa, pte_flags e)) (translate (\<lambda>w. heap_load w s) root va) = space_lookup m va"
proof -
  from table_run_space [OF assms(1-4)] obtain P where
    "space_ok m" "kp.space_in (region_start start_addr * 4096) (region_pages start_addr end_addr) A P root m s" by (auto simp: space_at_def)
  from kp.space_translate [OF this(2,1) assms(5)] show ?thesis by simp
qed

theorem page_table_translates_witness:
  "\<exists>root s m. table_run 0x80210000 0x80400000 (\<lambda>_. 0) root (s, [], m) \<and>
    map_option (\<lambda>(pa, e). (pa, pte_flags e)) (translate (\<lambda>w. heap_load w s) root 0x5123) = Some (0x80000123, 7) \<and>
    translate (\<lambda>w. heap_load w s) root 0x6123 = None"
proof -
  obtain root s where r: "table_run 0x80210000 0x80400000 (\<lambda>_. 0) root (s, [], space_map 5 1 0x80000000 (PTE_R OR PTE_W) (\<lambda>_. None))"
    by (rule table_demo)
  have n: "0 < unat (0x80210000 :: u64)" "0 < region_pages 0x80210000 0x80400000" "unat (0x80400000 :: u64) < 2 ^ 63"
    by (simp_all add: region_pages_def region_start_def)
  from page_table_translates [OF n r, of "0x5123"] page_table_translates [OF n r, of "0x6123"] r show ?thesis
    by (intro exI [of _ root] exI [of _ s]) (auto simp: space_lookup_def space_map_def PTE_V_def PTE_R_def PTE_W_def)
qed

text \<open>
  C15: When \<open>map\<close> panics. In any such run a call of \<open>map\<close> with whatever arguments returns or
  panics, it never runs on. Let \<open>start\<close> be the start of the page of \<open>va\<close>, from which \<open>map\<close> counts
  the size. A size so large that it wraps around when rounded up to pages makes \<open>map\<close> return at
  once, with nothing mapped. Any other call panics when the size is 0, when \<open>size\<close> bytes from
  \<open>start\<close> pass the end of the address space, and when a page with one of these bytes is mapped
  already; and otherwise only when memory is short, with fewer than \<open>map_cost\<close> pairs of pages
  left.
\<close>

theorem map_outcome:
  assumes "0 < unat start_addr" and "0 < region_pages start_addr end_addr" and "unat end_addr < 2 ^ 63"
    and "table_run start_addr end_addr mem root (s, A, m)" and "start = unat va div 4096 * 4096"
  shows "if 2 ^ 64 - 4096 < unat sz then map_range kernel_pages root va pa sz perm s = Inr s
    else if sz = 0 \<or> 2 ^ 38 < start + unat sz \<or> (\<exists>w. page_in w start (unat sz) \<and> m w \<noteq> None)
    then map_range kernel_pages root va pa sz perm s = Inl Panic
    else (\<exists>s'. map_range kernel_pages root va pa sz perm s = Inr s') \<or>
      map_range kernel_pages root va pa sz perm s = Inl Panic \<and> heap_pairs s < map_cost (npg sz)"
proof -
  let ?v = "unat va div 4096" and ?r = "map_range kernel_pages root va pa sz perm s"
  from table_run_space [OF assms(1-4)] obtain P where
    P: "kp.space_in (region_start start_addr * 4096) (region_pages start_addr end_addr) A P root m s" by (auto simp: space_at_def)
  consider (wrap) "2 ^ 64 - 4096 < unat sz" | (zero) "sz = 0" | (past) "0 < unat sz" "2 ^ 38 < ?v * 4096 + unat sz" "unat sz \<le> 2 ^ 64 - 4096"
    | (inside) "0 < unat sz" "?v * 4096 + unat sz \<le> 2 ^ 38"
    by (metis unat_gt_0 linorder_not_le)
  then show ?thesis
  proof cases
    case wrap
    then have "0 < sz" by (auto simp: word_gt_0)
    then have "?r = Inr s" unfolding map_range_def Let_def range_start [OF refl] range_none [OF page_below [OF refl] wrap]
      by (simp add: map_loop.simps run_loop_def)
    with wrap show ?thesis by simp
  next
    case zero
    then show ?thesis by (simp add: map_range_def)
  next
    case past
    have "?r = Inl Panic" by (rule kp.map_range_past [OF P refl past])
    with past show ?thesis unfolding assms(5) by auto
  next
    case inside
    let ?R = "{?v..<?v + npg sz}"
    have le: "?v + npg sz \<le> 2 ^ 26" using inside(2) unfolding npg_def by simp
    have "?r = Inl Panic \<and> ((\<exists>w \<in> ?R. m w \<noteq> None) \<or> heap_pairs s < map_cost (npg sz)) \<or> (\<exists>s'. ?r = Inr s') \<and> \<not> (\<exists>w \<in> ?R. m w \<noteq> None)"
      using kp.map_range_space [OF P refl inside(1) le, of pa perm] by (elim disjE exE conjE) (simp_all del: split_paired_Ex)
    then have r: "if \<exists>w \<in> ?R. m w \<noteq> None then ?r = Inl Panic else (\<exists>s'. ?r = Inr s') \<or> ?r = Inl Panic \<and> heap_pairs s < map_cost (npg sz)"
      by (cases "\<exists>w \<in> ?R. m w \<noteq> None") (simp_all only: if_True if_False not_True_eq_False simp_thms, blast+)
    have c: "(2 ^ 64 - 4096 < unat sz) = False" "(sz = 0) = False" "(2 ^ 38 < ?v * 4096 + unat sz) = False" using inside by auto
    show ?thesis unfolding assms(5) c pages_touched [OF inside(1)] simp_thms if_False by (rule r)
  qed
qed

theorem map_outcome_witness:
  "\<exists>root s m. table_run 0x80210000 0x80400000 (\<lambda>_. 0) root (s, [], m) \<and>
    map_range kernel_pages root 0x5800 0 0x1000 (PTE_R OR PTE_X) s = Inl Panic \<and>
    map_range kernel_pages root 0x3FFFFFF000 0 0x2000 (PTE_R OR PTE_X) s = Inl Panic \<and>
    map_range kernel_pages root 0 0 0xFFFFFFFFFFFFF001 (PTE_R OR PTE_X) s = Inr s"
proof -
  obtain root s where r: "table_run 0x80210000 0x80400000 (\<lambda>_. 0) root (s, [], space_map 5 1 0x80000000 (PTE_R OR PTE_W) (\<lambda>_. None))"
    by (rule table_demo)
  have n: "0 < unat (0x80210000 :: u64)" "0 < region_pages 0x80210000 0x80400000" "unat (0x80400000 :: u64) < 2 ^ 63"
    by (simp_all add: region_pages_def region_start_def)
  have "\<exists>w. page_in w 0x5000 0x1000 \<and> space_map 5 1 0x80000000 (PTE_R OR PTE_W) (\<lambda>_. None) w \<noteq> None"
    by (rule exI [of _ 5]) (simp add: page_in_def space_map_def)
  then have "map_range kernel_pages root 0x5800 0 0x1000 (PTE_R OR PTE_X) s = Inl Panic"
    using map_outcome [OF n r refl, of "0x1000" "0x5800" 0 "PTE_R OR PTE_X"] by simp
  moreover have "map_range kernel_pages root 0x3FFFFFF000 0 0x2000 (PTE_R OR PTE_X) s = Inl Panic"
    using map_outcome [OF n r refl, of "0x2000" "0x3FFFFFF000" 0 "PTE_R OR PTE_X"] by simp
  moreover have "map_range kernel_pages root 0 0 0xFFFFFFFFFFFFF001 (PTE_R OR PTE_X) s = Inr s"
    using map_outcome [OF n r refl, of "0xFFFFFFFFFFFFF001" 0 0 "PTE_R OR PTE_X"] by simp
  ultimately show ?thesis using r by blast
qed

text \<open>
  C26: \<open>map\<close> leaves out the last page of a range that starts inside a page and ends in the first
  bytes of a page. Let the offset of \<open>va\<close> in its page and the offset of the last byte from \<open>va\<close>,
  taken modulo the page size, add up to a page or more, and let the last page of the range
  not be mapped yet. When such a call of \<open>map\<close> with leaf permissions returns, the first byte of
  the range is translated and the last byte faults. The cause is that \<open>map\<close> computes the end
  from the rounded-down start.
\<close>

theorem map_misses_last_page:
  assumes "0 < unat start_addr" and "0 < region_pages start_addr end_addr" and "unat end_addr < 2 ^ 63"
    and "table_run start_addr end_addr mem root (s, A, m)" and "map_range kernel_pages root va pa sz perm s = Inr s'"
    and "leaf_perm perm" and "unat va + unat sz \<le> 2 ^ 38" and "4096 \<le> unat va mod 4096 + (unat sz - 1) mod 4096"
    and "m ((unat va + unat sz - 1) div 4096) = None"
  shows "translate (\<lambda>w. heap_load w s') root va \<noteq> None \<and> translate (\<lambda>w. heap_load w s') root (va + sz - 1) = None"
proof -
  let ?v = "unat va div 4096" and ?l = "(unat va + unat sz - 1) div 4096"
  let ?m = "space_map ?v (npg sz) (pg_round_down pa PAGE_SIZE) perm m"
  from table_run_space [OF assms(1-4)] obtain P where
    P: "space_ok m" "kp.space_in (region_start start_addr * 4096) (region_pages start_addr end_addr) A P root m s" by (auto simp: space_at_def)
  have sz: "unat sz \<le> 2 ^ 64 - 4096" using assms(7) by simp
  note ok = map_success [OF P(2) assms(5) sz]
  from kp.map_range_space [OF P(2) refl ok, of pa perm] assms(5) obtain P' where
    P': "kp.space_in (region_start start_addr * 4096) (region_pages start_addr end_addr) A P' root ?m s'" by auto
  have ok': "space_ok ?m" by (rule space_map_ok [OF P(1) assms(6)]) (simp add: unat_pg_round_down_page)
  have "unat (va + sz) = unat va + unat sz" using assms(7) by (subst unat_add_u64) simp_all
  then have last: "unat (va + sz - 1) = unat va + unat sz - 1" using ok(1) by (metis add_gr_0 unat_gt_0 unat_minus_one)
  obtain k where k: "unat sz = Suc k" using ok(1) gr0_implies_Suc by blast
  have "1 \<le> (unat va mod 4096 + k mod 4096) div 4096" using assms(8) k by simp
  then have "?v + npg sz \<le> ?l" using div_add1_eq [of "unat va" k 4096] div_add_self1 [of 4096 k] k by (simp add: npg_def)
  then have "space_lookup ?m (va + sz - 1) = None" using assms(9) by (simp add: space_lookup_def last space_map_def)
  moreover have "0 < npg sz" using ok(1) unfolding npg_def by linarith
  then have "space_lookup ?m va \<noteq> None" by (simp add: space_lookup_def space_map_def)
  moreover have "unat va < 2 ^ 39" "unat (va + sz - 1) < 2 ^ 39" using assms(7) last by simp_all
  ultimately show ?thesis using kp.space_translate [OF P' ok', of va] kp.space_translate [OF P' ok', of "va + sz - 1"] by auto
qed

theorem map_misses_last_page_witness:
  "\<exists>root s m s'. table_run 0x80210000 0x80400000 (\<lambda>_. 0) root (s, [], m) \<and>
    map_range kernel_pages root 0x7800 0x80010800 0x1000 (PTE_R OR PTE_W) s = Inr s' \<and>
    translate (\<lambda>w. heap_load w s') root 0x7800 \<noteq> None \<and> translate (\<lambda>w. heap_load w s') root 0x87FF = None"
proof -
  let ?m = "space_map 5 1 0x80000000 (PTE_R OR PTE_W) (\<lambda>_. None)"
  obtain root s where r: "table_run 0x80210000 0x80400000 (\<lambda>_. 0) root (s, [], ?m)" and pairs: "240 \<le> heap_pairs s"
    by (rule table_demo)
  have n: "0 < unat (0x80210000 :: u64)" "0 < region_pages 0x80210000 0x80400000" "unat (0x80400000 :: u64) < 2 ^ 63"
    by (simp_all add: region_pages_def region_start_def)
  from table_run_space [OF n r] obtain P where
    P: "kp.space_in (region_start 0x80210000 * 4096) (region_pages 0x80210000 0x80400000) [] P root ?m s" by (auto simp: space_at_def)
  obtain s' where m: "map_range kernel_pages root 0x7800 0x80010800 0x1000 (PTE_R OR PTE_W) s = Inr s'"
    using kp.map_range_ok [OF P, of "0x7800" 7 "0x1000" 1 "0x80010800" "PTE_R OR PTE_W"] pairs
    by (auto simp: npg_def map_cost_def space_map_def)
  have "leaf_perm (PTE_R OR PTE_W)" by (simp add: leaf_perm_def perm_ok_def PTE_R_def PTE_W_def)
  from map_misses_last_page [OF n r m this]
  have "translate (\<lambda>w. heap_load w s') root 0x7800 \<noteq> None \<and> translate (\<lambda>w. heap_load w s') root 0x87FF = None"
    by (simp add: space_map_def)
  with m r show ?thesis by blast
qed

section \<open>Property of page table entries\<close>

text \<open>
  C27: A page table entry gives back the page-aligned address and the flags it was made from
  and is valid and not empty. But \<open>is_directory\<close> asks for all of \<open>R\<close>, \<open>W\<close> and \<open>X\<close> where
  the hardware's tables have none of them: the entry \<open>walk\<close> writes for a lower table counts
  as a page, and a page counts as a directory as soon as it has all three permissions.
\<close>

theorem pte_encoding:
  assumes "unat pa mod 4096 = 0" and "perm_ok perm"
  shows "pte_pa (pte_new pa (PTE_V OR perm)) = pa \<and> pte_flags (pte_new pa (PTE_V OR perm)) = PTE_V OR perm \<and>
    pte_is_valid (pte_new pa (PTE_V OR perm)) \<and> \<not> pte_is_empty (pte_new pa (PTE_V OR perm)) \<and>
    (pte_is_directory (pte_new pa (PTE_V OR perm)) \<longleftrightarrow>
      perm AND PTE_R \<noteq> 0 \<and> perm AND PTE_W \<noteq> 0 \<and> perm AND PTE_X \<noteq> 0) \<and>
    pte_is_page (pte_new pa PTE_V) \<and> \<not> pte_is_directory (pte_new pa PTE_V)"
proof -
  let ?e = "pte_new pa (PTE_V OR perm)"
  note b = bit_pte_new(1) [OF perm_flags(1) [OF assms(2)], of _ pa]
  have "bit ?e n = bit (PTE_V OR perm) n" if "n < 8" for n using b that by simp
  then have "take_bit 8 ?e = take_bit 8 (PTE_V OR perm)" by (intro bit_word_eqI) (auto simp: bit_simps)
  then have flags: "pte_flags ?e = PTE_V OR perm" unfolding pte_flags_def perm_flags(2) [OF assms(2)] .
  have v: "pte_is_valid ?e" using b by (simp add: pte_test_bits PTE_V_def bit_simps)
  then have "\<not> pte_is_empty ?e" using pte_table(3) unfolding pte_is_empty_def by metis
  moreover have "bit ?e n = bit perm n" if "0 < n" "n < 4" for n
    using b that by (simp add: PTE_V_def bit_simps bit_1_iff)
  then have "pte_is_directory ?e \<longleftrightarrow> perm AND PTE_R \<noteq> 0 \<and> perm AND PTE_W \<noteq> 0 \<and> perm AND PTE_X \<noteq> 0"
    using v and_one_bit [of perm 1] and_one_bit [of perm 2] and_one_bit [of perm 3]
    by (simp add: pte_is_directory_def pte_test_bits pte_flag_bits)
  ultimately show ?thesis
    using flags v pte_pa_new [OF perm_flags(1) [OF assms(2)], of pa] assms(1) by (simp add: pte_is_page_def pte_is_directory_def)
qed

theorem pte_encoding_witness:
  "pte_pa (pte_new 0x80210000 (PTE_V OR (PTE_R OR PTE_W OR PTE_X))) = 0x80210000 \<and>
   pte_is_directory (pte_new 0x80210000 (PTE_V OR (PTE_R OR PTE_W OR PTE_X))) \<and> pte_is_page (pte_new 0x80210000 PTE_V)"
  using pte_encoding [of "0x80210000" "PTE_R OR PTE_W OR PTE_X"]
  by (simp add: perm_ok_def PTE_R_def PTE_W_def PTE_X_def)

end
