(* ===== verification/Console.thy ===== *)
theory Console
  imports Bytes
begin

text \<open>
  Environment calls and what is printed with them: \<open>syscall/src/sbi.rs\<close> and
  \<open>syscall/src/lib.rs\<close>, the consoles of the kernel (\<open>kernel/src/console.rs\<close>) and of user
  programs (\<open>user/src/console.rs\<close>, \<open>user/src/lib.rs\<close>), the logger (\<open>kernel/src/logger.rs\<close>) and
  the two entry points. What answers an \<open>ecall\<close>, the firmware below the kernel or the kernel
  below a program, is a parameter with a state of its own.
\<close>

section \<open>Environment calls\<close>

record ecall =
  ec_which :: u64
  ec_arg0 :: u64
  ec_arg1 :: u64
  ec_arg2 :: u64

type_synonym 'e environment = "ecall \<Rightarrow> 'e \<Rightarrow> u64 \<times> 'e"

definition SBI_SET_TIMER :: u64 where "SBI_SET_TIMER = 0"
definition SBI_CONSOLE_PUTCHAR :: u64 where "SBI_CONSOLE_PUTCHAR = 1"
definition SBI_CONSOLE_GETCHAR :: u64 where "SBI_CONSOLE_GETCHAR = 2"
definition SBI_SHUTDOWN :: u64 where "SBI_SHUTDOWN = 8"

definition sbi_call :: "'e environment \<Rightarrow> u64 \<Rightarrow> u64 \<Rightarrow> u64 \<Rightarrow> u64 \<Rightarrow> 'e \<Rightarrow> u64 \<times> 'e" where
  "sbi_call env which arg0 arg1 arg2 e = env \<lparr>ec_which = which, ec_arg0 = arg0, ec_arg1 = arg1, ec_arg2 = arg2\<rparr> e"

definition console_putchar :: "'e environment \<Rightarrow> u8 \<Rightarrow> 'e \<Rightarrow> 'e" where
  "console_putchar env c e = snd (sbi_call env SBI_CONSOLE_PUTCHAR (ucast c) 0 0 e)"

definition console_getchar :: "'e environment \<Rightarrow> 'e \<Rightarrow> u64 \<times> 'e" where
  "console_getchar env e = sbi_call env SBI_CONSOLE_GETCHAR 0 0 0 e"

definition set_timer :: "'e environment \<Rightarrow> u64 \<Rightarrow> 'e \<Rightarrow> 'e" where
  "set_timer env timer e = snd (sbi_call env SBI_SET_TIMER timer 0 0 e)"

text \<open>\<open>shutdown\<close> does not return: if the firmware does, an empty loop follows.\<close>

definition shutdown :: "'e environment \<Rightarrow> 'e \<Rightarrow> fault \<times> 'e" where
  "shutdown env e = (Hang, snd (sbi_call env SBI_SHUTDOWN 0 0 0 e))"

definition SYSCALL_WRITE :: u64 where "SYSCALL_WRITE = 64"
definition SYSCALL_TIME :: u64 where "SYSCALL_TIME = 169"

definition syscall :: "'e environment \<Rightarrow> u64 \<Rightarrow> u64 \<Rightarrow> u64 \<Rightarrow> u64 \<Rightarrow> 'e \<Rightarrow> u64 \<times> 'e" where
  "syscall env no a0 a1 a2 e = env \<lparr>ec_which = no, ec_arg0 = a0, ec_arg1 = a1, ec_arg2 = a2\<rparr> e"

text \<open>A slice is its address and its bytes.\<close>

definition sys_write :: "'e environment \<Rightarrow> u64 \<Rightarrow> u64 \<times> bytes \<Rightarrow> 'e \<Rightarrow> u64 \<times> 'e" where
  "sys_write env fd = (\<lambda>(ptr, buffer) e. syscall env SYSCALL_WRITE fd ptr (of_nat (length buffer)) e)"

definition sys_time :: "'e environment \<Rightarrow> 'e \<Rightarrow> u64 \<times> 'e" where
  "sys_time env e = syscall env SYSCALL_TIME 0 0 0 e"

section \<open>Characters\<close>

text \<open>\<open>str::chars\<close>: the scalar values of well-formed UTF-8, and \<open>char::encode_utf8\<close>.\<close>

fun utf8_chars :: "bytes \<Rightarrow> nat list" where
  "utf8_chars [] = []"
| "utf8_chars (a # bs) =
    (if a \<le> 0x7F then unat a # utf8_chars bs
     else if a \<le> 0xDF then
       (case bs of b # cs \<Rightarrow> (unat a mod 32 * 64 + unat b mod 64) # utf8_chars cs | _ \<Rightarrow> [])
     else if a \<le> 0xEF then
       (case bs of b # c # ds \<Rightarrow> (unat a mod 16 * 4096 + unat b mod 64 * 64 + unat c mod 64) # utf8_chars ds | _ \<Rightarrow> [])
     else
       (case bs of b # c # d # es \<Rightarrow>
          (unat a mod 8 * 262144 + unat b mod 64 * 4096 + unat c mod 64 * 64 + unat d mod 64) # utf8_chars es | _ \<Rightarrow> []))"

definition encode_utf8 :: "nat \<Rightarrow> bytes" where
  "encode_utf8 c =
     (if c < 0x80 then [of_nat c]
      else if c < 0x800 then [of_nat (0xC0 + c div 64), of_nat (0x80 + c mod 64)]
      else if c < 0x10000 then [of_nat (0xE0 + c div 4096), of_nat (0x80 + c div 64 mod 64), of_nat (0x80 + c mod 64)]
      else [of_nat (0xF0 + c div 262144), of_nat (0x80 + c div 4096 mod 64), of_nat (0x80 + c div 64 mod 64), of_nat (0x80 + c mod 64)])"

section \<open>The console of the kernel\<close>

definition kernel_write_str :: "'e environment \<Rightarrow> bytes \<Rightarrow> 'e \<Rightarrow> 'e" where
  "kernel_write_str env s e = fold (\<lambda>c e. fold (console_putchar env) (encode_utf8 c) e) (utf8_chars s) e"

text \<open>\<open>write_fmt\<close> hands the pieces of a formatted text to \<open>write_str\<close> one after the other.\<close>

definition kernel_print :: "'e environment \<Rightarrow> bytes list \<Rightarrow> 'e \<Rightarrow> 'e" where
  "kernel_print env pieces e = fold (kernel_write_str env) pieces e"

datatype log_level = Error | Warn | Info | Debug | Trace

definition bytes_of :: "string \<Rightarrow> bytes" where
  "bytes_of = map (\<lambda>c. of_nat (of_char c))"

text \<open>Escape sequences set the colour of the level.\<close>

fun level_text :: "log_level \<Rightarrow> string" where
  "level_text Error = CHR 27 # ''[31merror'' @ CHR 27 # ''[0m''"
| "level_text Warn = CHR 27 # ''[93mwarn '' @ CHR 27 # ''[0m''"
| "level_text Info = CHR 27 # ''[34minfo '' @ CHR 27 # ''[0m''"
| "level_text Debug = CHR 27 # ''[35mdebug'' @ CHR 27 # ''[0m''"
| "level_text Trace = CHR 27 # ''[96mtrace'' @ CHR 27 # ''[0m''"

definition logger_log :: "'e environment \<Rightarrow> log_level \<Rightarrow> bytes \<Rightarrow> 'e \<Rightarrow> 'e" where
  "logger_log env level args e = kernel_print env [bytes_of (level_text level), bytes_of '' '', args, bytes_of [CHR 10]] e"

text \<open>The panic handler of the kernel, with the place of the panic if it is known.\<close>

definition kernel_panic :: "'e environment \<Rightarrow> (bytes \<times> bytes) option \<Rightarrow> bytes \<Rightarrow> 'e \<Rightarrow> fault \<times> 'e" where
  "kernel_panic env location message e =
     shutdown env (case location of
         Some (file, line) \<Rightarrow> kernel_print env [bytes_of (CHR 10 # ''[panic] at ''), file, bytes_of '':'', line, bytes_of '' '', message, bytes_of [CHR 10]] e
       | None \<Rightarrow> kernel_print env [bytes_of ''[panic] '', message, bytes_of [CHR 10]] e)"

section \<open>User programs\<close>

definition STDOUT :: u64 where "STDOUT = 1"

text \<open>The pieces of a formatted text come with their addresses.\<close>

definition user_write_str :: "'e environment \<Rightarrow> u64 \<times> bytes \<Rightarrow> 'e \<Rightarrow> 'e" where
  "user_write_str env s e = snd (sys_write env STDOUT s e)"

definition user_print :: "'e environment \<Rightarrow> (u64 \<times> bytes) list \<Rightarrow> 'e \<Rightarrow> 'e" where
  "user_print env pieces e = fold (user_write_str env) pieces e"

definition hello_main :: "'e environment \<Rightarrow> u64 \<Rightarrow> 'e \<Rightarrow> u32 \<times> 'e" where
  "hello_main env text_addr e = (0, user_print env [(text_addr, bytes_of (''hello, world'' @ [CHR 10]))] e)"

text \<open>
  \<open>_start\<close> ignores what \<open>main\<close> returns and panics; the handler prints and loops for ever.
\<close>

definition user_start :: "('e \<Rightarrow> u32 \<times> 'e) \<Rightarrow> 'e environment \<Rightarrow> (u64 \<times> bytes) list \<Rightarrow> 'e \<Rightarrow> fault \<times> 'e" where
  "user_start main env panic_pieces e = (Hang, user_print env panic_pieces (snd (main e)))"

section \<open>Decoding and encoding\<close>

lemma unat_le_u8: "(a :: u8) \<le> b \<longleftrightarrow> unat a \<le> unat b"
  by (rule word_le_nat_alt)

lemma of_nat_u8: "unat (a :: u8) = n \<Longrightarrow> of_nat n = a"
  by auto

lemma mod_bracket:
  fixes k m n :: nat
  assumes "k * m \<le> n" and "n < Suc k * m"
  shows "n = k * m + n mod m"
proof -
  have "n div m = k" using assms by (intro div_nat_eqI) (simp_all add: mult.commute)
  then show ?thesis by (metis div_mult_mod_eq)
qed

lemma cont_byte: "utf8_cont b \<Longrightarrow> unat b = 0x80 + unat b mod 64"
  using mod_bracket [of 2 64 "unat b"] by (simp add: utf8_cont_def unat_le_u8)

lemma digits: "(y :: nat) < 64 \<Longrightarrow> (x * 64 + y) div 64 = x" "y < 64 \<Longrightarrow> (x * 64 + y) mod 64 = y"
  by simp_all

lemma encode_two:
  fixes a b :: u8
  assumes "0xC2 \<le> a" and "a \<le> 0xDF" and "utf8_cont b"
  shows "encode_utf8 (unat a mod 32 * 64 + unat b mod 64) = [a, b]"
proof -
  define x y where "x = unat a mod 32" and "y = unat b mod 64"
  have a: "unat a = 0xC0 + x" "x < 32" using assms(1,2) mod_bracket [of 6 32 "unat a"] by (simp_all add: x_def unat_le_u8)
  have "2 \<le> x" using assms(1) a(1) by (simp add: unat_le_u8)
  have b: "unat b = 0x80 + y" "y < 64" using cont_byte [OF assms(3)] by (simp_all add: y_def)
  have "(x * 64 + y) div 64 = x" "(x * 64 + y) mod 64 = y" using b(2) by simp_all
  moreover have "\<not> x * 64 + y < 0x80" "x * 64 + y < 0x800" using a b \<open>2 \<le> x\<close> by linarith+
  ultimately show ?thesis
    unfolding x_def [symmetric] y_def [symmetric] encode_utf8_def using of_nat_u8 [OF a(1)] of_nat_u8 [OF b(1)] by simp
qed

lemma encode_three:
  fixes a b c :: u8
  assumes "0xE0 \<le> a" and "a \<le> 0xEF" and "utf8_cont b" and "utf8_cont c" and "a = 0xE0 \<Longrightarrow> 0xA0 \<le> b"
  shows "encode_utf8 (unat a mod 16 * 4096 + unat b mod 64 * 64 + unat c mod 64) = [a, b, c]"
proof -
  define x y z where "x = unat a mod 16" and "y = unat b mod 64" and "z = unat c mod 64"
  have a: "unat a = 0xE0 + x" "x < 16" using assms(1,2) mod_bracket [of 14 16 "unat a"] by (simp_all add: x_def unat_le_u8)
  have b: "unat b = 0x80 + y" "y < 64" using cont_byte [OF assms(3)] by (simp_all add: y_def)
  have c: "unat c = 0x80 + z" "z < 64" using cont_byte [OF assms(4)] by (simp_all add: z_def)
  have "x = 0 \<Longrightarrow> 32 \<le> y" using assms(5) a(1) b(1) of_nat_u8 [OF a(1)] by (simp add: unat_le_u8)
  then have rng: "\<not> x * 4096 + y * 64 + z < 0x800" "x * 4096 + y * 64 + z < 0x10000" using a b c by (cases "x = 0"; linarith)+
  have n: "x * 4096 + y * 64 + z = (x * 64 + y) * 64 + z" by simp
  have d: "(x * 4096 + y * 64 + z) div 64 = x * 64 + y" "(x * 4096 + y * 64 + z) mod 64 = z"
    unfolding n by (rule digits [OF c(2)])+
  have q: "(x * 4096 + y * 64 + z) div 64 mod 64 = y" "(x * 4096 + y * 64 + z) div 4096 = x"
    using div_mult2_eq [of "x * 4096 + y * 64 + z" 64 64] unfolding d digits [OF b(2)] by simp_all
  have "\<not> x * 4096 + y * 64 + z < 0x80" using rng(1) by simp
  with rng show ?thesis
    unfolding x_def [symmetric] y_def [symmetric] z_def [symmetric] encode_utf8_def q d(2)
    by (simp only: if_False if_True of_nat_u8 [OF a(1)] of_nat_u8 [OF b(1)] of_nat_u8 [OF c(1)])
qed

lemma encode_four:
  fixes a b c d :: u8
  assumes "0xF0 \<le> a" and "a \<le> 0xF4" and "utf8_cont b" and "utf8_cont c" and "utf8_cont d" and "a = 0xF0 \<Longrightarrow> 0x90 \<le> b"
  shows "encode_utf8 (unat a mod 8 * 262144 + unat b mod 64 * 4096 + unat c mod 64 * 64 + unat d mod 64) = [a, b, c, d]"
proof -
  define x y z w where "x = unat a mod 8" and "y = unat b mod 64" and "z = unat c mod 64" and "w = unat d mod 64"
  have a: "unat a = 0xF0 + x" "x < 8" using assms(1,2) mod_bracket [of 30 8 "unat a"] by (simp_all add: x_def unat_le_u8)
  have b: "unat b = 0x80 + y" "y < 64" using cont_byte [OF assms(3)] by (simp_all add: y_def)
  have c: "unat c = 0x80 + z" "z < 64" using cont_byte [OF assms(4)] by (simp_all add: z_def)
  have d: "unat d = 0x80 + w" "w < 64" using cont_byte [OF assms(5)] by (simp_all add: w_def)
  let ?n = "x * 262144 + y * 4096 + z * 64 + w"
  have "x = 0 \<Longrightarrow> 16 \<le> y" using assms(6) a(1) b(1) of_nat_u8 [OF a(1)] by (simp add: unat_le_u8)
  then have "\<not> ?n < 0x10000" by (cases "x = 0"; linarith)
  then have rng: "\<not> ?n < 0x80" "\<not> ?n < 0x800" "\<not> ?n < 0x10000" by linarith+
  have n: "?n = ((x * 64 + y) * 64 + z) * 64 + w" by simp
  have q: "?n div 64 = (x * 64 + y) * 64 + z" "?n mod 64 = w" unfolding n by (rule digits [OF d(2)])+
  have r: "?n div 4096 = x * 64 + y" using div_mult2_eq [of ?n 64 64] unfolding q digits [OF c(2)] by simp
  have "?n div 262144 = x" using div_mult2_eq [of ?n 4096 64] unfolding r digits [OF b(2)] by simp
  moreover have "?n div 4096 mod 64 = y" "?n div 64 mod 64 = z" unfolding q r by (rule digits(2), fact)+
  ultimately show ?thesis
    unfolding x_def [symmetric] y_def [symmetric] z_def [symmetric] w_def [symmetric] encode_utf8_def
    by (simp only: rng if_False q(2) of_nat_u8 [OF a(1)] of_nat_u8 [OF b(1)] of_nat_u8 [OF c(1)] of_nat_u8 [OF d(1)])
qed

lemma decode_encode: "utf8_valid bs \<Longrightarrow> concat (map encode_utf8 (utf8_chars bs)) = bs"
proof (induction bs rule: utf8_chars.induct)
  case (2 a bs)
  consider (one) "a \<le> 0x7F" | (two) "0xC2 \<le> a" "a \<le> 0xDF" | (three) "0xE0 \<le> a" "a \<le> 0xEF" | (four) "0xF0 \<le> a" "a \<le> 0xF4"
    using 2(5) by (auto split: if_splits)
  then show ?case
  proof cases
    case one
    then have "unat a < 0x80" by (simp add: unat_le_u8)
    then have "encode_utf8 (unat a) = [a]" by (simp add: encode_utf8_def)
    with one 2 show ?thesis by simp
  next
    case two
    then have n: "\<not> a \<le> 0x7F" by (auto simp: unat_le_u8)
    with two 2(5) obtain b cs where bs: "bs = b # cs" "utf8_cont b" "utf8_valid cs" by (auto split: list.splits)
    with two n 2(2) encode_two [OF two bs(2)] show ?thesis by simp
  next
    case three
    then have n: "\<not> a \<le> 0x7F" "\<not> a \<le> 0xDF" by (auto simp: unat_le_u8)
    with three 2(5) obtain b c ds where bs: "bs = b # c # ds" "utf8_cont c" "utf8_valid ds"
      "if a = 0xE0 then 0xA0 \<le> b \<and> b \<le> 0xBF else if a = 0xED then 0x80 \<le> b \<and> b \<le> 0x9F else utf8_cont b"
      by (auto split: list.splits)
    then have "utf8_cont b" "a = 0xE0 \<Longrightarrow> 0xA0 \<le> b" by (auto simp: utf8_cont_def unat_le_u8 split: if_splits)
    with three n 2(3) bs encode_three [OF three _ bs(2)] show ?thesis by simp
  next
    case four
    then have n: "\<not> a \<le> 0x7F" "\<not> a \<le> 0xDF" "\<not> a \<le> 0xEF" by (auto simp: unat_le_u8)
    with four 2(5) obtain b c d es where bs: "bs = b # c # d # es" "utf8_cont c" "utf8_cont d" "utf8_valid es"
      "if a = 0xF0 then 0x90 \<le> b \<and> b \<le> 0xBF else if a = 0xF4 then 0x80 \<le> b \<and> b \<le> 0x8F else utf8_cont b"
      by (auto split: list.splits)
    then have "utf8_cont b" "a = 0xF0 \<Longrightarrow> 0x90 \<le> b" by (auto simp: utf8_cont_def unat_le_u8 split: if_splits)
    with four n 2(4) bs encode_four [OF four _ bs(2,3)] show ?thesis by simp
  qed
qed simp

text \<open>
  C23: The console prints what it is given. For well-formed text, which every \<open>str\<close> is, the
  kernel's console takes the characters apart and hands their bytes to the firmware one by
  one; the calls are exactly one per byte of the pieces, in order, so multi-byte characters
  come out whole.
\<close>

theorem console_prints_bytes:
  assumes "\<forall>piece \<in> set pieces. utf8_valid piece"
  shows "kernel_print env pieces e = fold (console_putchar env) (concat pieces) e"
proof -
  have "fold (\<lambda>c e. fold (console_putchar env) (encode_utf8 c) e) cs e = fold (console_putchar env) (concat (map encode_utf8 cs)) e"
    for cs :: "nat list" and e by (induction cs arbitrary: e) simp_all
  then have "kernel_write_str env s e = fold (console_putchar env) s e" if "utf8_valid s" for s e
    using that by (simp add: kernel_write_str_def decode_encode)
  with assms show ?thesis unfolding kernel_print_def by (induction pieces arbitrary: e) simp_all
qed

theorem console_prints_bytes_witness:
  "kernel_print (\<lambda>c out. (0, out @ [ec_arg0 c])) [[0xE4, 0xBD, 0xA0], [0x21]] [] = [0xE4, 0xBD, 0xA0, 0x21]"
proof -
  have "\<forall>piece \<in> set [[0xE4, 0xBD, 0xA0], [0x21]]. utf8_valid piece" by (simp add: utf8_cont_def)
  from console_prints_bytes [OF this, of "\<lambda>c out. (0, out @ [ec_arg0 c])" "[]"] show ?thesis
    by (simp add: console_putchar_def sbi_call_def)
qed

end
