(* ===== verification/Spec2Isabelle.thy ===== *)
theory Spec2Isabelle
  imports Kernel_Fs Fs_Typed Slab_Correct Memory_Setup Console
begin

text \<open>
  YeLi-OS: a RISC-V kernel, its file system, the tool that builds disk images and a user
  program, in Rust. This development models the Rust code of the repository, part by part,
  and proves what the parts promise each other.

  \<^bold>\<open>The program.\<close> \<open>kernel/src/lib.rs\<close> initialises memory (\<open>mem\<close>: a buddy allocator of page
  frames, slab caches on top of it as the global heap, Sv39 page tables made of heap pages),
  mounts the file system (crate \<open>fs\<close>: disk structures, block cache, inode cache, files,
  directories, paths) on the virtio block driver (\<open>drivers/virtio\<close>), creates the first process
  (\<open>proc\<close>) and turns on interrupts (\<open>intr\<close>). \<open>fs/src/bin/mkfs.rs\<close> runs the same file system code
  on a file of the host. \<open>syscall\<close> and \<open>user\<close> are the environment calls and a user program.

  \<^bold>\<open>Conventions\<close> (\<open>Prelude\<close>, \<open>Bytes\<close>, \<open>Address\<close>). A Rust function is a function that takes and
  returns the state it changes. \<open>'a result\<close> is a value or a fault: \<open>Panic\<close> (a failed assertion,
  index, \<open>unwrap\<close>), \<open>Hang\<close> (a spin lock taken twice, a loop that does not end) or \<open>Undefined\<close>
  (undefined behaviour). Errors the code returns are ordinary values. Addresses and register
  contents are 64-bit words and wrap. The \<open>usize\<close> arithmetic of the file system is on naturals
  with the wrap-around written out. Locks are flags of the state, so a second acquisition by
  the only thread is seen to hang; steps of other threads are not interleaved.

  \<^bold>\<open>The disk.\<close> \<open>Block_Dev\<close> has the structures of \<open>block_dev.rs\<close> with their bytes, and the bitmap
  allocator, an instance of the locale \<open>id_pool\<close>. \<open>Block_Cache\<close> is \<open>block_cache.rs\<close> over any
  device of the locale \<open>block_store\<close>. Its instances are \<open>Block_File\<close> (the host file of mkfs) and,
  through a sublocale, the virtio driver. The lemmas show that the cache is transparent: typed
  reads and writes act on the disk it presents, and dropping it writes everything back.

  \<^bold>\<open>Files.\<close> \<open>Dinode_Io\<close> is the block addressing and the copy loops of \<open>DInode\<close>, specified by the
  file as a list of bytes. \<open>Inode_Cache\<close>, \<open>File_System\<close> and \<open>Path\<close> are \<open>inode.rs\<close> and \<open>lib.rs\<close>.
  \<open>Fs_Alloc\<close> treats the layout and the allocation of blocks, \<open>Fs_File\<close> the growth of files with
  what it leaves alone, \<open>Fs_Rep\<close> the consistent disk as a map from inode numbers to disk inodes
  whose blocks are disjoint, with the effect of every step on it, \<open>Fs_Dir\<close> directories, \<open>Fs_Typed\<close>
  the well-formedness that every operation keeps on every device. \<open>Mkfs\<close> is the image builder.
  \<open>Fs_Format\<close> shows that formatting gives a consistent disk, \<open>Fs_Mount\<close> that a mounted file system
  stays one under its operations, and \<open>Mkfs_Correct\<close> that each file \<open>mkfs\<close> copied is found
  under its path in the image with its content.

  \<^bold>\<open>Memory.\<close> \<open>Buddy\<close> is \<open>buddy_allocator.rs\<close> with its lists threaded through memory,
  \<open>Buddy_Correct\<close> relates them to lists of page numbers, and \<open>Frames\<close> proves what clients of
  \<open>FrameAllocator\<close> rely on (locale \<open>frame_source\<close>). \<open>Slab\<close> is \<open>slab_allocator.rs\<close> and the global
  allocator; \<open>Slab_Rep\<close> and \<open>Heap_Rep\<close> describe headers, free objects and pages, \<open>Heap\<close> proves the
  contract of the heap (locale \<open>heap_source\<close>), \<open>Slab_Correct\<close> the run that breaks a cache.
  \<open>Page_Table\<close> is \<open>page_table.rs\<close>, \<open>kvm_make\<close> and \<open>init\<close>; \<open>Page_Walk\<close> and \<open>Address_Space\<close> relate a
  table to the translation of the processor for any allocator of the locale \<open>page_source\<close>,
  \<open>Kernel_Space\<close> gives the instance on the heap, and \<open>Memory_Setup\<close> states the results.

  \<^bold>\<open>Devices and control.\<close> \<open>Virtio\<close> is the driver over a device given by its behaviour;
  \<open>Virtio_Correct\<close> assumes of the device only that it serves the request in its queue (locales
  \<open>virtio_device\<close> and \<open>virtio_disk\<close>, with a device of the specification as instance). \<open>Proc\<close> is the
  task list, \<open>Trap\<close> the trap handlers, the timer and the interrupt controller, \<open>Once_Cell\<close> the
  write-once cell, \<open>Console\<close> the printing of the kernel and of user programs, \<open>Kernel\<close> the order
  of initialisation. \<open>Kernel_Fs\<close> puts image builder, driver, block cache and file system together:
  with an image of \<open>mkfs\<close> on the virtio disk, \<open>init_fs\<close> mounts it and prints \<open>/bin/hello\<close>.
  The last section of this theory follows \<open>init\<close> itself as far as it gets.

  \<^bold>\<open>Loops.\<close> Loops over data are recursive functions with a termination proof. The copy loops
  of inodes have fuel of one more than the length of the buffer, which suffices because every
  pass copies a byte. Walks along lists in memory, the loops of \<open>init\<close> and \<open>map\<close>, and the loop
  that prints a file are partial functions: not ending is \<open>Hang\<close>, and the properties prove that
  they end, or that they do not.

  \<^bold>\<open>Assumptions about other code.\<close> The device behind the virtio queue, the firmware behind
  \<open>ecall\<close>, the addresses of the linker, the answers of the interrupt controller, of the \<open>log\<close> crate
  and the cause of a trap are arguments. The device is asked only to serve chains of
  descriptors and headers of the form the virtio specification gives, said of their bits and
  bytes and not in terms of the driver. Formatting by \<open>core::fmt\<close> is its list of pieces.

  \<^bold>\<open>Not modelled.\<close> Assembly (\<open>entry.S\<close>, \<open>switch.S\<close>, \<open>trampoline.S\<close>, \<open>kernelvec.S\<close>, \<open>backtrace.rs\<close>)
  needs a processor model. Concurrency of several processors: the kernel uses one. What
  library containers take from the heap: the file system and the task list are values beside the
  heap, not in it. Text that is logged by other operations. The \<open>Display\<close> of page tables, which
  prints the debug form of a library's flags. \<open>calc_inodes_num\<close>, unused floating point.
  Volatile wrappers (\<open>drivers/mod.rs\<close>), tests and build files.
\<close>

section \<open>Starting the kernel\<close>

text \<open>The first process gets its page table; then the copy of its program reads too far.\<close>

lemma user_init_stops:
  assumes "pages_inv base n A P s" and "10 \<le> heap_pairs s"
  shows "user_init kernel_pages ret trampoline stack tf_addr task_list_new s = Inl Undefined"
proof -
  have frame: "unat TRAPFRAME = 0x3FFFFFE * 4096" by (simp add: memory_map_defs)
  have cost: "map_cost 1 = 4" by (simp add: map_cost_def)
  obtain pt t0 where new: "new_zeroed s = Inr (pt, t0)"
    using kp.new_fails [OF assms(1)] assms(2) by (cases "new_zeroed s") auto
  have new': "po_new_zeroed kernel_pages s = Inr (pt, t0)" using new by simp
  note sp = kp.new_space [OF assms(1) new'] and a0 = kp.new_page [OF assms(1) new']
  obtain P1 t1 where m1: "map_range kernel_pages pt TRAMPOLINE trampoline PAGE_SIZE (PTE_R OR PTE_X) t0 = Inr t1"
    "kp.space_in base n A P1 pt (space_map 0x3FFFFFF 1 (pg_round_down trampoline PAGE_SIZE) (PTE_R OR PTE_X) (\<lambda>_. None)) t1"
    "heap_pairs t0 \<le> heap_pairs t1 + map_cost 1"
    by (rule map_pages_ok [OF sp(1) memory_map_values(3) _ _ _ _ _ refl, of PAGE_SIZE 1]) (use a0 assms(2) cost in auto)
  obtain P2 t2 m2 where m2: "map_range kernel_pages pt TRAPFRAME tf_addr PAGE_SIZE (PTE_R OR PTE_W) t1 = Inr t2"
    "kp.space_in base n A P2 pt m2 t2" "heap_pairs t1 \<le> heap_pairs t2 + map_cost 1"
    by (rule map_pages_ok [OF m1(2) frame _ _ _ _ _ refl, of PAGE_SIZE 1]) (use a0 assms(2) cost m1(3) in \<open>auto simp: space_map_def\<close>)
  have "pages_inv base n A P2 t2" using kp.space_root [OF m2(2)] by simp
  moreover have "heap_pairs t2 \<noteq> 0" using a0 assms(2) cost m1(3) m2(3) by simp
  ultimately obtain page t3 where "new_zeroed t2 = Inr (page, t3)"
    using kp.new_fails [of base n A P2 t2] by (cases "new_zeroed t2") auto
  then show ?thesis using new m1(1) m2(1)
    by (simp add: user_init_def new_task_def task_list_new_def alloc_pid_def MAX_PROC_def Let_def init_user_page_table_def user_vm_init_short)
qed

text \<open>
  C32: How far the kernel starts. Let the linker put \<open>etext\<close> on a page boundary and leave 4 MiB
  after the kernel, let no logger be set, and let the virtio disk hold an image that \<open>mkfs\<close>
  built from at most 14 files of at most 28 blocks each, \<open>hello\<close> among them. Then \<open>init\<close> sets up
  memory, mounts the file system, prints \<open>/bin/hello\<close>, and creates process 0 with its page table,
  without a panic and without a hang, and stops in \<open>user_vm_init\<close>: the copy of a whole page out of
  the 52 bytes of \<open>INITCODE\<close> reads out of bounds, and what follows is undefined.
\<close>

theorem boot_stops_in_user_init:
  assumes "slab_allocator_new = Inr caches" and "unat (ba_etext addrs) mod 4096 = 0" and "KERNEL_BASE < ba_etext addrs" and "ba_etext addrs < MEM_END"
    and "0 < unat (ba_end addrs)" and "unat (ba_end addrs) + 0x400000 \<le> unat MEM_END" and "m_tasks m = task_list_new"
    and "files_ok files" and "length files \<le> 14" and "(hello_name, content) \<in> set files" and "mkfs_main files img = Inr img'"
    and "virtio_disk dev 32768 disk header status buf" and "disk h = bf_data img'"
    and "virtio_init read_reg 32768 desc avail used = Inr (Inr vb, ws)"
  shows "kernel_init (Inr ()) addrs read_reg 32768 desc avail used dev header status buf gm h once_cell_new (caches, buddy_new, mem) m = Inl Undefined \<and>
    (\<exists>satp s root_fs. mem_init (ba_end addrs) (ba_etext addrs) (ba_trampoline addrs) (caches, buddy_new, mem) = Inr (satp, s) \<and>
      kernel_init_fs read_reg 32768 desc avail used dev header status buf gm h once_cell_new = Inr (dump_chunks content, root_fs) \<and>
      user_init kernel_pages (ba_usertrapret addrs) (ba_trampoline addrs) (ba_stack addrs) (ba_trap_frame addrs) task_list_new s = Inl Undefined)"
proof -
  from mem_init_run [OF assms(1-6), of "ba_trampoline addrs" mem] obtain pt s A P n where
    r: "mem_init (ba_end addrs) (ba_etext addrs) (ba_trampoline addrs) (caches, buddy_new, mem) = Inr (make_satp pt, s)"
      "kp.space_in (region_start (ba_end addrs) * 4096) n A P pt (kernel_space (ba_etext addrs) (ba_trampoline addrs)) s" "300 \<le> heap_pairs s"
    by (elim exE conjE) (rule that; assumption)
  have u: "user_init kernel_pages (ba_usertrapret addrs) (ba_trampoline addrs) (ba_stack addrs) (ba_trap_frame addrs) task_list_new s = Inl Undefined"
    using kp.space_root [OF r(2)] r(3) by (intro user_init_stops) auto
  from init_fs_run [OF assms(8-14), of gm] obtain root_fs where
    f: "kernel_init_fs read_reg 32768 desc avail used dev header status buf gm h once_cell_new = Inr (dump_chunks content, root_fs)" by blast
  from r(1) u f assms(7) show ?thesis by (simp add: kernel_init_def)
qed

theorem boot_stops_in_user_init_witness:
  "\<exists>caches img'. slab_allocator_new = Inr caches \<and> mkfs_main [(hello_name, [1, 2, 3])] \<lparr>bf_data = [], bf_pos = 0\<rparr> = Inr img' \<and>
    kernel_init (Inr ()) \<lparr>ba_end = 0x80300000, ba_etext = 0x80210000, ba_trampoline = 0x80205000, ba_usertrapret = 0x80206000,
        ba_kernelvec = 0x80207000, ba_stack = 0x87000000, ba_trap_frame = 0x87002010\<rparr>
      demo_regs 32768 0x80500000 0x80500100 0x80500200 spec_device 0x80400000 0x80400010 0x80401000 (\<lambda>_. 0) (bf_data img')
      once_cell_new (caches, buddy_new, \<lambda>_. 0) (demo_machine\<lparr>m_tasks := task_list_new\<rparr>) = Inl Undefined"
proof -
  let ?files = "[(hello_name, [1, 2, 3 :: u8])]" let ?img = "\<lparr>bf_data = [], bf_pos = 0\<rparr>"
  let ?a = "\<lparr>ba_end = 0x80300000, ba_etext = 0x80210000, ba_trampoline = 0x80205000, ba_usertrapret = 0x80206000,
        ba_kernelvec = 0x80207000, ba_stack = 0x87000000, ba_trap_frame = 0x87002010\<rparr>"
  obtain caches where c: "slab_allocator_new = Inr caches" unfolding caches_new_eq by blast
  have ok: "files_ok ?files" "length ?files \<le> 14" "(hello_name, [1, 2, 3]) \<in> set ?files"
    by (simp_all add: files_ok_def name_ok_def hello_name_def DIR_NAME_SIZE_def N_DIRECT_def BLOCK_SIZE_def utf8_valid.simps)
  obtain img' where img': "mkfs_main ?files ?img = Inr img'" using mkfs_gives_image [OF ok(1,2), of ?img] by blast
  obtain vb ws where i: "virtio_init demo_regs 32768 0x80500000 0x80500100 0x80500200 = Inr (Inr vb, ws)"
    by (simp add: virtio_init_def demo_regs_def DEVICE_TYPE_BLOCK_def Let_def)
  have a: "unat (ba_etext ?a) mod 4096 = 0" "KERNEL_BASE < ba_etext ?a" "ba_etext ?a < MEM_END" "0 < unat (ba_end ?a)"
    "unat (ba_end ?a) + 0x400000 \<le> unat MEM_END" "m_tasks (demo_machine\<lparr>m_tasks := task_list_new\<rparr>) = task_list_new"
    by (simp_all add: memory_map_defs)
  from boot_stops_in_user_init [OF c a ok img' sdev.virtio_disk_axioms refl i] c img' show ?thesis by blast
qed

end
